(* ===== verification/Prelude.thy ===== *)
theory Prelude
  imports Main "HOL-Library.Word" "HOL-Library.Monad_Syntax" "HOL-Library.Sublist"
    "HOL-Library.Multiset"
begin

text \<open>
  Shared ground of the development: the machine types of the C++ sources, the memory
  primitives through which every component touches its buffers (a copy or a read outside
  an array is the value \<open>None\<close>, so that a proof of \<open>Some\<close> is a proof of memory safety), the
  little-endian object representation of integers, and the collections of rewrite rules
  the component theories add to.
\<close>

unbundle bit_operations_syntax

section \<open>Machine types and hint collections\<close>

type_synonym u8 = "8 word"
type_synonym u16 = "16 word"
type_synonym u32 = "32 word"
type_synonym u64 = "64 word"
type_synonym bytes = "8 word list"

named_theorems mem_simps \<open>reads and copies inside an array\<close>
named_theorems pkt_simps \<open>packet operations on well-formed packets\<close>
named_theorems ring_simps \<open>ring buffer operations in terms of the stored sequence\<close>
named_theorems ctl_simps \<open>the packed session control word\<close>

section \<open>Memory primitives\<close>

text \<open>
  \<open>memread src off n\<close> are the \<open>n\<close> elements at \<open>src + off\<close>; \<open>memcpy dst off xs\<close> is the array
  \<open>dst\<close> after the elements \<open>xs\<close> were copied to \<open>dst + off\<close>.
\<close>

definition memread :: "'a list \<Rightarrow> int \<Rightarrow> int \<Rightarrow> 'a list option" where
  "memread src off n =
     (if 0 \<le> off \<and> 0 \<le> n \<and> off + n \<le> int (length src)
      then Some (take (nat n) (drop (nat off) src)) else None)"

definition memcpy :: "'a list \<Rightarrow> int \<Rightarrow> 'a list \<Rightarrow> 'a list option" where
  "memcpy dst off xs =
     (if 0 \<le> off \<and> off + int (length xs) \<le> int (length dst)
      then Some (take (nat off) dst @ xs @ drop (nat off + length xs) dst) else None)"

definition overwrite :: "'a list \<Rightarrow> nat \<Rightarrow> 'a list \<Rightarrow> 'a list" where
  "overwrite dst off xs = take off dst @ xs @ drop (off + length xs) dst"

lemma memread_Some [mem_simps]:
  "0 \<le> off \<Longrightarrow> 0 \<le> n \<Longrightarrow> off + n \<le> int (length src) \<Longrightarrow>
   memread src off n = Some (take (nat n) (drop (nat off) src))"
  by (simp add: memread_def)

lemma memread_length:
  "memread src off n = Some xs \<Longrightarrow> int (length xs) = n"
  by (auto simp: memread_def split: if_splits)

lemma memcpy_Some [mem_simps]:
  "0 \<le> off \<Longrightarrow> off + int (length xs) \<le> int (length dst) \<Longrightarrow>
   memcpy dst off xs = Some (overwrite dst (nat off) xs)"
  by (simp add: memcpy_def overwrite_def)

lemma memcpy_length:
  "memcpy dst off xs = Some d \<Longrightarrow> length d = length dst"
  by (auto simp: memcpy_def split: if_splits)

lemma length_overwrite [simp]:
  "off + length xs \<le> length dst \<Longrightarrow> length (overwrite dst off xs) = length dst"
  by (simp add: overwrite_def)

lemma overwrite_Nil [simp]: "overwrite dst off [] = dst"
  by (simp add: overwrite_def)

lemma nth_overwrite:
  assumes "off + length xs \<le> length dst" and "i < length dst"
  shows "overwrite dst off xs ! i =
           (if off \<le> i \<and> i < off + length xs then xs ! (i - off) else dst ! i)"
  using assms by (auto simp: overwrite_def nth_append min_def)

lemma take_overwrite_end:
  "n = off + length xs \<Longrightarrow> off \<le> length dst \<Longrightarrow>
   take n (overwrite dst off xs) = take off dst @ xs"
  by (simp add: overwrite_def)

lemma take_overwrite_before:
  "n \<le> off \<Longrightarrow> off \<le> length dst \<Longrightarrow> take n (overwrite dst off xs) = take n dst"
  by (simp add: overwrite_def min_def)

lemma overwrite_append:
  assumes "off + length xs + length ys \<le> length dst"
  shows "overwrite (overwrite dst off xs) (off + length xs) ys = overwrite dst off (xs @ ys)"
  using assms by (cases xs) (auto simp: overwrite_def min_def ac_simps)

section \<open>Little-endian object representation\<close>

text \<open>
  \<open>le_bytes n w\<close> are the \<open>n\<close> bytes in which an x64 machine stores the integer \<open>w\<close>;
  \<open>le_word\<close> reads them back. \<open>memcpy\<close> of a scalar in and out of a buffer is their use.
\<close>

definition le_bytes :: "nat \<Rightarrow> 'a::len word \<Rightarrow> bytes" where
  "le_bytes n w = map (\<lambda>i. ucast (drop_bit (8 * i) w)) [0..<n]"

fun le_word :: "bytes \<Rightarrow> 'a::len word" where
  "le_word [] = 0"
| "le_word (b # bs) = (ucast b OR push_bit 8 (le_word bs))"

lemma length_le_bytes [simp]: "length (le_bytes n w) = n"
  by (simp add: le_bytes_def)

lemma bit_le_word:
  "bit (le_word bs :: 'a::len word) i \<longleftrightarrow>
     i < LENGTH('a) \<and> i div 8 < length bs \<and> bit (bs ! (i div 8)) (i mod 8)"
proof (induction bs arbitrary: i)
  case Nil
  then show ?case by simp
next
  case (Cons b bs)
  show ?case
  proof (cases "i < 8")
    case True
    then show ?thesis
      by (auto simp: bit_or_iff bit_push_bit_iff bit_ucast_iff)
  next
    case False
    then obtain j where j: "i = j + 8" by (metis le_add_diff_inverse2 not_less)
    have "\<not> bit b i" using j by (auto dest: bit_imp_le_length)
    moreover have "(j + 8) div 8 = Suc (j div 8)" by simp
    ultimately show ?thesis
      using j by (auto simp: bit_or_iff bit_push_bit_iff bit_ucast_iff Cons.IH)
  qed
qed

lemma le_word_le_bytes [simp]:
  assumes "LENGTH('a::len) = 8 * n"
  shows "le_word (le_bytes n (w :: 'a word)) = w"
proof (rule bit_word_eqI)
  fix i assume i: "i < LENGTH('a)"
  with assms have "i div 8 < n" by simp
  then have nth: "le_bytes n w ! (i div 8) = (ucast (drop_bit (8 * (i div 8)) w) :: u8)"
    by (simp add: le_bytes_def)
  have "8 * (i div 8) + i mod 8 = i" by simp
  then show "bit (le_word (le_bytes n w) :: 'a word) i = bit w i"
    using i \<open>i div 8 < n\<close>
    by (simp add: bit_le_word nth bit_ucast_iff bit_drop_bit_eq)
qed

section \<open>C arithmetic\<close>

text \<open>A conversion of a signed quantity to \<open>size_t\<close>.\<close>

definition to_size_t :: "int \<Rightarrow> int" where
  "to_size_t i = i mod 2 ^ 64"

lemma to_size_t_small [simp]: "0 \<le> i \<Longrightarrow> i < 2 ^ 64 \<Longrightarrow> to_size_t i = i"
  by (simp add: to_size_t_def)

end
