(* ===== verification/Encryption.thy ===== *)
theory Encryption
  imports Prelude
begin

text \<open>
  NetLib/Encryption.h: the additive checksum of a payload and the two chained in-place
  XOR transformations \<open>Encode\<close> and \<open>Decode\<close>. The loops are recursions over the bytes of the
  buffer that carry the loop's locals (\<open>rk\<close>, \<open>k\<close>, \<open>currentP\<close>, \<open>currentE\<close>); arithmetic on
  \<open>unsigned char\<close> wraps, as \<open>8 word\<close> does.
\<close>

definition PACKET_CODE :: u8 where "PACKET_CODE = 0x77"
definition PACKET_KEY :: u8 where "PACKET_KEY = 0x32"

fun CalculateCheckSum_loop :: "u8 \<Rightarrow> bytes \<Rightarrow> u8" where
  "CalculateCheckSum_loop checkSum [] = checkSum"
| "CalculateCheckSum_loop checkSum (b # bs) = CalculateCheckSum_loop (checkSum + b) bs"

definition CalculateCheckSum :: "bytes \<Rightarrow> u8" where
  "CalculateCheckSum pPayload = CalculateCheckSum_loop 0 pPayload"

fun Encode_loop :: "u8 \<Rightarrow> u8 \<Rightarrow> u8 \<Rightarrow> u8 \<Rightarrow> bytes \<Rightarrow> bytes" where
  "Encode_loop rk k currentP currentE [] = []"
| "Encode_loop rk k currentP currentE (raw # rest) =
     (let rk' = rk + 1; k' = k + 1;
          currentP' = raw XOR (currentP + rk');
          currentE' = currentP' XOR (currentE + k')
      in currentE' # Encode_loop rk' k' currentP' currentE' rest)"

definition Encode :: "u8 \<Rightarrow> bytes \<Rightarrow> bytes" where
  "Encode dynamicKey pData = Encode_loop dynamicKey PACKET_KEY 0 0 pData"

fun Decode_loop :: "u8 \<Rightarrow> u8 \<Rightarrow> u8 \<Rightarrow> u8 \<Rightarrow> bytes \<Rightarrow> bytes" where
  "Decode_loop rk k currentP currentE [] = []"
| "Decode_loop rk k currentP currentE (encrypted # rest) =
     (let rk' = rk + 1; k' = k + 1;
          newP = encrypted XOR (currentE + k');
          raw = newP XOR (currentP + rk')
      in raw # Decode_loop rk' k' newP encrypted rest)"

definition Decode :: "u8 \<Rightarrow> bytes \<Rightarrow> bytes" where
  "Decode dynamicKey pData = Decode_loop dynamicKey PACKET_KEY 0 0 pData"

section \<open>Checksum\<close>

lemma CalculateCheckSum_loop_sum: "CalculateCheckSum_loop c bs = c + sum_list bs"
  by (induction bs arbitrary: c) (simp_all add: add.assoc)

lemma CalculateCheckSum_sum: "CalculateCheckSum bs = sum_list bs"
  by (simp add: CalculateCheckSum_def CalculateCheckSum_loop_sum)

lemma CalculateCheckSum_append:
  "CalculateCheckSum (xs @ ys) = CalculateCheckSum xs + CalculateCheckSum ys"
  by (simp add: CalculateCheckSum_sum)

section \<open>The cipher is a bijection on buffers of each length\<close>

lemma length_Encode_loop [simp]: "length (Encode_loop rk k p e bs) = length bs"
  by (induction bs arbitrary: rk k p e) (simp_all add: Let_def)

lemma length_Decode_loop [simp]: "length (Decode_loop rk k p e bs) = length bs"
  by (induction bs arbitrary: rk k p e) (simp_all add: Let_def)

lemma length_Encode [simp]: "length (Encode key bs) = length bs"
  by (simp add: Encode_def)

lemma length_Decode [simp]: "length (Decode key bs) = length bs"
  by (simp add: Decode_def)

lemma xor_cancel_right: "(a XOR b) XOR b = (a :: 'a::len word)"
  by (simp add: xor.assoc)

lemma Decode_Encode_loop: "Decode_loop rk k p e (Encode_loop rk k p e bs) = bs"
  by (induction bs arbitrary: rk k p e) (simp_all add: Let_def xor_cancel_right)

lemma Encode_Decode_loop: "Encode_loop rk k p e (Decode_loop rk k p e bs) = bs"
  by (induction bs arbitrary: rk k p e) (simp_all add: Let_def xor_cancel_right)

lemma Decode_Encode: "Decode key (Encode key bs) = bs"
  by (simp add: Decode_def Encode_def Decode_Encode_loop)

lemma Encode_Decode: "Encode key (Decode key bs) = bs"
  by (simp add: Decode_def Encode_def Encode_Decode_loop)

section \<open>Propagation of a damaged byte\<close>

text \<open>
  Decoding synchronises: the plain byte at position \<open>i + 2\<close> depends on the cipher bytes at
  \<open>i\<close>, \<open>i + 1\<close> and \<open>i + 2\<close> only, whatever came before.
\<close>

lemma Decode_loop_nth:
  "i < length bs \<Longrightarrow>
   Decode_loop rk k p e bs ! i =
     (bs ! i XOR ((if i = 0 then e else bs ! (i - 1)) + (k + of_nat i + 1)))
     XOR ((if i = 0 then p
           else bs ! (i - 1) XOR ((if i = 1 then e else bs ! (i - 2)) + (k + of_nat i)))
          + (rk + of_nat i + 1))"
proof (induction bs arbitrary: rk k p e i)
  case Nil
  then show ?case by simp
next
  case (Cons b bs)
  show ?case
  proof (cases i)
    case 0
    then show ?thesis by (simp add: Let_def)
  next
    case (Suc j)
    with Cons.prems have j: "j < length bs" by simp
    show ?thesis
      using Suc Cons.IH [OF j, of "rk + 1" "k + 1" "b XOR (e + (k + 1))" b]
      by (cases j) (simp_all add: Let_def algebra_simps)
  qed
qed

end
