(* ===== verification/Packets.thy ===== *)
theory Packets
  imports Encryption
begin

text \<open>
  NetLib/Packet.h: the pooled packet buffer. A packet is the record of its fields; the
  array \<open>mStorage\<close> has the length \<open>BUFFER_DEFAULT\<close> of the server (2048 in the chat and login
  servers, 512 in the group server), so \<open>capacity p\<close> stands for that constant. A failing
  \<open>assert\<close> is the early return of the release build. Every operation that copies memory has
  an \<open>option\<close> result: \<open>None\<close> is a copy outside the array. The integer overloads of
  \<open>operator<<\<close> and \<open>operator>>\<close> are \<open>shl_bytes\<close> and \<open>shr_bytes\<close> on the little-endian object
  representation of the value.
\<close>

record packet =
  mSessionID :: u64
  mStorage :: bytes
  mDataSize :: int
  mReadPos :: int
  mRefCnt :: int
  mIsEncoding :: bool

definition capacity :: "packet \<Rightarrow> int" where
  "capacity p = int (length (mStorage p))"

definition new_Packet :: "nat \<Rightarrow> packet" where
  "new_Packet bufferDefault =
     \<lparr>mSessionID = 0, mStorage = replicate bufferDefault 0, mDataSize = 0, mReadPos = 0,
      mRefCnt = 0, mIsEncoding = False\<rparr>"

definition Packet_Clear :: "packet \<Rightarrow> packet" where
  "Packet_Clear p = p\<lparr>mDataSize := 0, mReadPos := 0, mSessionID := 0, mIsEncoding := False\<rparr>"

definition Packet_Init :: "packet \<Rightarrow> packet" where
  "Packet_Init p = (Packet_Clear p)\<lparr>mRefCnt := 1\<rparr>"

definition SetDataSize :: "packet \<Rightarrow> int \<Rightarrow> packet" where
  "SetDataSize p dataSize =
     (if dataSize < 0 \<or> dataSize > capacity p then p else p\<lparr>mDataSize := dataSize\<rparr>)"

definition SetReadPos :: "packet \<Rightarrow> int \<Rightarrow> packet" where
  "SetReadPos p readPos =
     (if readPos < 0 \<or> readPos > mDataSize p then p else p\<lparr>mReadPos := readPos\<rparr>)"

definition MoveReadPos :: "packet \<Rightarrow> int \<Rightarrow> packet" where
  "MoveReadPos p sz =
     (if mReadPos p + sz < 0 \<or> mReadPos p + sz > mDataSize p then p
      else p\<lparr>mReadPos := mReadPos p + sz\<rparr>)"

definition AddRef :: "packet \<Rightarrow> packet" where
  "AddRef p = p\<lparr>mRefCnt := mRefCnt p + 1\<rparr>"

text \<open>\<open>SubRef\<close>: the new count, and whether the packet goes back to the pool.\<close>

definition SubRef :: "packet \<Rightarrow> packet \<times> int \<times> bool" where
  "SubRef p = (let prevCnt = mRefCnt p; cnt = prevCnt - 1
               in (p\<lparr>mRefCnt := cnt\<rparr>, cnt, cnt = 0))"

definition shl_bytes :: "packet \<Rightarrow> bytes \<Rightarrow> packet option" where
  "shl_bytes p value =
     (if to_size_t (to_size_t (mDataSize p) + int (length value)) > capacity p then Some p
      else do {
        st \<leftarrow> memcpy (mStorage p) (mDataSize p) value;
        Some (p\<lparr>mStorage := st, mDataSize := mDataSize p + int (length value)\<rparr>)
      })"

text \<open>
  \<open>operator>>\<close> into a variable of \<open>n\<close> bytes: the bytes read, or none on an underflow, where
  the variable keeps its old (possibly indeterminate) value.
\<close>

definition shr_bytes :: "packet \<Rightarrow> nat \<Rightarrow> (packet \<times> bytes option) option" where
  "shr_bytes p n =
     (if to_size_t (mReadPos p + int n) > to_size_t (mDataSize p) then Some (p, None)
      else do {
        v \<leftarrow> memread (mStorage p) (mReadPos p) (int n);
        Some (p\<lparr>mReadPos := mReadPos p + int n\<rparr>, Some v)
      })"

definition GetData :: "packet \<Rightarrow> int \<Rightarrow> (packet \<times> bytes) option" where
  "GetData p sz =
     (if mReadPos p + sz > mDataSize p then
        (let copySize = mDataSize p - mReadPos p in
         if copySize \<le> 0 then Some (p, [])
         else do {
           v \<leftarrow> memread (mStorage p) (mReadPos p) copySize;
           Some (p\<lparr>mReadPos := mReadPos p + copySize\<rparr>, v)
         })
      else do {
        v \<leftarrow> memread (mStorage p) (mReadPos p) sz;
        Some (p\<lparr>mReadPos := mReadPos p + sz\<rparr>, v)
      })"

definition PutData :: "packet \<Rightarrow> bytes \<Rightarrow> (packet \<times> int) option" where
  "PutData p src =
     (let sz = int (length src) in
      if mDataSize p + sz > capacity p then
        (let copySize = capacity p - mDataSize p in
         if copySize \<le> 0 then Some (p, 0)
         else do {
           chunk \<leftarrow> memread src 0 copySize;
           st \<leftarrow> memcpy (mStorage p) (mDataSize p) chunk;
           Some (p\<lparr>mStorage := st, mDataSize := mDataSize p + copySize\<rparr>, copySize)
         })
      else do {
        st \<leftarrow> memcpy (mStorage p) (mDataSize p) src;
        Some (p\<lparr>mStorage := st, mDataSize := mDataSize p + sz\<rparr>, sz)
      })"

section \<open>Well-formedness and the two views of a packet\<close>

definition packet_ok :: "packet \<Rightarrow> bool" where
  "packet_ok p \<longleftrightarrow>
     0 \<le> mReadPos p \<and> mReadPos p \<le> mDataSize p \<and> mDataSize p \<le> capacity p \<and> capacity p < 2 ^ 31"

text \<open>\<open>written p\<close>: everything put in so far; \<open>unread p\<close>: what is still to be read.\<close>

definition written :: "packet \<Rightarrow> bytes" where
  "written p = take (nat (mDataSize p)) (mStorage p)"

definition unread :: "packet \<Rightarrow> bytes" where
  "unread p = drop (nat (mReadPos p)) (written p)"

lemma packet_okD [dest]:
  assumes "packet_ok p"
  shows "0 \<le> mReadPos p" "mReadPos p \<le> mDataSize p" "0 \<le> mDataSize p"
    "mDataSize p \<le> capacity p" "capacity p < 2 ^ 31" "mDataSize p \<le> int (length (mStorage p))"
  using assms by (auto simp: packet_ok_def capacity_def)

lemma length_written: "packet_ok p \<Longrightarrow> int (length (written p)) = mDataSize p"
  by (auto simp: written_def packet_ok_def capacity_def)

lemma length_unread: "packet_ok p \<Longrightarrow> int (length (unread p)) = mDataSize p - mReadPos p"
  by (auto simp: unread_def written_def packet_ok_def capacity_def)

lemma capacity_simps [simp]:
  "capacity (p\<lparr>mDataSize := d\<rparr>) = capacity p"
  "capacity (p\<lparr>mReadPos := r\<rparr>) = capacity p"
  "capacity (p\<lparr>mRefCnt := n\<rparr>) = capacity p"
  "capacity (p\<lparr>mIsEncoding := e\<rparr>) = capacity p"
  "capacity (p\<lparr>mSessionID := s\<rparr>) = capacity p"
  "capacity (Packet_Clear p) = capacity p"
  "capacity (Packet_Init p) = capacity p"
  "capacity (AddRef p) = capacity p"
  by (simp_all add: capacity_def Packet_Clear_def Packet_Init_def AddRef_def)

lemma Packet_Init_ok:
  "capacity p < 2 ^ 31 \<Longrightarrow> packet_ok (Packet_Init p)"
  by (auto simp: packet_ok_def Packet_Init_def Packet_Clear_def capacity_def)

lemma Packet_Init_fields [pkt_simps]:
  "mDataSize (Packet_Init p) = 0" "mReadPos (Packet_Init p) = 0" "mRefCnt (Packet_Init p) = 1"
  "mSessionID (Packet_Init p) = 0" "mIsEncoding (Packet_Init p) = False"
  "mStorage (Packet_Init p) = mStorage p" "written (Packet_Init p) = []"
  by (simp_all add: Packet_Init_def Packet_Clear_def written_def)

lemma AddRef_simps [pkt_simps]:
  "written (AddRef p) = written p" "mDataSize (AddRef p) = mDataSize p"
  "mStorage (AddRef p) = mStorage p" "packet_ok (AddRef p) = packet_ok p"
  "mIsEncoding (AddRef p) = mIsEncoding p"
  by (simp_all add: AddRef_def written_def packet_ok_def capacity_def)

section \<open>Operations on well-formed packets\<close>

text \<open>\<open>append_bytes p bs\<close> is the effect of a write that fits.\<close>

definition append_bytes :: "packet \<Rightarrow> bytes \<Rightarrow> packet" where
  "append_bytes p bs = p\<lparr>mStorage := overwrite (mStorage p) (nat (mDataSize p)) bs,
                         mDataSize := mDataSize p + int (length bs)\<rparr>"

definition fits :: "packet \<Rightarrow> nat \<Rightarrow> bool" where
  "fits p n \<longleftrightarrow> mDataSize p + int n \<le> capacity p"

lemma append_bytes_ok:
  assumes "packet_ok p" and "fits p (length bs)"
  shows "packet_ok (append_bytes p bs)" "capacity (append_bytes p bs) = capacity p"
    "written (append_bytes p bs) = written p @ bs" "unread (append_bytes p bs) = unread p @ bs"
    "mDataSize (append_bytes p bs) = mDataSize p + int (length bs)"
    "mReadPos (append_bytes p bs) = mReadPos p" "mRefCnt (append_bytes p bs) = mRefCnt p"
    "mSessionID (append_bytes p bs) = mSessionID p" "mIsEncoding (append_bytes p bs) = mIsEncoding p"
proof -
  from assms have d: "0 \<le> mDataSize p" "nat (mDataSize p) + length bs \<le> length (mStorage p)"
    "nat (mReadPos p) \<le> nat (mDataSize p)"
    by (auto simp: packet_ok_def fits_def capacity_def)
  show cap: "capacity (append_bytes p bs) = capacity p"
    using d by (simp add: append_bytes_def capacity_def)
  show "packet_ok (append_bytes p bs)"
    using assms cap by (auto simp: packet_ok_def fits_def append_bytes_def)
  show w: "written (append_bytes p bs) = written p @ bs"
    using d by (simp add: append_bytes_def written_def nat_add_distrib take_overwrite_end)
  show "unread (append_bytes p bs) = unread p @ bs"
    using d unfolding unread_def w by (simp add: append_bytes_def written_def)
qed (simp_all add: append_bytes_def)

lemma shl_bytes_fits [pkt_simps]:
  assumes "packet_ok p" and "fits p (length bs)"
  shows "shl_bytes p bs = Some (append_bytes p bs)"
proof -
  from assms have "0 \<le> mDataSize p" "mDataSize p + int (length bs) \<le> capacity p"
    "capacity p < 2 ^ 31" by (auto simp: packet_ok_def fits_def)
  then show ?thesis
    by (simp add: shl_bytes_def append_bytes_def mem_simps capacity_def)
qed

lemma shl_bytes_full:
  assumes "packet_ok p" and "\<not> fits p (length bs)" and "length bs < 2 ^ 31"
  shows "shl_bytes p bs = Some p"
proof -
  from assms have "0 \<le> mDataSize p" "mDataSize p < 2 ^ 31"
    "mDataSize p + int (length bs) > capacity p"
    by (auto simp: packet_ok_def fits_def)
  moreover have "int (length bs) < 2 ^ 31" using assms(3) by simp
  ultimately show ?thesis by (simp add: shl_bytes_def)
qed

lemma PutData_fits [pkt_simps]:
  assumes "packet_ok p" and "fits p (length bs)"
  shows "PutData p bs = Some (append_bytes p bs, int (length bs))"
  using assms by (auto simp: PutData_def fits_def append_bytes_def mem_simps packet_ok_def capacity_def Let_def)

text \<open>\<open>PutData\<close> without room writes what fits.\<close>

lemma PutData_truncates:
  assumes "packet_ok p" and "\<not> fits p (length bs)"
  shows "PutData p bs =
           Some (append_bytes p (take (nat (capacity p - mDataSize p)) bs), capacity p - mDataSize p)"
proof -
  let ?n = "capacity p - mDataSize p"
  from assms have d: "0 \<le> mDataSize p" "0 \<le> ?n" "?n < int (length bs)"
    "capacity p = int (length (mStorage p))"
    by (auto simp: packet_ok_def fits_def capacity_def)
  show ?thesis
  proof (cases "?n = 0")
    case True
    with d assms(2) show ?thesis
      by (auto simp: PutData_def fits_def append_bytes_def)
  next
    case False
    with d have "memcpy (mStorage p) (mDataSize p) (take (nat ?n) bs) =
        Some (overwrite (mStorage p) (nat (mDataSize p)) (take (nat ?n) bs))"
      by (intro memcpy_Some) auto
    with d False assms(2) show ?thesis
      by (auto simp: PutData_def fits_def append_bytes_def mem_simps Let_def min_def)
  qed
qed

text \<open>\<open>advance p n\<close>: \<open>n\<close> bytes were consumed.\<close>

definition advance :: "packet \<Rightarrow> nat \<Rightarrow> packet" where
  "advance p n = p\<lparr>mReadPos := mReadPos p + int n\<rparr>"

lemma advance_simps:
  assumes "packet_ok p" and "n \<le> length (unread p)"
  shows "packet_ok (advance p n)" "written (advance p n) = written p"
    "unread (advance p n) = drop n (unread p)" "mDataSize (advance p n) = mDataSize p"
    "capacity (advance p n) = capacity p"
proof -
  have "int n \<le> mDataSize p - mReadPos p"
    using assms length_unread [OF assms(1)] by linarith
  then show "packet_ok (advance p n)" using assms(1) by (auto simp: packet_ok_def advance_def)
  show "written (advance p n) = written p" by (simp add: advance_def written_def)
  then show "unread (advance p n) = drop n (unread p)"
    using assms(1) by (auto simp: unread_def advance_def packet_ok_def nat_add_distrib add.commute)
qed (simp_all add: advance_def)

lemma take_unread:
  assumes "packet_ok p" and "n \<le> length (unread p)"
  shows "memread (mStorage p) (mReadPos p) (int n) = Some (take n (unread p))"
proof -
  have n: "int n \<le> mDataSize p - mReadPos p"
    using assms length_unread [OF assms(1)] by linarith
  have "take n (drop (nat (mReadPos p)) (mStorage p)) = take n (unread p)"
    using n assms(1) by (auto simp: unread_def written_def drop_take min_def packet_ok_def)
  then show ?thesis using assms(1) n by (auto simp: memread_def packet_ok_def capacity_def)
qed

lemma shr_bytes_read [pkt_simps]:
  assumes "packet_ok p" and "n \<le> length (unread p)"
  shows "shr_bytes p n = Some (advance p n, Some (take n (unread p)))"
proof -
  have "int n \<le> mDataSize p - mReadPos p"
    using assms length_unread [OF assms(1)] by linarith
  then have "to_size_t (mReadPos p + int n) \<le> to_size_t (mDataSize p)"
    using assms(1) by (auto simp: packet_ok_def)
  then show ?thesis
    by (simp add: shr_bytes_def take_unread [OF assms] advance_def)
qed

lemma shr_bytes_underflow:
  assumes "packet_ok p" and "length (unread p) < n" and "n < 2 ^ 31"
  shows "shr_bytes p n = Some (p, None)"
proof -
  have "mDataSize p < mReadPos p + int n"
    using assms length_unread [OF assms(1)] by linarith
  moreover have "int n < 2 ^ 31" using assms(3) by simp
  ultimately show ?thesis using assms(1) by (auto simp: shr_bytes_def packet_ok_def)
qed

lemma GetData_read [pkt_simps]:
  assumes "packet_ok p" and "n \<le> length (unread p)"
  shows "GetData p (int n) = Some (advance p n, take n (unread p))"
  using assms length_unread [OF assms(1)]
  by (auto simp: GetData_def take_unread advance_def)

text \<open>\<open>GetData\<close> past the end returns what is left.\<close>

lemma GetData_short:
  assumes "packet_ok p" and "length (unread p) < n"
  shows "GetData p (int n) = Some (advance p (length (unread p)), unread p)"
proof -
  have l: "int (length (unread p)) = mDataSize p - mReadPos p"
    by (rule length_unread [OF assms(1)])
  show ?thesis
  proof (cases "unread p = []")
    case True
    then have "mDataSize p - mReadPos p = 0" using l by simp
    then show ?thesis using assms True by (simp add: GetData_def advance_def)
  next
    case False
    have "memread (mStorage p) (mReadPos p) (mDataSize p - mReadPos p) = Some (unread p)"
      using take_unread [OF assms(1), of "length (unread p)"] l by simp
    moreover have "0 < mDataSize p - mReadPos p" using l False by (metis length_greater_0_conv of_nat_0_less_iff)
    ultimately show ?thesis using assms l by (simp add: GetData_def advance_def Let_def)
  qed
qed

end
