(* ===== verification/Queue_Interface.thy ===== *)
theory Queue_Interface
  imports Prelude
begin

text \<open>
  The queue contracts the servers rely on. A \<open>fifo_source\<close> is what a draining loop needs: the
  oldest element comes out, and nothing else changes. A \<open>bounded_fifo\<close> adds the producer's
  side, an insertion that says whether there was room. The clients' loops \<open>pop_upto\<close> (take
  at most \<open>n\<close> elements) and \<open>push_all\<close> are proved here once, over the contract.
\<close>

text \<open>
  The draining loop of the senders: \<open>while (use > 0 && count < n) deq\<close>. \<open>None\<close> is an access
  outside the queue's memory.
\<close>

fun pop_upto :: "('q \<Rightarrow> ('q \<times> 'a option) option) \<Rightarrow> nat \<Rightarrow> 'q \<Rightarrow> ('q \<times> 'a list) option" where
  "pop_upto deq 0 q = Some (q, [])"
| "pop_upto deq (Suc n) q = do {
     (q1, x) \<leftarrow> deq q;
     (case x of
        None \<Rightarrow> Some (q1, [])
      | Some a \<Rightarrow> do { (q2, xs) \<leftarrow> pop_upto deq n q1; Some (q2, a # xs) })
   }"

fun push_all :: "('q \<Rightarrow> 'a \<Rightarrow> ('q \<times> bool) option) \<Rightarrow> 'q \<Rightarrow> 'a list \<Rightarrow> ('q \<times> bool list) option" where
  "push_all enq q [] = Some (q, [])"
| "push_all enq q (x # xs) = do {
     (q1, b) \<leftarrow> enq q x;
     (q2, bs) \<leftarrow> push_all enq q1 xs;
     Some (q2, b # bs)
   }"

locale fifo_source =
  fixes deq :: "'q \<Rightarrow> ('q \<times> 'a option) option"
    and list :: "'q \<Rightarrow> 'a list"
    and ok :: "'q \<Rightarrow> bool"
  assumes deq_empty: "ok q \<Longrightarrow> list q = [] \<Longrightarrow> deq q = Some (q, None)"
    and deq_item: "ok q \<Longrightarrow> list q = x # xs \<Longrightarrow>
      \<exists>q'. deq q = Some (q', Some x) \<and> ok q' \<and> list q' = xs"
begin

lemma pop_upto_spec:
  "ok q \<Longrightarrow> \<exists>q'. pop_upto deq n q = Some (q', take n (list q)) \<and> ok q' \<and> list q' = drop n (list q)"
proof (induction n arbitrary: q)
  case 0
  then show ?case by simp
next
  case (Suc n)
  show ?case
  proof (cases "list q")
    case Nil
    with Suc.prems show ?thesis by (simp add: deq_empty)
  next
    case (Cons x xs)
    then obtain q1 where q1: "deq q = Some (q1, Some x)" "ok q1" "list q1 = xs"
      using deq_item [OF Suc.prems] by blast
    from Suc.IH [OF q1(2)] q1 Cons show ?thesis by auto
  qed
qed

end

locale bounded_fifo = fifo_source deq list ok
  for deq :: "'q \<Rightarrow> ('q \<times> 'a option) option" and list :: "'q \<Rightarrow> 'a list" and ok :: "'q \<Rightarrow> bool" +
  fixes enq :: "'q \<Rightarrow> 'a \<Rightarrow> ('q \<times> bool) option"
    and cap :: "'q \<Rightarrow> nat"
  assumes enq_room: "ok q \<Longrightarrow> length (list q) < cap q \<Longrightarrow>
      \<exists>q'. enq q x = Some (q', True) \<and> ok q' \<and> list q' = list q @ [x] \<and> cap q' = cap q"
    and enq_full: "ok q \<Longrightarrow> \<not> length (list q) < cap q \<Longrightarrow> enq q x = Some (q, False)"
    and within: "ok q \<Longrightarrow> length (list q) \<le> cap q"
begin

text \<open>A burst of insertions stores the longest prefix there is room for, in order.\<close>

lemma push_all_spec:
  "ok q \<Longrightarrow> \<exists>q'. push_all enq q xs = Some (q', map (\<lambda>i. i < cap q - length (list q)) [0..<length xs])
     \<and> ok q' \<and> list q' = list q @ take (cap q - length (list q)) xs \<and> cap q' = cap q"
proof (induction xs arbitrary: q)
  case Nil
  then show ?case by simp
next
  case (Cons x xs)
  let ?free = "cap q - length (list q)"
  show ?case
  proof (cases "length (list q) < cap q")
    case True
    then obtain q1 where q1: "enq q x = Some (q1, True)" "ok q1" "list q1 = list q @ [x]"
      "cap q1 = cap q"
      using enq_room [OF Cons.prems] by blast
    from Cons.IH [OF q1(2)] q1(3,4) obtain q2 where
      q2: "push_all enq q1 xs = Some (q2, map (\<lambda>i. i < ?free - 1) [0..<length xs])"
        "ok q2" "list q2 = list q @ x # take (?free - 1) xs" "cap q2 = cap q"
      by auto
    have "map (\<lambda>i. i < ?free) [0..<length (x # xs)]
        = True # map (\<lambda>i. i < ?free - 1) [0..<length xs]"
    proof -
      have "[0..<length (x # xs)] = 0 # map Suc [0..<length xs]"
        by (simp add: map_Suc_upt upt_conv_Cons del: upt_Suc)
      with True show ?thesis by (auto simp del: upt_Suc)
    qed
    moreover have "take ?free (x # xs) = x # take (?free - 1) xs"
      using True by (cases ?free) auto
    ultimately show ?thesis using q1 q2 by (simp del: upt_Suc)
  next
    case False
    then have e: "enq q x = Some (q, False)" and z: "?free = 0"
      using enq_full [OF Cons.prems] by auto
    from Cons.IH [OF Cons.prems] z obtain q2 where
      q2: "push_all enq q xs = Some (q2, map (\<lambda>i. False) [0..<length xs])"
        "ok q2" "list q2 = list q" "cap q2 = cap q"
      by auto
    have "map (\<lambda>i. False) [0..<length (x # xs)] = False # map (\<lambda>i. False) [0..<length xs]"
      by (simp add: map_replicate_const)
    then show ?thesis using e q2 z by (simp del: upt_Suc)
  qed
qed

end

end
