(* ===== verification/Ring_Buffer.thy ===== *)
theory Ring_Buffer
  imports Queue_Interface
begin

text \<open>
  NetLib/RingBuffer.h: the circular array with one free slot under every session. The record
  holds \<open>_front\<close>, \<open>_rear\<close>, \<open>_bufferSize\<close> and the array \<open>_data\<close>; a pointer into the array is
  its index. \<open>Enqueue\<close>, \<open>Dequeue\<close> and \<open>Peek\<close> copy with \<open>memcpy\<close>, whose count is in bytes: they
  are modelled at the element type \<open>char\<close>, the only one the servers use them at. The
  abstraction \<open>contents\<close> is the stored sequence; every operation is characterised by it.
\<close>

record 'a ring =
  rb_front :: int
  rb_rear :: int
  rb_bufferSize :: int
  rb_data :: "'a list"

text \<open>The remainder of C++ truncates towards zero.\<close>

definition c_rem :: "int \<Rightarrow> int \<Rightarrow> int" where
  "c_rem a b = sgn a * (\<bar>a\<bar> mod \<bar>b\<bar>)"

definition new_RingBuffer :: "int \<Rightarrow> 'a \<Rightarrow> 'a ring" where
  "new_RingBuffer iBufferSize garbage =
     \<lparr>rb_front = 0, rb_rear = 0, rb_bufferSize = iBufferSize + 1,
      rb_data = replicate (nat (iBufferSize + 1)) garbage\<rparr>"

definition Resize :: "'a ring \<Rightarrow> int \<Rightarrow> 'a \<Rightarrow> 'a ring" where
  "Resize r sz garbage =
     r\<lparr>rb_bufferSize := sz + 1, rb_data := replicate (nat (sz + 1)) garbage,
       rb_front := 0, rb_rear := 0\<rparr>"

definition GetBufferSize :: "'a ring \<Rightarrow> int" where
  "GetBufferSize r = rb_bufferSize r - 1"

definition GetUseSize :: "'a ring \<Rightarrow> int" where
  "GetUseSize r = c_rem (rb_rear r - rb_front r + rb_bufferSize r) (rb_bufferSize r)"

definition GetFreeSize :: "'a ring \<Rightarrow> int" where
  "GetFreeSize r = GetBufferSize r - GetUseSize r"

definition Enqueue :: "'a ring \<Rightarrow> 'a list option \<Rightarrow> int \<Rightarrow> ('a ring \<times> int) option" where
  "Enqueue r chpData iSize =
     (case chpData of
        None \<Rightarrow> Some (r, 0)
      | Some src \<Rightarrow>
          if iSize \<le> 0 then Some (r, 0)
          else (
            let freeSpace = GetFreeSize r;
                writeSize = (if iSize < freeSpace then iSize else freeSpace);
                firstChunk = (if writeSize < rb_bufferSize r - rb_rear r
                              then writeSize else rb_bufferSize r - rb_rear r)
            in do {
              c1 \<leftarrow> memread src 0 firstChunk;
              d1 \<leftarrow> memcpy (rb_data r) (rb_rear r) c1;
              let rear1 = c_rem (rb_rear r + firstChunk) (rb_bufferSize r);
              let remaining = writeSize - firstChunk;
              if remaining > 0 then do {
                c2 \<leftarrow> memread src firstChunk remaining;
                d2 \<leftarrow> memcpy d1 rear1 c2;
                Some (r\<lparr>rb_data := d2, rb_rear := c_rem (rear1 + remaining) (rb_bufferSize r)\<rparr>,
                      writeSize)
              }
              else Some (r\<lparr>rb_data := d1, rb_rear := rear1\<rparr>, writeSize)
            }))"

definition EnqueueItem :: "'a ring \<Rightarrow> 'a \<Rightarrow> ('a ring \<times> bool) option" where
  "EnqueueItem r item =
     (if GetFreeSize r < 1 then Some (r, False)
      else do {
        d \<leftarrow> memcpy (rb_data r) (rb_rear r) [item];
        Some (r\<lparr>rb_data := d, rb_rear := c_rem (rb_rear r + 1) (rb_bufferSize r)\<rparr>, True)
      })"

definition Dequeue :: "'a ring \<Rightarrow> int \<Rightarrow> ('a ring \<times> 'a list) option" where
  "Dequeue r iSize =
     (if iSize \<le> 0 then Some (r, [])
      else (
        let useSize = GetUseSize r;
            readSize = (if iSize < useSize then iSize else useSize);
            firstChunk = (if rb_bufferSize r - rb_front r < readSize
                          then rb_bufferSize r - rb_front r else readSize)
        in do {
          c1 \<leftarrow> memread (rb_data r) (rb_front r) firstChunk;
          let front1 = c_rem (rb_front r + firstChunk) (rb_bufferSize r);
          let remaining = readSize - firstChunk;
          if remaining > 0 then do {
            c2 \<leftarrow> memread (rb_data r) front1 remaining;
            Some (r\<lparr>rb_front := c_rem (front1 + remaining) (rb_bufferSize r)\<rparr>, c1 @ c2)
          }
          else Some (r\<lparr>rb_front := front1\<rparr>, c1)
        }))"

definition DequeueItem :: "'a ring \<Rightarrow> ('a ring \<times> 'a option) option" where
  "DequeueItem r =
     (if GetUseSize r \<le> 0 then Some (r, None)
      else do {
        x \<leftarrow> memread (rb_data r) (rb_front r) 1;
        Some (r\<lparr>rb_front := c_rem (rb_front r + 1) (rb_bufferSize r)\<rparr>, Some (hd x))
      })"

definition Peek :: "'a ring \<Rightarrow> int \<Rightarrow> 'a list option" where
  "Peek r iSize =
     (if iSize \<le> 0 then Some []
      else (
        let useSize = GetUseSize r;
            peekSize = (if iSize < useSize then iSize else useSize);
            firstChunk = (if rb_bufferSize r - rb_front r < peekSize
                          then rb_bufferSize r - rb_front r else peekSize)
        in do {
          c1 \<leftarrow> memread (rb_data r) (rb_front r) firstChunk;
          let remaining = peekSize - firstChunk;
          if remaining > 0 then do {
            c2 \<leftarrow> memread (rb_data r) 0 remaining;
            Some (c1 @ c2)
          }
          else Some c1
        }))"

definition ClearBuffer :: "'a ring \<Rightarrow> 'a ring" where
  "ClearBuffer r = r\<lparr>rb_front := 0, rb_rear := 0\<rparr>"

definition DirectEnqueueSize :: "'a ring \<Rightarrow> int" where
  "DirectEnqueueSize r =
     (if GetFreeSize r = 0 then 0
      else if rb_rear r \<ge> rb_front r then
        (let spaceToEnd = rb_bufferSize r - rb_rear r in
         if rb_front r = 0 then spaceToEnd - 1
         else if rb_front r > rb_rear r then rb_front r - rb_rear r - 1 else spaceToEnd)
      else rb_front r - rb_rear r - 1)"

definition DirectDequeueSize :: "'a ring \<Rightarrow> int" where
  "DirectDequeueSize r =
     (if GetUseSize r = 0 then 0
      else if rb_front r < rb_rear r then rb_rear r - rb_front r
      else rb_bufferSize r - rb_front r)"

definition MoveRear :: "'a ring \<Rightarrow> int \<Rightarrow> 'a ring \<times> int" where
  "MoveRear r iSize =
     (if iSize > GetFreeSize r then (r, 0)
      else (r\<lparr>rb_rear := c_rem (rb_rear r + iSize) (rb_bufferSize r)\<rparr>, iSize))"

definition MoveFront :: "'a ring \<Rightarrow> int \<Rightarrow> 'a ring \<times> int" where
  "MoveFront r iSize =
     (if iSize > GetUseSize r then (r, 0)
      else (r\<lparr>rb_front := c_rem (rb_front r + iSize) (rb_bufferSize r)\<rparr>, iSize))"

text \<open>
  A \<open>WSABUF\<close> is a pair of a buffer pointer (an index into \<open>_data\<close>, \<open>None\<close> when null or left
  unset) and a length; both segment functions return the number of entries in use and the
  two entries.
\<close>

type_synonym wsabuf = "int option \<times> int"

definition GetEnqueueSegments :: "'a ring \<Rightarrow> int \<times> wsabuf \<times> wsabuf" where
  "GetEnqueueSegments r =
     (let freeSize = GetFreeSize r in
      if freeSize \<le> 0 then (0, (None, 0), (None, 0))
      else (
        let seg1 = DirectEnqueueSize r;
            segment1_len = (if seg1 > freeSize then freeSize else seg1);
            segment2_len = freeSize - segment1_len
        in if segment2_len > 0
           then (2, (Some (rb_rear r), segment1_len), (Some 0, segment2_len))
           else (1, (Some (rb_rear r), segment1_len), (None, 0))))"

definition GetDequeueSegments :: "'a ring \<Rightarrow> int \<times> wsabuf \<times> wsabuf" where
  "GetDequeueSegments r =
     (let useSize = GetUseSize r in
      if useSize \<le> 0 then (0, (None, 0), (None, 0))
      else (
        let seg1 = DirectDequeueSize r;
            segment1_len = (if seg1 > useSize then useSize else seg1);
            segment2_len = useSize - segment1_len
        in if segment2_len > 0
           then (2, (Some (rb_front r), segment1_len), (Some 0, segment2_len))
           else (1, (Some (rb_front r), segment1_len), (None, 0))))"

section \<open>Invariant and abstraction\<close>

definition ring_ok :: "'a ring \<Rightarrow> bool" where
  "ring_ok r \<longleftrightarrow>
     rb_bufferSize r = int (length (rb_data r)) \<and> 0 < rb_bufferSize r \<and>
     0 \<le> rb_front r \<and> rb_front r < rb_bufferSize r \<and>
     0 \<le> rb_rear r \<and> rb_rear r < rb_bufferSize r"

definition contents :: "'a ring \<Rightarrow> 'a list" where
  "contents r = take (nat (GetUseSize r))
     (drop (nat (rb_front r)) (rb_data r) @ take (nat (rb_front r)) (rb_data r))"

lemma c_rem_wrap:
  assumes "0 \<le> a" "a < 2 * b"
  shows "c_rem a b = (if a < b then a else a - b)"
proof -
  have "c_rem a b = a mod b" using assms by (simp add: c_rem_def sgn_if)
  also have "\<dots> = (if a < b then a else a - b)"
  proof (cases "a < b")
    case True
    then show ?thesis using assms by simp
  next
    case False
    have "a mod b = (a - b) mod b" by (rule minus_mod_self2 [symmetric])
    also have "\<dots> = a - b" using False assms by (intro mod_pos_pos_trivial) auto
    finally show ?thesis using False by simp
  qed
  finally show ?thesis .
qed

lemma GetUseSize_eq:
  assumes "ring_ok r"
  shows "GetUseSize r = (if rb_front r \<le> rb_rear r then rb_rear r - rb_front r
                         else rb_rear r - rb_front r + rb_bufferSize r)"
  using assms by (auto simp: ring_ok_def GetUseSize_def c_rem_wrap)

lemma GetUseSize_bounds:
  "ring_ok r \<Longrightarrow> 0 \<le> GetUseSize r \<and> GetUseSize r < rb_bufferSize r"
  by (auto simp: GetUseSize_eq ring_ok_def)

lemma length_contents:
  assumes "ring_ok r"
  shows "int (length (contents r)) = GetUseSize r"
  using GetUseSize_bounds [OF assms] assms by (auto simp: contents_def ring_ok_def)

lemma GetFreeSize_eq:
  "ring_ok r \<Longrightarrow> GetFreeSize r = GetBufferSize r - int (length (contents r))"
  by (simp add: GetFreeSize_def length_contents)

lemma contents_bound: "ring_ok r \<Longrightarrow> int (length (contents r)) \<le> GetBufferSize r"
  using GetUseSize_bounds [of r] by (auto simp: length_contents GetBufferSize_def)

lemma new_RingBuffer_ok:
  assumes "0 \<le> n"
  shows "ring_ok (new_RingBuffer n g)" "contents (new_RingBuffer n g) = []"
    "GetBufferSize (new_RingBuffer n g) = n"
  using assms by (auto simp: ring_ok_def new_RingBuffer_def contents_def GetUseSize_def c_rem_def
      GetBufferSize_def sgn_if)

lemma Resize_ok:
  assumes "0 \<le> n"
  shows "ring_ok (Resize r n g)" "contents (Resize r n g) = []" "GetBufferSize (Resize r n g) = n"
  using assms by (auto simp: ring_ok_def Resize_def contents_def GetUseSize_def c_rem_def
      GetBufferSize_def sgn_if)

lemma ClearBuffer_ok:
  assumes "ring_ok r"
  shows "ring_ok (ClearBuffer r)" "contents (ClearBuffer r) = []"
    "GetBufferSize (ClearBuffer r) = GetBufferSize r"
  using assms by (auto simp: ring_ok_def ClearBuffer_def contents_def GetUseSize_def c_rem_def
      GetBufferSize_def sgn_if)

text \<open>The element at position \<open>i\<close> of the contents sits at index \<open>front + i\<close>, wrapped.\<close>

definition slot :: "'a ring \<Rightarrow> nat \<Rightarrow> nat" where
  "slot r i = (let n = nat (rb_bufferSize r); p = nat (rb_front r) + i in if p < n then p else p - n)"

lemma contents_nth:
  assumes "ring_ok r" and "i < length (contents r)"
  shows "contents r ! i = rb_data r ! slot r i"
proof -
  define f where "f = nat (rb_front r)"
  define d where "d = rb_data r"
  have u: "nat (GetUseSize r) = length (contents r)"
    using length_contents [OF assms(1)] by linarith
  have n: "nat (rb_bufferSize r) = length d" "f < length d"
    using assms(1) by (auto simp: ring_ok_def d_def f_def)
  have c: "contents r = take (length (contents r)) (drop f d @ take f d)"
    using u by (simp add: contents_def f_def d_def)
  have "i < length d"
    using assms length_contents [OF assms(1)] GetUseSize_bounds [OF assms(1)]
    by (auto simp: ring_ok_def d_def)
  have "contents r ! i = (drop f d @ take f d) ! i"
    by (subst c) (rule nth_take [OF assms(2)])
  also have "\<dots> = d ! slot r i"
    using n \<open>i < length d\<close>
    by (auto simp: slot_def f_def [symmetric] Let_def nth_append less_diff_conv add.commute)
  finally show ?thesis by (simp add: d_def)
qed

section \<open>The two elementary moves\<close>

text \<open>
  \<open>store_rear r xs\<close>: the elements are written from \<open>rear\<close> to the end of the array and then
  from its start, and \<open>rear\<close> moves; \<open>skip_front r n\<close>: \<open>front\<close> moves. All operations that
  change a ring are instances.
\<close>

definition store_rear :: "'a ring \<Rightarrow> 'a list \<Rightarrow> 'a ring" where
  "store_rear r xs =
     (let room = nat (rb_bufferSize r - rb_rear r) in
      r\<lparr>rb_data := overwrite (overwrite (rb_data r) (nat (rb_rear r)) (take room xs)) 0 (drop room xs),
        rb_rear := c_rem (rb_rear r + int (length xs)) (rb_bufferSize r)\<rparr>)"

definition skip_front :: "'a ring \<Rightarrow> nat \<Rightarrow> 'a ring" where
  "skip_front r n = r\<lparr>rb_front := c_rem (rb_front r + int n) (rb_bufferSize r)\<rparr>"

lemma skip_front_data [simp]: "rb_data (skip_front r n) = rb_data r"
  by (simp add: skip_front_def)

lemma skip_front_ok:
  assumes "ring_ok r" and "n \<le> length (contents r)"
  shows "ring_ok (skip_front r n)" "contents (skip_front r n) = drop n (contents r)"
    "GetBufferSize (skip_front r n) = GetBufferSize r"
proof -
  have n: "int n \<le> GetUseSize r" using assms length_contents [OF assms(1)] by linarith
  have nb: "GetUseSize r < rb_bufferSize r" using GetUseSize_bounds [OF assms(1)] by simp
  have fr: "rb_front (skip_front r n) =
      (if rb_front r + int n < rb_bufferSize r then rb_front r + int n
       else rb_front r + int n - rb_bufferSize r)"
    using assms(1) n nb by (simp add: skip_front_def ring_ok_def c_rem_wrap)
  show ok: "ring_ok (skip_front r n)"
    using assms(1) n nb fr by (auto simp: ring_ok_def skip_front_def)
  have use: "GetUseSize (skip_front r n) = GetUseSize r - int n"
    using GetUseSize_eq [OF ok] GetUseSize_eq [OF assms(1)] fr n nb assms(1)
    by (auto simp: skip_front_def ring_ok_def split: if_splits)
  show "contents (skip_front r n) = drop n (contents r)"
  proof (rule nth_equalityI)
    show len: "length (contents (skip_front r n)) = length (drop n (contents r))"
      using length_contents [OF ok] length_contents [OF assms(1)] use by simp
    fix i assume i: "i < length (contents (skip_front r n))"
    then have i2: "n + i < length (contents r)" using len by simp
    have ub: "int (n + i) < rb_bufferSize r"
      using i2 length_contents [OF assms(1)] nb by linarith
    have "slot (skip_front r n) i = slot r (n + i)"
      using fr ub assms(1)
      by (auto simp: slot_def Let_def ring_ok_def skip_front_def split: if_splits)
    then show "contents (skip_front r n) ! i = drop n (contents r) ! i"
      using i i2 by (simp add: contents_nth [OF ok] contents_nth [OF assms(1)] skip_front_data)
  qed
  show "GetBufferSize (skip_front r n) = GetBufferSize r" by (simp add: skip_front_def GetBufferSize_def)
qed

lemma store_rear_nth:
  assumes "ring_ok r" and "int (length xs) < rb_bufferSize r" and "p < length (rb_data r)"
  shows "rb_data (store_rear r xs) ! p =
     (let rr = nat (rb_rear r); n = length (rb_data r) in
      if rr \<le> p \<and> p < rr + length xs then xs ! (p - rr)
      else if p + n < rr + length xs then xs ! (p + n - rr)
      else rb_data r ! p)"
proof -
  let ?rr = "nat (rb_rear r)" and ?n = "length (rb_data r)" and ?d = "rb_data r"
  have s: "?rr < ?n" "length xs < ?n" "nat (rb_bufferSize r - rb_rear r) = ?n - ?rr"
    using assms by (auto simp: ring_ok_def)
  let ?a = "take (?n - ?rr) xs" and ?b = "drop (?n - ?rr) xs"
  have la: "?rr + length ?a \<le> ?n" using s by auto
  moreover have "length ?b \<le> ?n" using s by simp
  ultimately have lb: "length ?b \<le> length (overwrite ?d ?rr ?a)" by simp
  have "rb_data (store_rear r xs) ! p = overwrite (overwrite ?d ?rr ?a) 0 ?b ! p"
    using s by (simp add: store_rear_def Let_def)
  also have "\<dots> = (if p < length ?b then ?b ! p
      else if ?rr \<le> p \<and> p < ?rr + length ?a then ?a ! (p - ?rr) else ?d ! p)"
    using la lb assms(3) by (simp add: nth_overwrite)
  also have "\<dots> = (if ?rr \<le> p \<and> p < ?rr + length xs then xs ! (p - ?rr)
      else if p + ?n < ?rr + length xs then xs ! (p + ?n - ?rr) else ?d ! p)"
    using s assms(3) by (auto simp: min_def nth_append less_diff_conv ac_simps)
  finally show ?thesis by (simp add: Let_def)
qed

lemma store_rear_ok:
  assumes "ring_ok r" and "int (length xs) \<le> GetFreeSize r"
  shows "ring_ok (store_rear r xs)" "contents (store_rear r xs) = contents r @ xs"
    "GetBufferSize (store_rear r xs) = GetBufferSize r"
proof -
  let ?u = "GetUseSize r" and ?n = "rb_bufferSize r" and ?l = "int (length xs)"
  have b: "0 \<le> ?u" "?u + ?l < ?n"
    using GetUseSize_bounds [OF assms(1)] assms(2) by (auto simp: GetFreeSize_def GetBufferSize_def)
  then have l: "?l < ?n" by linarith
  have len: "length (rb_data (store_rear r xs)) = length (rb_data r)"
  proof -
    have "nat (rb_rear r) + length (take (nat (?n - rb_rear r)) xs) \<le> length (rb_data r)"
      "length (drop (nat (?n - rb_rear r)) xs) \<le> length (rb_data r)"
      using assms(1) l by (auto simp: ring_ok_def)
    then show ?thesis by (simp add: store_rear_def Let_def)
  qed
  have re: "rb_rear (store_rear r xs) =
      (if rb_rear r + ?l < ?n then rb_rear r + ?l else rb_rear r + ?l - ?n)"
    using assms(1) l by (simp add: store_rear_def ring_ok_def c_rem_wrap Let_def)
  have fr: "rb_front (store_rear r xs) = rb_front r" "rb_bufferSize (store_rear r xs) = ?n"
    by (simp_all add: store_rear_def Let_def)
  show ok: "ring_ok (store_rear r xs)"
    using assms(1) l len re fr by (auto simp: ring_ok_def)
  have use: "GetUseSize (store_rear r xs) = ?u + ?l"
    using GetUseSize_eq [OF ok] GetUseSize_eq [OF assms(1)] re fr b assms(1)
    by (auto simp: ring_ok_def split: if_splits)
  show "contents (store_rear r xs) = contents r @ xs"
  proof (rule nth_equalityI)
    show len2: "length (contents (store_rear r xs)) = length (contents r @ xs)"
      using length_contents [OF ok] length_contents [OF assms(1)] use by simp
    fix i assume i: "i < length (contents (store_rear r xs))"
    define F where "F = nat (rb_front r)"
    define R where "R = nat (rb_rear r)"
    define N where "N = length (rb_data r)"
    define U where "U = length (contents r)"
    define s where "s = slot r i"
    have U: "int U = ?u" unfolding U_def by (rule length_contents [OF assms(1)])
    have F: "F < N" "R < N" "U + length xs < N" "i < U + length xs" "nat ?n = N"
      using assms(1) b U i len2 by (auto simp: ring_ok_def F_def R_def N_def U_def)
    have R: "R = (if F + U < N then F + U else F + U - N)"
    proof -
      have "rb_front r = int F" "rb_rear r = int R" "?n = int N"
        using assms(1) by (auto simp: ring_ok_def F_def R_def N_def)
      with GetUseSize_eq [OF assms(1)] U
      have "int U = (if int F \<le> int R then int R - int F else int R - int F + int N)" by simp
      with F(1-3) show ?thesis by (cases "F \<le> R") auto
    qed
    have s: "s = (if F + i < N then F + i else F + i - N)"
      unfolding s_def slot_def Let_def F(5) F_def by (rule refl)
    have sN: "s < N" using F s by (auto split: if_splits)
    have sl: "slot (store_rear r xs) i = s" by (simp add: slot_def s_def fr)
    have st: "rb_data (store_rear r xs) ! s =
        (if R \<le> s \<and> s < R + length xs then xs ! (s - R)
         else if s + N < R + length xs then xs ! (s + N - R) else rb_data r ! s)"
      using store_rear_nth [OF assms(1) l, of s] sN by (simp add: Let_def R_def N_def)
    show "contents (store_rear r xs) ! i = (contents r @ xs) ! i"
    proof (cases "i < U")
      case True
      have "\<not> (R \<le> s \<and> s < R + length xs)" "\<not> s + N < R + length xs"
        using True F R s by (auto split: if_splits)
      then have "rb_data (store_rear r xs) ! s = rb_data r ! s" unfolding st by auto
      then show ?thesis
        using True contents_nth [OF ok i] contents_nth [OF assms(1), of i] sl
        by (simp add: nth_append U_def s_def)
    next
      case False
      then have ge: "U \<le> i" by simp
      have "rb_data (store_rear r xs) ! s = xs ! (i - U)"
      proof (cases "R \<le> s")
        case True
        have "s < R + length xs" "s - R = i - U"
          using True ge F R s by (auto split: if_splits)
        with True show ?thesis using st by simp
      next
        case False
        have "s + N < R + length xs" "s + N - R = i - U"
          using False ge F R s by (auto split: if_splits)
        with False show ?thesis using st by simp
      qed
      with False show ?thesis
        using contents_nth [OF ok i] sl by (simp add: nth_append U_def)
    qed
  qed
  show "GetBufferSize (store_rear r xs) = GetBufferSize r" by (simp add: GetBufferSize_def fr)
qed

section \<open>The operations as elementary moves\<close>

lemma EnqueueItem_spec [ring_simps]:
  assumes "ring_ok r"
  shows "EnqueueItem r x =
    (if int (length (contents r)) < GetBufferSize r then Some (store_rear r [x], True)
     else Some (r, False))"
proof -
  have "memcpy (rb_data r) (rb_rear r) [x] = Some (overwrite (rb_data r) (nat (rb_rear r)) [x])"
    using assms by (intro memcpy_Some) (auto simp: ring_ok_def)
  moreover have "0 < nat (rb_bufferSize r - rb_rear r)" using assms by (auto simp: ring_ok_def)
  ultimately show ?thesis
    using assms by (auto simp: EnqueueItem_def GetFreeSize_eq store_rear_def Let_def)
qed

lemma chunk_add:
  assumes "0 < n" "0 \<le> p" "p < n" "0 \<le> a" "a \<le> n - p" "0 \<le> b" "a < n - p \<longrightarrow> b = 0" "a + b < n"
  shows "c_rem (c_rem (p + a) n + b) n = c_rem (p + a + b) n"
  using assms by (auto simp: c_rem_wrap)

lemma Enqueue_spec:
  assumes "ring_ok r" and "0 < iSize" and "iSize \<le> int (length src)"
  shows "Enqueue r (Some src) iSize =
    (let w = min iSize (GetFreeSize r) in Some (store_rear r (take (nat w) src), w))"
proof -
  define w where "w = min iSize (GetFreeSize r)"
  define room where "room = rb_bufferSize r - rb_rear r"
  have fb: "0 \<le> GetFreeSize r" "GetFreeSize r < rb_bufferSize r"
    using GetUseSize_bounds [OF assms(1)] by (auto simp: GetFreeSize_def GetBufferSize_def)
  have w: "0 \<le> w" "w < rb_bufferSize r" "w \<le> int (length src)"
    using fb assms(2,3) by (auto simp: w_def)
  have rm: "0 < room" "room \<le> rb_bufferSize r" "rb_rear r + room = rb_bufferSize r"
    "0 \<le> rb_rear r" "rb_bufferSize r = int (length (rb_data r))"
    using assms(1) by (auto simp: ring_ok_def room_def)
  have wsel: "(if iSize < GetFreeSize r then iSize else GetFreeSize r) = w" by (simp add: w_def)
  show ?thesis
  proof (cases "w < room")
    case True
    have "memread src 0 w = Some (take (nat w) src)" using w by (simp add: mem_simps)
    moreover have "memcpy (rb_data r) (rb_rear r) (take (nat w) src) =
        Some (overwrite (rb_data r) (nat (rb_rear r)) (take (nat w) src))"
      using w rm True by (intro memcpy_Some) auto
    ultimately have "Enqueue r (Some src) iSize = Some (store_rear r (take (nat w) src), w)"
      using assms(2) True w rm
      by (simp add: Enqueue_def Let_def wsel room_def [symmetric] store_rear_def min_absorb1)
    then show ?thesis by (simp add: w_def Let_def)
  next
    case False
    let ?d1 = "overwrite (rb_data r) (nat (rb_rear r)) (take (nat room) src)"
    have rw: "nat room \<le> nat w" using False rm by simp
    have r1: "memread src 0 room = Some (take (nat room) src)"
      using w rm False by (simp add: mem_simps)
    have lr: "int (length (take (nat room) src)) = room" using w rm False by auto
    have c1: "memcpy (rb_data r) (rb_rear r) (take (nat room) src) = Some ?d1"
      using rm lr by (intro memcpy_Some) auto
    have z: "c_rem (rb_rear r + room) (rb_bufferSize r) = 0"
      using rm by (simp add: c_rem_def)
    have ld: "length ?d1 = length (rb_data r)" using rm lr by (intro length_overwrite) linarith
    have dt: "drop (nat room) (take (nat w) src) = take (nat (w - room)) (drop (nat room) src)"
      using rw rm by (simp add: drop_take nat_diff_distrib)
    have tt: "take (nat room) (take (nat w) src) = take (nat room) src" using rw by (simp add: min_absorb1)
    have fin: "c_rem (0 + (w - room)) (rb_bufferSize r) = c_rem (rb_rear r + w) (rb_bufferSize r)"
      using w rm False by (simp add: c_rem_wrap)
    have r2: "memread src room (w - room) = Some (take (nat (w - room)) (drop (nat room) src))"
      using w rm False by (simp add: mem_simps)
    have c2: "memcpy ?d1 0 (take (nat (w - room)) (drop (nat room) src)) =
        Some (overwrite ?d1 0 (take (nat (w - room)) (drop (nat room) src)))"
      using w rm ld by (subst memcpy_Some) auto
    have lw: "int (length (take (nat w) src)) = w" using w by auto
    have "Enqueue r (Some src) iSize = Some (store_rear r (take (nat w) src), w)"
    proof (cases "w - room > 0")
      case True
      with assms(2) False show ?thesis
        using r1 c1 z r2 c2 fin lw dt tt
        by (simp add: Enqueue_def Let_def wsel room_def [symmetric] store_rear_def)
    next
      case False2: False
      then have "w = room" using False by linarith
      with assms(2) show ?thesis
        using r1 c1 z lw dt tt
        by (simp add: Enqueue_def Let_def wsel room_def [symmetric] store_rear_def)
    qed
    then show ?thesis by (simp add: w_def Let_def)
  qed
qed

text \<open>
  Reading \<open>n\<close> stored elements from \<open>front\<close>: the part up to the end of the array, then the part
  from its start.
\<close>

lemma read_chunks:
  assumes "ring_ok r" and "0 < n" and "n \<le> GetUseSize r"
  defines "room \<equiv> rb_bufferSize r - rb_front r"
  shows "n \<le> room \<Longrightarrow> memread (rb_data r) (rb_front r) n = Some (take (nat n) (contents r))"
    and "room < n \<Longrightarrow> memread (rb_data r) (rb_front r) room = Some (take (nat room) (contents r))"
    and "room < n \<Longrightarrow> memread (rb_data r) 0 (n - room) =
           Some (take (nat (n - room)) (drop (nat room) (contents r)))"
proof -
  define d where "d = rb_data r"
  define f where "f = nat (rb_front r)"
  define u where "u = nat (GetUseSize r)"
  have b: "0 \<le> rb_front r" "rb_front r < rb_bufferSize r" "rb_bufferSize r = int (length d)"
    "GetUseSize r < rb_bufferSize r"
    using assms(1) GetUseSize_bounds [OF assms(1)] by (auto simp: ring_ok_def d_def)
  have c: "contents r = take u (drop f d @ take f d)"
    by (simp add: contents_def d_def f_def u_def)
  have fd: "f < length d" "nat room = length d - f" "rb_front r = int f" "int u = GetUseSize r"
    "u < length d"
    using b assms(2,3) by (auto simp: f_def u_def room_def)
  show "memread (rb_data r) (rb_front r) n = Some (take (nat n) (contents r))" if "n \<le> room"
  proof -
    have "nat n \<le> length d - f" "nat n \<le> u" using that assms(3) fd by auto
    then have "take (nat n) (contents r) = take (nat n) (drop f d)"
      by (simp add: c min_absorb1)
    then show ?thesis using that assms(2) b
      by (simp add: mem_simps room_def d_def [symmetric] f_def)
  qed
  assume lt: "room < n"
  have u2: "length d - f \<le> u" using lt assms(3) fd by linarith
  have "take (nat room) (contents r) = drop f d" using u2 fd by (simp add: c min_absorb1)
  then show "memread (rb_data r) (rb_front r) room = Some (take (nat room) (contents r))"
    using b fd by (simp add: mem_simps room_def d_def [symmetric])
  have "drop (nat room) (contents r) = take (u - (length d - f)) (take f d)"
  proof -
    have "drop (length d - f) (drop f d @ take f d) = take f d" using fd by simp
    then show ?thesis unfolding c fd(2) by (simp only: drop_take)
  qed
  moreover have "nat (n - room) \<le> u - (length d - f)"
    using lt assms(3) fd by linarith
  moreover have "u - (length d - f) \<le> f" using fd by linarith
  ultimately have "take (nat (n - room)) (drop (nat room) (contents r)) = take (nat (n - room)) d"
    by (simp add: min_absorb1)
  moreover have "n - room \<le> int (length d)" using assms(3) b by (simp add: room_def)
  ultimately show "memread (rb_data r) 0 (n - room) =
      Some (take (nat (n - room)) (drop (nat room) (contents r)))"
    using lt by (simp add: mem_simps d_def [symmetric])
qed

lemma take_take_drop: "0 \<le> a \<Longrightarrow> a \<le> n \<Longrightarrow>
  take (nat a) xs @ take (nat (n - a)) (drop (nat a) xs) = take (nat n) xs"
  by (metis add_diff_cancel_left' diff_add_cancel le_add_diff_inverse nat_diff_distrib nat_mono take_add)

lemma Peek_spec [ring_simps]:
  assumes "ring_ok r"
  shows "Peek r n = Some (take (nat n) (contents r))"
proof (cases "n \<le> 0")
  case True
  then show ?thesis by (simp add: Peek_def)
next
  case False
  define k where "k = min n (GetUseSize r)"
  have k: "(if n < GetUseSize r then n else GetUseSize r) = k" by (simp add: k_def)
  have kt: "take (nat n) (contents r) = take (nat k) (contents r)"
    using length_contents [OF assms] by (simp add: k_def min_def)
  show ?thesis
  proof (cases "k = 0")
    case True
    with False assms show ?thesis unfolding kt
      by (auto simp: Peek_def Let_def k mem_simps ring_ok_def)
  next
    case nz: False
    have kp: "0 < k" "k \<le> GetUseSize r"
      using False nz GetUseSize_bounds [OF assms] by (auto simp: k_def)
    note rd = read_chunks [OF assms kp]
    have room: "0 \<le> rb_bufferSize r - rb_front r" using assms by (simp add: ring_ok_def)
    show ?thesis
    proof (cases "rb_bufferSize r - rb_front r < k")
      case True
      then show ?thesis using False rd(2,3) take_take_drop [OF room, of k "contents r"]
        unfolding kt by (simp add: Peek_def Let_def k)
    next
      case False2: False
      then show ?thesis using False rd(1) unfolding kt by (simp add: Peek_def Let_def k)
    qed
  qed
qed

lemma Dequeue_spec [ring_simps]:
  assumes "ring_ok r"
  shows "Dequeue r n =
    (let k = min (nat n) (length (contents r)) in
     Some (if n \<le> 0 then r else skip_front r k, take k (contents r)))"
proof (cases "n \<le> 0")
  case True
  then show ?thesis by (simp add: Dequeue_def)
next
  case False
  define k where "k = min n (GetUseSize r)"
  have k: "(if n < GetUseSize r then n else GetUseSize r) = k" by (simp add: k_def)
  have lc: "length (contents r) = nat (GetUseSize r)" using length_contents [OF assms] by linarith
  have kn: "min (nat n) (length (contents r)) = nat k"
    using False unfolding lc k_def by (simp add: min_def)
  have b: "0 \<le> rb_front r" "rb_front r < rb_bufferSize r" "GetUseSize r < rb_bufferSize r" "0 \<le> k"
    "k \<le> GetUseSize r"
    using assms GetUseSize_bounds [OF assms] False by (auto simp: ring_ok_def k_def)
  show ?thesis
  proof (cases "k = 0")
    case True
    with False assms b show ?thesis
      by (auto simp: Dequeue_def Let_def k kn mem_simps ring_ok_def skip_front_def)
  next
    case nz: False
    then have kp: "0 < k" "k \<le> GetUseSize r" using b by auto
    note rd = read_chunks [OF assms kp]
    show ?thesis
    proof (cases "rb_bufferSize r - rb_front r < k")
      case True
      let ?room = "rb_bufferSize r - rb_front r"
      have z: "c_rem (rb_front r + ?room) (rb_bufferSize r) = 0" using b by (simp add: c_rem_def)
      have fin: "c_rem (0 + (k - ?room)) (rb_bufferSize r) = c_rem (rb_front r + k) (rb_bufferSize r)"
        using b True by (simp add: c_rem_wrap)
      have tt: "take (nat ?room) (contents r) @ take (nat (k - ?room)) (drop (nat ?room) (contents r))
          = take (nat k) (contents r)"
        using b True by (intro take_take_drop) auto
      show ?thesis using False True rd(2,3) z fin tt b
        by (simp add: Dequeue_def Let_def k kn skip_front_def)
    next
      case False2: False
      then show ?thesis using False rd(1) b by (simp add: Dequeue_def Let_def k kn skip_front_def)
    qed
  qed
qed

lemma DequeueItem_spec [ring_simps]:
  assumes "ring_ok r"
  shows "DequeueItem r = Some (case contents r of [] \<Rightarrow> (r, None) | x # _ \<Rightarrow> (skip_front r 1, Some x))"
proof (cases "contents r")
  case Nil
  then show ?thesis using length_contents [OF assms] by (simp add: DequeueItem_def)
next
  case (Cons x xs)
  then have u: "1 \<le> GetUseSize r" using length_contents [OF assms] by simp
  have "1 \<le> rb_bufferSize r - rb_front r" using assms by (auto simp: ring_ok_def)
  from read_chunks(1) [OF assms _ u this] Cons
  have "memread (rb_data r) (rb_front r) 1 = Some [x]" by simp
  with u Cons show ?thesis by (simp add: DequeueItem_def skip_front_def)
qed

lemma MoveFront_spec [ring_simps]:
  "ring_ok r \<Longrightarrow> 0 \<le> n \<Longrightarrow> n \<le> int (length (contents r)) \<Longrightarrow> MoveFront r n = (skip_front r (nat n), n)"
  by (simp add: MoveFront_def length_contents skip_front_def)

lemma MoveFront_refused:
  "ring_ok r \<Longrightarrow> int (length (contents r)) < n \<Longrightarrow> MoveFront r n = (r, 0)"
  by (simp add: MoveFront_def length_contents)

section \<open>The two contracts\<close>

lemma length_contents_nat: "ring_ok r \<Longrightarrow> length (contents r) = nat (GetUseSize r)"
  using length_contents [of r] by linarith

interpretation send_ring: bounded_fifo DequeueItem contents ring_ok EnqueueItem
  "\<lambda>r. nat (GetBufferSize r)"
proof unfold_locales
  fix r :: "'a ring" and x
  assume ok: "ring_ok r"
  show "contents r = [] \<Longrightarrow> DequeueItem r = Some (r, None)" using ok by (simp add: ring_simps)
  show "length (contents r) \<le> nat (GetBufferSize r)" using contents_bound [OF ok] by linarith
  show "\<exists>q'. EnqueueItem r x = Some (q', True) \<and> ring_ok q' \<and> contents q' = contents r @ [x] \<and>
      nat (GetBufferSize q') = nat (GetBufferSize r)" if "length (contents r) < nat (GetBufferSize r)"
  proof -
    have "int (length [x]) \<le> GetFreeSize r" using that ok by (simp add: GetFreeSize_eq)
    from store_rear_ok [OF ok this] that show ?thesis using ok by (simp add: ring_simps)
  qed
  show "EnqueueItem r x = Some (r, False)" if "\<not> length (contents r) < nat (GetBufferSize r)"
    using that ok by (simp add: ring_simps)
next
  fix r :: "'a ring" and x xs
  assume ok: "ring_ok r" and c: "contents r = x # xs"
  with skip_front_ok [OF ok, of 1] show "\<exists>q'. DequeueItem r = Some (q', Some x) \<and> ring_ok q' \<and> contents q' = xs"
    by (simp add: ring_simps)
qed

section \<open>Scatter and gather\<close>

text \<open>
  \<open>scattered r xs d\<close>: the array \<open>d\<close> is \<open>_data\<close> after an overlapped receive has placed the bytes
  \<open>xs\<close> into the segments of \<open>GetEnqueueSegments\<close>, in the order of the entries, as the
  documentation of \<open>WSARecv\<close> states; all other bytes are as before.
\<close>

definition scattered :: "'a ring \<Rightarrow> 'a list \<Rightarrow> 'a list \<Rightarrow> bool" where
  "scattered r xs d \<longleftrightarrow>
     (case GetEnqueueSegments r of
        (n, (Some o0, l0), (Some o1, l1)) \<Rightarrow>
          int (length xs) \<le> l0 + l1 \<and>
          d = overwrite (overwrite (rb_data r) (nat o0) (take (nat l0) xs)) (nat o1) (drop (nat l0) xs)
      | (n, (Some o0, l0), (None, l1)) \<Rightarrow>
          int (length xs) \<le> l0 \<and> d = overwrite (rb_data r) (nat o0) xs
      | _ \<Rightarrow> False)"

definition gathered :: "'a ring \<Rightarrow> 'a list" where
  "gathered r =
     (case GetDequeueSegments r of
        (n, (Some o0, l0), (Some o1, l1)) \<Rightarrow>
          take (nat l0) (drop (nat o0) (rb_data r)) @ take (nat l1) (drop (nat o1) (rb_data r))
      | (n, (Some o0, l0), (None, l1)) \<Rightarrow> take (nat l0) (drop (nat o0) (rb_data r))
      | _ \<Rightarrow> [])"

lemma scattered_MoveRear:
  assumes "ring_ok r" and "scattered r xs d"
  shows "MoveRear (r\<lparr>rb_data := d\<rparr>) (int (length xs)) = (store_rear r xs, int (length xs))"
    and "int (length xs) \<le> GetFreeSize r"
proof -
  have fz: "GetFreeSize r = rb_bufferSize r - 1 - GetUseSize r"
    "\<And>d'. GetFreeSize (r\<lparr>rb_data := d'\<rparr>) = GetFreeSize r"
    by (simp_all add: GetFreeSize_def GetBufferSize_def GetUseSize_def)
  note us = GetUseSize_eq [OF assms(1)]
  have b: "0 \<le> rb_front r" "rb_front r < rb_bufferSize r" "0 \<le> rb_rear r" "rb_rear r < rb_bufferSize r"
    using assms(1) by (auto simp: ring_ok_def)
  show le: "int (length xs) \<le> GetFreeSize r"
    using assms(2) by (auto simp: scattered_def GetEnqueueSegments_def Let_def split: if_splits)
  let ?room = "rb_bufferSize r - rb_rear r"
  have "d = overwrite (overwrite (rb_data r) (nat (rb_rear r)) (take (nat ?room) xs)) 0 (drop (nat ?room) xs)"
  proof (cases "rb_front r \<le> rb_rear r \<and> rb_front r \<noteq> 0")
    case True
    then have "DirectEnqueueSize r = (if GetFreeSize r = 0 then 0 else ?room)"
      by (simp add: DirectEnqueueSize_def Let_def)
    then show ?thesis using assms(2) us fz(1) b True
      by (auto simp: scattered_def GetEnqueueSegments_def Let_def split: if_splits)
  next
    case False
    then have "DirectEnqueueSize r = GetFreeSize r" "GetFreeSize r < ?room"
      using us fz(1) b by (auto simp: DirectEnqueueSize_def Let_def split: if_splits)
    then show ?thesis using assms(2) le
      by (auto simp: scattered_def GetEnqueueSegments_def Let_def split: if_splits)
  qed
  then show "MoveRear (r\<lparr>rb_data := d\<rparr>) (int (length xs)) = (store_rear r xs, int (length xs))"
    using le by (simp add: MoveRear_def fz(2) store_rear_def Let_def)
qed

lemma gathered_contents:
  assumes "ring_ok r"
  shows "gathered r = contents r"
proof -
  have b: "0 \<le> rb_front r" "rb_front r < rb_bufferSize r" "0 \<le> rb_rear r" "rb_rear r < rb_bufferSize r"
    "rb_bufferSize r = int (length (rb_data r))"
    using assms by (auto simp: ring_ok_def)
  show ?thesis
  proof (cases "rb_front r \<le> rb_rear r")
    case True
    with b GetUseSize_eq [OF assms] show ?thesis
      by (auto simp: gathered_def contents_def GetDequeueSegments_def DirectDequeueSize_def Let_def
          nat_diff_distrib)
  next
    case False
    have e: "nat (rb_rear r - rb_front r + int (length (rb_data r))) + nat (rb_front r)
        - length (rb_data r) = nat (rb_rear r)"
      using b False by linarith
    from False b GetUseSize_eq [OF assms] show ?thesis
      by (auto simp: gathered_def contents_def GetDequeueSegments_def DirectDequeueSize_def Let_def
          nat_diff_distrib nat_add_distrib min_def e)
  qed
qed

end
