(* ===== verification/Stream_Interface.thy ===== *)
theory Stream_Interface
  imports Prelude
begin

text \<open>
  What a receive path relies on when it cuts frames out of a byte stream that arrives in pieces: a
  \<open>stream_cutter\<close> gives the payloads of the complete frames, the bytes left over and a verdict, and promises
  that a prefix may be cut first; a \<open>framed_stream\<close> knows the frames of the sender too. What follows for any
  segmentation is proved here once, for the chat servers' encrypted frames and the LAN client's alike.
\<close>

locale stream_cutter =
  fixes cut :: "bytes \<Rightarrow> bytes list \<times> bytes \<times> 'e"
    and good :: 'e
  assumes cut_append: "cut bs = (ps, rest, good) \<Longrightarrow> cut (bs @ cs) = (case cut (rest @ cs) of (qs, r, e) \<Rightarrow> (ps @ qs, r, e))"
    and cut_append_bad: "cut bs = (ps, rest, e) \<Longrightarrow> e \<noteq> good \<Longrightarrow> \<exists>r. cut (bs @ cs) = (ps, r, e)"
begin

text \<open>What is left holds no complete frame.\<close>

lemma cut_idem: "cut bs = (ps, rest, good) \<Longrightarrow> cut rest = ([], rest, good)"
  using cut_append [of bs ps rest "[]"] by (cases "cut rest") simp

text \<open>A prefix of the stream gives a prefix of the payloads, and a bad one settles the verdict.\<close>

lemma cut_prefix:
  assumes "cut bs = (ps, rest, e)"
  obtains qs r e' where "cut (bs @ cs) = (ps @ qs, r, e')" and "e \<noteq> good \<longrightarrow> qs = [] \<and> e' = e"
proof (cases "e = good")
  case True
  obtain qs r e' where "cut (rest @ cs) = (qs, r, e')" by (cases "cut (rest @ cs)") auto
  with cut_append [of bs ps rest cs] assms True show ?thesis using that by simp
next
  case False
  with cut_append_bad [OF assms, of cs] obtain r where "cut (bs @ cs) = (ps, r, e)" by blast
  then show ?thesis using that [of "[]" r e] by simp
qed

end

locale framed_stream = stream_cutter cut good
  for cut :: "bytes \<Rightarrow> bytes list \<times> bytes \<times> 'e" and good :: 'e +
  fixes frame :: "'p \<Rightarrow> bytes"
    and payload :: "'p \<Rightarrow> bytes"
    and fits :: "'p \<Rightarrow> bool"
  assumes cut_nil: "cut [] = ([], [], good)"
    and cut_frame: "fits p \<Longrightarrow> cut (frame p @ bs) = (case cut bs of (ps, r, e) \<Rightarrow> (payload p # ps, r, e))"
begin

lemma cut_frames: "list_all fits ps \<Longrightarrow> cut (concat (map frame ps)) = (map payload ps, [], good)"
  by (induction ps) (simp_all add: cut_nil cut_frame)

text \<open>However much of a stream of frames has arrived, its first payloads come out, and all of them at the end.\<close>

lemma cut_arrived:
  assumes "list_all fits ps" and "concat (map frame ps) = got @ left" and "cut got = (qs, rest, e)"
  shows "e = good \<and> qs = take (length qs) (map payload ps) \<and> (left = [] \<longrightarrow> qs = map payload ps \<and> rest = [])"
proof -
  note whole = cut_frames [OF assms(1), unfolded assms(2)]
  obtain zs r e' where "cut (got @ left) = (qs @ zs, r, e')" "e \<noteq> good \<longrightarrow> zs = [] \<and> e' = e"
    by (rule cut_prefix [OF assms(3)])
  then have "e = good" "map payload ps = qs @ zs" using whole by auto
  moreover have "qs = map payload ps \<and> rest = []" if "left = []" using that whole assms(3) by simp
  ultimately show ?thesis by simp
qed

end

end
