(* ===== verification/Frame_Parser.thy ===== *)
theory Frame_Parser
  imports Packets Ring_Buffer Stream_Interface
begin

text \<open>
  The wire format of NetLib: the in-place encoding of an outgoing packet (\<open>SendPacket\<close> in
  BaseServer.cpp) and the RECV branch of \<open>workerThread\<close>, which moves the rear of the receive
  ring, cuts the frames out of it, checks and decodes each and hands it to \<open>OnRecv\<close>. The
  functional specification is \<open>stream_parse\<close>, a parser of byte strings that knows neither
  rings nor packets nor segmentation.
\<close>

definition BUFFER_DEFAULT :: int where "BUFFER_DEFAULT = 2048"

section \<open>Encoding an outgoing packet\<close>

definition xorshift :: "u32 \<Rightarrow> u32" where
  "xorshift s = (let s1 = s XOR push_bit 13 s; s2 = s1 XOR drop_bit 17 s1 in s2 XOR push_bit 5 s2)"

text \<open>
  The double-checked encoding of \<open>SendPacket\<close>: \<open>rng\<close> is the thread's \<open>s_rng\<close>. Loops over a
  count that is not positive touch nothing.
\<close>

definition encode_packet :: "packet \<Rightarrow> u32 \<Rightarrow> (packet \<times> u32) option" where
  "encode_packet p s_rng =
     (if mIsEncoding p then Some (p, s_rng)
      else do {
        let payloadSize = mDataSize p - 5;
        let rng = xorshift s_rng;
        let dynamicKey = (ucast (rng AND 0xFF) :: u8);
        payload \<leftarrow> memread (mStorage p) 5 (max 0 payloadSize);
        let checkSum = CalculateCheckSum payload;
        st1 \<leftarrow> memcpy (mStorage p) 4 [checkSum];
        plain \<leftarrow> memread st1 4 (max 0 (1 + payloadSize));
        st2 \<leftarrow> memcpy st1 4 (Encode dynamicKey plain);
        st3 \<leftarrow> memcpy st2 0 [PACKET_CODE];
        st4 \<leftarrow> memcpy st3 1 (le_bytes 2 (word_of_int payloadSize :: u16));
        st5 \<leftarrow> memcpy st4 3 [dynamicKey];
        Some (p\<lparr>mStorage := st5, mIsEncoding := True\<rparr>, rng)
      })"

section \<open>Cutting one frame out of the ring\<close>

datatype parse_error =
  InvalidPacketCode | ZeroLength | ExceedsPacket | Oversize | PacketMemoryPoolError | CheckSumError

datatype frame_result = Incomplete | Rejected parse_error | Frame packet

text \<open>
  One round of the parse loop; \<open>alloc\<close> is what the packet pool returns. \<open>parse_body\<close> is its
  second half, when a frame of \<open>dataLen\<close> payload bytes is complete in the ring.
\<close>

definition parse_body :: "u64 \<Rightarrow> packet option \<Rightarrow> u8 ring \<Rightarrow> int \<Rightarrow> (u8 ring \<times> frame_result) option" where
  "parse_body sid alloc r dataLen = do {
     let r1 = fst (MoveFront r 3);
     (r2, kb) \<leftarrow> Dequeue r1 1;
     let randKey = (case kb of [] \<Rightarrow> 0 | b # _ \<Rightarrow> b);
     (case alloc of
        None \<Rightarrow> Some (r2, Rejected PacketMemoryPoolError)
      | Some pooled \<Rightarrow> do {
          let pPacket = (Packet_Init pooled)\<lparr>mSessionID := sid\<rparr>;
          let encryptedLen = 1 + dataLen;
          (r3, enc) \<leftarrow> Dequeue r2 encryptedLen;
          st1 \<leftarrow> memcpy (mStorage pPacket) 4 enc;
          cipher \<leftarrow> memread st1 4 encryptedLen;
          st2 \<leftarrow> memcpy st1 4 (Decode randKey cipher);
          received \<leftarrow> memread st2 4 1;
          payload \<leftarrow> memread st2 5 dataLen;
          if hd received \<noteq> CalculateCheckSum payload then Some (r3, Rejected CheckSumError)
          else Some (r3, Frame (MoveReadPos (SetDataSize (pPacket\<lparr>mStorage := st2\<rparr>) (5 + dataLen)) 5))
        })
   }"

definition parse_frame :: "u64 \<Rightarrow> packet option \<Rightarrow> u8 ring \<Rightarrow> (u8 ring \<times> frame_result) option" where
  "parse_frame sid alloc r =
     (if GetUseSize r < 3 then Some (r, Incomplete)
      else do {
        header \<leftarrow> Peek r 3;
        let dataCode = header ! 0;
        let dataLen = uint (le_word (take 2 (drop 1 header)) :: u16);
        let totalPacketSize = 3 + 1 + 1 + dataLen;
        if dataCode \<noteq> PACKET_CODE then Some (r, Rejected InvalidPacketCode)
        else if dataLen = 0 then Some (r, Rejected ZeroLength)
        else if dataLen > BUFFER_DEFAULT - 5 then Some (r, Rejected ExceedsPacket)
        else if totalPacketSize > GetBufferSize r then Some (r, Rejected Oversize)
        else if GetUseSize r < totalPacketSize then Some (r, Incomplete)
        else parse_body sid alloc r dataLen
      })"

datatype 'a outcome = OutOfFuel | Fault | Done 'a

text \<open>
  The parse loop: the ring afterwards, the packets handed to \<open>OnRecv\<close> in order, and the parse
  error if there was one. \<open>alloc k\<close> is the result of the \<open>k\<close>-th allocation; \<open>Fault\<close> is an access
  outside a buffer.
\<close>

fun parse_loop :: "nat \<Rightarrow> u64 \<Rightarrow> (nat \<Rightarrow> packet option) \<Rightarrow> nat \<Rightarrow> u8 ring
    \<Rightarrow> (u8 ring \<times> packet list \<times> parse_error option) outcome" where
  "parse_loop 0 sid alloc k r = OutOfFuel"
| "parse_loop (Suc fuel) sid alloc k r =
     (case parse_frame sid (alloc k) r of
        None \<Rightarrow> Fault
      | Some (r', Incomplete) \<Rightarrow> Done (r', [], None)
      | Some (r', Rejected e) \<Rightarrow> Done (r', [], Some e)
      | Some (r', Frame p) \<Rightarrow>
          (case parse_loop fuel sid alloc (Suc k) r' of
             Done (r'', ps, e) \<Rightarrow> Done (r'', p # ps, e)
           | other \<Rightarrow> other))"

text \<open>
  The RECV completion: \<open>d\<close> is the array of the ring after the kernel filled its segments with
  \<open>cbTransferred\<close> bytes.
\<close>

definition recv_completion :: "nat \<Rightarrow> u64 \<Rightarrow> (nat \<Rightarrow> packet option) \<Rightarrow> nat \<Rightarrow> u8 ring \<Rightarrow> u8 list \<Rightarrow> int
    \<Rightarrow> (u8 ring \<times> packet list \<times> parse_error option) outcome" where
  "recv_completion fuel sid alloc k r d cbTransferred =
     parse_loop fuel sid alloc k (fst (MoveRear (r\<lparr>rb_data := d\<rparr>) cbTransferred))"

section \<open>The specification: parsing a byte stream\<close>

definition frame_len :: "bytes \<Rightarrow> nat" where
  "frame_len bs = unat (le_word (take 2 (drop 1 bs)) :: u16)"

definition header_error :: "int \<Rightarrow> bytes \<Rightarrow> parse_error option" where
  "header_error cap bs =
     (if hd bs \<noteq> PACKET_CODE then Some InvalidPacketCode
      else if frame_len bs = 0 then Some ZeroLength
      else if int (frame_len bs) > BUFFER_DEFAULT - 5 then Some ExceedsPacket
      else if 5 + int (frame_len bs) > cap then Some Oversize
      else None)"

definition frame_plain :: "bytes \<Rightarrow> bytes" where
  "frame_plain bs = Decode (bs ! 3) (take (1 + frame_len bs) (drop 4 bs))"

function stream_parse :: "int \<Rightarrow> bytes \<Rightarrow> bytes list \<times> bytes \<times> parse_error option" where
  "stream_parse cap bs =
     (if length bs < 3 then ([], bs, None)
      else case header_error cap bs of
        Some e \<Rightarrow> ([], bs, Some e)
      | None \<Rightarrow>
          if length bs < 5 + frame_len bs then ([], bs, None)
          else if hd (frame_plain bs) \<noteq> CalculateCheckSum (tl (frame_plain bs))
          then ([], drop (5 + frame_len bs) bs, Some CheckSumError)
          else (case stream_parse cap (drop (5 + frame_len bs) bs) of
                  (ps, rest, e) \<Rightarrow> (tl (frame_plain bs) # ps, rest, e)))"
  by pat_completeness auto
termination by (relation "measure (\<lambda>(cap, bs). length bs)") auto

declare stream_parse.simps [simp del]

lemma stream_parse_cases [case_names short bad wait checksum frame]:
  assumes "length bs < 3 \<Longrightarrow> stream_parse cap bs = ([], bs, None) \<Longrightarrow> P"
    and "\<And>e. 3 \<le> length bs \<Longrightarrow> header_error cap bs = Some e \<Longrightarrow> stream_parse cap bs = ([], bs, Some e) \<Longrightarrow> P"
    and "3 \<le> length bs \<Longrightarrow> header_error cap bs = None \<Longrightarrow> length bs < 5 + frame_len bs \<Longrightarrow>
      stream_parse cap bs = ([], bs, None) \<Longrightarrow> P"
    and "3 \<le> length bs \<Longrightarrow> header_error cap bs = None \<Longrightarrow> 5 + frame_len bs \<le> length bs \<Longrightarrow>
      hd (frame_plain bs) \<noteq> CalculateCheckSum (tl (frame_plain bs)) \<Longrightarrow>
      stream_parse cap bs = ([], drop (5 + frame_len bs) bs, Some CheckSumError) \<Longrightarrow> P"
    and "\<And>ps rest e. 3 \<le> length bs \<Longrightarrow> header_error cap bs = None \<Longrightarrow> 5 + frame_len bs \<le> length bs \<Longrightarrow>
      hd (frame_plain bs) = CalculateCheckSum (tl (frame_plain bs)) \<Longrightarrow>
      stream_parse cap (drop (5 + frame_len bs) bs) = (ps, rest, e) \<Longrightarrow>
      stream_parse cap bs = (tl (frame_plain bs) # ps, rest, e) \<Longrightarrow> P"
  shows P
proof (cases "length bs < 3")
  case True
  then show ?thesis using assms(1) by (simp add: stream_parse.simps [of cap bs])
next
  case False
  note len = this
  show ?thesis
  proof (cases "header_error cap bs")
    case None
    obtain ps rest e where rec: "stream_parse cap (drop (5 + frame_len bs) bs) = (ps, rest, e)"
      by (cases "stream_parse cap (drop (5 + frame_len bs) bs)") auto
    show ?thesis
      using len None rec assms(3,4) assms(5) [of ps rest e]
      by (simp add: stream_parse.simps [of cap bs] split: if_splits) (metis not_less)
  next
    case (Some e)
    then show ?thesis using len assms(2) by (simp add: stream_parse.simps [of cap bs])
  qed
qed

lemma frame_len_append: "3 \<le> length bs \<Longrightarrow> frame_len (bs @ cs) = frame_len bs"
  by (simp add: frame_len_def drop_append)

lemma header_error_append: "3 \<le> length bs \<Longrightarrow> header_error cap (bs @ cs) = header_error cap bs"
  by (cases bs) (auto simp: header_error_def frame_len_append simp del: append_Cons)

lemma frame_plain_append:
  "3 \<le> length bs \<Longrightarrow> 5 + frame_len bs \<le> length bs \<Longrightarrow> frame_plain (bs @ cs) = frame_plain bs"
  by (simp add: frame_plain_def frame_len_append nth_append)

text \<open>Parsing a prefix first and its unconsumed rest later gives the same frames.\<close>

lemma stream_parse_append:
  "stream_parse cap bs = (ps, rest, None) \<Longrightarrow>
   stream_parse cap (bs @ cs) = (case stream_parse cap (rest @ cs) of (qs, rest', e) \<Rightarrow> (ps @ qs, rest', e))"
proof (induction cap bs arbitrary: ps rest rule: stream_parse.induct)
  case (1 cap bs)
  show ?case
  proof (cases cap bs rule: stream_parse_cases)
    case (frame qs rest1 e1)
    then have e: "ps = tl (frame_plain bs) # qs" "rest = rest1" "e1 = None" using "1.prems" by auto
    have l: "\<not> length bs < 3" "\<not> length bs < 5 + frame_len bs" using frame by auto
    note IH = "1.IH" [OF l(1) frame(2) l(2), of qs rest1]
    show ?thesis using frame e l IH
      by (simp add: stream_parse.simps [of cap "bs @ cs"] frame_len_append header_error_append
          frame_plain_append split: prod.splits)
  qed (use "1.prems" in \<open>auto split: prod.splits\<close>)
qed

lemma stream_parse_append_error:
  "stream_parse cap bs = (ps, rest, Some e) \<Longrightarrow>
   \<exists>rest'. stream_parse cap (bs @ cs) = (ps, rest', Some e)"
proof (induction cap bs arbitrary: ps rest rule: stream_parse.induct)
  case (1 cap bs)
  show ?case
  proof (cases cap bs rule: stream_parse_cases)
    case (frame qs rest1 e1)
    then have e: "ps = tl (frame_plain bs) # qs" "rest = rest1" "e1 = Some e" using "1.prems" by auto
    have l: "\<not> length bs < 3" "\<not> length bs < 5 + frame_len bs" using frame by auto
    obtain r2 where "stream_parse cap (drop (5 + frame_len bs) bs @ cs) = (qs, r2, Some e)"
      using "1.IH" [OF l(1) frame(2) l(2), of qs rest1] frame(4,5) e by auto
    then show ?thesis using frame e l
      by (simp add: stream_parse.simps [of cap "bs @ cs"] frame_len_append header_error_append
          frame_plain_append)
  next
    case bad
    then show ?thesis using "1.prems"
      by (simp add: stream_parse.simps [of cap "bs @ cs"] header_error_append)
  next
    case checksum
    then show ?thesis using "1.prems"
      by (simp add: stream_parse.simps [of cap "bs @ cs"] header_error_append frame_len_append frame_plain_append)
  qed (use "1.prems" in auto)
qed

text \<open>What is left without an error is shorter than the largest frame.\<close>

lemma stream_parse_rest:
  "stream_parse cap bs = (ps, rest, None) \<Longrightarrow> int (length rest) < BUFFER_DEFAULT \<and> length rest \<le> length bs"
proof (induction cap bs arbitrary: ps rest rule: stream_parse.induct)
  case (1 cap bs)
  show ?case
  proof (cases cap bs rule: stream_parse_cases)
    case (frame qs rest1 e1)
    have l: "\<not> length bs < 3" "\<not> length bs < 5 + frame_len bs" using frame by auto
    with "1.IH" [OF l(1) frame(2) l(2), of qs rest1] frame "1.prems" show ?thesis by auto
  next
    case wait
    then show ?thesis using "1.prems" by (auto simp: header_error_def split: if_splits)
  qed (use "1.prems" in \<open>auto simp: BUFFER_DEFAULT_def\<close>)
qed

section \<open>The parse loop implements the specification\<close>

text \<open>\<open>carries sid payload p\<close>: the packet \<open>p\<close> is what \<open>OnRecv\<close> expects for \<open>payload\<close>.\<close>

definition carries :: "u64 \<Rightarrow> bytes \<Rightarrow> packet \<Rightarrow> bool" where
  "carries sid payload p \<longleftrightarrow>
     packet_ok p \<and> capacity p = BUFFER_DEFAULT \<and> mSessionID p = sid \<and> mReadPos p = 5 \<and>
     unread p = payload \<and> mRefCnt p = 1 \<and> \<not> mIsEncoding p"

definition pooled_ok :: "packet option \<Rightarrow> bool" where
  "pooled_ok a \<longleftrightarrow> (\<exists>p. a = Some p \<and> capacity p = BUFFER_DEFAULT)"

lemma parse_frame_eq:
  assumes "ring_ok r"
  defines "bs \<equiv> contents r"
  shows "parse_frame sid a r =
    (if length bs < 3 then Some (r, Incomplete)
     else case header_error (GetBufferSize r) bs of
       Some e \<Rightarrow> Some (r, Rejected e)
     | None \<Rightarrow> if length bs < 5 + frame_len bs then Some (r, Incomplete)
              else parse_body sid a r (int (frame_len bs)))"
proof (cases "length bs < 3")
  case True
  then show ?thesis using length_contents [OF assms(1)] by (simp add: parse_frame_def bs_def)
next
  case False
  have u: "GetUseSize r = int (length bs)" using length_contents [OF assms(1)] by (simp add: bs_def)
  have hd: "take 3 bs ! 0 = hd bs" using False by (cases bs) auto
  have len: "uint (le_word (take 2 (drop 1 (take 3 bs))) :: u16) = int (frame_len bs)"
    by (simp add: frame_len_def drop_take)
  have peek: "Peek r 3 = Some (take 3 bs)" by (simp add: Peek_spec [OF assms(1)] bs_def)
  have "parse_frame sid a r =
    (if hd bs \<noteq> PACKET_CODE then Some (r, Rejected InvalidPacketCode)
     else if int (frame_len bs) = 0 then Some (r, Rejected ZeroLength)
     else if int (frame_len bs) > BUFFER_DEFAULT - 5 then Some (r, Rejected ExceedsPacket)
     else if 3 + 1 + 1 + int (frame_len bs) > GetBufferSize r then Some (r, Rejected Oversize)
     else if GetUseSize r < 3 + 1 + 1 + int (frame_len bs) then Some (r, Incomplete)
     else parse_body sid a r (int (frame_len bs)))"
    using False unfolding parse_frame_def peek Let_def bind.simps len hd u by simp
  then show ?thesis using False u by (auto simp: header_error_def)
qed

text \<open>The copies of a complete frame stay inside the ring and inside the packet's buffer.\<close>

lemma decode_in_packet:
  assumes "length st = 2048" and "length enc = Suc n" and "n \<le> 2043"
  shows "memcpy st 4 enc = Some (overwrite st 4 enc)"
    and "memread (overwrite st 4 enc) 4 (1 + int n) = Some enc"
    and "memcpy (overwrite st 4 enc) 4 (Decode k enc) = Some (overwrite st 4 (Decode k enc))"
    and "memread (overwrite st 4 (Decode k enc)) 4 1 = Some [hd (Decode k enc)]"
    and "memread (overwrite st 4 (Decode k enc)) 5 (int n) = Some (tl (Decode k enc))"
proof -
  obtain d ds where dk: "Decode k enc = d # ds" and ds: "length ds = n"
    using assms(2) length_Decode [of k enc] by (cases "Decode k enc") auto
  have s5: "drop (Suc (Suc (Suc (Suc 0)))) st = drop 4 st" by (simp add: eval_nat_numeral)
  show "memcpy st 4 enc = Some (overwrite st 4 enc)" using assms by (simp add: mem_simps)
  show "memread (overwrite st 4 enc) 4 (1 + int n) = Some enc"
    using assms by (simp add: memread_def overwrite_def nat_add_distrib)
  show "memcpy (overwrite st 4 enc) 4 (Decode k enc) = Some (overwrite st 4 (Decode k enc))"
    using assms by (simp add: memcpy_def overwrite_def)
  show "memread (overwrite st 4 (Decode k enc)) 4 1 = Some [hd (Decode k enc)]"
    using assms dk ds by (simp add: memread_def overwrite_def)
  show "memread (overwrite st 4 (Decode k enc)) 5 (int n) = Some (tl (Decode k enc))"
    using assms dk ds by (simp add: memread_def overwrite_def)
qed

lemma carries_built:
  assumes "capacity pooled = BUFFER_DEFAULT" and "length plain = Suc n" and "n \<le> 2043"
  shows "carries sid (tl plain) (MoveReadPos (SetDataSize
    ((Packet_Init pooled)\<lparr>mSessionID := sid, mStorage := overwrite (mStorage pooled) 4 plain\<rparr>) (5 + int n)) 5)"
proof -
  obtain d ds where dk: "plain = d # ds" and ds: "length ds = n"
    using assms(2) by (cases plain) auto
  have l: "length (mStorage pooled) = 2048" using assms(1) by (simp add: capacity_def BUFFER_DEFAULT_def)
  have "drop 5 (take (5 + n) (overwrite (mStorage pooled) 4 plain)) = ds"
    using l dk ds assms(3) by (simp add: overwrite_def drop_take)
  then show ?thesis using l assms(3) dk ds
    by (simp add: carries_def SetDataSize_def MoveReadPos_def capacity_def BUFFER_DEFAULT_def packet_ok_def
        unread_def written_def Packet_Init_def Packet_Clear_def nat_add_distrib)
qed

lemma parse_body_spec:
  assumes "ring_ok r" and "pooled_ok a" and "3 \<le> length (contents r)"
    and "header_error (GetBufferSize r) (contents r) = None"
    and "5 + frame_len (contents r) \<le> length (contents r)"
  shows "\<exists>r'. ring_ok r' \<and> contents r' = drop (5 + frame_len (contents r)) (contents r) \<and>
     GetBufferSize r' = GetBufferSize r \<and>
     (if hd (frame_plain (contents r)) \<noteq> CalculateCheckSum (tl (frame_plain (contents r)))
      then parse_body sid a r (int (frame_len (contents r))) = Some (r', Rejected CheckSumError)
      else \<exists>p. carries sid (tl (frame_plain (contents r))) p \<and>
             parse_body sid a r (int (frame_len (contents r))) = Some (r', Frame p))"
proof -
  let ?bs = "contents r" let ?n = "frame_len ?bs"
  obtain pooled where a: "a = Some pooled" and cap: "capacity pooled = BUFFER_DEFAULT"
    using assms(2) by (auto simp: pooled_ok_def)
  have l: "length (mStorage pooled) = 2048" using cap by (simp add: capacity_def BUFFER_DEFAULT_def)
  have h: "hd ?bs = PACKET_CODE" "0 < ?n" "?n \<le> 2043" "5 + int ?n \<le> GetBufferSize r"
    using assms(4) by (auto simp: header_error_def BUFFER_DEFAULT_def split: if_splits)
  define r1 where "r1 = skip_front r 3"
  define r2 where "r2 = skip_front r1 1"
  define r3 where "r3 = skip_front r2 (Suc ?n)"
  have r1: "ring_ok r1" "contents r1 = drop 3 ?bs" "GetBufferSize r1 = GetBufferSize r"
    using skip_front_ok [OF assms(1), of 3] assms(3) by (auto simp: r1_def)
  have r2: "ring_ok r2" "contents r2 = drop 4 ?bs" "GetBufferSize r2 = GetBufferSize r"
    using skip_front_ok [OF r1(1), of 1] r1 assms(5) by (auto simp: r2_def)
  have r3: "ring_ok r3" "contents r3 = drop (5 + ?n) ?bs" "GetBufferSize r3 = GetBufferSize r"
    using skip_front_ok [OF r2(1), of "Suc ?n"] r2 assms(5) by (auto simp: r3_def)
  define enc where "enc = take (Suc ?n) (drop 4 ?bs)"
  have enc: "length enc = Suc ?n" using assms(5) by (simp add: enc_def)
  have "drop 3 ?bs = ?bs ! 3 # drop 4 ?bs"
    using assms(5) Cons_nth_drop_Suc [of 3 ?bs] by simp
  then have k: "Dequeue r1 1 = Some (r2, [?bs ! 3])"
    using r1(2) assms(5) by (simp add: Dequeue_spec [OF r1(1)] r2_def)
  have deq: "Dequeue r2 (1 + int ?n) = Some (r3, enc)"
    using r2(2) assms(5) by (simp add: Dequeue_spec [OF r2(1)] r3_def enc_def nat_add_distrib)
  have mf: "fst (MoveFront r 3) = r1"
    using assms(3) by (simp add: MoveFront_spec [OF assms(1)] r1_def)
  have plain: "Decode (?bs ! 3) enc = frame_plain ?bs" by (simp add: frame_plain_def enc_def)
  note cp = decode_in_packet(1,2) [OF l enc h(3)]
    decode_in_packet(3-5) [OF l enc h(3), where k = "?bs ! 3", unfolded plain]
  have body: "parse_body sid a r (int ?n) =
    (if hd (frame_plain ?bs) \<noteq> CalculateCheckSum (tl (frame_plain ?bs)) then Some (r3, Rejected CheckSumError)
     else Some (r3, Frame (MoveReadPos (SetDataSize ((Packet_Init pooled)\<lparr>mSessionID := sid,
            mStorage := overwrite (mStorage pooled) 4 (frame_plain ?bs)\<rparr>) (5 + int ?n)) 5)))"
    by (simp add: parse_body_def Let_def mf k deq a Packet_Init_fields cp plain)
  have "carries sid (tl (frame_plain ?bs)) (MoveReadPos (SetDataSize ((Packet_Init pooled)\<lparr>mSessionID := sid,
            mStorage := overwrite (mStorage pooled) 4 (frame_plain ?bs)\<rparr>) (5 + int ?n)) 5)"
    by (rule carries_built [OF cap _ h(3)]) (simp add: plain [symmetric] enc)
  then show ?thesis using r3 body by (intro exI [of _ r3]) auto
qed

text \<open>The parse loop computes \<open>stream_parse\<close> of the stored bytes.\<close>

lemma parse_loop_spec:
  assumes "ring_ok r" and "\<And>i. pooled_ok (alloc i)" and "length (contents r) < fuel"
    and "stream_parse (GetBufferSize r) (contents r) = (payloads, rest, e)"
  shows "\<exists>r' ps. parse_loop fuel sid alloc k r = Done (r', ps, e) \<and> ring_ok r' \<and> contents r' = rest \<and>
     GetBufferSize r' = GetBufferSize r \<and> list_all2 (carries sid) payloads ps"
  using assms(1,3,4)
proof (induction fuel arbitrary: r k payloads)
  case 0
  then show ?case by simp
next
  case (Suc fuel)
  let ?cap = "GetBufferSize r" and ?bs = "contents r"
  note eq = parse_frame_eq [OF Suc.prems(1), of sid "alloc k"]
  show ?case
  proof (cases ?cap ?bs rule: stream_parse_cases)
    case checksum
    with parse_body_spec [OF Suc.prems(1) assms(2), of sid k] obtain r' where
      "ring_ok r'" "contents r' = drop (5 + frame_len ?bs) ?bs" "GetBufferSize r' = ?cap"
      "parse_body sid (alloc k) r (int (frame_len ?bs)) = Some (r', Rejected CheckSumError)"
      by auto
    with checksum eq Suc.prems(3) show ?thesis by auto
  next
    case (frame ps1 rest1 e1)
    with parse_body_spec [OF Suc.prems(1) assms(2), of sid k] obtain r1 p where r1:
      "ring_ok r1" "contents r1 = drop (5 + frame_len ?bs) ?bs" "GetBufferSize r1 = ?cap"
      "carries sid (tl (frame_plain ?bs)) p"
      "parse_body sid (alloc k) r (int (frame_len ?bs)) = Some (r1, Frame p)"
      by auto
    have e: "payloads = tl (frame_plain ?bs) # ps1" "rest = rest1" "e = e1"
      using frame Suc.prems(3) by auto
    have "length (contents r1) < fuel" using r1(2) frame(1) Suc.prems(2) by auto
    from Suc.IH [OF r1(1) this, of ps1 "Suc k"] r1 frame(5) e obtain r2 ps where
      "parse_loop fuel sid alloc (Suc k) r1 = Done (r2, ps, e)" "ring_ok r2" "contents r2 = rest"
      "GetBufferSize r2 = ?cap" "list_all2 (carries sid) ps1 ps" by auto
    with frame r1 eq e show ?thesis by auto
  qed (use Suc.prems eq in auto)
qed

section \<open>Encoded frames\<close>

text \<open>The bytes on the wire for a payload under a given random key.\<close>

definition frame_bytes :: "u8 \<Rightarrow> bytes \<Rightarrow> bytes" where
  "frame_bytes key payload =
     PACKET_CODE # le_bytes 2 (of_nat (length payload) :: u16) @
     key # Encode key (CalculateCheckSum payload # payload)"

definition payload_ok :: "bytes \<Rightarrow> bool" where
  "payload_ok payload \<longleftrightarrow> payload \<noteq> [] \<and> int (length payload) \<le> BUFFER_DEFAULT - 5"

lemma le_bytes_2: "le_bytes 2 w = [ucast w, ucast (drop_bit 8 w)]"
  by (simp add: le_bytes_def numeral_2_eq_2)

lemma length_frame_bytes [simp]: "length (frame_bytes key payload) = 5 + length payload"
  by (simp add: frame_bytes_def)

lemma frame_len_frame_bytes:
  assumes "payload_ok payload"
  shows "frame_len (frame_bytes key payload @ rest) = length payload"
proof -
  have "take 2 (drop 1 (frame_bytes key payload @ rest)) = le_bytes 2 (of_nat (length payload) :: u16)"
    by (simp add: frame_bytes_def)
  then have "frame_len (frame_bytes key payload @ rest) = unat (of_nat (length payload) :: u16)"
    by (simp add: frame_len_def le_word_le_bytes)
  then show ?thesis using assms by (simp add: payload_ok_def BUFFER_DEFAULT_def unat_of_nat)
qed

lemma stream_parse_frame:
  assumes "payload_ok payload" and "BUFFER_DEFAULT \<le> cap"
  shows "stream_parse cap (frame_bytes key payload @ rest) =
    (case stream_parse cap rest of (ps, rest', e) \<Rightarrow> (payload # ps, rest', e))"
proof -
  let ?bs = "frame_bytes key payload @ rest"
  note len = frame_len_frame_bytes [OF assms(1), of key rest]
  have he: "header_error cap ?bs = None"
    unfolding header_error_def len using assms
    by (simp add: frame_bytes_def payload_ok_def BUFFER_DEFAULT_def)
  have four: "?bs ! 3 = key" "take (1 + length payload) (drop 4 ?bs) = Encode key (CalculateCheckSum payload # payload)"
    by (simp_all add: frame_bytes_def le_bytes_2)
  have plain: "frame_plain ?bs = CalculateCheckSum payload # payload"
    unfolding frame_plain_def len four by (simp add: Decode_Encode)
  have d: "drop (5 + length payload) ?bs = rest" by simp
  show ?thesis
    by (subst stream_parse.simps) (simp only: he len plain d, simp)
qed

text \<open>The wire format is a framed stream, for the packets of a server whose receive ring is large enough.\<close>

interpretation wire: framed_stream "stream_parse cap" None "\<lambda>(key, payload). frame_bytes key payload" snd
    "\<lambda>(key, payload). payload_ok payload \<and> BUFFER_DEFAULT \<le> cap" for cap
proof unfold_locales
  show "stream_parse cap (bs @ cs) = (case stream_parse cap (rest @ cs) of (qs, r, e) \<Rightarrow> (ps @ qs, r, e))"
    if "stream_parse cap bs = (ps, rest, None)" for bs ps rest cs
    by (rule stream_parse_append [OF that])
  show "\<exists>r. stream_parse cap (bs @ cs) = (ps, r, e)" if "stream_parse cap bs = (ps, rest, e)" "e \<noteq> None" for bs ps rest cs e
    using stream_parse_append_error that by (cases e) auto
  show "stream_parse cap [] = ([], [], None)" by (simp add: stream_parse.simps)
qed (auto simp: stream_parse_frame)

lemma drop_5: "drop (5 + n) (a # b # c # d # e # xs) = drop n xs"
  using drop_drop [of n 5 "a # b # c # d # e # xs"] by (simp add: add.commute)

lemma take_5: "take (5 + n) (a # b # c # d # e # xs) = a # b # c # d # e # take n xs"
  using take_add [of 5 n "a # b # c # d # e # xs"] by simp

text \<open>What \<open>SendPacket\<close> puts into the buffer is the frame of the payload.\<close>

lemma encode_packet_spec:
  fixes s :: u32
  assumes "packet_ok p" and "capacity p = BUFFER_DEFAULT" and "\<not> mIsEncoding p" and "5 \<le> mDataSize p"
  defines "key \<equiv> ucast (xorshift s AND 0xFF) :: u8"
  shows "\<exists>p'. encode_packet p s = Some (p', xorshift s) \<and> written p' = frame_bytes key (drop 5 (written p)) \<and>
     packet_ok p' \<and> mIsEncoding p' \<and> mDataSize p' = mDataSize p \<and> mRefCnt p' = mRefCnt p \<and> capacity p' = capacity p"
proof -
  define n where "n = nat (mDataSize p) - 5"
  have d: "mDataSize p = 5 + int n" "length (mStorage p) = 2048" "n \<le> 2043"
    using assms by (auto simp: n_def capacity_def BUFFER_DEFAULT_def packet_ok_def)
  obtain c l0 l1 k h ys where st: "mStorage p = c # l0 # l1 # k # h # ys" and ys: "length ys = 2043"
  proof -
    have "5 \<le> length (mStorage p)" using d by simp
    then obtain c l0 l1 k h ys where "mStorage p = c # l0 # l1 # k # h # ys"
      by (auto simp: Suc_le_length_iff numeral_eq_Suc)
    with d that show ?thesis by simp
  qed
  define pl where "pl = take n ys"
  have "nat (mDataSize p) = Suc (Suc (Suc (Suc (Suc n))))" using d(1) by simp
  then have w: "written p = c # l0 # l1 # k # h # pl"
    using st by (simp add: written_def pl_def)
  have pl: "length pl = n" "ys = pl @ drop n ys" using ys d by (auto simp: pl_def)
  define enc where "enc = Encode key (CalculateCheckSum pl # pl)"
  have "length enc = Suc n" using pl(1) by (simp add: enc_def)
  then obtain e es where e: "enc = e # es" "length es = n" by (cases enc) auto
  have m1: "memread (mStorage p) 5 (max 0 (mDataSize p - 5)) = Some pl"
    using d st ys by (simp add: memread_def pl_def)
  have m2: "memcpy (mStorage p) 4 [x] = Some (c # l0 # l1 # k # x # ys)" for x
    using st by (simp add: memcpy_def)
  have m3: "memread (c # l0 # l1 # k # x # ys) 4 (max 0 (1 + (mDataSize p - 5))) = Some (x # pl)" for x
    using d ys by (simp add: memread_def pl_def nat_add_distrib)
  have m4: "memcpy (c # l0 # l1 # k # x # ys) 4 enc = Some (c # l0 # l1 # k # e # es @ drop n ys)" for x
    using d ys e by (simp add: memcpy_def drop_5)
  have word: "(word_of_int (mDataSize p - 5) :: u16) = of_nat n" using d by simp
  have st5: "\<exists>st5. encode_packet p s = Some (p\<lparr>mStorage := st5, mIsEncoding := True\<rparr>, xorshift s) \<and>
      st5 = PACKET_CODE # le_bytes 2 (of_nat n :: u16) @ key # e # es @ drop n ys"
    unfolding encode_packet_def Let_def word key_def [symmetric] m1 bind.simps m2 m3 enc_def [symmetric] m4
    using assms(3) by (simp add: memcpy_def le_bytes_2)
  then show ?thesis
    using assms(1,2) d e pl(1) ys w
    by (auto simp: written_def frame_bytes_def enc_def [symmetric] packet_ok_def capacity_def
        BUFFER_DEFAULT_def le_bytes_2 nat_add_distrib take_5)
qed

section \<open>Receiving a TCP stream\<close>

text \<open>
  \<open>recv_stream\<close>: the sequence of RECV completions of one session. The peer's byte stream is
  \<open>stream\<close>; the \<open>i\<close>-th completion transfers at most \<open>ns ! i\<close> bytes, never more than the posted
  segments hold, and \<open>wsarecv r c\<close> is the array of the ring \<open>r\<close> after the kernel stored the
  bytes \<open>c\<close>. The results are those of the last completion, the packets of all of them, and
  what was not received yet. A completion of zero bytes is the peer's close.
\<close>

fun recv_stream :: "(u8 ring \<Rightarrow> bytes \<Rightarrow> bytes) \<Rightarrow> nat \<Rightarrow> u64 \<Rightarrow> (nat \<Rightarrow> packet option) \<Rightarrow> nat \<Rightarrow> u8 ring \<Rightarrow> bytes
    \<Rightarrow> nat list \<Rightarrow> (u8 ring \<times> packet list \<times> parse_error option \<times> bytes) outcome" where
  "recv_stream wsarecv fuel sid alloc k r stream [] = Done (r, [], None, stream)"
| "recv_stream wsarecv fuel sid alloc k r stream (n # ns) =
     (let m = min n (nat (GetFreeSize r)); c = take m stream in
      if c = [] then Done (r, [], None, stream)
      else case recv_completion fuel sid alloc k r (wsarecv r c) (int (length c)) of
        Done (r', ps, Some e) \<Rightarrow> Done (r', ps, Some e, drop m stream)
      | Done (r', ps, None) \<Rightarrow>
          (case recv_stream wsarecv fuel sid alloc (k + length ps) r' (drop m stream) ns of
             Done (r'', qs, e, left) \<Rightarrow> Done (r'', ps @ qs, e, left)
           | other \<Rightarrow> other)
      | OutOfFuel \<Rightarrow> OutOfFuel
      | Fault \<Rightarrow> Fault)"

definition kernel_stores :: "(u8 ring \<Rightarrow> bytes \<Rightarrow> bytes) \<Rightarrow> bool" where
  "kernel_stores wsarecv \<longleftrightarrow>
     (\<forall>r c. ring_ok r \<and> c \<noteq> [] \<and> int (length c) \<le> GetFreeSize r \<longrightarrow> scattered r c (wsarecv r c))"

text \<open>A receive into the segments, for concrete runs.\<close>

definition store_segments :: "u8 ring \<Rightarrow> bytes \<Rightarrow> bytes" where
  "store_segments r xs =
     (case GetEnqueueSegments r of
        (n, (Some o0, l0), (Some o1, l1)) \<Rightarrow>
          overwrite (overwrite (rb_data r) (nat o0) (take (nat l0) xs)) (nat o1) (drop (nat l0) xs)
      | (n, (Some o0, l0), (None, l1)) \<Rightarrow> overwrite (rb_data r) (nat o0) xs
      | _ \<Rightarrow> rb_data r)"

lemma kernel_stores_segments: "kernel_stores store_segments"
  unfolding kernel_stores_def
proof (intro allI impI, elim conjE)
  fix r :: "u8 ring" and c :: bytes
  assume "ring_ok r" and c: "c \<noteq> []" and l: "int (length c) \<le> GetFreeSize r"
  then have "0 < GetFreeSize r" by (cases c) auto
  with l show "scattered r c (store_segments r c)"
    by (auto simp: scattered_def store_segments_def GetEnqueueSegments_def Let_def)
qed

lemma recv_completion_spec:
  assumes "kernel_stores wsarecv" and "ring_ok r" and "c \<noteq> []" and "int (length c) \<le> GetFreeSize r"
    and "\<And>i. pooled_ok (alloc i)" and "nat (GetBufferSize r) < fuel"
    and "stream_parse (GetBufferSize r) (contents r @ c) = (payloads, rest, e)"
  shows "\<exists>r' ps. recv_completion fuel sid alloc k r (wsarecv r c) (int (length c)) = Done (r', ps, e) \<and>
     ring_ok r' \<and> contents r' = rest \<and> GetBufferSize r' = GetBufferSize r \<and> list_all2 (carries sid) payloads ps"
proof -
  from assms have sc: "scattered r c (wsarecv r c)" by (auto simp: kernel_stores_def)
  note st = store_rear_ok [OF assms(2,4)]
  have "length (contents (store_rear r c)) < fuel"
    using contents_bound [OF st(1)] st(3) assms(6) by linarith
  from parse_loop_spec [of "store_rear r c" alloc fuel payloads rest e sid k, OF st(1) assms(5) this]
  show ?thesis using st assms(7)
    by (simp add: recv_completion_def scattered_MoveRear(1) [OF assms(2) sc])
qed

lemma recv_stream_spec:
  assumes "kernel_stores wsarecv" and "ring_ok r" and "\<And>i. pooled_ok (alloc i)" and "nat (GetBufferSize r) < fuel"
    and "stream_parse (GetBufferSize r) (contents r) = ([], contents r, None)"
  shows "\<exists>r' ps e got left rest payloads.
     recv_stream wsarecv fuel sid alloc k r stream ns = Done (r', ps, e, left) \<and> stream = got @ left \<and>
     stream_parse (GetBufferSize r) (contents r @ got) = (payloads, rest, e) \<and>
     list_all2 (carries sid) payloads ps \<and> ring_ok r' \<and> (e = None \<longrightarrow> contents r' = rest)"
  using assms(2,4,5)
proof (induction ns arbitrary: k r stream)
  case Nil
  then show ?case by auto
next
  case (Cons n ns)
  define m where "m = min n (nat (GetFreeSize r))"
  define c where "c = take m stream"
  have dc: "stream = c @ drop m stream" by (simp add: c_def)
  have step: "recv_stream wsarecv fuel sid alloc k r stream (n # ns) =
     (if c = [] then Done (r, [], None, stream)
      else case recv_completion fuel sid alloc k r (wsarecv r c) (int (length c)) of
        Done (r', ps, Some e) \<Rightarrow> Done (r', ps, Some e, drop m stream)
      | Done (r', ps, None) \<Rightarrow>
          (case recv_stream wsarecv fuel sid alloc (k + length ps) r' (drop m stream) ns of
             Done (r'', qs, e, left) \<Rightarrow> Done (r'', ps @ qs, e, left)
           | other \<Rightarrow> other)
      | OutOfFuel \<Rightarrow> OutOfFuel | Fault \<Rightarrow> Fault)"
    by (simp only: recv_stream.simps Let_def m_def [symmetric] c_def [symmetric])
  show ?case
  proof (cases "c = []")
    case True
    with Cons.prems step show ?thesis by auto
  next
    case False
    have "0 \<le> GetFreeSize r"
      using GetUseSize_bounds [OF Cons.prems(1)] by (simp add: GetFreeSize_def GetBufferSize_def)
    then have cl: "int (length c) \<le> GetFreeSize r" by (simp add: c_def m_def)
    obtain ps1 rest1 e1 where sp: "stream_parse (GetBufferSize r) (contents r @ c) = (ps1, rest1, e1)"
      by (cases "stream_parse (GetBufferSize r) (contents r @ c)") auto
    obtain r1 qs1 where rc: "recv_completion fuel sid alloc k r (wsarecv r c) (int (length c)) = Done (r1, qs1, e1)"
      "ring_ok r1" "contents r1 = rest1" "GetBufferSize r1 = GetBufferSize r" "list_all2 (carries sid) ps1 qs1"
      using recv_completion_spec [where alloc = alloc, OF assms(1) Cons.prems(1) False cl assms(3) Cons.prems(2) sp] by blast
    show ?thesis
    proof (cases e1)
      case (Some x)
      with step False rc sp show ?thesis
        by (intro exI [of _ r1] exI [of _ qs1] exI [of _ e1] exI [of _ c] exI [of _ "drop m stream"]
            exI [of _ rest1] exI [of _ ps1]) (simp add: dc [symmetric])
    next
      case None
      have stable: "stream_parse (GetBufferSize r1) (contents r1) = ([], contents r1, None)"
        using wire.cut_idem sp None rc(3,4) by simp
      from Cons.IH [OF rc(2) _ stable, of "k + length qs1" "drop m stream"] rc(4) Cons.prems(2)
      obtain r2 qs2 e2 got left rest2 ps2 where
        h: "recv_stream wsarecv fuel sid alloc (k + length qs1) r1 (drop m stream) ns = Done (r2, qs2, e2, left)"
        "drop m stream = got @ left" "stream_parse (GetBufferSize r1) (contents r1 @ got) = (ps2, rest2, e2)"
        "list_all2 (carries sid) ps2 qs2" "ring_ok r2" "e2 = None \<longrightarrow> contents r2 = rest2"
        by auto
      have "stream_parse (GetBufferSize r) ((contents r @ c) @ got) = (ps1 @ ps2, rest2, e2)"
        using stream_parse_append [OF sp [unfolded None], of got] h(3) rc(3,4) by simp
      moreover have "stream = (c @ got) @ left" using dc h(2) by simp
      moreover have "list_all2 (carries sid) (ps1 @ ps2) (qs1 @ qs2)"
        using rc(5) h(4) by (simp add: list_all2_appendI)
      ultimately show ?thesis using step False rc(1) None h
        by (intro exI [of _ r2] exI [of _ "qs1 @ qs2"] exI [of _ e2] exI [of _ "c @ got"] exI [of _ left]
            exI [of _ rest2] exI [of _ "ps1 @ ps2"]) simp
    qed
  qed
qed

section \<open>What the wire layer promises\<close>

definition RECV_RINGBUFFER_SIZE :: int where "RECV_RINGBUFFER_SIZE = 1024 * 4"

text \<open>
  C2. The parse loop of the RECV completion ends on every content of the receive ring, hostile or
  not, without an access outside the ring or the packet buffer, and computes exactly what the byte
  stream parser specifies: the payloads handed to OnRecv in order, each in a fresh packet of the
  session, the bytes left in the ring, and the parse error.
\<close>
theorem parse_loop_implements_stream_parse:
  assumes "ring_ok r" and "\<And>i. pooled_ok (alloc i)" and "length (contents r) < fuel"
    and "stream_parse (GetBufferSize r) (contents r) = (payloads, rest, e)"
  shows "\<exists>r' ps. parse_loop fuel sid alloc k r = Done (r', ps, e) \<and> ring_ok r' \<and> contents r' = rest \<and>
     GetBufferSize r' = GetBufferSize r \<and> list_all2 (carries sid) payloads ps"
  by (rule parse_loop_spec [OF assms])

text \<open>A receive ring holding one whole frame and two bytes of the next.\<close>

definition sample_alloc :: "nat \<Rightarrow> packet option" where
  "sample_alloc k = Some (new_Packet 2048)"

lemma sample_alloc_ok: "pooled_ok (sample_alloc i)"
  by (simp add: pooled_ok_def sample_alloc_def new_Packet_def capacity_def BUFFER_DEFAULT_def)

definition sample_ring :: "u8 ring" where
  "sample_ring = store_rear (new_RingBuffer RECV_RINGBUFFER_SIZE 0) (frame_bytes 7 [1, 2, 3] @ [PACKET_CODE, 9])"

lemma empty_recv_ring:
  "ring_ok (new_RingBuffer RECV_RINGBUFFER_SIZE (0 :: u8))" "contents (new_RingBuffer RECV_RINGBUFFER_SIZE (0 :: u8)) = []"
  "GetBufferSize (new_RingBuffer RECV_RINGBUFFER_SIZE (0 :: u8)) = 4096" "GetFreeSize (new_RingBuffer RECV_RINGBUFFER_SIZE (0 :: u8)) = 4096"
  using new_RingBuffer_ok [of RECV_RINGBUFFER_SIZE "0 :: u8"] GetFreeSize_eq [of "new_RingBuffer RECV_RINGBUFFER_SIZE (0 :: u8)"]
  by (simp_all add: RECV_RINGBUFFER_SIZE_def GetBufferSize_def new_RingBuffer_def)

lemma sample_ring_ok:
  "ring_ok sample_ring" "contents sample_ring = frame_bytes 7 [1, 2, 3] @ [PACKET_CODE, 9]"
  "GetBufferSize sample_ring = 4096"
  using store_rear_ok [OF empty_recv_ring(1), of "frame_bytes 7 [1, 2, 3] @ [PACKET_CODE, 9]"] empty_recv_ring
  by (simp_all add: sample_ring_def)

lemma sample_ring_parse:
  "stream_parse (GetBufferSize sample_ring) (contents sample_ring) = ([[1, 2, 3]], [PACKET_CODE, 9], None)"
  unfolding sample_ring_ok
  by (subst stream_parse_frame) (simp_all add: payload_ok_def BUFFER_DEFAULT_def stream_parse.simps)

theorem parse_loop_implements_stream_parse_witness:
  "\<exists>r' ps. parse_loop 20 42 sample_alloc 0 sample_ring = Done (r', ps, None) \<and> ring_ok r' \<and>
     contents r' = [PACKET_CODE, 9] \<and> GetBufferSize r' = GetBufferSize sample_ring \<and>
     list_all2 (carries 42) [[1, 2, 3]] ps"
  by (rule parse_loop_implements_stream_parse [OF sample_ring_ok(1) sample_alloc_ok _ sample_ring_parse])
    (simp add: sample_ring_ok(2))

text \<open>
  C1. End to end: when the peer sends encoded frames, then however TCP cuts the byte stream into
  completions, no frame is rejected, the packets handed to OnRecv carry the first payloads sent, in
  order and undamaged, and once every byte has arrived they carry all of them and the ring is empty.
\<close>
theorem segmented_stream_delivered:
  assumes "kernel_stores wsarecv" and "ring_ok r" and "contents r = []" and "BUFFER_DEFAULT \<le> GetBufferSize r"
    and "\<And>i. pooled_ok (alloc i)" and "nat (GetBufferSize r) < fuel"
    and "\<forall>(key, payload) \<in> set fs. payload_ok payload"
  shows "\<exists>r' ps left n. recv_stream wsarecv fuel sid alloc k r
       (concat (map (\<lambda>(key, payload). frame_bytes key payload) fs)) ns = Done (r', ps, None, left) \<and>
     list_all2 (carries sid) (take n (map snd fs)) ps \<and>
     (left = [] \<longrightarrow> list_all2 (carries sid) (map snd fs) ps \<and> contents r' = [])"
proof -
  let ?cap = "GetBufferSize r" and ?stream = "concat (map (\<lambda>(key, payload). frame_bytes key payload) fs)"
  have fits: "list_all (\<lambda>(key, payload). payload_ok payload \<and> BUFFER_DEFAULT \<le> ?cap) fs"
    using assms(4,7) by (auto simp: list_all_iff)
  have "stream_parse ?cap (contents r) = ([], contents r, None)" by (simp add: assms(3) stream_parse.simps)
  from recv_stream_spec [where alloc = alloc, OF assms(1,2,5,6) this] assms(3)
  obtain r' ps e got left rest payloads where h:
    "recv_stream wsarecv fuel sid alloc k r ?stream ns = Done (r', ps, e, left)" "?stream = got @ left"
    "stream_parse ?cap got = (payloads, rest, e)" "list_all2 (carries sid) payloads ps"
    "e = None \<longrightarrow> contents r' = rest"
    by (metis append_Nil)
  with wire.cut_arrived [OF fits h(2,3)] show ?thesis by (metis (no_types))
qed

theorem segmented_stream_delivered_witness:
  "\<exists>r' ps left n. recv_stream store_segments 5000 42 sample_alloc 0 (new_RingBuffer RECV_RINGBUFFER_SIZE 0)
       (concat (map (\<lambda>(key, payload). frame_bytes key payload) [(7, [1, 2, 3]), (9, [4])])) [2, 9, 100] = Done (r', ps, None, left) \<and>
     list_all2 (carries 42) (take n (map snd [(7 :: u8, [1, 2, 3]), (9, [4])])) ps \<and>
     (left = [] \<longrightarrow> list_all2 (carries 42) (map snd [(7 :: u8, [1, 2, 3]), (9, [4])]) ps \<and> contents r' = [])"
  by (rule segmented_stream_delivered [OF kernel_stores_segments])
    (simp_all add: empty_recv_ring sample_alloc_ok payload_ok_def BUFFER_DEFAULT_def)

text \<open>
  The encoding step of SendPacket turns a packet built behind the five reserved header bytes
  into the wire frame of its payload under the key drawn from the thread's generator, changing
  neither its size nor its reference count; a packet that is already encoded, as one broadcast to
  many sessions, is left alone.
\<close>
lemma encode_packet_frames:
  assumes "packet_ok p" and "capacity p = BUFFER_DEFAULT" and "5 \<le> mDataSize p"
  shows "\<exists>p'. encode_packet p s = Some (p', if mIsEncoding p then s else xorshift s) \<and>
     (if mIsEncoding p then p' = p
      else written p' = frame_bytes (ucast (xorshift s AND 0xFF)) (drop 5 (written p)) \<and> mIsEncoding p') \<and>
     mDataSize p' = mDataSize p \<and> mRefCnt p' = mRefCnt p \<and> encode_packet p' t = Some (p', t)"
proof (cases "mIsEncoding p")
  case True
  then show ?thesis by (simp add: encode_packet_def)
next
  case False
  from encode_packet_spec [OF assms(1,2) False assms(3), of s] show ?thesis
    using False by (auto simp: encode_packet_def [of _ t])
qed

text \<open>
  C6. The receive ring never stalls a session: after a RECV completion without a parse error, more
  than half of the ring is free, so the RingBufferFull branch of postRecv is not taken.
\<close>
theorem recv_ring_never_full:
  assumes "kernel_stores wsarecv" and "ring_ok r" and "GetBufferSize r = RECV_RINGBUFFER_SIZE"
    and "\<And>i. pooled_ok (alloc i)" and "nat RECV_RINGBUFFER_SIZE < fuel"
    and "c \<noteq> []" and "int (length c) \<le> GetFreeSize r"
    and "recv_completion fuel sid alloc k r (wsarecv r c) (int (length c)) = Done (r', ps, None)"
  shows "RECV_RINGBUFFER_SIZE < 2 * GetFreeSize r' \<and> fst (GetEnqueueSegments r') > 0"
proof -
  obtain payloads rest e where sp: "stream_parse (GetBufferSize r) (contents r @ c) = (payloads, rest, e)"
    by (cases "stream_parse (GetBufferSize r) (contents r @ c)") auto
  have f: "nat (GetBufferSize r) < fuel" using assms(3,5) by simp
  from recv_completion_spec [where alloc = alloc and sid = sid and k = k, OF assms(1,2,6,7,4) f sp] assms(3,8)
  have r': "ring_ok r'" "contents r' = rest" "GetBufferSize r' = RECV_RINGBUFFER_SIZE" "e = None" by auto
  have "int (length rest) < BUFFER_DEFAULT" using stream_parse_rest sp r'(4) by blast
  then have "RECV_RINGBUFFER_SIZE < 2 * GetFreeSize r'"
    using r' by (simp add: GetFreeSize_eq RECV_RINGBUFFER_SIZE_def BUFFER_DEFAULT_def)
  then show ?thesis by (auto simp: GetEnqueueSegments_def Let_def RECV_RINGBUFFER_SIZE_def)
qed

theorem recv_ring_never_full_witness:
  "\<exists>r'. RECV_RINGBUFFER_SIZE < 2 * GetFreeSize r' \<and>
     (\<exists>ps. recv_completion 5000 42 sample_alloc 0 (new_RingBuffer RECV_RINGBUFFER_SIZE 0)
        (store_segments (new_RingBuffer RECV_RINGBUFFER_SIZE 0) (frame_bytes 7 [1]))
        (int (length (frame_bytes 7 [1]))) = Done (r', ps, None))"
proof -
  let ?r = "new_RingBuffer RECV_RINGBUFFER_SIZE 0 :: u8 ring" and ?c = "frame_bytes 7 [1]"
  have l: "?c \<noteq> []" "int (length ?c) \<le> GetFreeSize ?r" "nat RECV_RINGBUFFER_SIZE < 5000"
    "GetBufferSize ?r = RECV_RINGBUFFER_SIZE"
    using empty_recv_ring by (simp_all add: RECV_RINGBUFFER_SIZE_def frame_bytes_def)
  have sp: "stream_parse (GetBufferSize ?r) (contents ?r @ ?c) = ([[1]], [], None)"
    using wire.cut_frames [of "GetBufferSize ?r" "[(7, [1])]"] empty_recv_ring
    by (simp add: payload_ok_def BUFFER_DEFAULT_def)
  obtain r' ps where
    rc: "recv_completion 5000 42 sample_alloc 0 ?r (store_segments ?r ?c) (int (length ?c)) = Done (r', ps, None)"
    using recv_completion_spec [where alloc = sample_alloc and fuel = 5000 and sid = 42 and k = 0,
        OF kernel_stores_segments empty_recv_ring(1) l(1,2) sample_alloc_ok _ sp] l(3,4) by auto
  from recv_ring_never_full [where alloc = sample_alloc, OF kernel_stores_segments empty_recv_ring(1) l(4)
      sample_alloc_ok l(3,1,2) rc] rc
  show ?thesis by blast
qed

end
