(* ===== verification/Session_Control.thy ===== *)
theory Session_Control
  imports Prelude
begin

text \<open>
  NetLib/Session.h and the reference protocol of BaseServer.cpp: the 64-bit word \<open>control\<close>
  whose low half counts the I/O references of a session and whose high half holds the flags
  \<open>FLAG_RELEASE\<close> and \<open>FLAG_CLEANUP\<close>. The word operations are modelled on the packed word;
  \<open>lifecycle_step\<close> is their interleaving by any number of threads, with every load and every
  compare-exchange a step of its own.
\<close>

section \<open>The packed word\<close>

definition FLAG_RELEASE :: u32 where "FLAG_RELEASE = push_bit 0 1"
definition FLAG_CLEANUP :: u32 where "FLAG_CLEANUP = push_bit 1 1"

definition ctl_ioCount :: "u64 \<Rightarrow> u32" where "ctl_ioCount full = ucast full"
definition ctl_releaseFlag :: "u64 \<Rightarrow> u32" where "ctl_releaseFlag full = ucast (drop_bit 32 full)"

definition SessionControl :: "u32 \<Rightarrow> u32 \<Rightarrow> u64" where
  "SessionControl ioCount releaseFlag = ucast ioCount OR push_bit 32 (ucast releaseFlag)"

text \<open>
  The bodies of the compare-exchange loops: what a thread that read \<open>expected\<close> wants to store,
  or \<open>None\<close> when it returns without storing.
\<close>

definition IncreaseIoCount :: "u64 \<Rightarrow> u64 option" where
  "IncreaseIoCount expected =
     (if ctl_releaseFlag expected AND FLAG_RELEASE \<noteq> 0 then None
      else Some (SessionControl (ctl_ioCount expected + 1) (ctl_releaseFlag expected)))"

definition TrySetReleaseFlag :: "u64 \<Rightarrow> (u64 \<times> u32) option" where
  "TrySetReleaseFlag expected =
     (if ctl_releaseFlag expected AND FLAG_RELEASE \<noteq> 0 then None
      else Some (SessionControl (ctl_ioCount expected) (ctl_releaseFlag expected OR FLAG_RELEASE),
                 ctl_ioCount expected))"

text \<open>\<open>decreaseSessionIoCount\<close>: the new word, and whether the RELEASE completion is posted.\<close>

definition decreaseSessionIoCount :: "u64 \<Rightarrow> u64 \<times> bool" where
  "decreaseSessionIoCount control =
     (let prev = control in (control - 1, ctl_ioCount prev = 1 \<and> ctl_releaseFlag prev = 1))"

text \<open>The loop at the head of \<open>releaseSession\<close>.\<close>

definition TryCleanup :: "u64 \<Rightarrow> u64 option" where
  "TryCleanup expected =
     (if ctl_ioCount expected \<noteq> 0 then None
      else if ctl_releaseFlag expected AND FLAG_RELEASE = 0 then None
      else if ctl_releaseFlag expected AND FLAG_CLEANUP \<noteq> 0 then None
      else Some (SessionControl (ctl_ioCount expected) (ctl_releaseFlag expected OR FLAG_CLEANUP)))"

lemma ctl_SessionControl [ctl_simps, simp]:
  "ctl_ioCount (SessionControl i f) = i" "ctl_releaseFlag (SessionControl i f) = f"
   by (rule bit_word_eqI; auto simp: ctl_ioCount_def ctl_releaseFlag_def SessionControl_def
      bit_ucast_iff bit_or_iff bit_push_bit_iff bit_drop_bit_eq dest: bit_imp_le_length)+

lemma SessionControl_ctl [ctl_simps, simp]: "SessionControl (ctl_ioCount c) (ctl_releaseFlag c) = c"
  by (rule bit_word_eqI) (auto simp: ctl_ioCount_def ctl_releaseFlag_def SessionControl_def
      bit_ucast_iff bit_or_iff bit_push_bit_iff bit_drop_bit_eq)

lemma SessionControl_cases:
  obtains i f where "c = SessionControl i f"
  by (metis SessionControl_ctl)

lemma SessionControl_0: "SessionControl 0 0 = 0"
  by (simp add: SessionControl_def)

lemma ctl_0 [simp]: "ctl_ioCount 0 = 0" "ctl_releaseFlag 0 = 0"
  by (simp_all add: ctl_ioCount_def ctl_releaseFlag_def)

text \<open>A decrement stays in the low half unless the count is zero.\<close>

lemma SessionControl_minus_1 [ctl_simps]:
  assumes "i \<noteq> 0"
  shows "SessionControl i f - 1 = SessionControl (i - 1) f"
proof -
  have plus: "SessionControl j f = ucast j + push_bit 32 (ucast f)" for j
  proof -
    have "(ucast j :: u64) AND push_bit 32 (ucast f) = 0"
      by (rule bit_word_eqI) (auto simp: bit_and_iff bit_push_bit_iff bit_ucast_iff dest: bit_imp_le_length)
    then show ?thesis by (simp add: SessionControl_def disjunctive_add_eq_or)
  qed
  have "(ucast (i - 1) :: u64) = ucast i - 1"
  proof -
    have "unat (i - 1) = unat i - 1" using assms by (rule unat_minus_one)
    moreover have "1 \<le> unat i" using assms by (simp add: Suc_le_eq unat_gt_0)
    ultimately have "(of_nat (unat (i - 1)) :: u64) = of_nat (unat i) - 1"
      by (simp add: of_nat_diff)
    then show ?thesis by (simp add: of_nat_unat)
  qed
  then show ?thesis by (simp add: plus)
qed

lemma flag_values [ctl_simps]:
  "FLAG_RELEASE = 1" "FLAG_CLEANUP = 2"
  by (simp_all add: FLAG_RELEASE_def FLAG_CLEANUP_def)

lemma flag_bits [ctl_simps]:
  "(0 :: u32) AND 1 = 0" "(1 :: u32) AND 1 = 1" "(3 :: u32) AND 1 = 1" "(1 :: u32) AND 2 = 0"
  "(3 :: u32) AND 2 = 2" "(0 :: u32) OR 1 = 1" "(1 :: u32) OR 2 = 3"
  by simp_all

lemma of_nat_u32_eq_0: "n < 2 ^ 32 \<Longrightarrow> (of_nat n :: u32) = 0 \<longleftrightarrow> n = 0"
  by (auto simp: word_of_nat_eq_0_iff dest: dvd_imp_le)

lemma of_nat_u32_eq_1: "n < 2 ^ 32 \<Longrightarrow> (of_nat n :: u32) = 1 \<longleftrightarrow> n = 1"
proof -
  assume n: "n < 2 ^ 32"
  have "(of_nat n :: u32) = 1 \<longleftrightarrow> unat (of_nat n :: u32) = unat (1 :: u32)"
    by (simp only: word_unat_eq_iff)
  also have "\<dots> \<longleftrightarrow> n = 1" using n by (simp add: unat_of_nat)
  finally show ?thesis .
qed

section \<open>The abstract life of a session slot\<close>

text \<open>
  \<open>Live n\<close>: \<open>n\<close> references, no shutdown asked for; \<open>Closing n\<close>: shutdown asked for, \<open>n > 0\<close>
  references left; \<open>Pending\<close>: the one RELEASE completion is queued or being handled;
  \<open>Cleaned\<close>: the session was cleaned up and its slot may be reused.
\<close>

datatype phase = Live nat | Closing nat | Pending | Cleaned

inductive phase_step :: "phase \<Rightarrow> phase \<Rightarrow> bool" where
  take_ref: "phase_step (Live n) (Live (Suc n))"
| put_ref: "phase_step (Live (Suc n)) (Live n)"
| close_busy: "phase_step (Live (Suc n)) (Closing (Suc n))"
| close_idle: "phase_step (Live 0) Pending"
| put_closing: "phase_step (Closing (Suc (Suc n))) (Closing (Suc n))"
| put_last: "phase_step (Closing (Suc 0)) Pending"
| clean: "phase_step Pending Cleaned"
| reuse: "phase_step Cleaned (Live 0)"

inductive_simps phase_step_simps:
  "phase_step (Live n) p" "phase_step (Closing n) p" "phase_step Pending p" "phase_step Cleaned p"

section \<open>The interleaved protocol\<close>

text \<open>
  A thread is outside the protocol, or inside one of the three compare-exchange loops with the
  value its local \<open>expected\<close> holds.
\<close>

datatype loop_pc = Outside | Increasing u64 | Requesting u64 | Cleaning u64

record lifecycle =
  control :: u64
  refs :: nat                  \<comment> \<open>references taken and not given back\<close>
  posted :: nat                \<comment> \<open>RELEASE completions in the completion port\<close>
  cleanups :: nat              \<comment> \<open>cleanups since the slot was last initialised\<close>
  loop :: "nat \<Rightarrow> loop_pc"

definition lifecycle_init :: lifecycle where
  "lifecycle_init = \<lparr>control = 0, refs = 0, posted = 0, cleanups = 0, loop = (\<lambda>_. Outside)\<rparr>"

text \<open>
  One step of thread \<open>t\<close>. A weak compare-exchange may fail at any time and then loads the
  current word. The number of references is bounded by the number of threads and outstanding
  operations, far below \<open>2 ^ 32 - 1\<close>.
\<close>

inductive lifecycle_step :: "lifecycle \<Rightarrow> lifecycle \<Rightarrow> bool" where
  inc_load: "loop s t = Outside \<Longrightarrow>
     lifecycle_step s (s\<lparr>loop := (loop s)(t := Increasing (control s))\<rparr>)"
| inc_refused: "loop s t = Increasing e \<Longrightarrow> IncreaseIoCount e = None \<Longrightarrow>
     lifecycle_step s (s\<lparr>loop := (loop s)(t := Outside)\<rparr>)"
| inc_retry: "loop s t = Increasing e \<Longrightarrow> IncreaseIoCount e = Some d \<Longrightarrow>
     lifecycle_step s (s\<lparr>loop := (loop s)(t := Increasing (control s))\<rparr>)"
| inc_done: "loop s t = Increasing e \<Longrightarrow> IncreaseIoCount e = Some d \<Longrightarrow> control s = e \<Longrightarrow>
     refs s < 2 ^ 32 - 1 \<Longrightarrow>
     lifecycle_step s (s\<lparr>control := d, refs := Suc (refs s), loop := (loop s)(t := Outside)\<rparr>)"
| req_load: "loop s t = Outside \<Longrightarrow>
     lifecycle_step s (s\<lparr>loop := (loop s)(t := Requesting (control s))\<rparr>)"
| req_refused: "loop s t = Requesting e \<Longrightarrow> TrySetReleaseFlag e = None \<Longrightarrow>
     lifecycle_step s (s\<lparr>loop := (loop s)(t := Outside)\<rparr>)"
| req_retry: "loop s t = Requesting e \<Longrightarrow> TrySetReleaseFlag e = Some (d, before) \<Longrightarrow>
     lifecycle_step s (s\<lparr>loop := (loop s)(t := Requesting (control s))\<rparr>)"
| req_done: "loop s t = Requesting e \<Longrightarrow> TrySetReleaseFlag e = Some (d, before) \<Longrightarrow> control s = e \<Longrightarrow>
     lifecycle_step s (s\<lparr>control := d, posted := posted s + (if before = 0 then 1 else 0),
                         loop := (loop s)(t := Outside)\<rparr>)"
| put: "0 < refs s \<Longrightarrow> decreaseSessionIoCount (control s) = (d, post) \<Longrightarrow>
     lifecycle_step s (s\<lparr>control := d, refs := refs s - 1,
                         posted := posted s + (if post then 1 else 0)\<rparr>)"
| clean_load: "loop s t = Outside \<Longrightarrow> 0 < posted s \<Longrightarrow>
     lifecycle_step s (s\<lparr>posted := posted s - 1, loop := (loop s)(t := Cleaning (control s))\<rparr>)"
| clean_quit: "loop s t = Cleaning e \<Longrightarrow> TryCleanup e = None \<Longrightarrow>
     lifecycle_step s (s\<lparr>loop := (loop s)(t := Outside)\<rparr>)"
| clean_retry: "loop s t = Cleaning e \<Longrightarrow> TryCleanup e = Some d \<Longrightarrow>
     lifecycle_step s (s\<lparr>loop := (loop s)(t := Cleaning (control s))\<rparr>)"
| clean_done: "loop s t = Cleaning e \<Longrightarrow> TryCleanup e = Some d \<Longrightarrow> control s = e \<Longrightarrow>
     lifecycle_step s (s\<lparr>control := d, cleanups := Suc (cleanups s), loop := (loop s)(t := Outside)\<rparr>)"
| slot_reuse: "0 < cleanups s \<Longrightarrow> lifecycle_step s (s\<lparr>control := 0, cleanups := 0\<rparr>)"

inductive lifecycle_reachable :: "lifecycle \<Rightarrow> bool" where
  start: "lifecycle_reachable lifecycle_init"
| step: "lifecycle_reachable s \<Longrightarrow> lifecycle_step s s' \<Longrightarrow> lifecycle_reachable s'"

section \<open>Simulation\<close>

text \<open>\<open>in_phase s ph\<close>: the concrete state \<open>s\<close> represents the abstract phase \<open>ph\<close>.\<close>

definition no_cleaner :: "lifecycle \<Rightarrow> bool" where
  "no_cleaner s \<longleftrightarrow> (\<forall>t e. loop s t \<noteq> Cleaning e)"

definition one_cleaner :: "lifecycle \<Rightarrow> bool" where
  "one_cleaner s \<longleftrightarrow> (\<exists>t. loop s t = Cleaning (control s) \<and> (\<forall>u e. loop s u = Cleaning e \<longrightarrow> u = t))"

fun in_phase :: "lifecycle \<Rightarrow> phase \<Rightarrow> bool" where
  "in_phase s (Live n) \<longleftrightarrow> control s = SessionControl (of_nat n) 0 \<and> refs s = n \<and> n < 2 ^ 32 \<and>
     posted s = 0 \<and> cleanups s = 0 \<and> no_cleaner s"
| "in_phase s (Closing n) \<longleftrightarrow> control s = SessionControl (of_nat n) 1 \<and> refs s = n \<and> 0 < n \<and>
     n < 2 ^ 32 \<and> posted s = 0 \<and> cleanups s = 0 \<and> no_cleaner s"
| "in_phase s Pending \<longleftrightarrow> control s = SessionControl 0 1 \<and> refs s = 0 \<and> cleanups s = 0 \<and>
     (posted s = 1 \<and> no_cleaner s \<or> posted s = 0 \<and> one_cleaner s)"
| "in_phase s Cleaned \<longleftrightarrow> control s = SessionControl 0 3 \<and> refs s = 0 \<and> cleanups s = 1 \<and>
     posted s = 0 \<and> no_cleaner s"

lemma lifecycle_init_phase: "in_phase lifecycle_init (Live 0)"
  by (simp add: lifecycle_init_def no_cleaner_def SessionControl_0)

lemma IncreaseIoCount_packed [ctl_simps]:
  "IncreaseIoCount (SessionControl i f) =
     (if f AND 1 \<noteq> 0 then None else Some (SessionControl (i + 1) f))"
  by (simp add: IncreaseIoCount_def flag_values)

lemma TrySetReleaseFlag_packed [ctl_simps]:
  "TrySetReleaseFlag (SessionControl i f) =
     (if f AND 1 \<noteq> 0 then None else Some (SessionControl i (f OR 1), i))"
  by (simp add: TrySetReleaseFlag_def flag_values)

lemma decrease_packed [ctl_simps]:
  "i \<noteq> 0 \<Longrightarrow> decreaseSessionIoCount (SessionControl i f) = (SessionControl (i - 1) f, i = 1 \<and> f = 1)"
  by (simp add: decreaseSessionIoCount_def SessionControl_minus_1)

lemma TryCleanup_packed [ctl_simps]:
  "TryCleanup (SessionControl i f) =
     (if i \<noteq> 0 \<or> f AND 1 = 0 \<or> f AND 2 \<noteq> 0 then None else Some (SessionControl i (f OR 2)))"
  by (simp add: TryCleanup_def flag_values)

text \<open>The loops that take a reference or ask for the shutdown leave the phase alone until they store.\<close>

lemma in_phase_loop:
  assumes "in_phase s ph" "\<And>e. loop s t \<noteq> Cleaning e" "\<And>e. pc \<noteq> Cleaning e"
  shows "in_phase (s\<lparr>loop := (loop s)(t := pc)\<rparr>) ph"
proof -
  let ?s = "s\<lparr>loop := (loop s)(t := pc)\<rparr>"
  have no: "no_cleaner s \<Longrightarrow> no_cleaner ?s" using assms by (simp add: no_cleaner_def)
  have one: "one_cleaner ?s" if "one_cleaner s"
  proof -
    from that obtain c where c: "loop s c = Cleaning (control s)" and u: "\<And>u e. loop s u = Cleaning e \<Longrightarrow> u = c"
      by (auto simp: one_cleaner_def)
    have t: "c \<noteq> t" using assms(2) [of "control s"] c by metis
    show ?thesis unfolding one_cleaner_def
    proof (intro exI [of _ c] conjI allI impI)
      show "loop ?s c = Cleaning (control ?s)" using c t by simp
      show "v = c" if "loop ?s v = Cleaning e" for v e
        using that u [of v e] assms(3) [of e] by (simp split: if_splits)
    qed
  qed
  show ?thesis
  proof (cases ph)
    case Pending
    with assms(1) no one show ?thesis by simp blast
  qed (use assms(1) no in simp_all)
qed

lemma in_phase_loop':
  assumes "loop s t = x" "x = Outside \<or> x = Increasing a \<or> x = Requesting b" "in_phase s ph"
    and "pc = Outside \<or> pc = Increasing c \<or> pc = Requesting d"
  shows "in_phase (s\<lparr>loop := (loop s)(t := pc)\<rparr>) ph"
  by (rule in_phase_loop [OF assms(3)]) (use assms in auto)

text \<open>Each concrete step is a step of the abstract machine or leaves the phase alone.\<close>

lemma lifecycle_simulation:
  assumes "lifecycle_step s s'" and "in_phase s ph"
  shows "\<exists>ph'. in_phase s' ph' \<and> (ph' = ph \<or> phase_step ph ph')"
  using assms
proof (induction rule: lifecycle_step.induct)
  case (inc_done s t e d)
  then obtain n where ph: "ph = Live n"
    by (cases ph) (auto simp: ctl_simps)
  with inc_done have "in_phase (s\<lparr>control := d, refs := Suc (refs s), loop := (loop s)(t := Outside)\<rparr>) (Live (Suc n))"
    by (auto simp: ctl_simps no_cleaner_def add.commute)
  with ph show ?case by (blast intro: phase_step.intros)
next
  case (req_done s t e d before)
  then obtain n where ph: "ph = Live n"
    by (cases ph) (auto simp: ctl_simps)
  let ?s = "s\<lparr>control := d, posted := posted s + (if before = 0 then 1 else 0), loop := (loop s)(t := Outside)\<rparr>"
  show ?case
  proof (cases n)
    case 0
    with ph req_done have "in_phase ?s Pending" by (auto simp: ctl_simps no_cleaner_def)
    with ph 0 show ?thesis by (blast intro: phase_step.intros)
  next
    case (Suc m)
    with ph req_done have "in_phase ?s (Closing n)"
      by (auto simp: ctl_simps no_cleaner_def of_nat_u32_eq_0 simp del: of_nat_Suc)
    with ph Suc show ?thesis by (blast intro: phase_step.intros)
  qed
next
  case (put s d post)
  let ?s = "s\<lparr>control := d, refs := refs s - 1, posted := posted s + (if post then 1 else 0)\<rparr>"
  have nc: "no_cleaner (s\<lparr>control := c, refs := r, posted := q\<rparr>) = no_cleaner s" for c r q
    by (simp add: no_cleaner_def)
  show ?case
  proof (cases ph)
    case (Live n)
    with put obtain m where n: "n = Suc m" by (cases n) auto
    with put Live have "in_phase ?s (Live m)"
      by (auto simp: ctl_simps nc of_nat_u32_eq_0 simp del: of_nat_Suc) (simp_all)
    with Live n show ?thesis by (blast intro: phase_step.intros)
  next
    case (Closing n)
    with put obtain m where n: "n = Suc m" by (cases n) auto
    show ?thesis
    proof (cases m)
      case 0
      with put Closing n have "in_phase ?s Pending" by (auto simp: ctl_simps nc)
      with Closing n 0 show ?thesis by (blast intro: phase_step.intros)
    next
      case (Suc k)
      have "(of_nat n :: u32) \<noteq> 1" "(of_nat n :: u32) \<noteq> 0" "(of_nat n :: u32) - 1 = of_nat m"
        using put.prems Closing n Suc of_nat_u32_eq_1 [of n] of_nat_u32_eq_0 [of n] by auto
      with put Closing n Suc have "in_phase ?s (Closing m)" by (auto simp: ctl_simps nc)
      with Closing n Suc show ?thesis by (blast intro: phase_step.intros)
    qed
  qed (use put in auto)
next
  case (clean_load s t)
  then have ph: "ph = Pending" by (cases ph) auto
  with clean_load have "in_phase (s\<lparr>posted := posted s - 1, loop := (loop s)(t := Cleaning (control s))\<rparr>) Pending"
    by (auto simp: no_cleaner_def one_cleaner_def)
  with ph show ?case by blast
next
  case (clean_quit s t e)
  then have ph: "ph = Pending" by (cases ph) (auto simp: no_cleaner_def)
  with clean_quit have "e = control s" by (auto simp: no_cleaner_def one_cleaner_def)
  with ph clean_quit have False by (simp add: ctl_simps)
  then show ?case ..
next
  case (clean_retry s t e d)
  then have ph: "ph = Pending" by (cases ph) (auto simp: no_cleaner_def)
  with clean_retry have "in_phase (s\<lparr>loop := (loop s)(t := Cleaning (control s))\<rparr>) Pending"
    by (auto simp: no_cleaner_def one_cleaner_def)
  with ph show ?case by blast
next
  case (clean_done s t e d)
  then have ph: "ph = Pending" by (cases ph) (auto simp: no_cleaner_def)
  with clean_done have "in_phase (s\<lparr>control := d, cleanups := Suc (cleanups s), loop := (loop s)(t := Outside)\<rparr>) Cleaned"
    by (auto simp: no_cleaner_def one_cleaner_def ctl_simps)
  with ph show ?case by (blast intro: phase_step.intros)
next
  case (slot_reuse s)
  then have ph: "ph = Cleaned" by (cases ph) auto
  with slot_reuse have "in_phase (s\<lparr>control := 0, cleanups := 0\<rparr>) (Live 0)"
    by (auto simp: no_cleaner_def SessionControl_0)
  with ph show ?case by (blast intro: phase_step.intros)
next
  case (inc_load s t) then show ?case by (blast intro: in_phase_loop')
next
  case (inc_refused s t e) then show ?case by (blast intro: in_phase_loop')
next
  case (inc_retry s t e d) then show ?case by (blast intro: in_phase_loop')
next
  case (req_load s t) then show ?case by (blast intro: in_phase_loop')
next
  case (req_refused s t e) then show ?case by (blast intro: in_phase_loop')
next
  case (req_retry s t e d before) then show ?case by (blast intro: in_phase_loop')
qed

lemma lifecycle_reachable_phase:
  "lifecycle_reachable s \<Longrightarrow> \<exists>ph. in_phase s ph"
  by (induction rule: lifecycle_reachable.induct)
    (use lifecycle_init_phase lifecycle_simulation in blast)+

section \<open>What the protocol promises\<close>

text \<open>
  C3. Every interleaving of the lock-free session protocol (IncreaseIoCount, requestRelease,
  decreaseSessionIoCount and the cleanup loop of releaseSession, each load and compare-exchange a
  step) refines the abstract session machine: a step of any thread leaves the phase of the slot
  alone or is one of its transitions.
\<close>
theorem session_protocol_refines:
  assumes "lifecycle_reachable s" and "lifecycle_step s s'"
  shows "\<exists>ph ph'. in_phase s ph \<and> in_phase s' ph' \<and> (ph' = ph \<or> phase_step ph ph')"
  using lifecycle_reachable_phase [OF assms(1)] lifecycle_simulation [OF assms(2)] by blast

text \<open>A concrete run: thread 0 asks for the shutdown of an idle session.\<close>

definition shutdown_asked :: lifecycle where
  "shutdown_asked = lifecycle_init\<lparr>loop := (\<lambda>_. Outside)(0 := Requesting 0)\<rparr>"

definition shutdown_posted :: lifecycle where
  "shutdown_posted = lifecycle_init\<lparr>control := SessionControl 0 1, posted := 1\<rparr>"

lemma shutdown_asked_step: "lifecycle_step lifecycle_init shutdown_asked"
  using req_load [of lifecycle_init 0] by (simp add: lifecycle_init_def shutdown_asked_def)

lemma shutdown_posted_step: "lifecycle_step shutdown_asked shutdown_posted"
proof -
  have "TrySetReleaseFlag 0 = Some (SessionControl 0 1, 0)"
    using TrySetReleaseFlag_packed [of 0 0] by (simp add: SessionControl_0)
  then show ?thesis
    using req_done [of shutdown_asked 0 0 "SessionControl 0 1" 0]
    by (simp add: shutdown_asked_def shutdown_posted_def lifecycle_init_def fun_upd_idem)
qed

lemma shutdown_posted_reachable: "lifecycle_reachable shutdown_posted"
  by (blast intro: lifecycle_reachable.intros shutdown_asked_step shutdown_posted_step)

theorem session_protocol_refines_witness:
  "\<exists>ph ph'. in_phase shutdown_asked ph \<and> in_phase shutdown_posted ph' \<and> (ph' = ph \<or> phase_step ph ph')"
  by (rule session_protocol_refines)
    (blast intro: lifecycle_reachable.intros shutdown_asked_step shutdown_posted_step)+

text \<open>
  C4. A session is cleaned up at most once before its slot is reused, never while a reference is
  held, and once cleaned up it gives out no reference and has no RELEASE completion left that a
  worker could act on.
\<close>
theorem cleanup_exactly_once:
  assumes "lifecycle_reachable s"
  shows "cleanups s \<le> 1 \<and>
    (cleanups s = 1 \<longrightarrow> refs s = 0 \<and> posted s = 0 \<and> IncreaseIoCount (control s) = None \<and>
       TrySetReleaseFlag (control s) = None \<and> TryCleanup (control s) = None)"
proof -
  from lifecycle_reachable_phase [OF assms] obtain ph where "in_phase s ph" ..
  then show ?thesis by (cases ph) (auto simp: ctl_simps)
qed

theorem cleanup_exactly_once_witness:
  "cleanups shutdown_posted \<le> 1"
  using cleanup_exactly_once [OF shutdown_posted_reachable] by blast

text \<open>
  C5. The count in the control word is exact and no shutdown is lost: the low half is the number
  of references held, and a session whose shutdown was asked for and whose last reference is gone
  has its one RELEASE completion queued, a worker about to clean it up, or has been cleaned up.
\<close>
theorem release_never_lost:
  assumes "lifecycle_reachable s"
  shows "unat (ctl_ioCount (control s)) = refs s \<and>
    (ctl_releaseFlag (control s) AND FLAG_RELEASE \<noteq> 0 \<and> refs s = 0 \<longrightarrow>
       posted s = 1 \<or> (\<exists>t. loop s t = Cleaning (control s) \<and> TryCleanup (control s) \<noteq> None) \<or> cleanups s = 1)"
proof -
  from lifecycle_reachable_phase [OF assms] obtain ph where "in_phase s ph" ..
  then show ?thesis
    by (cases ph) (auto simp: ctl_simps one_cleaner_def unat_of_nat flag_values)
qed

theorem release_never_lost_witness:
  "ctl_releaseFlag (control shutdown_posted) AND FLAG_RELEASE \<noteq> 0 \<and> refs shutdown_posted = 0 \<and>
   (posted shutdown_posted = 1 \<or> (\<exists>t. loop shutdown_posted t = Cleaning (control shutdown_posted) \<and>
      TryCleanup (control shutdown_posted) \<noteq> None) \<or> cleanups shutdown_posted = 1)"
  using release_never_lost [OF shutdown_posted_reachable]
  by (simp add: shutdown_posted_def lifecycle_init_def ctl_simps)

end
