(* ===== verification/Base_Server.thy ===== *)
theory Base_Server
  imports Frame_Parser Session_Control
begin

text \<open>
  NetLib/BaseServer.cpp: the session table and the handlers of the IOCP server. A handler works
  on one session and on the shared packet heap; \<open>session\<close> and \<open>netstate\<close> are these two, the
  server is the table of sessions with the stack of free slots. A packet pointer is a natural
  number, its target \<open>heap\<close> of it; a packet whose count reaches zero is appended to \<open>freed\<close>.
  The fields with the prefix \<open>k_\<close> are the kernel's: which overlapped operations it holds, how
  many RELEASE completions are queued, and the bytes it took from \<open>WSASend\<close>.

  Each definition is one handler, run without interruption; the interleaving of the reference
  count inside the handlers is the subject of \<open>Session_Control\<close>. Callbacks into the
  application are returned in order. \<open>None\<close> is an access outside an array.
\<close>

section \<open>State\<close>

text \<open>The last line has the reasons only the copies of the login and group servers know.\<close>

datatype DisconnectReason =
  ReasonNone | PeerClose | ClientForceClose | InternalError | RecvError | SendError | RingBufferFull
  | PacketError | SendBufferFull | Timeout | DuplicateLogin | InvalidPacket
  | GqcsFail | ProtocolError | Kick | ServerShutdown | Logic

datatype ESessionState = Free | Connected | Disconnecting

datatype EOperation = RECV | SEND | RELEASE

definition DEFAULT_MAX_CONNECTION :: nat where "DEFAULT_MAX_CONNECTION = 128"
definition SEND_RINGBUFFER_SIZE :: int where "SEND_RINGBUFFER_SIZE = 128"
definition MAX_SEND_PACKET :: nat where "MAX_SEND_PACKET = 64"

record session =
  s_socket :: "nat option"
  s_id :: u64
  recvRing :: "u8 ring"
  sendRing :: "nat ring"
  sendFlag :: int
  s_control :: u64
  s_state :: ESessionState
  sentPackets :: "nat list"
  k_recv :: bool
  k_send :: bool
  k_release :: nat
  k_wire :: bytes

record netstate =
  heap :: "nat \<Rightarrow> packet"
  freed :: "nat list"
  mDisconnectCount :: "DisconnectReason \<Rightarrow> int"

record server =
  mSessionListHead :: "session list"
  mSessionEmptyIndexStack :: "nat list"
  mSessionID :: u64
  mSessionCount :: int
  mSessionFullCount :: int
  net :: netstate

datatype callback =
  OnClientJoin u64 | OnClientLeave u64 | OnRecv u64 nat | OnSend u64 int | OnError

definition new_Session :: "session" where
  "new_Session =
     \<lparr>s_socket = None, s_id = 0, recvRing = new_RingBuffer RECV_RINGBUFFER_SIZE 0,
      sendRing = new_RingBuffer SEND_RINGBUFFER_SIZE 0, sendFlag = 0, s_control = 0, s_state = Free,
      sentPackets = [], k_recv = False, k_send = False, k_release = 0, k_wire = []\<rparr>"

definition Session_Init :: "session \<Rightarrow> session" where
  "Session_Init s =
     s\<lparr>s_socket := None, s_id := 0, s_control := 0, sendFlag := 0,
       recvRing := ClearBuffer (recvRing s), sendRing := ClearBuffer (sendRing s),
       sentPackets := [], s_state := Free\<rparr>"

definition server_init :: "netstate \<Rightarrow> server" where
  "server_init g =
     \<lparr>mSessionListHead = replicate DEFAULT_MAX_CONNECTION new_Session,
      mSessionEmptyIndexStack = rev [0..<DEFAULT_MAX_CONNECTION], mSessionID = 0, mSessionCount = 0,
      mSessionFullCount = 0, net = g\<rparr>"

section \<open>References and packets\<close>

definition AddRef_at :: "nat \<Rightarrow> netstate \<Rightarrow> netstate" where
  "AddRef_at p g = g\<lparr>heap := (heap g)(p := AddRef (heap g p))\<rparr>"

definition SubRef_at :: "nat \<Rightarrow> netstate \<Rightarrow> netstate" where
  "SubRef_at p g =
     (case SubRef (heap g p) of (pk, cnt, free) \<Rightarrow>
        g\<lparr>heap := (heap g)(p := pk), freed := (if free then freed g @ [p] else freed g)\<rparr>)"

definition SubRef_all :: "nat list \<Rightarrow> netstate \<Rightarrow> netstate" where
  "SubRef_all ps g = fold SubRef_at ps g"

definition IncreaseIoCount_s :: "session \<Rightarrow> session option" where
  "IncreaseIoCount_s s = map_option (\<lambda>c. s\<lparr>s_control := c\<rparr>) (IncreaseIoCount (s_control s))"

definition decreaseSessionIoCount_s :: "session \<Rightarrow> session" where
  "decreaseSessionIoCount_s s =
     (case decreaseSessionIoCount (s_control s) of (c, post) \<Rightarrow>
        s\<lparr>s_control := c, k_release := k_release s + (if post then 1 else 0)\<rparr>)"

definition requestRelease :: "DisconnectReason \<Rightarrow> session \<times> netstate \<Rightarrow> session \<times> netstate" where
  "requestRelease reason = (\<lambda>(s, g).
     (case TrySetReleaseFlag (s_control s) of
        None \<Rightarrow> (s, g)
      | Some (c, before) \<Rightarrow>
          (s\<lparr>s_control := c, k_release := k_release s + (if before = 0 then 1 else 0)\<rparr>,
           g\<lparr>mDisconnectCount := (mDisconnectCount g)(reason := mDisconnectCount g reason + 1)\<rparr>)))"

section \<open>Posting I/O\<close>

text \<open>What \<open>WSARecv\<close> and \<open>WSASend\<close> report: started (also pending), or an error.\<close>

datatype io_result = Started | Failed

definition postRecv :: "io_result \<Rightarrow> session \<times> netstate \<Rightarrow> (session \<times> netstate) \<times> bool" where
  "postRecv wsarecv = (\<lambda>(s, g).
     (case IncreaseIoCount_s s of
        None \<Rightarrow> ((s, g), False)
      | Some s1 \<Rightarrow>
          if fst (GetEnqueueSegments (recvRing s1)) = 0 then
            (let (s2, g2) = requestRelease RingBufferFull (s1, g)
             in ((decreaseSessionIoCount_s s2, g2), False))
          else
            (case wsarecv of
               Failed \<Rightarrow>
                 (let (s2, g2) = requestRelease RecvError (s1, g)
                  in ((decreaseSessionIoCount_s s2, g2), False))
             | Started \<Rightarrow> ((s1\<lparr>k_recv := True\<rparr>, g), True))))"

definition postSend :: "io_result \<Rightarrow> session \<times> netstate \<Rightarrow> ((session \<times> netstate) \<times> bool) option" where
  "postSend wsasend = (\<lambda>(s, g).
     (if sendFlag s \<noteq> 0 then Some ((s, g), True)
      else do {
        (ring', packets) \<leftarrow> pop_upto DequeueItem MAX_SEND_PACKET (sendRing s);
        let s1 = s\<lparr>sendFlag := 1, sendRing := ring', sentPackets := packets\<rparr>;
        if packets = [] then Some ((s1\<lparr>sendFlag := 0\<rparr>, g), True)
        else
          (case IncreaseIoCount_s s1 of
             None \<Rightarrow> Some ((s1\<lparr>sentPackets := [], sendFlag := 0\<rparr>, SubRef_all packets g), False)
           | Some s2 \<Rightarrow>
               (case wsasend of
                  Failed \<Rightarrow>
                    (let (s3, g3) = requestRelease SendError (s2\<lparr>sentPackets := []\<rparr>, SubRef_all packets g);
                         s4 = decreaseSessionIoCount_s s3
                     in Some ((s4\<lparr>sendFlag := 0\<rparr>, g3), False))
                | Started \<Rightarrow>
                    Some ((s2\<lparr>k_send := True,
                              k_wire := k_wire s2 @ concat (map (\<lambda>p. written (heap g p)) packets)\<rparr>, g), True)))
      }))"

section \<open>The session table\<close>

definition upd_session :: "server \<Rightarrow> nat \<Rightarrow> session \<times> netstate \<Rightarrow> server" where
  "upd_session srv i = (\<lambda>(s, g). srv\<lparr>mSessionListHead := (mSessionListHead srv)[i := s], net := g\<rparr>)"

definition findSession :: "server \<Rightarrow> u64 \<Rightarrow> nat option" where
  "findSession srv sessionId =
     (let index = unat (drop_bit 48 sessionId) in
      if index \<ge> DEFAULT_MAX_CONNECTION then None
      else let session = mSessionListHead srv ! index in
        if s_id session \<noteq> sessionId then None
        else if s_state session \<noteq> Connected then None
        else Some index)"

definition session_id :: "nat \<Rightarrow> u64 \<Rightarrow> u64" where
  "session_id index unique = push_bit 48 (of_nat index) OR (unique AND 0x0000FFFFFFFFFFFF)"

definition createSession :: "server \<Rightarrow> server \<times> nat option" where
  "createSession srv =
     (case mSessionEmptyIndexStack srv of
        [] \<Rightarrow> (srv, None)
      | index # rest \<Rightarrow>
          (let s = Session_Init (mSessionListHead srv ! index);
               s' = s\<lparr>s_id := session_id index (mSessionID srv), s_state := Connected\<rparr>
           in (srv\<lparr>mSessionListHead := (mSessionListHead srv)[index := s'],
                   mSessionEmptyIndexStack := rest, mSessionID := mSessionID srv + 1,
                   mSessionCount := mSessionCount srv + 1\<rparr>, Some index)))"

text \<open>\<open>releaseSession\<close>; the loop that drains the send ring runs once per stored packet.\<close>

definition releaseSession :: "server \<Rightarrow> nat \<Rightarrow> (server \<times> callback list) option" where
  "releaseSession srv i =
     (let s = mSessionListHead srv ! i in
      case TryCleanup (s_control s) of
        None \<Rightarrow> Some (srv, [])
      | Some c \<Rightarrow> do {
          (ring', packets) \<leftarrow> pop_upto DequeueItem (nat (GetUseSize (sendRing s))) (sendRing s);
          let g = SubRef_all packets (net srv);
          let s' = s\<lparr>s_control := c, s_socket := None, recvRing := ClearBuffer (recvRing s),
                     sendRing := ClearBuffer ring', s_id := 0, s_state := Free, sendFlag := 0\<rparr>;
          let index = unat (drop_bit 48 (s_id s));
          Some (srv\<lparr>mSessionListHead := (mSessionListHead srv)[i := s'], net := g,
                    mSessionCount := mSessionCount srv - 1,
                    mSessionEmptyIndexStack := index # mSessionEmptyIndexStack srv\<rparr>,
                [OnClientLeave (s_id s)])
        })"

section \<open>The interface to the application\<close>

definition DisConnect :: "u64 \<Rightarrow> DisconnectReason \<Rightarrow> server \<Rightarrow> server \<times> bool" where
  "DisConnect sessionID reason srv =
     (case findSession srv sessionID of
        None \<Rightarrow> (srv, False)
      | Some i \<Rightarrow>
          (case IncreaseIoCount_s (mSessionListHead srv ! i) of
             None \<Rightarrow> (srv, False)
           | Some s1 \<Rightarrow>
               if s_id s1 \<noteq> sessionID then (upd_session srv i (decreaseSessionIoCount_s s1, net srv), False)
               else
                 (let (s2, g2) = requestRelease reason (s1, net srv)
                  in (upd_session srv i (decreaseSessionIoCount_s s2, g2), True))))"

definition SendPacket :: "u64 \<Rightarrow> nat \<Rightarrow> u32 \<Rightarrow> io_result \<Rightarrow> server \<Rightarrow> (server \<times> bool \<times> callback list) option" where
  "SendPacket sessionID p s_rng wsasend srv =
     (case findSession srv sessionID of
        None \<Rightarrow> Some (srv, False, [])
      | Some i \<Rightarrow>
          (case IncreaseIoCount_s (mSessionListHead srv ! i) of
             None \<Rightarrow> Some (srv, False, [])
           | Some s1 \<Rightarrow>
               if s_id s1 \<noteq> sessionID \<or> s_state s1 \<noteq> Connected
               then Some (upd_session srv i (decreaseSessionIoCount_s s1, net srv), False, [])
               else do {
                 (pk, rng) \<leftarrow> encode_packet (heap (net srv) p) s_rng;
                 let g1 = AddRef_at p ((net srv)\<lparr>heap := (heap (net srv))(p := pk)\<rparr>);
                 (ring', enqueued) \<leftarrow> EnqueueItem (sendRing s1) p;
                 if \<not> enqueued then
                   (let (s2, g2) = requestRelease SendBufferFull (s1, SubRef_at p g1)
                    in Some (upd_session srv i (decreaseSessionIoCount_s s2, g2), False, []))
                 else do {
                   ((s3, g3), isSuccess) \<leftarrow> postSend wsasend (s1\<lparr>sendRing := ring'\<rparr>, g1);
                   Some (upd_session srv i (decreaseSessionIoCount_s s3, g3), isSuccess,
                         if isSuccess then [OnSend sessionID (mDataSize (heap g3 p))] else [])
                 }
               }))"

section \<open>The accept and worker threads\<close>

text \<open>
  Accepting a connection whose socket options were set: a slot, the socket, the registration
  with the completion port (\<open>registered\<close>), and the join callback.
\<close>

definition accept_connection :: "nat \<Rightarrow> bool \<Rightarrow> server \<Rightarrow> server \<times> nat option \<times> callback list" where
  "accept_connection clientSock registered srv =
     (case createSession srv of
        (srv1, None) \<Rightarrow> (srv1\<lparr>mSessionFullCount := mSessionFullCount srv1 + 1\<rparr>, None, [])
      | (srv1, Some i) \<Rightarrow>
          (let s = (mSessionListHead srv1 ! i)\<lparr>s_socket := Some clientSock\<rparr> in
           if \<not> registered then (upd_session srv1 i (requestRelease InternalError (s, net srv1)), None, [])
           else (upd_session srv1 i (s, net srv1), Some i, [OnClientJoin (s_id s)])))"

definition first_recv :: "nat \<Rightarrow> io_result \<Rightarrow> server \<Rightarrow> server" where
  "first_recv i wsarecv srv =
     (case postRecv wsarecv (mSessionListHead srv ! i, net srv) of
        (sg, True) \<Rightarrow> upd_session srv i sg
      | (sg, False) \<Rightarrow> upd_session srv i (requestRelease RecvError sg))"

text \<open>A completion that failed, and the completion of a receive of zero bytes.\<close>

definition io_returned :: "EOperation \<Rightarrow> session \<Rightarrow> session" where
  "io_returned oper s = (case oper of RECV \<Rightarrow> s\<lparr>k_recv := False\<rparr> | SEND \<Rightarrow> s\<lparr>k_send := False\<rparr>
     | RELEASE \<Rightarrow> s\<lparr>k_release := k_release s - 1\<rparr>)"

definition worker_failed :: "EOperation \<Rightarrow> nat \<Rightarrow> server \<Rightarrow> server" where
  "worker_failed oper i srv =
     (let (s1, g1) = requestRelease ClientForceClose (io_returned oper (mSessionListHead srv ! i), net srv)
      in upd_session srv i (decreaseSessionIoCount_s s1, g1))"

definition worker_closed :: "nat \<Rightarrow> server \<Rightarrow> server" where
  "worker_closed i srv =
     (let (s1, g1) = requestRelease PeerClose (io_returned RECV (mSessionListHead srv ! i), net srv)
      in upd_session srv i (decreaseSessionIoCount_s s1, g1))"

text \<open>
  The RECV branch in two halves, between which the callbacks run: \<open>worker_recv\<close> parses what
  arrived (\<open>ptr k\<close> is the \<open>k\<close>-th packet the pool hands out), \<open>worker_recv_end\<close> posts the next
  receive or shuts the session down, and gives the completion's reference back. The bytes of a
  packet that goes straight back to the pool are not tracked.
\<close>

definition worker_recv :: "nat \<Rightarrow> (nat \<Rightarrow> nat option) \<Rightarrow> u8 list \<Rightarrow> int \<Rightarrow> nat \<Rightarrow> server
    \<Rightarrow> (server \<times> parse_error option \<times> callback list) outcome" where
  "worker_recv fuel ptr d cbTransferred i srv =
     (let s = mSessionListHead srv ! i; g = net srv in
      case recv_completion fuel (s_id s) (\<lambda>k. map_option (heap g) (ptr k)) 0 (recvRing s) d cbTransferred of
        OutOfFuel \<Rightarrow> OutOfFuel
      | Fault \<Rightarrow> Fault
      | Done (r', ps, e) \<Rightarrow>
          (let ptrs = map (\<lambda>k. the (ptr k)) [0..<length ps];
               g1 = g\<lparr>heap := fold (\<lambda>(p, pk) h. h(p := pk)) (zip ptrs ps) (heap g)\<rparr>;
               bad = the (ptr (length ps));
               g2 = (if e = Some CheckSumError
                     then SubRef_at bad (g1\<lparr>heap := (heap g1)(bad := Packet_Init (heap g1 bad))\<rparr>) else g1)
           in Done (upd_session srv i (s\<lparr>recvRing := r'\<rparr>, g2), e,
                map (OnRecv (s_id s)) ptrs
                @ (if e \<in> {Some InvalidPacketCode, Some PacketMemoryPoolError, Some CheckSumError}
                   then [OnError] else []))))"

definition worker_recv_end :: "parse_error option \<Rightarrow> io_result \<Rightarrow> nat \<Rightarrow> server \<Rightarrow> server" where
  "worker_recv_end parseError wsarecv i srv =
     (let sg = (io_returned RECV (mSessionListHead srv ! i), net srv);
          (s2, g2) =
            (if parseError \<noteq> None then requestRelease PacketError sg
             else (case postRecv wsarecv sg of (sg', True) \<Rightarrow> sg' | (sg', False) \<Rightarrow> requestRelease RecvError sg'))
      in upd_session srv i (decreaseSessionIoCount_s s2, g2))"

definition worker_send :: "io_result \<Rightarrow> nat \<Rightarrow> server \<Rightarrow> server option" where
  "worker_send wsasend i srv =
     (let s = io_returned SEND (mSessionListHead srv ! i);
          g = SubRef_all (sentPackets s) (net srv)
      in do {
        ((s2, g2), ok) \<leftarrow> postSend wsasend (s\<lparr>sentPackets := [], sendFlag := 0\<rparr>, g);
        Some (upd_session srv i (decreaseSessionIoCount_s s2, g2))
      })"

definition worker_release :: "nat \<Rightarrow> server \<Rightarrow> (server \<times> callback list) option" where
  "worker_release i srv =
     releaseSession (srv\<lparr>mSessionListHead := (mSessionListHead srv)[i := io_returned RELEASE (mSessionListHead srv ! i)]\<rparr>) i"

section \<open>Invariants of one session\<close>

text \<open>
  \<open>counts e s\<close>: the control word counts the operations the kernel holds and \<open>e\<close> references of
  running handlers, and a RELEASE completion is queued exactly when shutdown was asked for and
  none is left.
\<close>

definition io_count :: "session \<Rightarrow> nat" where
  "io_count s = (if k_recv s then 1 else 0) + (if k_send s then 1 else 0)"

definition released :: "session \<Rightarrow> bool" where
  "released s \<longleftrightarrow> ctl_releaseFlag (s_control s) = 1"

definition counts :: "nat \<Rightarrow> session \<Rightarrow> bool" where
  "counts e s \<longleftrightarrow>
     e < 2 ^ 31 \<and> ctl_ioCount (s_control s) = of_nat (io_count s + e) \<and>
     ctl_releaseFlag (s_control s) \<in> {0, 1} \<and>
     k_release s = (if released s \<and> io_count s + e = 0 then 1 else 0)"

definition rings_ok :: "session \<Rightarrow> bool" where
  "rings_ok s \<longleftrightarrow>
     ring_ok (recvRing s) \<and> GetBufferSize (recvRing s) = RECV_RINGBUFFER_SIZE \<and>
     ring_ok (sendRing s) \<and> GetBufferSize (sendRing s) = SEND_RINGBUFFER_SIZE"

text \<open>
  \<open>send_pre s\<close>: the send machinery, apart from a packet that was just stored; \<open>send_ok s\<close>: also
  nothing waits in the ring without a send under way.
\<close>

definition send_pre :: "session \<Rightarrow> bool" where
  "send_pre s \<longleftrightarrow>
     sendFlag s \<in> {0, 1} \<and> length (sentPackets s) \<le> MAX_SEND_PACKET \<and>
     (k_send s \<longrightarrow> sendFlag s = 1 \<and> sentPackets s \<noteq> []) \<and> (sendFlag s = 0 \<longrightarrow> sentPackets s = []) \<and>
     (\<not> released s \<longrightarrow> (sendFlag s = 1 \<longleftrightarrow> k_send s))"

definition send_ok :: "session \<Rightarrow> bool" where
  "send_ok s \<longleftrightarrow> send_pre s \<and> (\<not> released s \<and> sendFlag s = 0 \<longrightarrow> contents (sendRing s) = [])"

lemma io_count_le: "io_count s \<le> 2"
  by (simp add: io_count_def)

lemma countsE:
  assumes "counts e s"
  obtains f where "s_control s = SessionControl (of_nat (io_count s + e)) f" "f \<in> {0, 1}"
    "released s \<longleftrightarrow> f = 1" "io_count s + e < 2 ^ 32"
    "k_release s = (if f = 1 \<and> io_count s + e = 0 then 1 else 0)"
proof -
  define f where "f = ctl_releaseFlag (s_control s)"
  have "s_control s = SessionControl (of_nat (io_count s + e)) f"
    using assms SessionControl_ctl [of "s_control s"] unfolding counts_def f_def by metis
  moreover have "io_count s + e < 2 ^ 32" using io_count_le [of s] assms by (simp add: counts_def)
  ultimately show ?thesis using that assms by (auto simp: counts_def released_def f_def)
qed

lemma countsI:
  assumes "s_control s = SessionControl (of_nat (io_count s + e)) f" "f \<in> {0, 1}" "e < 2 ^ 31"
    "k_release s = (if f = 1 \<and> io_count s + e = 0 then 1 else 0)"
  shows "counts e s"
  using assms by (auto simp: counts_def released_def)

text \<open>The reference count operations change the control word only.\<close>

lemma IncreaseIoCount_s_spec:
  assumes "counts e s" and "e < 2 ^ 30"
  shows "IncreaseIoCount_s s =
     (if released s then None
      else Some (s\<lparr>s_control := SessionControl (of_nat (io_count s + e + 1)) 0\<rparr>))"
proof -
  from assms(1) obtain f where f: "s_control s = SessionControl (of_nat (io_count s + e)) f" "f \<in> {0, 1}"
    "released s \<longleftrightarrow> f = 1" by (elim countsE)
  then show ?thesis by (auto simp: IncreaseIoCount_s_def IncreaseIoCount_packed flag_bits ac_simps)
qed

lemma IncreaseIoCount_s_counts:
  assumes "counts e s" and "e < 2 ^ 30" and "IncreaseIoCount_s s = Some s'"
  shows "counts (Suc e) s'" "\<not> released s" "\<not> released s'" "\<exists>c. s' = s\<lparr>s_control := c\<rparr>"
proof -
  have s': "s' = s\<lparr>s_control := SessionControl (of_nat (io_count s + e + 1)) 0\<rparr>" "\<not> released s"
    using assms IncreaseIoCount_s_spec [OF assms(1,2)] by (auto split: if_splits)
  show "\<not> released s" "\<not> released s'" "\<exists>c. s' = s\<lparr>s_control := c\<rparr>"
    using s' by (auto simp: released_def)
  have "io_count s' = io_count s" by (simp add: s' io_count_def)
  moreover have "k_release s = 0" using assms(1) s'(2) by (auto simp: counts_def)
  ultimately show "counts (Suc e) s'"
    using assms(2) s' by (intro countsI [where f = 0]) auto
qed

lemma decrease_s_counts:
  assumes "counts (Suc e) s"
  shows "counts e (decreaseSessionIoCount_s s)" "released (decreaseSessionIoCount_s s) \<longleftrightarrow> released s"
    "\<exists>c n. decreaseSessionIoCount_s s = s\<lparr>s_control := c, k_release := n\<rparr>"
proof -
  from assms obtain f where f: "s_control s = SessionControl (of_nat (io_count s + Suc e)) f" "f \<in> {0, 1}"
    "released s \<longleftrightarrow> f = 1" "io_count s + Suc e < 2 ^ 32" "k_release s = 0"
    by (elim countsE) auto
  let ?n = "io_count s + Suc e"
  have nz: "(of_nat ?n :: u32) \<noteq> 0" using of_nat_u32_eq_0 [OF f(4)] by simp
  have one: "(of_nat ?n :: u32) = 1 \<longleftrightarrow> io_count s + e = 0" using of_nat_u32_eq_1 [OF f(4)] by auto
  have dec: "decreaseSessionIoCount_s s = s\<lparr>s_control := SessionControl (of_nat (io_count s + e)) f,
      k_release := (if io_count s + e = 0 \<and> f = 1 then 1 else 0)\<rparr>"
    using decrease_packed [OF nz, of f] f(1,5) one by (simp add: decreaseSessionIoCount_s_def)
  then show "\<exists>c n. decreaseSessionIoCount_s s = s\<lparr>s_control := c, k_release := n\<rparr>" by blast
  show "released (decreaseSessionIoCount_s s) \<longleftrightarrow> released s" using dec f(3) by (simp add: released_def)
  have "io_count (decreaseSessionIoCount_s s) = io_count s" by (simp add: dec io_count_def)
  then show "counts e (decreaseSessionIoCount_s s)"
    using dec f(2) assms by (intro countsI [where f = f]) (auto simp: counts_def)
qed

lemma requestRelease_counts:
  assumes "counts e s" and "requestRelease reason (s, g) = (s', g')"
  shows "counts e s'" "released s'" "\<exists>c n. s' = s\<lparr>s_control := c, k_release := n\<rparr>"
    "heap g' = heap g" "freed g' = freed g"
    "mDisconnectCount g' = (if released s then mDisconnectCount g
       else (mDisconnectCount g)(reason := mDisconnectCount g reason + 1))"
proof -
  from assms(1) obtain f where f: "s_control s = SessionControl (of_nat (io_count s + e)) f" "f \<in> {0, 1}"
    "released s \<longleftrightarrow> f = 1" "io_count s + e < 2 ^ 32"
    "k_release s = (if f = 1 \<and> io_count s + e = 0 then 1 else 0)" by (elim countsE)
  have z: "(of_nat (io_count s + e) :: u32) = 0 \<longleftrightarrow> io_count s + e = 0" by (rule of_nat_u32_eq_0 [OF f(4)])
  have s': "s' = s\<lparr>s_control := SessionControl (of_nat (io_count s + e)) 1,
      k_release := (if io_count s + e = 0 then 1 else 0)\<rparr>"
    "g' = (if f = 1 then g else g\<lparr>mDisconnectCount := (mDisconnectCount g)(reason := mDisconnectCount g reason + 1)\<rparr>)"
  proof -
    have same: "s\<lparr>s_control := s_control s, k_release := k_release s\<rparr> = s" by simp
    have "s' = s\<lparr>s_control := SessionControl (of_nat (io_count s + e)) 1,
        k_release := (if io_count s + e = 0 then 1 else 0)\<rparr> \<and>
      g' = (if f = 1 then g else g\<lparr>mDisconnectCount := (mDisconnectCount g)(reason := mDisconnectCount g reason + 1)\<rparr>)"
    proof (cases "f = 1")
      case True
      then have "TrySetReleaseFlag (s_control s) = None" by (simp only: f(1) TrySetReleaseFlag_packed) simp
      then have "s' = s" "g' = g" using assms(2) by (simp_all add: requestRelease_def)
      moreover have "k_release s = (if io_count s + e = 0 then 1 else 0)" using f(5) True by simp
      ultimately show ?thesis using same f(1) True by metis
    next
      case False
      then have f0: "f = 0" using f(2) by simp
      have "TrySetReleaseFlag (s_control s) = Some (SessionControl (of_nat (io_count s + e)) 1, of_nat (io_count s + e))"
        by (simp only: f(1) TrySetReleaseFlag_packed f0) simp
      moreover have "k_release s = 0" using f(5) f0 by simp
      ultimately show ?thesis using assms(2) z f0
        by (auto simp: requestRelease_def simp del: of_nat_add)
    qed
    then show "s' = s\<lparr>s_control := SessionControl (of_nat (io_count s + e)) 1,
        k_release := (if io_count s + e = 0 then 1 else 0)\<rparr>"
      "g' = (if f = 1 then g else g\<lparr>mDisconnectCount := (mDisconnectCount g)(reason := mDisconnectCount g reason + 1)\<rparr>)"
      by blast+
  qed
  then show "released s'" "\<exists>c n. s' = s\<lparr>s_control := c, k_release := n\<rparr>" "heap g' = heap g" "freed g' = freed g"
    by (auto simp: released_def)
  show "mDisconnectCount g' = (if released s then mDisconnectCount g
       else (mDisconnectCount g)(reason := mDisconnectCount g reason + 1))"
    using s'(2) f(3) by auto
  have "io_count s' = io_count s" by (simp add: s' io_count_def)
  then show "counts e s'"
    using s' assms(1) by (intro countsI [where f = 1]) (auto simp: counts_def)
qed

section \<open>Ownership of packets\<close>

text \<open>
  \<open>owned s p\<close>: the references on packet \<open>p\<close> that a session will give back, for packets that wait
  in the ring and for those of a send the kernel holds.
\<close>

definition owned :: "session \<Rightarrow> nat \<Rightarrow> int" where
  "owned s p = int (count_list (contents (sendRing s)) p) +
     (if k_send s then int (count_list (sentPackets s) p) else 0)"

definition refcnt :: "netstate \<Rightarrow> nat \<Rightarrow> int" where
  "refcnt g p = mRefCnt (heap g p)"

lemma refcnt_SubRef_at: "refcnt (SubRef_at q g) p = refcnt g p - (if p = q then 1 else 0)"
  by (simp add: refcnt_def SubRef_at_def SubRef_def Let_def)

lemma refcnt_SubRef_all: "refcnt (SubRef_all ps g) p = refcnt g p - int (count_list ps p)"
  unfolding SubRef_all_def
  by (induction ps arbitrary: g) (simp_all add: refcnt_SubRef_at)

lemma refcnt_AddRef_at: "refcnt (AddRef_at q g) p = refcnt g p + (if p = q then 1 else 0)"
  by (simp add: refcnt_def AddRef_at_def AddRef_def)

text \<open>Giving references back changes nothing but the counts.\<close>

definition same_bytes :: "netstate \<Rightarrow> netstate \<Rightarrow> bool" where
  "same_bytes g g' \<longleftrightarrow>
     (\<forall>p. written (heap g' p) = written (heap g p) \<and> mIsEncoding (heap g' p) = mIsEncoding (heap g p) \<and>
          packet_ok (heap g' p) = packet_ok (heap g p) \<and> capacity (heap g' p) = capacity (heap g p) \<and>
          mDataSize (heap g' p) = mDataSize (heap g p))"

lemma same_bytes_refl [simp]: "same_bytes g g"
  by (simp add: same_bytes_def)

lemma same_bytes_trans: "same_bytes g g' \<Longrightarrow> same_bytes g' g'' \<Longrightarrow> same_bytes g g''"
  by (simp add: same_bytes_def)

lemma same_bytes_heap: "heap g' = heap g \<Longrightarrow> same_bytes g g'"
  by (simp add: same_bytes_def)

lemma same_bytes_SubRef_at: "same_bytes g (SubRef_at p g)"
  by (simp add: same_bytes_def SubRef_at_def SubRef_def Let_def written_def packet_ok_def capacity_def)

lemma same_bytes_SubRef_all: "same_bytes g (SubRef_all ps g)"
  unfolding SubRef_all_def
  by (induction ps arbitrary: g) (auto intro: same_bytes_trans same_bytes_SubRef_at)

lemma same_bytes_AddRef_at: "same_bytes g (AddRef_at p g)"
  by (simp add: same_bytes_def AddRef_at_def AddRef_simps)

lemma count_list_take_drop: "count_list (take n xs) x + count_list (drop n xs) x = count_list xs x"
  by (metis append_take_drop_id count_list_append)

text \<open>The bytes a session has put on the wire and those that wait, in order.\<close>

definition outbound :: "session \<Rightarrow> netstate \<Rightarrow> bytes" where
  "outbound s g = k_wire s @ concat (map (\<lambda>p. written (heap g p)) (contents (sendRing s)))"

section \<open>What the handlers of one session do\<close>

lemma rings_ok_upd [simp]:
  "rings_ok (s\<lparr>s_control := c\<rparr>) = rings_ok s" "rings_ok (s\<lparr>k_release := n\<rparr>) = rings_ok s"
  "rings_ok (s\<lparr>k_recv := b\<rparr>) = rings_ok s" "rings_ok (s\<lparr>k_send := b\<rparr>) = rings_ok s"
  "rings_ok (s\<lparr>sendFlag := f\<rparr>) = rings_ok s" "rings_ok (s\<lparr>sentPackets := ps\<rparr>) = rings_ok s"
  "rings_ok (s\<lparr>k_wire := w\<rparr>) = rings_ok s" "rings_ok (s\<lparr>s_socket := k\<rparr>) = rings_ok s"
  by (simp_all add: rings_ok_def)

text \<open>What every handler leaves alone: the identity of the session.\<close>

definition same_session :: "session \<Rightarrow> session \<Rightarrow> bool" where
  "same_session s s' \<longleftrightarrow> s_id s' = s_id s \<and> s_state s' = s_state s \<and> s_socket s' = s_socket s"

lemma same_session_refl [simp]: "same_session s s"
  by (simp add: same_session_def)

lemma DequeueItem_size: "DequeueItem r = Some (r', x) \<Longrightarrow> GetBufferSize r' = GetBufferSize r"
  by (auto simp: DequeueItem_def GetBufferSize_def bind_eq_Some_conv split: if_splits)

lemma pop_upto_size:
  "pop_upto DequeueItem n r = Some (r', xs) \<Longrightarrow> GetBufferSize r' = GetBufferSize r"
proof (induction n arbitrary: r xs)
  case 0
  then show ?case by simp
next
  case (Suc n)
  from Suc.prems obtain r1 x where d: "DequeueItem r = Some (r1, x)"
    by (auto simp: bind_eq_Some_conv)
  show ?case
  proof (cases x)
    case None
    then show ?thesis using Suc.prems d DequeueItem_size [OF d] by simp
  next
    case (Some a)
    then obtain ys where "pop_upto DequeueItem n r1 = Some (r', ys)"
      using Suc.prems d by (auto simp: bind_eq_Some_conv)
    then show ?thesis using Suc.IH DequeueItem_size [OF d] by auto
  qed
qed

lemma postSend_spec:
  assumes "counts e s" and "e < 2 ^ 30" and "rings_ok s" and "send_pre s"
  obtains s' g' b where "postSend w (s, g) = Some ((s', g'), b)" "counts e s'" "rings_ok s'" "send_ok s'"
    "same_session s s'" "released s \<longrightarrow> released s'" "k_recv s' = k_recv s" "recvRing s' = recvRing s"
    "\<And>p. refcnt g' p - owned s' p = refcnt g p - owned s p" "same_bytes g g'"
    "b \<longrightarrow> (released s' \<longleftrightarrow> released s) \<and>
      k_wire s' @ concat (map (\<lambda>p. written (heap g' p)) (contents (sendRing s'))) =
      k_wire s @ concat (map (\<lambda>p. written (heap g p)) (contents (sendRing s)))"
    "\<not> b \<longrightarrow> released s'" "w = Started \<and> \<not> released s \<longrightarrow> b"
proof (cases "sendFlag s = 0")
  case False
  then have "postSend w (s, g) = Some ((s, g), True)" by (simp add: postSend_def)
  moreover have "send_ok s" using False assms(4) by (simp add: send_ok_def)
  ultimately show ?thesis using assms by (intro that [of s g True]) simp_all
next
  case True
  let ?c = "contents (sendRing s)"
  from assms(3) have ro: "ring_ok (sendRing s)" by (simp add: rings_ok_def)
  obtain ring' where pop: "pop_upto DequeueItem MAX_SEND_PACKET (sendRing s) = Some (ring', take MAX_SEND_PACKET ?c)"
    "ring_ok ring'" "contents ring' = drop MAX_SEND_PACKET ?c"
    using send_ring.pop_upto_spec [OF ro] by blast
  have cap: "GetBufferSize ring' = GetBufferSize (sendRing s)" using pop_upto_size [OF pop(1)] .
  define s1 where "s1 = s\<lparr>sendFlag := 1, sendRing := ring', sentPackets := take MAX_SEND_PACKET ?c\<rparr>"
  have io: "io_count s1 = io_count s" "released s1 \<longleftrightarrow> released s" "\<not> k_send s"
    using assms(4) True by (auto simp: s1_def io_count_def released_def send_pre_def)
  have c1: "counts e s1" using assms(1) by (simp add: counts_def io_count_def released_def s1_def)
  have r1: "rings_ok s1" using assms(3) pop cap by (simp add: s1_def rings_ok_def)
  have o1: "int (count_list (drop MAX_SEND_PACKET ?c) p) + int (count_list (take MAX_SEND_PACKET ?c) p) = owned s p" for p
    using io(3) count_list_take_drop [of MAX_SEND_PACKET ?c p] by (simp add: owned_def)
  have def_: "postSend w (s, g) =
      (if take MAX_SEND_PACKET ?c = [] then Some ((s1\<lparr>sendFlag := 0\<rparr>, g), True)
       else (case IncreaseIoCount_s s1 of
             None \<Rightarrow> Some ((s1\<lparr>sentPackets := [], sendFlag := 0\<rparr>, SubRef_all (take MAX_SEND_PACKET ?c) g), False)
           | Some s2 \<Rightarrow>
               (case w of
                  Failed \<Rightarrow>
                    (let (s3, g3) = requestRelease SendError (s2\<lparr>sentPackets := []\<rparr>, SubRef_all (take MAX_SEND_PACKET ?c) g);
                         s4 = decreaseSessionIoCount_s s3
                     in Some ((s4\<lparr>sendFlag := 0\<rparr>, g3), False))
                | Started \<Rightarrow>
                    Some ((s2\<lparr>k_send := True,
                        k_wire := k_wire s2 @ concat (map (\<lambda>p. written (heap g p)) (take MAX_SEND_PACKET ?c))\<rparr>, g), True))))"
    using True by (simp only: postSend_def s1_def Let_def prod.case pop(1) bind.simps refl simp_thms if_False)
  show ?thesis
  proof (cases "?c = []")
    case c0: True
    have "send_ok (s1\<lparr>sendFlag := 0\<rparr>)" using c0 pop(3) io by (simp add: send_ok_def send_pre_def s1_def)
    then show ?thesis using c0 c1 r1 o1 def_ pop(3) by (intro that [of "s1\<lparr>sendFlag := 0\<rparr>" g True])
        (auto simp: counts_def io_count_def released_def s1_def same_session_def owned_def MAX_SEND_PACKET_def rings_ok_def)
  next
    case False
    then have ne: "take MAX_SEND_PACKET ?c \<noteq> []" by (simp add: MAX_SEND_PACKET_def)
    show ?thesis
    proof (cases "released s")
      case rel: True
      have "IncreaseIoCount_s s1 = None" using IncreaseIoCount_s_spec [OF c1 assms(2)] rel io by simp
      then have eq: "postSend w (s, g) =
          Some ((s1\<lparr>sentPackets := [], sendFlag := 0\<rparr>, SubRef_all (take MAX_SEND_PACKET ?c) g), False)"
        using def_ ne by simp
      let ?s' = "s1\<lparr>sentPackets := [], sendFlag := 0\<rparr>"
      have "counts e ?s'" using c1 by (simp add: counts_def io_count_def released_def)
      moreover have "send_ok ?s'" "released ?s'" "k_recv ?s' = k_recv s" "recvRing ?s' = recvRing s" "same_session s ?s'"
        using rel io by (simp_all add: send_ok_def send_pre_def s1_def released_def same_session_def)
      moreover have "refcnt (SubRef_all (take MAX_SEND_PACKET ?c) g) p - owned ?s' p = refcnt g p - owned s p" for p
        using o1 [of p] pop(3) io(3) by (simp add: refcnt_SubRef_all owned_def s1_def)
      ultimately show ?thesis using eq r1
        by (intro that [of ?s' "SubRef_all (take MAX_SEND_PACKET ?c) g" False])
          (simp_all add: same_bytes_SubRef_all rel)
    next
      case nrel: False
      define s2 where "s2 = s1\<lparr>s_control := SessionControl (of_nat (io_count s1 + e + 1)) 0\<rparr>"
      have inc: "IncreaseIoCount_s s1 = Some s2"
        using IncreaseIoCount_s_spec [OF c1 assms(2)] nrel io by (simp add: s2_def)
      note c2 = IncreaseIoCount_s_counts [OF c1 assms(2) inc]
      show ?thesis
      proof (cases w)
        case Started
        let ?s' = "s2\<lparr>k_send := True, k_wire := k_wire s2 @ concat (map (\<lambda>p. written (heap g p)) (take MAX_SEND_PACKET ?c))\<rparr>"
        have "io_count ?s' = Suc (io_count s)" using io by (simp add: io_count_def s2_def s1_def)
        then have "counts e ?s'" using c2(1,3) io assms(2)
          by (auto simp: counts_def released_def s2_def s1_def io_count_def)
        moreover have "send_ok ?s'" using ne nrel io by (simp add: send_ok_def send_pre_def s2_def s1_def)
        moreover have "owned ?s' p = owned s p" for p
          using o1 [of p] pop(3) by (simp add: owned_def s2_def s1_def)
        moreover have "concat (map (\<lambda>p. written (heap g p)) (take MAX_SEND_PACKET ?c))
            @ concat (map (\<lambda>p. written (heap g p)) (drop MAX_SEND_PACKET ?c)) = concat (map (\<lambda>p. written (heap g p)) ?c)"
          by (metis append_take_drop_id concat_append map_append)
        ultimately show ?thesis using def_ ne inc Started r1 c2(3) nrel pop(3)
          by (intro that [of ?s' g True]) (simp_all add: s2_def s1_def same_session_def released_def)
      next
        case Failed
        obtain s3 g3 where rr: "requestRelease SendError (s2\<lparr>sentPackets := []\<rparr>, SubRef_all (take MAX_SEND_PACKET ?c) g) = (s3, g3)"
          by fastforce
        have c2': "counts (Suc e) (s2\<lparr>sentPackets := []\<rparr>)"
          using c2(1) by (simp add: counts_def released_def io_count_def)
        note c3 = requestRelease_counts [OF c2' rr]
        from c3(3) obtain c3' n3 where s3: "s3 = s2\<lparr>sentPackets := [], s_control := c3', k_release := n3\<rparr>" by auto
        define s4 where "s4 = decreaseSessionIoCount_s s3"
        note c4 = decrease_s_counts [OF c3(1), folded s4_def]
        from c4(3) s3 obtain c4' n4 where s4: "s4 = s2\<lparr>sentPackets := [], s_control := c4', k_release := n4\<rparr>" by auto
        let ?s' = "s4\<lparr>sendFlag := 0\<rparr>"
        have eq: "postSend w (s, g) = Some ((?s', g3), False)"
          using def_ ne inc Failed rr by (simp add: s4_def)
        have "counts e ?s'" "released ?s'" using c4(1,2) c3(2) by (simp_all add: counts_def released_def io_count_def)
        moreover have "send_ok ?s'" "k_recv ?s' = k_recv s" "recvRing ?s' = recvRing s" "same_session s ?s'"
          using \<open>released ?s'\<close> io s4 by (simp_all add: send_ok_def send_pre_def s2_def s1_def same_session_def)
        moreover have "refcnt g3 p - owned ?s' p = refcnt g p - owned s p" for p
        proof -
          have "refcnt g3 p = refcnt (SubRef_all (take MAX_SEND_PACKET ?c) g) p" by (simp add: refcnt_def c3(4))
          then show ?thesis using o1 [of p] pop(3) io(3) by (simp add: refcnt_SubRef_all owned_def s4 s2_def s1_def)
        qed
        moreover have "same_bytes g g3"
          using same_bytes_trans [OF same_bytes_SubRef_all same_bytes_heap [OF c3(4)]] .
        moreover have "rings_ok ?s'" using r1 s4 by (simp add: s2_def)
        ultimately show ?thesis using eq Failed by (intro that [of ?s' g3 False]) simp_all
      qed
    qed
  qed
qed

text \<open>\<open>ctl_upd s s'\<close>: only the control word, the queued releases and the receive changed.\<close>

definition ctl_upd :: "session \<Rightarrow> session \<Rightarrow> bool" where
  "ctl_upd s s' \<longleftrightarrow> (\<exists>c n r. s' = s\<lparr>s_control := c, k_release := n, k_recv := r\<rparr>)"

lemma ctl_updI:
  "ctl_upd s s" "ctl_upd s (s\<lparr>s_control := c\<rparr>)" "ctl_upd s (s\<lparr>s_control := c, k_release := n\<rparr>)"
  "ctl_upd s (s\<lparr>k_recv := b\<rparr>)" "ctl_upd s (s\<lparr>k_release := n\<rparr>)"
proof -
  have a: "\<And>c n b. ctl_upd s (s\<lparr>s_control := c, k_release := n, k_recv := b\<rparr>)"
    by (auto simp: ctl_upd_def)
  show "ctl_upd s s" using a [where c = "s_control s" and n = "k_release s" and b = "k_recv s"] by simp
  show "ctl_upd s (s\<lparr>s_control := c\<rparr>)" using a [where c = c and n = "k_release s" and b = "k_recv s"] by simp
  show "ctl_upd s (s\<lparr>s_control := c, k_release := n\<rparr>)" using a [where c = c and n = n and b = "k_recv s"] by simp
  show "ctl_upd s (s\<lparr>k_recv := b\<rparr>)" using a [where c = "s_control s" and n = "k_release s" and b = b] by simp
  show "ctl_upd s (s\<lparr>k_release := n\<rparr>)" using a [where c = "s_control s" and n = n and b = "k_recv s"] by simp
qed

lemma ctl_upd_trans: "ctl_upd s s' \<Longrightarrow> ctl_upd s' s'' \<Longrightarrow> ctl_upd s s''"
  unfolding ctl_upd_def by force

lemma ctl_upd_keeps:
  assumes "ctl_upd s s'"
  shows "rings_ok s' = rings_ok s" "owned s' = owned s" "same_session s s'" "recvRing s' = recvRing s"
    "sendRing s' = sendRing s" "k_send s' = k_send s" "sendFlag s' = sendFlag s" "k_wire s' = k_wire s"
    "sentPackets s' = sentPackets s" "s_state s' = s_state s" "s_id s' = s_id s"
  using assms by (auto simp: ctl_upd_def rings_ok_def owned_def same_session_def fun_eq_iff)

lemma ctl_upd_send:
  assumes "ctl_upd s s'" and "released s \<longrightarrow> released s'"
  shows "send_ok s \<Longrightarrow> send_ok s'" "send_pre s \<Longrightarrow> send_pre s'"
  using assms(2) ctl_upd_keeps [OF assms(1)] by (auto simp: send_ok_def send_pre_def)

lemma IncreaseIoCount_s_ctl: "IncreaseIoCount_s s = Some s' \<Longrightarrow> ctl_upd s s'"
  by (auto simp: IncreaseIoCount_s_def intro: ctl_updI)

lemma decrease_s_ctl: "ctl_upd s (decreaseSessionIoCount_s s)"
  by (auto simp: decreaseSessionIoCount_s_def decreaseSessionIoCount_def Let_def intro: ctl_updI)

lemma requestRelease_ctl: "requestRelease r (s, g) = (s', g') \<Longrightarrow> ctl_upd s s'"
  by (auto simp: requestRelease_def intro: ctl_updI split: option.splits)

text \<open>Shutting down and giving a reference back, the end of most branches.\<close>

lemma release_and_decrease:
  assumes "counts (Suc e) s" and "requestRelease r (s, g) = (s', g')"
  shows "counts e (decreaseSessionIoCount_s s')" "released (decreaseSessionIoCount_s s')"
    "ctl_upd s (decreaseSessionIoCount_s s')" "heap g' = heap g" "freed g' = freed g"
  using requestRelease_counts [OF assms] requestRelease_ctl [OF assms(2)] decrease_s_ctl [of s']
    decrease_s_counts by (auto intro: ctl_upd_trans)

lemma release_and_decrease_recv:
  "requestRelease r (s, g) = (s', g') \<Longrightarrow> k_recv (decreaseSessionIoCount_s s') = k_recv s"
  by (auto simp: requestRelease_def decreaseSessionIoCount_s_def decreaseSessionIoCount_def Let_def
      split: option.splits)

lemma postRecv_spec:
  assumes "counts e s" and "e < 2 ^ 30" and "\<not> k_recv s" and "postRecv w (s, g) = ((s', g'), b)"
  shows "counts e s'" "released s \<longrightarrow> released s'" "ctl_upd s s'" "heap g' = heap g" "freed g' = freed g"
    "k_recv s' \<longleftrightarrow> b" "\<not> b \<longrightarrow> released s'"
proof -
  have "counts e s' \<and> (released s \<longrightarrow> released s') \<and> ctl_upd s s' \<and> heap g' = heap g \<and> freed g' = freed g \<and>
    (k_recv s' \<longleftrightarrow> b) \<and> (\<not> b \<longrightarrow> released s')"
  proof (cases "IncreaseIoCount_s s")
    case None
    then have "released s" using IncreaseIoCount_s_spec [OF assms(1,2)] by (auto split: if_splits)
    with None assms show ?thesis by (auto simp: postRecv_def intro: ctl_updI)
  next
    case (Some s1)
    note i = IncreaseIoCount_s_counts [OF assms(1,2) Some] and ic = IncreaseIoCount_s_ctl [OF Some]
    have r1: "\<not> k_recv s1" using i(4) assms(3) by auto
    show ?thesis
    proof (cases "fst (GetEnqueueSegments (recvRing s1)) \<noteq> 0 \<and> w = Started")
      case True
      then have e: "s' = s1\<lparr>k_recv := True\<rparr>" "g' = g" "b" using Some assms(4) by (auto simp: postRecv_def)
      have "io_count s' = Suc (io_count s1)" using r1 by (simp add: e io_count_def)
      then have "counts e s'" using i(1,3) e by (auto simp: counts_def released_def)
      then show ?thesis using e i ic by (auto intro: ctl_upd_trans ctl_updI)
    next
      case False
      then obtain r s2 where "requestRelease r (s1, g) = (s2, g')" "s' = decreaseSessionIoCount_s s2" "\<not> b"
        using Some assms(4) by (auto simp: postRecv_def split: if_splits io_result.splits prod.splits)
      with release_and_decrease [OF i(1)] release_and_decrease_recv r1 ic show ?thesis
        by (auto intro: ctl_upd_trans)
    qed
  qed
  then show "counts e s'" "released s \<longrightarrow> released s'" "ctl_upd s s'" "heap g' = heap g" "freed g' = freed g"
    "k_recv s' \<longleftrightarrow> b" "\<not> b \<longrightarrow> released s'" by blast+
qed

section \<open>The invariant of the server\<close>

definition live :: "nat \<Rightarrow> session \<Rightarrow> bool" where
  "live i s \<longleftrightarrow> s_state s = Connected \<and> unat (drop_bit 48 (s_id s)) = i \<and> counts 0 s \<and> rings_ok s \<and> send_ok s"

definition idle :: "session \<Rightarrow> bool" where
  "idle s \<longleftrightarrow> s_state s = Free \<and> rings_ok s \<and> \<not> k_recv s \<and> \<not> k_send s \<and> k_release s = 0 \<and>
     contents (sendRing s) = []"

definition server_ok :: "server \<Rightarrow> bool" where
  "server_ok srv \<longleftrightarrow>
     length (mSessionListHead srv) = DEFAULT_MAX_CONNECTION \<and>
     distinct (mSessionEmptyIndexStack srv) \<and> set (mSessionEmptyIndexStack srv) \<subseteq> {..<DEFAULT_MAX_CONNECTION} \<and>
     mSessionCount srv = int DEFAULT_MAX_CONNECTION - int (length (mSessionEmptyIndexStack srv)) \<and>
     (\<forall>i < DEFAULT_MAX_CONNECTION.
        if i \<in> set (mSessionEmptyIndexStack srv) then idle (mSessionListHead srv ! i)
        else live i (mSessionListHead srv ! i))"

definition total_owned :: "server \<Rightarrow> nat \<Rightarrow> int" where
  "total_owned srv p = (\<Sum>s\<leftarrow>mSessionListHead srv. owned s p)"

text \<open>\<open>loose srv p\<close>: the references on \<open>p\<close> that no session accounts for.\<close>

definition loose :: "server \<Rightarrow> nat \<Rightarrow> int" where
  "loose srv p = refcnt (net srv) p - total_owned srv p"

lemma sum_list_update_int:
  "i < length xs \<Longrightarrow> (\<Sum>x\<leftarrow>xs[i := y]. f x) = (\<Sum>x\<leftarrow>xs. f x) - f (xs ! i) + (f y :: int)"
  by (induction xs arbitrary: i) (auto split: nat.splits)

lemma loose_upd:
  assumes "server_ok srv" and "i < DEFAULT_MAX_CONNECTION"
    and "refcnt g p - owned s p = refcnt (net srv) p - owned (mSessionListHead srv ! i) p"
  shows "loose (upd_session srv i (s, g)) p = loose srv p"
  using assms by (simp add: loose_def total_owned_def upd_session_def sum_list_update_int server_ok_def)

lemma server_ok_live:
  "server_ok srv \<Longrightarrow> i < DEFAULT_MAX_CONNECTION \<Longrightarrow> s_state (mSessionListHead srv ! i) \<noteq> Free \<Longrightarrow>
   live i (mSessionListHead srv ! i) \<and> i \<notin> set (mSessionEmptyIndexStack srv)"
  by (auto simp: server_ok_def idle_def split: if_splits)

lemma server_ok_upd:
  assumes "server_ok srv" and "i < DEFAULT_MAX_CONNECTION" and "i \<notin> set (mSessionEmptyIndexStack srv)" and "live i s"
  shows "server_ok (upd_session srv i (s, g))"
  using assms by (auto simp: server_ok_def upd_session_def nth_list_update)

lemma findSession_Some:
  "findSession srv sid = Some i \<Longrightarrow>
   i < DEFAULT_MAX_CONNECTION \<and> i = unat (drop_bit 48 sid) \<and> s_id (mSessionListHead srv ! i) = sid \<and>
   s_state (mSessionListHead srv ! i) = Connected"
  by (auto simp: findSession_def Let_def split: if_splits)

lemma live_ctl_upd:
  assumes "live i s" and "ctl_upd s s'" and "counts 0 s'" and "released s \<longrightarrow> released s'"
  shows "live i s'"
  using assms ctl_upd_keeps [OF assms(2)] ctl_upd_send [OF assms(2,4)] by (simp add: live_def)

section \<open>Every handler keeps the invariant and accounts for the packets\<close>

text \<open>\<open>same_ids\<close>: the same sessions are connected under the same ids.\<close>

definition ids :: "server \<Rightarrow> (u64 \<times> ESessionState) list" where
  "ids srv = map (\<lambda>s. (s_id s, s_state s)) (mSessionListHead srv)"

definition same_ids :: "server \<Rightarrow> server \<Rightarrow> bool" where
  "same_ids srv srv' \<longleftrightarrow> mSessionID srv' = mSessionID srv \<and> ids srv' = ids srv"

lemma same_ids_upd:
  assumes "s_id s = s_id (mSessionListHead srv ! i)" and "s_state s = s_state (mSessionListHead srv ! i)"
  shows "same_ids srv (upd_session srv i (s, g))"
proof (cases "i < length (mSessionListHead srv)")
  case True
  then have "(map (\<lambda>s. (s_id s, s_state s)) (mSessionListHead srv))[i := (s_id s, s_state s)] = ids srv"
    using assms by (simp add: ids_def list_update_same_conv)
  then show ?thesis by (simp add: same_ids_def ids_def upd_session_def map_update)
qed (simp add: same_ids_def ids_def upd_session_def list_update_beyond)

lemma findSession_ids:
  assumes "ids srv' = ids srv" and "DEFAULT_MAX_CONNECTION \<le> length (mSessionListHead srv)"
  shows "findSession srv' sid = findSession srv sid"
proof -
  have l: "length (mSessionListHead srv') = length (mSessionListHead srv)"
    using arg_cong [OF assms(1), of length] by (simp add: ids_def)
  have "(s_id (mSessionListHead srv' ! i), s_state (mSessionListHead srv' ! i)) =
      (s_id (mSessionListHead srv ! i), s_state (mSessionListHead srv ! i))" if "i < DEFAULT_MAX_CONNECTION" for i
    using arg_cong [OF assms(1), of "\<lambda>xs. xs ! i"] that assms(2) l by (simp add: ids_def)
  then show ?thesis by (auto simp: findSession_def Let_def)
qed

definition step_ok :: "server \<Rightarrow> server \<Rightarrow> bool" where
  "step_ok srv srv' \<longleftrightarrow> server_ok srv' \<and> (\<forall>p. loose srv' p = loose srv p) \<and> same_ids srv srv'"

lemma upd_step_ok:
  assumes "server_ok srv" and "i < DEFAULT_MAX_CONNECTION" and "i \<notin> set (mSessionEmptyIndexStack srv)" and "live i s"
    and "\<And>p. refcnt g p - owned s p = refcnt (net srv) p - owned (mSessionListHead srv ! i) p"
    and "s_id s = s_id (mSessionListHead srv ! i)"
  shows "step_ok srv (upd_session srv i (s, g))"
proof -
  have "s_state s = s_state (mSessionListHead srv ! i)"
    using assms(1-4) by (auto simp: server_ok_def live_def)
  then show ?thesis
    using server_ok_upd [OF assms(1-4)] loose_upd [OF assms(1,2)] assms(5,6) same_ids_upd
    by (simp add: step_ok_def)
qed

lemma ctl_step_ok:
  assumes "server_ok srv" and "i < DEFAULT_MAX_CONNECTION" and "i \<notin> set (mSessionEmptyIndexStack srv)"
    and "live i (mSessionListHead srv ! i)" and "ctl_upd (mSessionListHead srv ! i) s" and "counts 0 s"
    and "released (mSessionListHead srv ! i) \<longrightarrow> released s" and "heap g = heap (net srv)"
  shows "step_ok srv (upd_session srv i (s, g))"
proof (rule upd_step_ok [OF assms(1-3)])
  show "live i s" by (rule live_ctl_upd [OF assms(4-7)])
  show "refcnt g p - owned s p = refcnt (net srv) p - owned (mSessionListHead srv ! i) p" for p
    using ctl_upd_keeps(2) [OF assms(5)] assms(8) by (simp add: refcnt_def)
qed (simp add: ctl_upd_keeps(11) [OF assms(5)])

lemma found_live:
  assumes "server_ok srv" and "findSession srv sid = Some i"
  shows "i < DEFAULT_MAX_CONNECTION" "i \<notin> set (mSessionEmptyIndexStack srv)" "live i (mSessionListHead srv ! i)"
    "s_id (mSessionListHead srv ! i) = sid" "s_state (mSessionListHead srv ! i) = Connected"
  using findSession_Some [OF assms(2)] server_ok_live [OF assms(1), of i] by auto

lemma step_ok_refl: "server_ok srv \<Longrightarrow> step_ok srv srv"
  by (simp add: step_ok_def same_ids_def)

lemma DisConnect_step:
  assumes "server_ok srv"
  shows "step_ok srv (fst (DisConnect sid r srv))"
proof (cases "findSession srv sid")
  case None
  then show ?thesis using assms by (simp add: DisConnect_def step_ok_refl)
next
  case (Some i)
  note fl = found_live [OF assms Some]
  let ?s = "mSessionListHead srv ! i"
  have c: "counts 0 ?s" using fl(3) by (simp add: live_def)
  show ?thesis
  proof (cases "IncreaseIoCount_s ?s")
    case None
    then show ?thesis using assms Some by (simp add: DisConnect_def step_ok_refl)
  next
    case (Some s1)
    note i1 = IncreaseIoCount_s_counts [OF c _ Some] and ic = IncreaseIoCount_s_ctl [OF Some]
    obtain s2 g2 where rr: "requestRelease r (s1, net srv) = (s2, g2)" by fastforce
    have c1: "counts (Suc 0) s1" using i1(1) by simp
    note r = release_and_decrease [OF c1 rr]
    have "fst (DisConnect sid r srv) = upd_session srv i (decreaseSessionIoCount_s s2, g2)"
      using \<open>findSession srv sid = Some i\<close> Some rr ctl_upd_keeps(11) [OF ic] fl(4) by (simp add: DisConnect_def)
    moreover have "step_ok srv (upd_session srv i (decreaseSessionIoCount_s s2, g2))"
      using r by (intro ctl_step_ok [OF assms fl(1-3)] ctl_upd_trans [OF ic r(3)]) auto
    ultimately show ?thesis by simp
  qed
qed

lemma first_recv_step:
  assumes "server_ok srv" and "i < DEFAULT_MAX_CONNECTION" and "i \<notin> set (mSessionEmptyIndexStack srv)"
    and "\<not> k_recv (mSessionListHead srv ! i)"
  shows "step_ok srv (first_recv i w srv)"
proof -
  let ?s = "mSessionListHead srv ! i"
  have lv: "live i ?s" using assms by (auto simp: server_ok_def)
  obtain s1 g1 b where pr: "postRecv w (?s, net srv) = ((s1, g1), b)" by (metis prod.exhaust)
  have c: "counts 0 ?s" using lv by (simp add: live_def)
  note r = postRecv_spec [OF c _ assms(4) pr]
  show ?thesis
  proof (cases b)
    case True
    then show ?thesis using r pr by (simp add: first_recv_def ctl_step_ok [OF assms(1-3) lv])
  next
    case False
    obtain s2 g2 where rr: "requestRelease RecvError (s1, g1) = (s2, g2)" by fastforce
    have c1: "counts 0 s1" using r(1) by simp
    note q = requestRelease_counts [OF c1 rr] and qc = requestRelease_ctl [OF rr]
    have u: "ctl_upd ?s s2" using ctl_upd_trans [OF _ qc] r(3) by simp
    show ?thesis using False pr rr q r(4) u by (simp add: first_recv_def ctl_step_ok [OF assms(1-3) lv u])
  qed
qed

text \<open>A completion in hand: the kernel's count becomes a reference of the handler.\<close>

lemma io_returned_RECV:
  assumes "counts 0 s" and "k_recv s"
  shows "counts (Suc 0) (io_returned RECV s)" "released (io_returned RECV s) = released s"
    "ctl_upd s (io_returned RECV s)" "\<not> k_recv (io_returned RECV s)"
  using assms by (auto simp: io_returned_def counts_def io_count_def released_def intro: ctl_updI)

lemma io_returned_SEND:
  assumes "counts 0 s" and "k_send s"
  shows "counts (Suc 0) (io_returned SEND s)" "released (io_returned SEND s) = released s"
  using assms by (auto simp: io_returned_def counts_def io_count_def released_def)

lemma worker_closed_step:
  assumes "server_ok srv" and "i < DEFAULT_MAX_CONNECTION" and "i \<notin> set (mSessionEmptyIndexStack srv)"
    and "k_recv (mSessionListHead srv ! i)" and "r \<in> {PeerClose, ClientForceClose, PacketError}"
    and "requestRelease r (io_returned RECV (mSessionListHead srv ! i), net srv) = (s1, g1)"
  shows "step_ok srv (upd_session srv i (decreaseSessionIoCount_s s1, g1))"
proof -
  let ?s = "mSessionListHead srv ! i"
  have lv: "live i ?s" using assms by (auto simp: server_ok_def)
  have c: "counts 0 ?s" using lv by (simp add: live_def)
  note io = io_returned_RECV [OF c assms(4)]
  note r = release_and_decrease [OF io(1) assms(6)]
  show ?thesis using r by (intro ctl_step_ok [OF assms(1-3) lv ctl_upd_trans [OF io(3) r(3)]]) auto
qed

lemma worker_recv_end_step:
  assumes "server_ok srv" and "i < DEFAULT_MAX_CONNECTION" and "i \<notin> set (mSessionEmptyIndexStack srv)"
    and "k_recv (mSessionListHead srv ! i)"
  shows "step_ok srv (worker_recv_end e w i srv)"
proof (cases e)
  case (Some x)
  obtain s1 g1 where rr: "requestRelease PacketError (io_returned RECV (mSessionListHead srv ! i), net srv) = (s1, g1)"
    by fastforce
  then show ?thesis using worker_closed_step [OF assms _ rr] Some by (simp add: worker_recv_end_def)
next
  case None
  let ?s = "mSessionListHead srv ! i"
  have lv: "live i ?s" using assms by (auto simp: server_ok_def)
  have c: "counts 0 ?s" using lv by (simp add: live_def)
  note io = io_returned_RECV [OF c assms(4)]
  obtain s1 g1 b where pr: "postRecv w (io_returned RECV ?s, net srv) = ((s1, g1), b)" by (metis prod.exhaust)
  have r: "counts (Suc 0) s1" "released ?s \<longrightarrow> released s1" "ctl_upd ?s s1" "heap g1 = heap (net srv)"
    using postRecv_spec [OF io(1) _ io(4) pr] io(2,3) by (auto intro: ctl_upd_trans)
  show ?thesis
  proof (cases b)
    case True
    note d = decrease_s_counts [OF r(1)] and dc = ctl_upd_trans [OF r(3) decrease_s_ctl [of s1]]
    have "step_ok srv (upd_session srv i (decreaseSessionIoCount_s s1, g1))"
      using d r by (intro ctl_step_ok [OF assms(1-3) lv dc]) auto
    then show ?thesis using None True pr by (simp add: worker_recv_end_def)
  next
    case False
    obtain s2 g2 where rr: "requestRelease RecvError (s1, g1) = (s2, g2)" by fastforce
    note q = release_and_decrease [OF r(1) rr]
    have "step_ok srv (upd_session srv i (decreaseSessionIoCount_s s2, g2))"
      using q r by (intro ctl_step_ok [OF assms(1-3) lv ctl_upd_trans [OF r(3) q(3)]]) auto
    then show ?thesis using None False pr rr by (simp add: worker_recv_end_def)
  qed
qed

lemma worker_send_step:
  assumes "server_ok srv" and "i < DEFAULT_MAX_CONNECTION" and "i \<notin> set (mSessionEmptyIndexStack srv)"
    and "k_send (mSessionListHead srv ! i)"
  shows "\<exists>srv'. worker_send w i srv = Some srv' \<and> step_ok srv srv' \<and>
    (\<not> released (mSessionListHead srv' ! i) \<longrightarrow>
       outbound (mSessionListHead srv' ! i) (net srv') = outbound (mSessionListHead srv ! i) (net srv))"
proof -
  let ?s = "mSessionListHead srv ! i"
  have lv: "live i ?s" using assms by (auto simp: server_ok_def)
  have c: "counts 0 ?s" and ro: "rings_ok ?s" and so: "send_ok ?s" using lv by (auto simp: live_def)
  note io = io_returned_SEND [OF c assms(4)]
  let ?s1 = "(io_returned SEND ?s)\<lparr>sentPackets := [], sendFlag := 0\<rparr>"
  let ?g1 = "SubRef_all (sentPackets (io_returned SEND ?s)) (net srv)"
  have c1: "counts (Suc 0) ?s1" using io by (simp add: counts_def io_count_def released_def)
  have r1: "rings_ok ?s1" using ro by (simp add: io_returned_def)
  have p1: "send_pre ?s1" by (simp add: send_pre_def io_returned_def)
  have o: "refcnt ?g1 p - owned ?s1 p = refcnt (net srv) p - owned ?s p" for p
    using assms(4) by (simp add: refcnt_SubRef_all owned_def io_returned_def)
  obtain s2 g2 b where ps: "postSend w (?s1, ?g1) = Some ((s2, g2), b)" "counts (Suc 0) s2" "rings_ok s2" "send_ok s2"
    "same_session ?s1 s2" "\<And>p. refcnt g2 p - owned s2 p = refcnt ?g1 p - owned ?s1 p"
    "b \<longrightarrow> outbound s2 g2 = outbound ?s1 ?g1" "\<not> b \<longrightarrow> released s2"
    unfolding outbound_def by (rule postSend_spec [OF c1 _ r1 p1, of w ?g1]) (simp, blast)
  let ?s3 = "decreaseSessionIoCount_s s2"
  note d = decrease_s_counts [OF ps(2)] and dc = decrease_s_ctl [of s2]
  note k = ctl_upd_keeps [OF dc]
  have "live i ?s3"
    using d k ps(3,5) ctl_upd_send [OF dc] ps(4) lv
    by (auto simp: live_def same_session_def io_returned_def)
  then have "step_ok srv (upd_session srv i (?s3, g2))"
    using k(2,11) ps(5,6) o by (intro upd_step_ok [OF assms(1-3)]) (auto simp: same_session_def io_returned_def)
  moreover have "outbound ?s3 g2 = outbound ?s (net srv)" if "\<not> released ?s3"
  proof -
    have "outbound ?s1 ?g1 = outbound ?s (net srv)"
      using same_bytes_SubRef_all [of "net srv" "sentPackets ?s"]
      by (simp add: outbound_def io_returned_def same_bytes_def)
    then show ?thesis using ps(7,8) that d(2) k by (auto simp: outbound_def)
  qed
  moreover have "worker_send w i srv = Some (upd_session srv i (?s3, g2))"
    using ps(1) by (simp add: worker_send_def Let_def)
  moreover have "mSessionListHead (upd_session srv i (?s3, g2)) ! i = ?s3" "net (upd_session srv i (?s3, g2)) = g2"
    using assms(1,2) by (simp_all add: upd_session_def server_ok_def)
  ultimately show ?thesis by auto
qed

text \<open>
  A failed SEND completion keeps the invariant too, but the references of the packets of that
  send are given up without being given back.
\<close>

lemma worker_failed_send_step:
  assumes "server_ok srv" and "i < DEFAULT_MAX_CONNECTION" and "i \<notin> set (mSessionEmptyIndexStack srv)"
    and "k_send (mSessionListHead srv ! i)"
  shows "server_ok (worker_failed SEND i srv)"
    and "loose (worker_failed SEND i srv) p = loose srv p + int (count_list (sentPackets (mSessionListHead srv ! i)) p)"
proof -
  let ?s = "mSessionListHead srv ! i"
  have lv: "live i ?s" using assms by (auto simp: server_ok_def)
  have c: "counts 0 ?s" using lv by (simp add: live_def)
  note io = io_returned_SEND [OF c assms(4)]
  obtain s1 g1 where rr: "requestRelease ClientForceClose (io_returned SEND ?s, net srv) = (s1, g1)" by fastforce
  note r = release_and_decrease [OF io(1) rr]
  let ?s2 = "decreaseSessionIoCount_s s1"
  note k = ctl_upd_keeps [OF r(3)]
  have "send_ok ?s2" using lv r(2) k by (auto simp: live_def send_ok_def send_pre_def io_returned_def)
  moreover have "rings_ok ?s2" using lv k(1) by (simp add: live_def io_returned_def)
  ultimately have l2: "live i ?s2" using lv r(1) k by (simp add: live_def io_returned_def)
  have e: "worker_failed SEND i srv = upd_session srv i (?s2, g1)" using rr by (simp add: worker_failed_def)
  show "server_ok (worker_failed SEND i srv)" unfolding e by (rule server_ok_upd [OF assms(1-3) l2])
  have "owned ?s2 p = owned ?s p - int (count_list (sentPackets ?s) p)"
    using k assms(4) by (simp add: owned_def io_returned_def)
  moreover have "refcnt g1 p = refcnt (net srv) p" using r(4) by (simp add: refcnt_def)
  ultimately show "loose (worker_failed SEND i srv) p = loose srv p + int (count_list (sentPackets ?s) p)"
    using assms(1,2) unfolding e
    by (simp add: loose_def total_owned_def upd_session_def sum_list_update_int server_ok_def)
qed

text \<open>Sending a packet: the packet must be a well-formed one with the room of the header.\<close>

definition sendable :: "netstate \<Rightarrow> nat \<Rightarrow> bool" where
  "sendable g p \<longleftrightarrow> packet_ok (heap g p) \<and> capacity (heap g p) = BUFFER_DEFAULT \<and> 5 \<le> mDataSize (heap g p)"

lemma encode_packet_total:
  assumes "sendable g p"
  obtains pk rng where "encode_packet (heap g p) s = Some (pk, rng)" "mRefCnt pk = mRefCnt (heap g p)"
    "packet_ok pk" "capacity pk = BUFFER_DEFAULT" "mIsEncoding pk" "mDataSize pk = mDataSize (heap g p)"
proof (cases "mIsEncoding (heap g p)")
  case True
  then show ?thesis using assms that [of "heap g p" s] by (simp add: encode_packet_def sendable_def)
next
  case False
  with assms encode_packet_spec [of "heap g p" s] that show ?thesis by (auto simp: sendable_def)
qed

text \<open>What a call leaves alone: the other sessions, and every packet except for the encoding of its own.\<close>

definition send_frame :: "u64 \<Rightarrow> nat \<Rightarrow> u32 \<Rightarrow> server \<Rightarrow> server \<Rightarrow> bool \<Rightarrow> bool" where
  "send_frame sid p rng srv srv' b \<longleftrightarrow>
     (\<forall>j. findSession srv sid \<noteq> Some j \<longrightarrow> mSessionListHead srv' ! j = mSessionListHead srv ! j) \<and>
     (\<not> b \<and> same_bytes (net srv) (net srv') \<or>
      (\<exists>pk rng'. encode_packet (heap (net srv) p) rng = Some (pk, rng') \<and>
         same_bytes ((net srv)\<lparr>heap := (heap (net srv))(p := pk)\<rparr>) (net srv')))"

lemma send_frame_refl: "send_frame sid p rng srv srv False"
  by (simp add: send_frame_def)

lemma send_frame_upd:
  assumes "findSession srv sid = Some i" and "encode_packet (heap (net srv) p) rng = Some (pk, rng')"
    and "same_bytes ((net srv)\<lparr>heap := (heap (net srv))(p := pk)\<rparr>) g"
  shows "send_frame sid p rng srv (upd_session srv i (s, g)) b"
  using assms by (auto simp: send_frame_def upd_session_def)

lemma SendPacket_effect:
  assumes "server_ok srv" and "sendable (net srv) p"
  shows "\<exists>srv' b cb. SendPacket sid p rng w srv = Some (srv', b, cb) \<and> step_ok srv srv' \<and>
    (b \<longrightarrow> (\<exists>i pk rng'. findSession srv sid = Some i \<and> encode_packet (heap (net srv) p) rng = Some (pk, rng') \<and>
       written (heap (net srv') p) = written pk \<and>
       outbound (mSessionListHead srv' ! i) (net srv') = k_wire (mSessionListHead srv ! i) @
         concat (map (\<lambda>q. written (((heap (net srv))(p := pk)) q)) (contents (sendRing (mSessionListHead srv ! i)) @ [p])))) \<and>
    (\<forall>i. w = Started \<and> findSession srv sid = Some i \<and> \<not> released (mSessionListHead srv ! i) \<and>
       contents (sendRing (mSessionListHead srv ! i)) = [] \<longrightarrow> b) \<and>
    send_frame sid p rng srv srv' b \<and> (\<forall>i. findSession srv sid = Some i \<longrightarrow> b \<or> released (mSessionListHead srv' ! i))"
proof (cases "findSession srv sid")
  case None
  then show ?thesis using step_ok_refl [OF assms(1)]
    by (intro exI [of _ srv] exI [of _ False] exI [of _ "[]"]) (simp add: SendPacket_def send_frame_refl)
next
  case (Some i)
  note find = Some and fl = found_live [OF assms(1) Some]
  let ?s = "mSessionListHead srv ! i"
  have lv: "counts 0 ?s" "rings_ok ?s" "send_ok ?s" using fl(3) by (auto simp: live_def)
  show ?thesis
  proof (cases "IncreaseIoCount_s ?s")
    case None
    have "released ?s" using IncreaseIoCount_s_spec [OF lv(1)] None by (auto split: if_splits)
    then show ?thesis using find None step_ok_refl [OF assms(1)]
      by (intro exI [of _ srv] exI [of _ False] exI [of _ "[]"]) (simp add: SendPacket_def send_frame_refl)
  next
    case (Some s1)
    note i1 = IncreaseIoCount_s_counts [OF lv(1) _ Some] and ic = IncreaseIoCount_s_ctl [OF Some]
    note k1 = ctl_upd_keeps [OF ic]
    have c1: "counts (Suc 0) s1" "\<not> released s1" using i1 by auto
    obtain pk rng' where enc: "encode_packet (heap (net srv) p) rng = Some (pk, rng')"
      "mRefCnt pk = mRefCnt (heap (net srv) p)"
      by (rule encode_packet_total [OF assms(2)])
    define g1 where "g1 = AddRef_at p ((net srv)\<lparr>heap := (heap (net srv))(p := pk)\<rparr>)"
    have rc1: "refcnt g1 q = refcnt (net srv) q + (if q = p then 1 else 0)" for q
      using enc(2) by (simp add: g1_def refcnt_AddRef_at) (simp add: refcnt_def)
    have ro: "ring_ok (sendRing s1)" using lv(2) k1 by (simp add: rings_ok_def)
    let ?room = "int (length (contents (sendRing s1))) < GetBufferSize (sendRing s1)"
    have enq: "EnqueueItem (sendRing s1) p = (if ?room then Some (store_rear (sendRing s1) [p], True) else Some (sendRing s1, False))"
      by (rule EnqueueItem_spec [OF ro])
    show ?thesis
    proof (cases ?room)
      case False
      obtain s2 g2 where rr: "requestRelease SendBufferFull (s1, SubRef_at p g1) = (s2, g2)" by fastforce
      note r = release_and_decrease [OF c1(1) rr]
      let ?s3 = "decreaseSessionIoCount_s s2"
      have u: "ctl_upd ?s ?s3" by (rule ctl_upd_trans [OF ic r(3)])
      have l: "live i ?s3" by (rule live_ctl_upd [OF fl(3) u]) (use r in auto)
      have "refcnt g2 q = refcnt (net srv) q" for q
        using r(4) rc1 [of q] by (simp add: refcnt_def) (metis refcnt_SubRef_at refcnt_def add_diff_cancel_right' diff_zero add.right_neutral)
      then have "step_ok srv (upd_session srv i (?s3, g2))"
        by (intro upd_step_ok [OF assms(1) fl(1,2) l]) (simp_all add: ctl_upd_keeps [OF u])
      moreover have "same_bytes ((net srv)\<lparr>heap := (heap (net srv))(p := pk)\<rparr>) (SubRef_at p g1)"
        unfolding g1_def by (rule same_bytes_trans [OF same_bytes_AddRef_at same_bytes_SubRef_at])
      then have "same_bytes ((net srv)\<lparr>heap := (heap (net srv))(p := pk)\<rparr>) g2"
        by (rule same_bytes_trans) (rule same_bytes_heap [OF r(4)])
      then have "send_frame sid p rng srv (upd_session srv i (?s3, g2)) False" by (rule send_frame_upd [OF find enc(1)])
      moreover have "mSessionListHead (upd_session srv i (?s3, g2)) ! i = ?s3"
        using fl(1) assms(1) by (simp add: upd_session_def server_ok_def)
      moreover have "contents (sendRing ?s) \<noteq> []"
        using False lv(2) k1 by (auto simp: rings_ok_def SEND_RINGBUFFER_SIZE_def)
      moreover have "SendPacket sid p rng w srv = Some (upd_session srv i (?s3, g2), False, [])"
        using find Some enc(1) enq False rr fl(4,5) k1 by (simp add: SendPacket_def g1_def Let_def)
      ultimately show ?thesis using find r(2) by auto
    next
      case True
      let ?r = "store_rear (sendRing s1) [p]" and ?s1 = "s1\<lparr>sendRing := store_rear (sendRing s1) [p]\<rparr>"
      have "int (length [p]) \<le> GetFreeSize (sendRing s1)" using True ro by (simp add: GetFreeSize_eq)
      note st = store_rear_ok [OF ro this]
      have c2: "counts (Suc 0) ?s1" using c1 by (simp add: counts_def io_count_def released_def)
      have r2: "rings_ok ?s1" using lv(2) k1 st by (simp add: rings_ok_def)
      have "send_pre s1" using ctl_upd_send(2) [OF ic] lv(3) i1(2) by (simp add: send_ok_def)
      then have p2: "send_pre ?s1" by (simp add: send_pre_def released_def)
      obtain s3 g3 b where ps: "postSend w (?s1, g1) = Some ((s3, g3), b)" "counts (Suc 0) s3" "rings_ok s3" "send_ok s3"
        "same_session ?s1 s3" "\<And>q. refcnt g3 q - owned s3 q = refcnt g1 q - owned ?s1 q" "same_bytes g1 g3"
        "b \<longrightarrow> outbound s3 g3 = outbound ?s1 g1" "w = Started \<and> \<not> released ?s1 \<longrightarrow> b" "\<not> b \<longrightarrow> released s3"
        unfolding outbound_def by (rule postSend_spec [OF c2 _ r2 p2, of w g1]) (simp, blast)
      let ?s4 = "decreaseSessionIoCount_s s3"
      note d = decrease_s_counts [OF ps(2)] and dc = decrease_s_ctl [of s3]
      note k = ctl_upd_keeps [OF dc]
      have l: "live i ?s4"
        using d k ps(3,5) ctl_upd_send(1) [OF dc] ps(4) fl(3) k1 by (auto simp: live_def same_session_def)
      have "owned ?s1 q = owned ?s q + (if q = p then 1 else 0)" for q
        using st(2) k1 by (simp add: owned_def)
      then have "refcnt g3 q - owned ?s4 q = refcnt (net srv) q - owned ?s q" for q
        using ps(6) [of q] rc1 [of q] k(2) by simp
      then have "step_ok srv (upd_session srv i (?s4, g3))"
        using k(11) ps(5) k1(11) by (intro upd_step_ok [OF assms(1) fl(1,2) l]) (auto simp: same_session_def)
      moreover have "outbound ?s4 g3 = k_wire ?s @
          concat (map (\<lambda>q. written (((heap (net srv))(p := pk)) q)) (contents (sendRing ?s) @ [p]))" if b
      proof -
        have "written (heap g1 q) = written (((heap (net srv))(p := pk)) q)" for q
          by (simp add: g1_def AddRef_at_def AddRef_simps)
        then show ?thesis using ps(8) that st(2) k k1 by (simp add: outbound_def)
      qed
      moreover have "written (heap g3 p) = written pk"
        using ps(7) by (simp add: same_bytes_def g1_def AddRef_at_def AddRef_simps)
      moreover have "SendPacket sid p rng w srv = Some (upd_session srv i (?s4, g3), b,
          if b then [OnSend sid (mDataSize (heap g3 p))] else [])"
        using find Some enc(1) enq True ps(1) fl(4,5) k1 by (simp add: SendPacket_def g1_def Let_def)
      moreover have "mSessionListHead (upd_session srv i (?s4, g3)) ! i = ?s4" "net (upd_session srv i (?s4, g3)) = g3"
        using fl(1) assms(1) by (simp_all add: upd_session_def server_ok_def)
      moreover have "same_bytes ((net srv)\<lparr>heap := (heap (net srv))(p := pk)\<rparr>) g3"
        by (rule same_bytes_trans [OF _ ps(7)]) (simp add: g1_def same_bytes_AddRef_at)
      then have "send_frame sid p rng srv (upd_session srv i (?s4, g3)) b" by (rule send_frame_upd [OF find enc(1)])
      moreover have "b \<or> released ?s4" using ps(10) d(2) by blast
      moreover have "w = Started \<longrightarrow> b" using ps(9) c1(2) by (simp add: released_def)
      ultimately show ?thesis using find enc(1) by auto
    qed
  qed
qed

lemma SendPacket_step:
  assumes "server_ok srv" and "sendable (net srv) p"
  shows "\<exists>srv' b cb. SendPacket sid p rng w srv = Some (srv', b, cb) \<and> step_ok srv srv' \<and>
    (b \<longrightarrow> (\<exists>i pk rng'. findSession srv sid = Some i \<and> encode_packet (heap (net srv) p) rng = Some (pk, rng') \<and>
       written (heap (net srv') p) = written pk \<and>
       outbound (mSessionListHead srv' ! i) (net srv') = k_wire (mSessionListHead srv ! i) @
         concat (map (\<lambda>q. written (((heap (net srv))(p := pk)) q)) (contents (sendRing (mSessionListHead srv ! i)) @ [p])))) \<and>
    (\<forall>i. w = Started \<and> findSession srv sid = Some i \<and> \<not> released (mSessionListHead srv ! i) \<and>
       contents (sendRing (mSessionListHead srv ! i)) = [] \<longrightarrow> b)"
  using SendPacket_effect [OF assms, of sid rng w] by blast

section \<open>Slots\<close>

lemma session_id_index: "i < 2 ^ 16 \<Longrightarrow> unat (drop_bit 48 (session_id i u)) = i"
proof -
  assume i: "i < 2 ^ 16"
  have "(0x0000FFFFFFFFFFFF :: u64) = mask 48" by (simp add: mask_eq_exp_minus_1)
  then have "session_id i u = push_bit 48 (of_nat i) OR take_bit 48 u"
    by (simp add: session_id_def take_bit_eq_mask)
  moreover have "drop_bit 48 (take_bit 48 u) = (0 :: u64)"
    by (simp add: drop_bit_take_bit)
  moreover have "drop_bit 48 (push_bit 48 (of_nat i :: u64)) = of_nat i"
  proof -
    have "drop_bit 48 (push_bit 48 (of_nat i :: u64)) = take_bit 16 (of_nat i)"
     by (rule bit_word_eqI) (auto simp: bit_simps)
    also have "\<dots> = of_nat i" 
      using i by (simp add: word_unat_eq_iff unsigned_take_bit_eq unat_of_nat take_bit_nat_eq_self)
    finally show ?thesis .
  qed
  ultimately have "drop_bit 48 (session_id i u) = of_nat i" by (simp add: drop_bit_or)
  then show ?thesis using i by (simp add: unat_of_nat)
qed

lemma session_id_unique: "i < 2 ^ 16 \<Longrightarrow> take_bit 48 (session_id i u) = take_bit 48 u"
proof -
  have "(0x0000FFFFFFFFFFFF :: u64) = mask 48" by (simp add: mask_eq_exp_minus_1)
  then have "session_id i u = push_bit 48 (of_nat i) OR take_bit 48 u"
    by (simp add: session_id_def take_bit_eq_mask)
  moreover have "take_bit 48 (push_bit 48 (of_nat i :: u64)) = 0"
     by (rule bit_word_eqI) (auto simp: bit_simps)
  ultimately show ?thesis by (simp add: take_bit_or)
qed
lemma Session_Init_live:
  assumes "idle s" and "i < 2 ^ 16"
  shows "live i ((Session_Init s)\<lparr>s_id := session_id i u, s_state := Connected\<rparr>)"
    "owned ((Session_Init s)\<lparr>s_id := session_id i u, s_state := Connected\<rparr>) p = 0" "owned s p = 0"
proof -
  have r: "ring_ok (recvRing s)" "ring_ok (sendRing s)" using assms(1) by (auto simp: idle_def rings_ok_def)
  let ?s = "(Session_Init s)\<lparr>s_id := session_id i u, s_state := Connected\<rparr>"
  have io: "io_count ?s = 0" using assms(1) by (simp add: Session_Init_def io_count_def idle_def)
  have "counts 0 ?s"
    using assms(1) by (intro countsI [where f = 0]) (simp_all add: io, simp_all add: Session_Init_def SessionControl_0 idle_def)
  moreover have "rings_ok ?s"
    using assms(1) ClearBuffer_ok [OF r(1)] ClearBuffer_ok [OF r(2)] by (simp add: rings_ok_def Session_Init_def idle_def)
  moreover have "send_ok ?s"
    using assms(1) ClearBuffer_ok [OF r(2)] by (simp add: send_ok_def send_pre_def Session_Init_def idle_def)
  ultimately show "live i ?s" using session_id_index [OF assms(2)] by (simp add: live_def)
  show "owned ?s p = 0" "owned s p = 0"
    using assms(1) ClearBuffer_ok [OF r(2)] by (simp_all add: owned_def Session_Init_def idle_def)
qed

lemma createSession_spec:
  assumes "server_ok srv" and "mSessionEmptyIndexStack srv = i # rest"
  obtains srv1 where "createSession srv = (srv1, Some i)" "server_ok srv1" "\<And>p. loose srv1 p = loose srv p"
    "i < DEFAULT_MAX_CONNECTION" "i \<notin> set (mSessionEmptyIndexStack srv1)" "mSessionID srv1 = mSessionID srv + 1"
    "ids srv1 = (ids srv)[i := (session_id i (mSessionID srv), Connected)]" "net srv1 = net srv"
    "\<not> k_recv (mSessionListHead srv1 ! i)" "\<not> released (mSessionListHead srv1 ! i)"
proof -
  let ?s = "mSessionListHead srv ! i" and ?L = "mSessionListHead srv"
  define s' where "s' = (Session_Init ?s)\<lparr>s_id := session_id i (mSessionID srv), s_state := Connected\<rparr>"
  define srv1 where "srv1 = srv\<lparr>mSessionListHead := ?L[i := s'], mSessionEmptyIndexStack := rest,
      mSessionID := mSessionID srv + 1, mSessionCount := mSessionCount srv + 1\<rparr>"
  have st: "distinct (i # rest)" "i < DEFAULT_MAX_CONNECTION" "set rest \<subseteq> {..<DEFAULT_MAX_CONNECTION}"
    "length ?L = DEFAULT_MAX_CONNECTION"
    using assms by (auto simp: server_ok_def)
  have id: "idle ?s" using assms st(2) by (auto simp: server_ok_def)
  have i16: "i < 2 ^ 16" using st(2) by (simp add: DEFAULT_MAX_CONNECTION_def)
  note init = Session_Init_live(1,2) [OF id i16, where u = "mSessionID srv", folded s'_def]
    Session_Init_live(3) [OF id i16]
  have "server_ok srv1"
    using assms st init(1) by (auto simp: server_ok_def srv1_def nth_list_update)
  moreover have "loose srv1 p = loose srv p" for p
    using st(2,4) init(2,3) by (simp add: loose_def total_owned_def srv1_def sum_list_update_int)
  moreover have "createSession srv = (srv1, Some i)"
    using assms(2) by (simp add: createSession_def srv1_def s'_def Let_def)
  moreover have "ids srv1 = (ids srv)[i := (session_id i (mSessionID srv), Connected)]"
    by (simp add: ids_def srv1_def map_update s'_def)
  moreover have "\<not> k_recv s'" "\<not> released s'"
    using id by (simp_all add: s'_def Session_Init_def idle_def released_def)
  ultimately show ?thesis using that [of srv1] st by (simp add: srv1_def)
qed

lemma accept_connection_step:
  assumes "server_ok srv" and "accept_connection sock reg srv = (srv', j, cbs)"
  shows "server_ok srv' \<and> (\<forall>p. loose srv' p = loose srv p) \<and>
    ((mSessionEmptyIndexStack srv = [] \<and> same_ids srv srv' \<and> j = None) \<or>
     (\<exists>i rest. mSessionEmptyIndexStack srv = i # rest \<and> i < DEFAULT_MAX_CONNECTION \<and> mSessionID srv' = mSessionID srv + 1 \<and>
        ids srv' = (ids srv)[i := (session_id i (mSessionID srv), Connected)] \<and>
        mSessionEmptyIndexStack srv' = rest))"
proof (cases "mSessionEmptyIndexStack srv")
  case Nil
  then show ?thesis using assms
    by (auto simp: accept_connection_def createSession_def server_ok_def loose_def total_owned_def same_ids_def ids_def)
next
  case (Cons i rest)
  obtain srv1 where c: "createSession srv = (srv1, Some i)" "server_ok srv1" "\<And>p. loose srv1 p = loose srv p"
    "i < DEFAULT_MAX_CONNECTION" "i \<notin> set (mSessionEmptyIndexStack srv1)" "mSessionID srv1 = mSessionID srv + 1"
    "ids srv1 = (ids srv)[i := (session_id i (mSessionID srv), Connected)]"
    by (rule createSession_spec [OF assms(1) Cons]) blast
  have rest: "mSessionEmptyIndexStack srv1 = rest" using c(1) Cons by (auto simp: createSession_def Let_def)
  let ?s = "(mSessionListHead srv1 ! i)\<lparr>s_socket := Some sock\<rparr>"
  have lv: "live i (mSessionListHead srv1 ! i)" using c(2,4,5) by (auto simp: server_ok_def)
  then have ls: "live i ?s" by (simp add: live_def counts_def io_count_def released_def send_ok_def send_pre_def)
  have "\<exists>s2 g2. srv' = upd_session srv1 i (s2, g2) \<and> live i s2 \<and> owned s2 = owned (mSessionListHead srv1 ! i) \<and>
      heap g2 = heap (net srv1) \<and> s_id s2 = s_id (mSessionListHead srv1 ! i)"
  proof (cases reg)
    case True
    then show ?thesis using assms(2) c(1) ls
      by (intro exI [of _ ?s] exI [of _ "net srv1"]) (auto simp: accept_connection_def Let_def owned_def fun_eq_iff)
  next
    case False
    obtain s2 g2 where rr: "requestRelease InternalError (?s, net srv1) = (s2, g2)" by fastforce
    have "counts 0 ?s" using ls by (simp add: live_def)
    note q = requestRelease_counts [OF this rr] and qc = requestRelease_ctl [OF rr]
    have "live i s2" by (rule live_ctl_upd [OF ls qc]) (use q in auto)
    then show ?thesis using assms(2) c(1) rr q ctl_upd_keeps [OF qc] False
      by (intro exI [of _ s2] exI [of _ g2]) (auto simp: accept_connection_def Let_def owned_def fun_eq_iff)
  qed
  then obtain s2 g2 where u: "srv' = upd_session srv1 i (s2, g2)" "live i s2" "owned s2 = owned (mSessionListHead srv1 ! i)"
    "heap g2 = heap (net srv1)" "s_id s2 = s_id (mSessionListHead srv1 ! i)" by blast
  have "step_ok srv1 srv'"
    unfolding u(1) by (rule upd_step_ok [OF c(2,4,5) u(2)]) (simp_all add: u refcnt_def)
  then show ?thesis using c Cons rest u(1) by (simp add: step_ok_def same_ids_def upd_session_def)
qed

end
