(* ===== verification/Server_Safety.thy ===== *)
theory Server_Safety
  imports Base_Server
begin

text \<open>
  The server as a transition system: \<open>server_step\<close> runs one handler of BaseServer.cpp, in any
  order the completion port, the accept loop and the application may produce. The properties
  of the session table, of packet ownership and of the send order are proved of its reachable
  states.
\<close>

section \<open>Releasing a session and receiving\<close>

lemma worker_release_spec:
  assumes "server_ok srv" and "i < DEFAULT_MAX_CONNECTION" and "0 < k_release (mSessionListHead srv ! i)"
  obtains srv' where "worker_release i srv = Some (srv', [OnClientLeave (s_id (mSessionListHead srv ! i))])"
    "server_ok srv'" "\<And>p. loose srv' p = loose srv p" "mSessionID srv' = mSessionID srv"
    "mSessionEmptyIndexStack srv' = i # mSessionEmptyIndexStack srv"
    "ids srv' = (ids srv)[i := (0, Free)]"
proof -
  let ?L = "mSessionListHead srv" let ?s = "?L ! i"
  have ni: "i \<notin> set (mSessionEmptyIndexStack srv)" and lv: "live i ?s"
    using assms by (auto simp: server_ok_def idle_def split: if_splits)
  have len: "length ?L = DEFAULT_MAX_CONNECTION" using assms(1) by (simp add: server_ok_def)
  from lv have c: "counts 0 ?s" and ro: "ring_ok (recvRing ?s)" "ring_ok (sendRing ?s)" and idx: "unat (drop_bit 48 (s_id ?s)) = i"
    by (auto simp: live_def rings_ok_def)
  from c obtain f where f: "s_control ?s = SessionControl (of_nat (io_count ?s + 0)) f" "f \<in> {0, 1}"
    "k_release ?s = (if f = 1 \<and> io_count ?s + 0 = 0 then 1 else 0)" by (elim countsE)
  then have ctl: "s_control ?s = SessionControl 0 1" and nio: "\<not> k_recv ?s" "\<not> k_send ?s" and kr: "k_release ?s = 1"
    using assms(3) by (auto simp: io_count_def split: if_splits)
  define t where "t = ?s\<lparr>k_release := 0\<rparr>"
  have io: "io_returned RELEASE ?s = t" using kr by (simp add: io_returned_def t_def)
  define srv0 where "srv0 = srv\<lparr>mSessionListHead := ?L[i := t]\<rparr>"
  have t0: "mSessionListHead srv0 ! i = t" using assms(2) len by (simp add: srv0_def)
  let ?c = "contents (sendRing ?s)"
  have u: "nat (GetUseSize (sendRing t)) = length ?c"
    using length_contents_nat [OF ro(2)] by (simp add: t_def)
  obtain ring' where pop: "pop_upto DequeueItem (nat (GetUseSize (sendRing t))) (sendRing t) = Some (ring', ?c)"
    "ring_ok ring'" "contents ring' = []" "GetBufferSize ring' = GetBufferSize (sendRing ?s)"
    using send_ring.pop_upto_spec [OF ro(2), of "length ?c"] pop_upto_size [of "length ?c" "sendRing ?s"] u
    by (auto simp: t_def)
  define t' where "t' = t\<lparr>s_control := SessionControl 0 3, s_socket := None, recvRing := ClearBuffer (recvRing t),
      sendRing := ClearBuffer ring', s_id := 0, s_state := Free, sendFlag := 0\<rparr>"
  define srv' where "srv' = srv0\<lparr>mSessionListHead := (mSessionListHead srv0)[i := t'], net := SubRef_all ?c (net srv0),
      mSessionCount := mSessionCount srv0 - 1, mSessionEmptyIndexStack := i # mSessionEmptyIndexStack srv0\<rparr>"
  have tc: "TryCleanup (s_control t) = Some (SessionControl 0 3)"
    by (simp add: t_def ctl TryCleanup_packed flag_bits)
  have "worker_release i srv = releaseSession srv0 i" by (simp add: worker_release_def io srv0_def)
  also have "\<dots> = Some (srv', [OnClientLeave (s_id ?s)])"
    using pop(1) idx by (simp add: releaseSession_def Let_def t0 tc srv'_def t'_def) (simp add: t_def)
  finally have run: "worker_release i srv = Some (srv', [OnClientLeave (s_id ?s)])" .
  have "idle t'"
    using nio lv ClearBuffer_ok [OF ro(1)] ClearBuffer_ok [OF pop(2)] pop(4)
    by (simp add: idle_def t'_def t_def rings_ok_def live_def)
  then have ok: "server_ok srv'"
    using assms(1,2) ni by (auto simp: server_ok_def srv'_def srv0_def nth_list_update)
  have o: "owned t' p = 0" "owned ?s p = int (count_list ?c p)" for p
    using nio ClearBuffer_ok [OF pop(2)] by (simp_all add: owned_def t'_def t_def)
  have lo: "loose srv' p = loose srv p" for p
    using o [of p] assms(2) len
    by (simp add: loose_def total_owned_def srv'_def srv0_def sum_list_update_int refcnt_SubRef_all)
  show ?thesis
    using run ok lo by (intro that [of srv']) (simp_all add: srv'_def srv0_def ids_def map_update t'_def)
qed

text \<open>What the pool hands out: packets of the right size that nobody holds.\<close>

definition pool_gives :: "netstate \<Rightarrow> (nat \<Rightarrow> nat option) \<Rightarrow> bool" where
  "pool_gives g ptr \<longleftrightarrow> (\<forall>k. \<exists>p. ptr k = Some p \<and> capacity (heap g p) = BUFFER_DEFAULT)"

definition handed_out :: "(nat \<Rightarrow> nat option) \<Rightarrow> nat \<Rightarrow> bool" where
  "handed_out ptr p \<longleftrightarrow> (\<exists>k. ptr k = Some p)"

lemma fold_upd_other:
  "p \<notin> set (map fst xs) \<Longrightarrow> fold (\<lambda>(p, pk) h. h(p := pk)) xs h p = h p"
  by (induction xs arbitrary: h) auto

lemma worker_recv_spec:
  assumes "server_ok srv" and "i < DEFAULT_MAX_CONNECTION" and "i \<notin> set (mSessionEmptyIndexStack srv)"
    and "kernel_stores ws" and "pool_gives (net srv) ptr" and "nat RECV_RINGBUFFER_SIZE < fuel"
    and "c \<noteq> []" and "int (length c) \<le> GetFreeSize (recvRing (mSessionListHead srv ! i))"
    and "stream_parse RECV_RINGBUFFER_SIZE (contents (recvRing (mSessionListHead srv ! i)) @ c) = (payloads, rest, e)"
  obtains srv' cbs where
    "worker_recv fuel ptr (ws (recvRing (mSessionListHead srv ! i)) c) (int (length c)) i srv = Done (srv', e, cbs)"
    "server_ok srv'" "same_ids srv srv'" "\<And>p. \<not> handed_out ptr p \<Longrightarrow> loose srv' p = loose srv p"
    "contents (recvRing (mSessionListHead srv' ! i)) = rest"
    "length (filter (\<lambda>cb. cb \<noteq> OnError) cbs) = length payloads"
proof -
  let ?s = "mSessionListHead srv ! i" and ?g = "net srv"
  have lv: "live i ?s" using assms by (auto simp: server_ok_def)
  have ro: "ring_ok (recvRing ?s)" and sz: "GetBufferSize (recvRing ?s) = RECV_RINGBUFFER_SIZE"
    using lv by (auto simp: live_def rings_ok_def)
  have pool: "pooled_ok (map_option (heap ?g) (ptr k))" for k
    using assms(5) unfolding pool_gives_def pooled_ok_def by (metis option.simps(9))
  have fu: "nat (GetBufferSize (recvRing ?s)) < fuel" using assms(6) sz by simp
  obtain r' ps where rc:
    "recv_completion fuel (s_id ?s) (\<lambda>k. map_option (heap ?g) (ptr k)) 0 (recvRing ?s) (ws (recvRing ?s) c) (int (length c)) =
       Done (r', ps, e)" "ring_ok r'" "contents r' = rest" "GetBufferSize r' = GetBufferSize (recvRing ?s)"
    "list_all2 (carries (s_id ?s)) payloads ps"
    using recv_completion_spec [where alloc = "\<lambda>k. map_option (heap ?g) (ptr k)" and sid = "s_id ?s" and k = 0,
        OF assms(4) ro assms(7,8) pool fu] assms(9) sz by auto
  define ptrs where "ptrs = map (\<lambda>k. the (ptr k)) [0..<length ps]"
  define g1 where "g1 = ?g\<lparr>heap := fold (\<lambda>(p, pk) h. h(p := pk)) (zip ptrs ps) (heap ?g)\<rparr>"
  define bad where "bad = the (ptr (length ps))"
  define g2 where "g2 = (if e = Some CheckSumError
      then SubRef_at bad (g1\<lparr>heap := (heap g1)(bad := Packet_Init (heap g1 bad))\<rparr>) else g1)"
  define srv' where "srv' = upd_session srv i (?s\<lparr>recvRing := r'\<rparr>, g2)"
  define cbs where "cbs = map (OnRecv (s_id ?s)) ptrs
      @ (if e \<in> {Some InvalidPacketCode, Some PacketMemoryPoolError, Some CheckSumError} then [OnError] else [])"
  have run: "worker_recv fuel ptr (ws (recvRing ?s) c) (int (length c)) i srv = Done (srv', e, cbs)"
    using rc(1) by (simp add: worker_recv_def Let_def srv'_def cbs_def g2_def g1_def ptrs_def bad_def)
  have lv': "live i (?s\<lparr>recvRing := r'\<rparr>)"
    using lv rc(2,4) by (simp add: live_def rings_ok_def counts_def io_count_def released_def send_ok_def send_pre_def)
  have ptr: "handed_out ptr (the (ptr k))" for k
    using assms(5) unfolding pool_gives_def handed_out_def by (metis option.sel)
  have h: "refcnt g2 p = refcnt ?g p" if "\<not> handed_out ptr p" for p
  proof -
    have "p \<notin> set ptrs" using that ptr by (auto simp: ptrs_def)
    then have "p \<notin> set (map fst (zip ptrs ps))" by (auto dest: set_zip_leftD)
    then have "heap g1 p = heap ?g p" by (simp add: g1_def fold_upd_other)
    moreover have "p \<noteq> bad" using that ptr by (auto simp: bad_def)
    ultimately show ?thesis by (auto simp: g2_def refcnt_def SubRef_at_def SubRef_def Let_def)
  qed
  have lo: "loose srv' p = loose srv p" if "\<not> handed_out ptr p" for p
    unfolding srv'_def by (rule loose_upd [OF assms(1,2)]) (simp add: h [OF that] owned_def)
  have "length (filter (\<lambda>cb. cb \<noteq> OnError) cbs) = length payloads"
    using list_all2_lengthD [OF rc(5)] by (simp add: cbs_def ptrs_def filter_map o_def)
  moreover have "contents (recvRing (mSessionListHead srv' ! i)) = rest"
    using assms(1,2) rc(3) by (simp add: srv'_def upd_session_def server_ok_def)
  ultimately show ?thesis
    using run lo server_ok_upd [OF assms(1-3) lv'] same_ids_upd [of "?s\<lparr>recvRing := r'\<rparr>" srv i g2]
    by (intro that [of srv' cbs]) (simp_all add: srv'_def)
qed

section \<open>The transition system\<close>

datatype handler =
  Accept | FirstRecv | Received | RecvEnd | PeerClosed | RecvFailed | SendDone | SendFailed | Release | Disconnect | Send

inductive server_step :: "handler \<Rightarrow> server \<Rightarrow> server \<Rightarrow> bool" where
  accept: "accept_connection sock registered srv = (srv', j, cbs) \<Longrightarrow> server_step Accept srv srv'"
| first_recv: "i < DEFAULT_MAX_CONNECTION \<Longrightarrow> i \<notin> set (mSessionEmptyIndexStack srv) \<Longrightarrow>
     \<not> k_recv (mSessionListHead srv ! i) \<Longrightarrow> server_step FirstRecv srv (first_recv i w srv)"
| received: "i < DEFAULT_MAX_CONNECTION \<Longrightarrow> k_recv (mSessionListHead srv ! i) \<Longrightarrow>
     kernel_stores ws \<Longrightarrow> pool_gives (net srv) ptr \<Longrightarrow> nat RECV_RINGBUFFER_SIZE < fuel \<Longrightarrow> c \<noteq> [] \<Longrightarrow>
     int (length c) \<le> GetFreeSize (recvRing (mSessionListHead srv ! i)) \<Longrightarrow>
     worker_recv fuel ptr (ws (recvRing (mSessionListHead srv ! i)) c) (int (length c)) i srv = Done (srv', e, cbs) \<Longrightarrow>
     server_step Received srv srv'"
| recv_end: "i < DEFAULT_MAX_CONNECTION \<Longrightarrow> k_recv (mSessionListHead srv ! i) \<Longrightarrow>
     server_step RecvEnd srv (worker_recv_end e w i srv)"
| closed: "i < DEFAULT_MAX_CONNECTION \<Longrightarrow> k_recv (mSessionListHead srv ! i) \<Longrightarrow>
     server_step PeerClosed srv (worker_closed i srv)"
| recv_failed: "i < DEFAULT_MAX_CONNECTION \<Longrightarrow> k_recv (mSessionListHead srv ! i) \<Longrightarrow>
     server_step RecvFailed srv (worker_failed RECV i srv)"
| send_done: "i < DEFAULT_MAX_CONNECTION \<Longrightarrow> k_send (mSessionListHead srv ! i) \<Longrightarrow>
     worker_send w i srv = Some srv' \<Longrightarrow> server_step SendDone srv srv'"
| send_failed: "i < DEFAULT_MAX_CONNECTION \<Longrightarrow> k_send (mSessionListHead srv ! i) \<Longrightarrow>
     server_step SendFailed srv (worker_failed SEND i srv)"
| release: "i < DEFAULT_MAX_CONNECTION \<Longrightarrow> 0 < k_release (mSessionListHead srv ! i) \<Longrightarrow>
     worker_release i srv = Some (srv', cbs) \<Longrightarrow> server_step Release srv srv'"
| disconnect: "server_step Disconnect srv (fst (DisConnect sid r srv))"
| send: "sendable (net srv) p \<Longrightarrow> SendPacket sid p rng w srv = Some (srv', b, cbs) \<Longrightarrow> server_step Send srv srv'"

lemma pending_not_free:
  assumes "server_ok srv" and "i < DEFAULT_MAX_CONNECTION"
  shows "k_recv (mSessionListHead srv ! i) \<Longrightarrow> i \<notin> set (mSessionEmptyIndexStack srv)"
    "k_send (mSessionListHead srv ! i) \<Longrightarrow> i \<notin> set (mSessionEmptyIndexStack srv)"
  using assms by (auto simp: server_ok_def idle_def)

text \<open>How a step may change the session ids: not at all, by one new id, by one slot set free.\<close>

definition id_step :: "server \<Rightarrow> server \<Rightarrow> bool" where
  "id_step srv srv' \<longleftrightarrow>
     same_ids srv srv' \<or>
     (\<exists>i < DEFAULT_MAX_CONNECTION. mSessionID srv' = mSessionID srv + 1 \<and>
        ids srv' = (ids srv)[i := (session_id i (mSessionID srv), Connected)]) \<or>
     (\<exists>i < DEFAULT_MAX_CONNECTION. mSessionID srv' = mSessionID srv \<and> ids srv' = (ids srv)[i := (0, Free)])"

lemma step_ok_id: "step_ok srv srv' \<Longrightarrow> server_ok srv' \<and> loose srv' = loose srv \<and> id_step srv srv'"
  by (auto simp: step_ok_def id_step_def fun_eq_iff)

lemma server_step_ok:
  assumes "server_step h srv srv'" and "server_ok srv"
  shows "server_ok srv' \<and> (h \<notin> {Received, SendFailed} \<longrightarrow> loose srv' = loose srv) \<and> id_step srv srv'"
  using assms
proof (induction rule: server_step.induct)
  case (accept sock registered srv srv' j cbs)
  then show ?case
    using accept_connection_step [of srv sock registered srv' j cbs] by (auto simp: id_step_def fun_eq_iff)
next
  case (first_recv i srv w)
  then show ?case using step_ok_id [OF first_recv_step] by simp
next
  case (received i srv ws ptr fuel c srv' e cbs)
  obtain payloads rest e' where sp:
    "stream_parse RECV_RINGBUFFER_SIZE (contents (recvRing (mSessionListHead srv ! i)) @ c) = (payloads, rest, e')"
    by (metis prod.exhaust)
  note ni = pending_not_free(1) [OF received.prems received.hyps(1,2)]
  obtain srv2 cbs2 where
    "worker_recv fuel ptr (ws (recvRing (mSessionListHead srv ! i)) c) (int (length c)) i srv = Done (srv2, e', cbs2)"
    "server_ok srv2" "same_ids srv srv2"
    by (rule worker_recv_spec [OF received.prems received.hyps(1) ni received.hyps(3-7) sp]) blast
  then show ?case using received.hyps(8) by (auto simp: id_step_def)
next
  case (recv_end i srv e w)
  note ni = pending_not_free(1) [OF recv_end.prems recv_end.hyps]
  show ?case using step_ok_id [OF worker_recv_end_step [OF recv_end.prems recv_end.hyps(1) ni recv_end.hyps(2)]] by simp
next
  case (closed i srv)
  note ni = pending_not_free(1) [OF closed.prems closed.hyps]
  obtain s1 g1 where rr: "requestRelease PeerClose (io_returned RECV (mSessionListHead srv ! i), net srv) = (s1, g1)"
    by fastforce
  show ?case
    using step_ok_id [OF worker_closed_step [OF closed.prems closed.hyps(1) ni closed.hyps(2) _ rr]] rr
    by (simp add: worker_closed_def)
next
  case (recv_failed i srv)
  note ni = pending_not_free(1) [OF recv_failed.prems recv_failed.hyps]
  obtain s1 g1 where rr: "requestRelease ClientForceClose (io_returned RECV (mSessionListHead srv ! i), net srv) = (s1, g1)"
    by fastforce
  show ?case
    using step_ok_id [OF worker_closed_step [OF recv_failed.prems recv_failed.hyps(1) ni recv_failed.hyps(2) _ rr]] rr
    by (simp add: worker_failed_def)
next
  case (send_done i srv w srv')
  note ni = pending_not_free(2) [OF send_done.prems send_done.hyps(1,2)]
  show ?case
    using worker_send_step [OF send_done.prems send_done.hyps(1) ni send_done.hyps(2), of w] send_done.hyps(3)
      step_ok_id [of srv srv'] by auto
next
  case (send_failed i srv)
  note ni = pending_not_free(2) [OF send_failed.prems send_failed.hyps]
  obtain s1 g1 where rr: "requestRelease ClientForceClose (io_returned SEND (mSessionListHead srv ! i), net srv) = (s1, g1)"
    by fastforce
  have "same_ids srv (worker_failed SEND i srv)"
    using same_ids_upd [of "decreaseSessionIoCount_s s1" srv i g1] rr
      ctl_upd_keeps [OF requestRelease_ctl [OF rr]] ctl_upd_keeps [OF decrease_s_ctl [of s1]]
    by (simp add: worker_failed_def io_returned_def)
  then show ?case
    using worker_failed_send_step(1) [OF send_failed.prems send_failed.hyps(1) ni send_failed.hyps(2)]
    by (simp add: id_step_def)
next
  case (release i srv srv' cbs)
  obtain srv2 where "worker_release i srv = Some (srv2, [OnClientLeave (s_id (mSessionListHead srv ! i))])"
    "server_ok srv2" "\<And>p. loose srv2 p = loose srv p" "mSessionID srv2 = mSessionID srv"
    "ids srv2 = (ids srv)[i := (0, Free)]"
    by (rule worker_release_spec [OF release.prems release.hyps(1,2)]) blast
  then show ?case using release.hyps(1,3) by (auto simp: id_step_def fun_eq_iff)
next
  case (disconnect srv sid r)
  then show ?case using step_ok_id [OF DisConnect_step] by simp
next
  case (send srv p sid rng w srv' b cbs)
  then show ?case using SendPacket_step [OF send.prems send.hyps(1), of sid rng w] step_ok_id [of srv srv'] by auto
qed

text \<open>
  Runs of fewer than \<open>2 ^ 48\<close> accepted connections, so that the serial number in the ids has not
  wrapped (at ten thousand connections a second that is nine centuries).
\<close>

inductive server_run :: "server \<Rightarrow> server \<Rightarrow> bool" where
  none: "server_run srv srv"
| more: "server_run srv srv1 \<Longrightarrow> unat (mSessionID srv1) < 2 ^ 48 \<Longrightarrow> server_step h srv1 srv2 \<Longrightarrow> server_run srv srv2"

lemma server_run_ok: "server_run srv srv' \<Longrightarrow> server_ok srv \<Longrightarrow> server_ok srv'"
  by (induction rule: server_run.induct) (use server_step_ok in blast)+

lemma server_init_ok: "server_ok (server_init g)"
proof -
  have n: "rings_ok new_Session" "idle new_Session"
    using new_RingBuffer_ok [of RECV_RINGBUFFER_SIZE "0 :: u8"] new_RingBuffer_ok [of SEND_RINGBUFFER_SIZE "0 :: nat"]
    by (auto simp: rings_ok_def idle_def new_Session_def RECV_RINGBUFFER_SIZE_def SEND_RINGBUFFER_SIZE_def)
  then show ?thesis by (auto simp: server_ok_def server_init_def)
qed

section \<open>Stale session ids\<close>

definition issued :: "server \<Rightarrow> bool" where
  "issued srv \<longleftrightarrow> (\<forall>(sid, st) \<in> set (ids srv). st = Connected \<longrightarrow> unat (take_bit 48 sid) < unat (mSessionID srv))"

definition dead :: "server \<Rightarrow> u64 \<Rightarrow> bool" where
  "dead srv sid \<longleftrightarrow> findSession srv sid = None \<and> unat (take_bit 48 sid) < unat (mSessionID srv)"

lemma findSession_eq:
  assumes "server_ok srv"
  shows "findSession srv sid =
    (let i = unat (drop_bit 48 sid) in
     if i < DEFAULT_MAX_CONNECTION \<and> ids srv ! i = (sid, Connected) then Some i else None)"
  using assms by (auto simp: findSession_def Let_def ids_def server_ok_def)

lemma serial_of_new_id:
  assumes "unat n < 2 ^ 48" and "i < DEFAULT_MAX_CONNECTION"
  shows "unat (take_bit 48 (session_id i n)) = unat n" "unat (n + 1) = Suc (unat n)"
proof -
  have "i < 2 ^ 16" using assms(2) by (simp add: DEFAULT_MAX_CONNECTION_def)
  then show "unat (take_bit 48 (session_id i n)) = unat n"
    using assms(1) by (simp add: session_id_unique unsigned_take_bit_eq take_bit_nat_eq_self)
  have "unat (n + 1) = (unat n + unat (1 :: u64)) mod 2 ^ 64" by (simp add: unat_word_ariths)
  then show "unat (n + 1) = Suc (unat n)" using assms(1) by simp
qed

lemma id_step_safe:
  assumes "id_step srv srv'" and "server_ok srv" and "server_ok srv'" and "unat (mSessionID srv) < 2 ^ 48"
  shows "issued srv \<Longrightarrow> issued srv'" "dead srv sid \<Longrightarrow> dead srv' sid"
proof -
  have len: "length (ids srv) = DEFAULT_MAX_CONNECTION" using assms(2) by (simp add: ids_def server_ok_def)
  have "(issued srv \<longrightarrow> issued srv') \<and> (dead srv sid \<longrightarrow> dead srv' sid)"
    using assms(1) unfolding id_step_def
  proof (elim disjE exE conjE)
    assume "same_ids srv srv'"
    then show ?thesis
      using findSession_eq [OF assms(2)] findSession_eq [OF assms(3)] by (simp add: same_ids_def issued_def dead_def)
  next
    fix i assume i: "i < DEFAULT_MAX_CONNECTION" and n: "mSessionID srv' = mSessionID srv + 1"
      and e: "ids srv' = (ids srv)[i := (session_id i (mSessionID srv), Connected)]"
    note sn = serial_of_new_id [OF assms(4) i]
    have "issued srv'" if "issued srv"
      using that sn n set_update_subset_insert [of "ids srv" i "(session_id i (mSessionID srv), Connected)"]
      unfolding issued_def e by fastforce
    moreover have "dead srv' sid" if "dead srv sid"
    proof -
      have "session_id i (mSessionID srv) \<noteq> sid" using that sn(1) by (auto simp: dead_def)
      then have "findSession srv' sid = None"
        using that i len unfolding dead_def findSession_eq [OF assms(2)] findSession_eq [OF assms(3)] e
        by (auto simp: Let_def nth_list_update split: if_splits)
      then show ?thesis using that sn n by (simp add: dead_def)
    qed
    ultimately show ?thesis by blast
  next
    fix i assume i: "i < DEFAULT_MAX_CONNECTION" and n: "mSessionID srv' = mSessionID srv"
      and e: "ids srv' = (ids srv)[i := (0, Free)]"
    have "issued srv'" if "issued srv"
      using that n set_update_subset_insert [of "ids srv" i "(0, Free)"] unfolding issued_def e by fastforce
    moreover have "dead srv' sid" if "dead srv sid"
      using that n i len unfolding dead_def findSession_eq [OF assms(2)] findSession_eq [OF assms(3)] e
      by (auto simp: Let_def nth_list_update split: if_splits)
    ultimately show ?thesis by blast
  qed
  then show "issued srv \<Longrightarrow> issued srv'" "dead srv sid \<Longrightarrow> dead srv' sid" by blast+
qed

lemma server_run_safe:
  assumes "server_run srv srv'" and "server_ok srv"
  shows "issued srv \<Longrightarrow> issued srv'" "dead srv sid \<Longrightarrow> dead srv' sid"
proof -
  have "(issued srv \<longrightarrow> issued srv') \<and> (dead srv sid \<longrightarrow> dead srv' sid)"
    using assms
  proof (induction rule: server_run.induct)
    case (more srv srv1 h srv2)
    have ok1: "server_ok srv1" using server_run_ok more by blast
    note s = server_step_ok [OF more.hyps(3) ok1]
    show ?case using more id_step_safe(1) [of srv1 srv2] id_step_safe(2) [of srv1 srv2] s ok1 by blast
  qed simp
  then show "issued srv \<Longrightarrow> issued srv'" "dead srv sid \<Longrightarrow> dead srv' sid" by blast+
qed

lemma issued_init: "issued (server_init g)"
  by (simp add: issued_def ids_def server_init_def new_Session_def)

section \<open>Properties\<close>


text \<open>A packet heap and a run with one accepted connection.\<close>

definition sample_net :: netstate where
  "sample_net = \<lparr>heap = (\<lambda>_. append_bytes (SetDataSize (Packet_Init (new_Packet 2048)) 5) [10, 20]), freed = [],
     mDisconnectCount = (\<lambda>_. 0)\<rparr>"

definition one_client :: "netstate \<Rightarrow> server" where
  "one_client g = fst (accept_connection 5 True (server_init g))"

lemma one_client_run: "server_run (server_init g) (one_client g)"
proof (rule server_run.more [OF server_run.none])
  show "unat (mSessionID (server_init g)) < 2 ^ 48" by (simp add: server_init_def)
  show "server_step Accept (server_init g) (one_client g)"
    unfolding one_client_def
    by (rule server_step.accept [where sock = 5 and registered = True and
          j = "fst (snd (accept_connection 5 True (server_init g)))" and
          cbs = "snd (snd (accept_connection 5 True (server_init g)))"]) simp
qed


text \<open>
  C8. No handler loses or invents a reference on a packet: what a packet's count exceeds the
  references in the send rings and in the sends under way stays the same through every step except
  the arrival of new packets and the completion of a failed send.
\<close>
theorem packet_references_conserved:
  assumes "server_run (server_init g) srv" and "server_step h srv srv'" and "h \<notin> {Received, SendFailed}"
  shows "refcnt (net srv') p - total_owned srv' p = refcnt (net srv) p - total_owned srv p"
  using server_step_ok [OF assms(2) server_run_ok [OF assms(1) server_init_ok]] assms(3)
  by (simp add: loose_def fun_eq_iff)

lemma sample_packet:
  "packet_ok (heap sample_net p)" "capacity (heap sample_net p) = BUFFER_DEFAULT" "mDataSize (heap sample_net p) = 7"
  "\<not> mIsEncoding (heap sample_net p)" "drop 5 (written (heap sample_net p)) = [10, 20]" "mRefCnt (heap sample_net p) = 1"
proof -
  let ?q = "SetDataSize (Packet_Init (new_Packet 2048)) 5"
  have q: "packet_ok ?q" "fits ?q (length [10 :: u8, 20])" "capacity ?q = BUFFER_DEFAULT" "\<not> mIsEncoding ?q"
    "mDataSize ?q = 5" "length (written ?q) = 5" "mRefCnt ?q = 1"
    by (simp_all add: packet_ok_def SetDataSize_def new_Packet_def capacity_def fits_def BUFFER_DEFAULT_def written_def
        Packet_Init_def Packet_Clear_def)
  note a = append_bytes_ok [OF q(1,2)]
  show "packet_ok (heap sample_net p)" "capacity (heap sample_net p) = BUFFER_DEFAULT" "mDataSize (heap sample_net p) = 7"
    "\<not> mIsEncoding (heap sample_net p)" "drop 5 (written (heap sample_net p)) = [10, 20]" "mRefCnt (heap sample_net p) = 1"
    using a q by (simp_all add: sample_net_def)
qed

lemma sample_sendable: "sendable sample_net p"
  using sample_packet by (simp add: sendable_def)

lemma one_client_net: "net (one_client g) = g"
  by (simp add: one_client_def accept_connection_def createSession_def server_init_def Let_def upd_session_def
      split: list.splits)

theorem packet_references_conserved_witness:
  "\<exists>srv' b cbs. SendPacket (session_id 127 0) 3 7 Started (one_client sample_net) = Some (srv', b, cbs) \<and>
     refcnt (net srv') 3 - total_owned srv' 3 = refcnt (net (one_client sample_net)) 3 - total_owned (one_client sample_net) 3"
proof -
  have se: "sendable (net (one_client sample_net)) 3" by (simp add: one_client_net sample_sendable)
  obtain srv' b cbs where s: "SendPacket (session_id 127 0) 3 7 Started (one_client sample_net) = Some (srv', b, cbs)"
    using SendPacket_step [OF server_run_ok [OF one_client_run server_init_ok] se] by blast
  show ?thesis
    using packet_references_conserved [OF one_client_run server_step.send [OF se s]] s by auto
qed

text \<open>
  C9. A stale session id is never mistaken for the next client in its slot: once a session has
  been released, in whatever the server does until \<open>2 ^ 48\<close> connections were accepted, its id finds
  no session, and SendPacket and DisConnect on it do nothing and report false.
\<close>
theorem stale_session_id_rejected:
  assumes "server_run (server_init g) srv" and "findSession srv sid = Some i"
    and "0 < k_release (mSessionListHead srv ! i)" and "unat (mSessionID srv) < 2 ^ 48"
    and "worker_release i srv = Some (srv1, cbs)" and "server_run srv1 srv2"
  shows "findSession srv2 sid = None \<and> DisConnect sid r srv2 = (srv2, False) \<and>
    SendPacket sid p rng w srv2 = Some (srv2, False, []) \<and> cbs = [OnClientLeave sid]"
proof -
  have ok: "server_ok srv" by (rule server_run_ok [OF assms(1) server_init_ok])
  note f = findSession_Some [OF assms(2)]
  obtain srv' where w: "worker_release i srv = Some (srv', [OnClientLeave (s_id (mSessionListHead srv ! i))])"
    "server_ok srv'" "mSessionID srv' = mSessionID srv" "ids srv' = (ids srv)[i := (0, Free)]"
    by (rule worker_release_spec [OF ok _ assms(3)]) (use f in blast)+
  have e: "srv' = srv1" "cbs = [OnClientLeave sid]" using w(1) assms(5) f by auto
  have len: "length (ids srv) = DEFAULT_MAX_CONNECTION" using ok by (simp add: ids_def server_ok_def)
  have "length (mSessionListHead srv) = DEFAULT_MAX_CONNECTION" using ok by (simp add: server_ok_def)
  then have "ids srv ! i = (sid, Connected)"
    using nth_map [of i "mSessionListHead srv" "\<lambda>s. (s_id s, s_state s)"] f by (metis ids_def)
  then have "(sid, Connected) \<in> set (ids srv)" using f len by (metis nth_mem)
  moreover have "issued srv" by (rule server_run_safe(1) [OF assms(1) server_init_ok issued_init])
  ultimately have "unat (take_bit 48 sid) < unat (mSessionID srv)" by (auto simp: issued_def)
  moreover have "findSession srv1 sid = None"
    using w e f len by (simp add: findSession_eq)
  ultimately have "dead srv1 sid" using w(3) e by (simp add: dead_def)
  then have "dead srv2 sid" using server_run_safe(2) [OF assms(6)] w(2) e by simp
  then show ?thesis using e by (simp add: dead_def DisConnect_def SendPacket_def)
qed

text \<open>A run: a client connects and is disconnected by the application.\<close>

definition first_id :: u64 where "first_id = session_id 127 0"

lemma one_client_slot:
  "mSessionListHead (one_client g) ! 127 =
     (Session_Init new_Session)\<lparr>s_id := first_id, s_state := Connected, s_socket := Some 5\<rparr>"
  "length (mSessionListHead (one_client g)) = 128" "mSessionID (one_client g) = 1"
  "net (one_client g) = g"
proof -
  have "[0..<DEFAULT_MAX_CONNECTION] = [0..<127] @ [127]"
    using upt_Suc_append [of 0 127] by (simp add: DEFAULT_MAX_CONNECTION_def del: upt_Suc upt_rec_numeral)
  then have st: "mSessionEmptyIndexStack (server_init g) = 127 # rev [0..<127]"
    by (simp add: server_init_def del: upt_rec_numeral)
  have l: "mSessionListHead (server_init g) = replicate 128 new_Session" "mSessionID (server_init g) = 0"
    "net (server_init g) = g"
    by (simp_all add: server_init_def DEFAULT_MAX_CONNECTION_def)
  show "mSessionListHead (one_client g) ! 127 =
     (Session_Init new_Session)\<lparr>s_id := first_id, s_state := Connected, s_socket := Some 5\<rparr>"
    "length (mSessionListHead (one_client g)) = 128" "mSessionID (one_client g) = 1" "net (one_client g) = g"
    by (simp_all add: one_client_def accept_connection_def createSession_def st l Let_def upd_session_def first_id_def
        del: upt_rec_numeral)
qed

definition closing_client :: "netstate \<Rightarrow> server" where
  "closing_client g = fst (DisConnect first_id Timeout (one_client g))"

lemma one_client_found: "findSession (one_client g) first_id = Some 127"
proof -
  have "unat (drop_bit 48 first_id) = 127"
    unfolding first_id_def by (rule session_id_index) simp
  then show ?thesis
    using one_client_slot [of g] by (simp add: findSession_def Let_def DEFAULT_MAX_CONNECTION_def)
qed

lemma closing_client_slot:
  "findSession (closing_client g) first_id = Some 127" "k_release (mSessionListHead (closing_client g) ! 127) = 1"
  "mSessionID (closing_client g) = 1"
proof -
  let ?s = "mSessionListHead (one_client g) ! 127"
  have c: "s_control ?s = 0" "k_release ?s = 0" "s_id ?s = first_id" "s_state ?s = Connected"
    by (simp_all add: one_client_slot Session_Init_def new_Session_def)
  have i: "IncreaseIoCount 0 = Some (SessionControl 1 0)"
    using IncreaseIoCount_packed [of 0 0] by (simp add: SessionControl_0)
  have t: "TrySetReleaseFlag (SessionControl 1 0) = Some (SessionControl 1 1, 1)"
    by (simp add: TrySetReleaseFlag_packed flag_bits)
  have d: "decreaseSessionIoCount (SessionControl 1 1) = (SessionControl 0 1, True)"
    by (simp add: decrease_packed)
  have e: "IncreaseIoCount_s ?s = Some (?s\<lparr>s_control := SessionControl 1 0\<rparr>)"
    by (simp add: IncreaseIoCount_s_def c i)
  have "\<exists>h. closing_client g = upd_session (one_client g) 127 (?s\<lparr>s_control := SessionControl 0 1, k_release := 1\<rparr>, h)"
    unfolding closing_client_def DisConnect_def one_client_found
    by (simp add: e c requestRelease_def t decreaseSessionIoCount_s_def d) blast
  then obtain h where u:
    "closing_client g = upd_session (one_client g) 127 (?s\<lparr>s_control := SessionControl 0 1, k_release := 1\<rparr>, h)" ..
  show "findSession (closing_client g) first_id = Some 127" "k_release (mSessionListHead (closing_client g) ! 127) = 1"
    "mSessionID (closing_client g) = 1"
  proof -
    have "unat (drop_bit 48 first_id) = 127"
      unfolding first_id_def by (rule session_id_index) simp
    then show "findSession (closing_client g) first_id = Some 127"
      using one_client_slot(2) [of g] c by (simp add: u upd_session_def findSession_def Let_def DEFAULT_MAX_CONNECTION_def)
    show "k_release (mSessionListHead (closing_client g) ! 127) = 1" "mSessionID (closing_client g) = 1"
      using one_client_slot(2,3) [of g] by (simp_all add: u upd_session_def)
  qed
qed

lemma closing_client_run: "server_run (server_init g) (closing_client g)"
  unfolding closing_client_def
  by (rule server_run.more [OF one_client_run _ server_step.disconnect]) (simp add: one_client_slot)

theorem stale_session_id_rejected_witness:
  "\<exists>srv1 cbs. worker_release 127 (closing_client sample_net) = Some (srv1, cbs) \<and>
     findSession srv1 first_id = None \<and> DisConnect first_id Timeout srv1 = (srv1, False) \<and>
     SendPacket first_id 3 7 Started srv1 = Some (srv1, False, []) \<and> cbs = [OnClientLeave first_id]"
proof -
  let ?srv = "closing_client sample_net"
  have ok: "server_ok ?srv" by (rule server_run_ok [OF closing_client_run server_init_ok])
  have k: "0 < k_release (mSessionListHead ?srv ! 127)" by (simp add: closing_client_slot)
  have i: "(127 :: nat) < DEFAULT_MAX_CONNECTION" by (simp add: DEFAULT_MAX_CONNECTION_def)
  obtain srv1 cbs where w: "worker_release 127 ?srv = Some (srv1, cbs)"
    by (rule worker_release_spec [OF ok i k]) blast
  have n: "unat (mSessionID ?srv) < 2 ^ 48" by (simp add: closing_client_slot)
  from stale_session_id_rejected [OF closing_client_run closing_client_slot(1) k n w server_run.none] w
  show ?thesis by blast
qed

text \<open>
  C10. Packets leave a session in the order SendPacket accepted them: a successful SendPacket
  appends the packet's frame to the bytes already sent or waiting, whether they wait or a send is
  under way, and re-encodes nothing.
\<close>
theorem send_order_preserved:
  assumes "server_run (server_init g) srv" and "sendable (net srv) p" and "findSession srv sid = Some i"
    and "\<forall>q \<in> set (contents (sendRing (mSessionListHead srv ! i))). mIsEncoding (heap (net srv) q)"
    and "SendPacket sid p rng w srv = Some (srv', True, cbs)"
  shows "outbound (mSessionListHead srv' ! i) (net srv') =
      outbound (mSessionListHead srv ! i) (net srv) @ written (heap (net srv') p) \<and>
    written (heap (net srv') p) =
      (if mIsEncoding (heap (net srv) p) then written (heap (net srv) p)
       else frame_bytes (ucast (xorshift rng AND 0xFF)) (drop 5 (written (heap (net srv) p))))"
proof -
  let ?s = "mSessionListHead srv ! i" and ?h = "heap (net srv)"
  from SendPacket_step [OF server_run_ok [OF assms(1) server_init_ok] assms(2), of sid rng w] assms(3,5)
  obtain pk rng' where e: "encode_packet (?h p) rng = Some (pk, rng')" "written (heap (net srv') p) = written pk"
    "outbound (mSessionListHead srv' ! i) (net srv') = k_wire ?s @
         concat (map (\<lambda>q. written ((?h(p := pk)) q)) (contents (sendRing ?s) @ [p]))" by auto
  have w: "written pk = (if mIsEncoding (?h p) then written (?h p)
       else frame_bytes (ucast (xorshift rng AND 0xFF)) (drop 5 (written (?h p))))"
  proof (cases "mIsEncoding (?h p)")
    case True
    then show ?thesis using e(1) by (simp add: encode_packet_def)
  next
    case False
    then show ?thesis using e(1) assms(2) encode_packet_spec [of "?h p" rng] by (auto simp: sendable_def)
  qed
  have q: "written ((?h(p := pk)) q) = written (?h q)" if "q \<in> set (contents (sendRing ?s))" for q
    using assms(4) that w by auto
  have m: "map (\<lambda>q. written ((?h(p := pk)) q)) (contents (sendRing ?s)) = map (\<lambda>q. written (?h q)) (contents (sendRing ?s))"
    by (rule map_cong [OF refl q])
  have "outbound (mSessionListHead srv' ! i) (net srv') = outbound ?s (net srv) @ written pk"
    unfolding e(3) map_append concat_append m by (simp add: outbound_def)
  then show ?thesis using e(2) w by simp
qed

theorem send_order_preserved_witness:
  "\<exists>srv' cbs. SendPacket first_id 3 7 Started (one_client sample_net) = Some (srv', True, cbs) \<and>
     outbound (mSessionListHead srv' ! 127) (net srv') = frame_bytes (ucast (xorshift 7 AND 0xFF)) [10, 20]"
proof -
  let ?srv = "one_client sample_net" let ?s = "mSessionListHead ?srv ! 127"
  have se: "sendable (net ?srv) 3" by (simp add: one_client_net sample_sendable)
  have s: "contents (sendRing ?s) = []" "\<not> released ?s" "k_wire ?s = []"
    using new_RingBuffer_ok [of SEND_RINGBUFFER_SIZE "0 :: nat"] ClearBuffer_ok(2) [of "new_RingBuffer SEND_RINGBUFFER_SIZE (0 :: nat)"]
    by (simp_all add: one_client_slot Session_Init_def new_Session_def released_def SEND_RINGBUFFER_SIZE_def)
  from SendPacket_step [OF server_run_ok [OF one_client_run server_init_ok] se, of first_id 7 Started] s one_client_found
  obtain srv' cbs where w: "SendPacket first_id 3 7 Started ?srv = Some (srv', True, cbs)" by auto
  from send_order_preserved [OF one_client_run se one_client_found _ w] s w show ?thesis
    by (auto simp: one_client_net sample_packet outbound_def)
qed

text \<open>
  The completion of a failed send (a client that resets the connection while data is under
  way, or the CancelIoEx of a shutdown) leaks packets: its branch of the worker thread gives back
  the session's reference but not those on the packets of the send, and no later step does, so each
  of them is lost to the pool.
\<close>
lemma failed_send_leaks_packets:
  assumes "server_ok srv" and "i < DEFAULT_MAX_CONNECTION" and "k_send (mSessionListHead srv ! i)"
    and "p \<in> set (sentPackets (mSessionListHead srv ! i))"
  shows "refcnt (net (worker_failed SEND i srv)) p = refcnt (net srv) p \<and>
    total_owned (worker_failed SEND i srv) p < total_owned srv p"
proof -
  let ?s = "mSessionListHead srv ! i"
  note ni = pending_not_free(2) [OF assms(1-3)]
  have "0 < count_list (sentPackets ?s) p" using assms(4) by (metis count_list_0_iff gr0I)
  moreover have "refcnt (net (worker_failed SEND i srv)) p = refcnt (net srv) p"
    by (auto simp: worker_failed_def requestRelease_def upd_session_def refcnt_def split: option.splits prod.splits)
  ultimately show ?thesis
    using worker_failed_send_step(2) [OF assms(1,2) ni assms(3), of p] by (simp add: loose_def)
qed

end
