(* ===== verification/Chat_Packets.thy ===== *)
theory Chat_Packets
  imports Packets
begin

text \<open>
  ChatingServer/ChatPacketGenerator.h and the chat part of Utils/CommonProtocol.h: the messages
  of the chat server, written with the packet's stream operators. The lemmas give the bytes of
  each message; a write that does not fit would show there as a shorter packet.
\<close>

section \<open>Message types\<close>

definition en_PACKET_CS_CHAT_REQ_LOGIN :: u16 where "en_PACKET_CS_CHAT_REQ_LOGIN = 1"
definition en_PACKET_CS_CHAT_RES_LOGIN :: u16 where "en_PACKET_CS_CHAT_RES_LOGIN = 2"
definition en_PACKET_CS_CHAT_REQ_SECTOR_MOVE :: u16 where "en_PACKET_CS_CHAT_REQ_SECTOR_MOVE = 3"
definition en_PACKET_CS_CHAT_RES_SECTOR_MOVE :: u16 where "en_PACKET_CS_CHAT_RES_SECTOR_MOVE = 4"
definition en_PACKET_CS_CHAT_REQ_MESSAGE :: u16 where "en_PACKET_CS_CHAT_REQ_MESSAGE = 5"
definition en_PACKET_CS_CHAT_RES_MESSAGE :: u16 where "en_PACKET_CS_CHAT_RES_MESSAGE = 6"
definition en_PACKET_CS_CHAT_REQ_HEARTBEAT :: u16 where "en_PACKET_CS_CHAT_REQ_HEARTBEAT = 7"

lemmas packet_types =
  en_PACKET_CS_CHAT_REQ_LOGIN_def en_PACKET_CS_CHAT_RES_LOGIN_def en_PACKET_CS_CHAT_REQ_SECTOR_MOVE_def
  en_PACKET_CS_CHAT_RES_SECTOR_MOVE_def en_PACKET_CS_CHAT_REQ_MESSAGE_def en_PACKET_CS_CHAT_RES_MESSAGE_def
  en_PACKET_CS_CHAT_REQ_HEARTBEAT_def

section \<open>Wide strings\<close>

text \<open>An array of \<open>WCHAR\<close> and its bytes.\<close>

type_synonym wstr = "u16 list"

definition wbytes :: "wstr \<Rightarrow> bytes" where
  "wbytes ws = concat (map (le_bytes 2) ws)"

fun wstr_of :: "bytes \<Rightarrow> wstr" where
  "wstr_of (a # b # bs) = le_word [a, b] # wstr_of bs"
| "wstr_of bs = []"

text \<open>The characters of a C string.\<close>

definition wcs :: "wstr \<Rightarrow> wstr" where
  "wcs ws = takeWhile (\<lambda>c. c \<noteq> 0) ws"

text \<open>
  \<open>wcsncpy_s (dest, src, sz)\<close> into an array of \<open>sz\<close> zeros: the string, when its terminator
  fits; otherwise the invalid-parameter handler ends the process (\<open>None\<close>).
\<close>

definition wcsncpy_s :: "nat \<Rightarrow> wstr \<Rightarrow> wstr option" where
  "wcsncpy_s sz src =
     (if length (wcs src) < sz then Some (wcs src @ replicate (sz - length (wcs src)) 0) else None)"

text \<open>The same with \<open>_TRUNCATE\<close>, into an array that keeps its old contents behind the terminator.\<close>

definition copy_truncate :: "'a::zero list \<Rightarrow> 'a list \<Rightarrow> 'a list" where
  "copy_truncate dest src =
     (let s = take (length dest - 1) (takeWhile (\<lambda>c. c \<noteq> 0) src) in s @ 0 # drop (length s + 1) dest)"

lemma length_wbytes [simp]: "length (wbytes ws) = 2 * length ws"
  by (induction ws) (simp_all add: wbytes_def)

lemma wbytes_simps [simp]: "wbytes [] = []" "wbytes (w # ws) = le_bytes 2 w @ wbytes ws"
  by (simp_all add: wbytes_def)

lemma wstr_of_wbytes [simp]: "wstr_of (wbytes ws) = ws"
proof (induction ws)
  case (Cons w ws)
  have lb: "le_bytes 2 w = [ucast w, ucast (drop_bit 8 w)]" by (simp add: le_bytes_def numeral_2_eq_2)
  have "le_word (le_bytes 2 w) = w" by simp
  then have lw: "le_word [ucast w, ucast (drop_bit 8 w) :: u8] = w" by (simp only: lb)
  show ?case by (simp only: wbytes_simps lb append_Cons append_Nil wstr_of.simps lw Cons)
qed simp

lemma length_wstr_of: "length (wstr_of bs) = length bs div 2"
  by (induction bs rule: wstr_of.induct) auto

lemma length_copy_truncate:
  assumes "dest \<noteq> []"
  shows "length (copy_truncate dest src) = length dest"
  using assms by (cases dest) (auto simp: copy_truncate_def Let_def)

lemma copy_truncate_string:
  assumes "dest \<noteq> []" and "length (takeWhile (\<lambda>c. c \<noteq> 0) src) < length dest"
  shows "takeWhile (\<lambda>c. c \<noteq> 0) (copy_truncate dest src) = takeWhile (\<lambda>c. c \<noteq> 0) src"
proof -
  let ?s = "takeWhile (\<lambda>c. c \<noteq> 0) src"
  have t: "take (length dest - 1) ?s = ?s" using assms by simp
  have "takeWhile (\<lambda>c. c \<noteq> 0) (?s @ 0 # xs) = ?s" for xs
    by (subst takeWhile_append2) (auto dest: set_takeWhileD)
  then show ?thesis unfolding copy_truncate_def Let_def t by simp
qed

section \<open>Writing messages\<close>

definition InitPacket :: "packet \<Rightarrow> u16 \<Rightarrow> packet option" where
  "InitPacket pPacket type = do {
     (p1, n) \<leftarrow> PutData pPacket [0, 0, 0, 0, 0];
     shl_bytes p1 (le_bytes 2 type)
   }"

definition MakeChatResLogin :: "packet \<Rightarrow> u8 \<Rightarrow> u64 \<Rightarrow> packet option" where
  "MakeChatResLogin pPacket status accountNo = do {
     p1 \<leftarrow> InitPacket pPacket en_PACKET_CS_CHAT_RES_LOGIN;
     p2 \<leftarrow> shl_bytes p1 (le_bytes 1 status);
     shl_bytes p2 (le_bytes 8 accountNo)
   }"

definition MakeChatSectorMove :: "packet \<Rightarrow> u64 \<Rightarrow> u16 \<Rightarrow> u16 \<Rightarrow> packet option" where
  "MakeChatSectorMove pPacket accountNo sectorX sectorY = do {
     p1 \<leftarrow> InitPacket pPacket en_PACKET_CS_CHAT_RES_SECTOR_MOVE;
     p2 \<leftarrow> shl_bytes p1 (le_bytes 8 accountNo);
     p3 \<leftarrow> shl_bytes p2 (le_bytes 2 sectorX);
     shl_bytes p3 (le_bytes 2 sectorY)
   }"

definition MakeChatResMessage :: "packet \<Rightarrow> u64 \<Rightarrow> wstr \<Rightarrow> wstr \<Rightarrow> u16 \<Rightarrow> bytes \<Rightarrow> packet option" where
  "MakeChatResMessage pPacket accountNo pid nickname messageLen message = do {
     p1 \<leftarrow> InitPacket pPacket en_PACKET_CS_CHAT_RES_MESSAGE;
     p2 \<leftarrow> shl_bytes p1 (le_bytes 8 accountNo);
     tempId \<leftarrow> wcsncpy_s 20 pid;
     tempNick \<leftarrow> wcsncpy_s 20 nickname;
     (p3, n3) \<leftarrow> PutData p2 (wbytes tempId);
     (p4, n4) \<leftarrow> PutData p3 (wbytes tempNick);
     p5 \<leftarrow> shl_bytes p4 (le_bytes 2 messageLen);
     if messageLen > 0 then do {
       chunk \<leftarrow> memread message 0 (uint messageLen);
       (p6, n6) \<leftarrow> PutData p5 chunk;
       Some p6
     } else Some p5
   }"

definition MakeChatReqHeartbeat :: "packet \<Rightarrow> packet option" where
  "MakeChatReqHeartbeat pPacket = InitPacket pPacket en_PACKET_CS_CHAT_REQ_HEARTBEAT"

section \<open>Layout\<close>

text \<open>\<open>wrote p bs p'\<close>: \<open>p'\<close> is \<open>p\<close> with \<open>bs\<close> appended.\<close>

definition wrote :: "packet \<Rightarrow> bytes \<Rightarrow> packet \<Rightarrow> bool" where
  "wrote p bs p' \<longleftrightarrow> packet_ok p' \<and> capacity p' = capacity p \<and> written p' = written p @ bs \<and>
     mDataSize p' = mDataSize p + int (length bs) \<and> mReadPos p' = mReadPos p \<and> mRefCnt p' = mRefCnt p \<and>
     mSessionID p' = mSessionID p \<and> mIsEncoding p' = mIsEncoding p"

lemma wrote_append:
  "packet_ok p \<Longrightarrow> fits p (length bs) \<Longrightarrow> wrote p bs (append_bytes p bs)"
  by (simp add: wrote_def append_bytes_ok)

lemma shl_wrote:
  assumes "packet_ok p" and "fits p (length bs)"
  obtains p' where "shl_bytes p bs = Some p'" "wrote p bs p'"
  using shl_bytes_fits [OF assms] wrote_append [OF assms] by blast

lemma PutData_wrote:
  assumes "packet_ok p" and "fits p (length bs)"
  obtains p' where "PutData p bs = Some (p', int (length bs))" "wrote p bs p'"
  using PutData_fits [OF assms] wrote_append [OF assms] by blast

lemma wrote_trans: "wrote p bs p' \<Longrightarrow> wrote p' cs p'' \<Longrightarrow> wrote p (bs @ cs) p''"
  by (simp add: wrote_def)

lemma wrote_fits: "wrote p bs p' \<Longrightarrow> fits p (length bs + n) \<Longrightarrow> packet_ok p'" "wrote p bs p' \<Longrightarrow> fits p (length bs + n) \<Longrightarrow> fits p' n"
  by (simp_all add: wrote_def fits_def)

text \<open>A fresh packet of the pool, as every message starts from.\<close>

definition fresh :: "packet \<Rightarrow> bool" where
  "fresh p \<longleftrightarrow> packet_ok p \<and> capacity p = 2048 \<and> written p = [] \<and> mDataSize p = 0 \<and> mRefCnt p = 1 \<and> \<not> mIsEncoding p"

lemma fresh_Packet_Init: "capacity p = 2048 \<Longrightarrow> fresh (Packet_Init p)"
  by (simp add: fresh_def Packet_Init_ok Packet_Init_fields)

lemma InitPacket_wrote:
  assumes "fresh p"
  obtains p' where "InitPacket p type = Some p'" "wrote p (replicate 5 0 @ le_bytes 2 type) p'"
proof -
  have ok: "packet_ok p" "fits p (length [0, 0, 0, 0, 0 :: u8])" using assms by (auto simp: fresh_def fits_def)
  obtain p1 where p1: "PutData p [0, 0, 0, 0, 0] = Some (p1, 5)" "wrote p [0, 0, 0, 0, 0] p1"
    using PutData_wrote [OF ok] by auto
  have "packet_ok p1" "fits p1 (length (le_bytes 2 type))" using p1(2) assms by (auto simp: wrote_def fresh_def fits_def)
  then obtain p2 where "shl_bytes p1 (le_bytes 2 type) = Some p2" "wrote p1 (le_bytes 2 type) p2" by (rule shl_wrote)
  with p1 wrote_trans [OF p1(2)] that show ?thesis by (auto simp: InitPacket_def numeral_eq_Suc)
qed

lemma MakeChatResLogin_wrote:
  assumes "fresh p"
  obtains p' where "MakeChatResLogin p status acc = Some p'"
    "wrote p (replicate 5 0 @ le_bytes 2 en_PACKET_CS_CHAT_RES_LOGIN @ le_bytes 1 status @ le_bytes 8 acc) p'"
proof -
  obtain p1 where p1: "InitPacket p en_PACKET_CS_CHAT_RES_LOGIN = Some p1"
    "wrote p (replicate 5 0 @ le_bytes 2 en_PACKET_CS_CHAT_RES_LOGIN) p1" by (rule InitPacket_wrote [OF assms])
  have "packet_ok p1" "fits p1 (length (le_bytes 1 status))" using p1(2) assms by (auto simp: wrote_def fresh_def fits_def)
  then obtain p2 where p2: "shl_bytes p1 (le_bytes 1 status) = Some p2" "wrote p1 (le_bytes 1 status) p2" by (rule shl_wrote)
  note w2 = wrote_trans [OF p1(2) p2(2)]
  have "packet_ok p2" "fits p2 (length (le_bytes 8 acc))" using w2 assms by (auto simp: wrote_def fresh_def fits_def)
  then obtain p3 where p3: "shl_bytes p2 (le_bytes 8 acc) = Some p3" "wrote p2 (le_bytes 8 acc) p3" by (rule shl_wrote)
  show ?thesis using that [of p3] p1(1) p2(1) p3(1) wrote_trans [OF w2 p3(2)] by (simp add: MakeChatResLogin_def)
qed

lemma MakeChatSectorMove_wrote:
  assumes "fresh p"
  obtains p' where "MakeChatSectorMove p acc x y = Some p'"
    "wrote p (replicate 5 0 @ le_bytes 2 en_PACKET_CS_CHAT_RES_SECTOR_MOVE @ le_bytes 8 acc @ le_bytes 2 x @ le_bytes 2 y) p'"
proof -
  obtain p1 where p1: "InitPacket p en_PACKET_CS_CHAT_RES_SECTOR_MOVE = Some p1"
    "wrote p (replicate 5 0 @ le_bytes 2 en_PACKET_CS_CHAT_RES_SECTOR_MOVE) p1" by (rule InitPacket_wrote [OF assms])
  have "packet_ok p1" "fits p1 (length (le_bytes 8 acc))" using p1(2) assms by (auto simp: wrote_def fresh_def fits_def)
  then obtain p2 where p2: "shl_bytes p1 (le_bytes 8 acc) = Some p2" "wrote p1 (le_bytes 8 acc) p2" by (rule shl_wrote)
  note w2 = wrote_trans [OF p1(2) p2(2)]
  have "packet_ok p2" "fits p2 (length (le_bytes 2 x))" using w2 assms by (auto simp: wrote_def fresh_def fits_def)
  then obtain p3 where p3: "shl_bytes p2 (le_bytes 2 x) = Some p3" "wrote p2 (le_bytes 2 x) p3" by (rule shl_wrote)
  note w3 = wrote_trans [OF w2 p3(2)]
  have "packet_ok p3" "fits p3 (length (le_bytes 2 y))" using w3 assms by (auto simp: wrote_def fresh_def fits_def)
  then obtain p4 where p4: "shl_bytes p3 (le_bytes 2 y) = Some p4" "wrote p3 (le_bytes 2 y) p4" by (rule shl_wrote)
  show ?thesis using that [of p4] p1(1) p2(1) p3(1) p4(1) wrote_trans [OF w3 p4(2)] by (simp add: MakeChatSectorMove_def)
qed

text \<open>A name field: the string, padded with zeros to twenty characters.\<close>

definition name_field :: "wstr \<Rightarrow> bytes" where
  "name_field ws = wbytes (wcs ws @ replicate (20 - length (wcs ws)) 0)"

lemma length_name_field: "length (wcs ws) < 20 \<Longrightarrow> length (name_field ws) = 40"
  by (simp add: name_field_def)

lemma MakeChatResMessage_wrote:
  assumes "fresh p" and "length (wcs pid) < 20" and "length (wcs nick) < 20"
    and "uint len \<le> int (length msg)" and "uint len \<le> 1024"
  obtains p' where "MakeChatResMessage p acc pid nick len msg = Some p'"
    "wrote p (replicate 5 0 @ le_bytes 2 en_PACKET_CS_CHAT_RES_MESSAGE @ le_bytes 8 acc @ name_field pid @ name_field nick @
       le_bytes 2 len @ take (unat len) msg) p'"
proof -
  let ?t = "en_PACKET_CS_CHAT_RES_MESSAGE"
  have n: "wcsncpy_s 20 pid = Some (wcs pid @ replicate (20 - length (wcs pid)) 0)"
    "wcsncpy_s 20 nick = Some (wcs nick @ replicate (20 - length (wcs nick)) 0)"
    using assms(2,3) by (simp_all add: wcsncpy_s_def)
  obtain p1 where p1: "InitPacket p ?t = Some p1" "wrote p (replicate 5 0 @ le_bytes 2 ?t) p1"
    by (rule InitPacket_wrote [OF assms(1)])
  have "packet_ok p1" "fits p1 (length (le_bytes 8 acc))" using p1(2) assms(1) by (auto simp: wrote_def fresh_def fits_def)
  then obtain p2 where p2: "shl_bytes p1 (le_bytes 8 acc) = Some p2" "wrote p1 (le_bytes 8 acc) p2" by (rule shl_wrote)
  note w2 = wrote_trans [OF p1(2) p2(2)]
  have "packet_ok p2" "fits p2 (length (name_field pid))"
    using w2 assms(1,2) by (auto simp: wrote_def fresh_def fits_def length_name_field)
  then obtain p3 where p3: "PutData p2 (name_field pid) = Some (p3, int (length (name_field pid)))" "wrote p2 (name_field pid) p3"
    by (rule PutData_wrote)
  note w3 = wrote_trans [OF w2 p3(2)]
  have "packet_ok p3" "fits p3 (length (name_field nick))"
    using w3 assms(1-3) by (auto simp: wrote_def fresh_def fits_def length_name_field)
  then obtain p4 where p4: "PutData p3 (name_field nick) = Some (p4, int (length (name_field nick)))" "wrote p3 (name_field nick) p4"
    by (rule PutData_wrote)
  note w4 = wrote_trans [OF w3 p4(2)]
  have "packet_ok p4" "fits p4 (length (le_bytes 2 len))"
    using w4 assms(1-3) by (auto simp: wrote_def fresh_def fits_def length_name_field)
  then obtain p5 where p5: "shl_bytes p4 (le_bytes 2 len) = Some p5" "wrote p4 (le_bytes 2 len) p5" by (rule shl_wrote)
  note w5 = wrote_trans [OF w4 p5(2)]
  show ?thesis
  proof (cases "len = 0")
    case True
    have "MakeChatResMessage p acc pid nick len msg = Some p5"
      unfolding MakeChatResMessage_def p1(1) n bind.simps p2(1) p3(1) p4(1) p5(1) prod.case name_field_def [symmetric]
      using True by simp
    then show ?thesis using that [of p5] w5 True by simp
  next
    case False
    have ml: "unat len \<le> length msg" "unat len \<le> 1024" using assms(4,5)
      by (simp_all flip: nat_uint_eq add: nat_le_iff)
    have mr: "memread msg 0 (uint len) = Some (take (unat len) msg)"
      using assms(4) by (simp add: memread_def nat_uint_eq)
    have "mDataSize p5 \<le> 97" "packet_ok p5" "capacity p5 = 2048"
      using w5 assms(1-3) by (auto simp: wrote_def fresh_def length_name_field)
    then have "packet_ok p5" "fits p5 (length (take (unat len) msg))"
      using ml by (simp_all only: fits_def length_take)
    then obtain p6 where p6: "PutData p5 (take (unat len) msg) = Some (p6, int (length (take (unat len) msg)))"
      "wrote p5 (take (unat len) msg) p6" by (rule PutData_wrote)
    have "MakeChatResMessage p acc pid nick len msg = Some p6"
      unfolding MakeChatResMessage_def p1(1) n bind.simps p2(1) p3(1) p4(1) p5(1) prod.case name_field_def [symmetric] mr p6(1)
      using False by (simp add: word_gt_0)
    then show ?thesis using that [of p6] wrote_trans [OF w5 p6(2)] by simp
  qed
qed

end
