(* ===== verification/Chat_Sectors.thy ===== *)
theory Chat_Sectors
  imports Chat_Packets
begin

text \<open>
  ChatingServer/Player.h and Sector.h, and the sector part of ChatServer.cpp: the grid of
  sectors, the table of neighbourhoods, moving and removing a player and the choice of the
  recipients of a broadcast. A \<open>Player*\<close> is a natural number, \<open>players\<close> maps it to the object;
  the vector of a sector is a list.
\<close>

section \<open>Players\<close>

record player =
  mSessionID_p :: u64
  mAccountNo :: u64
  mID :: wstr
  mNickName :: wstr
  mSessionKey :: bytes
  mSectorX :: u16
  mSectorY :: u16
  mWillDelete :: bool
  mIsLoggedIn :: bool
  mConnectTime :: u64
  mLastActiveTime :: u64
  mTimeoutLogged :: bool

definition Player_Clear :: "player \<Rightarrow> player" where
  "Player_Clear p =
     p\<lparr>mSessionID_p := 0, mAccountNo := 0, mSectorX := -1, mSectorY := -1, mWillDelete := False,
       mIsLoggedIn := False, mConnectTime := 0, mLastActiveTime := 0, mTimeoutLogged := False\<rparr>"

definition SetID :: "wstr \<Rightarrow> player \<Rightarrow> player" where
  "SetID s p = p\<lparr>mID := copy_truncate (mID p) s\<rparr>"

definition SetNickName :: "wstr \<Rightarrow> player \<Rightarrow> player" where
  "SetNickName s p = p\<lparr>mNickName := copy_truncate (mNickName p) s\<rparr>"

definition SetSessionKey :: "bytes \<Rightarrow> player \<Rightarrow> player" where
  "SetSessionKey s p = p\<lparr>mSessionKey := copy_truncate (mSessionKey p) s\<rparr>"

definition OnConnect :: "u64 \<Rightarrow> player \<Rightarrow> player" where
  "OnConnect now p = p\<lparr>mConnectTime := now, mTimeoutLogged := False\<rparr>"

definition OnLogin :: "u64 \<Rightarrow> player \<Rightarrow> player" where
  "OnLogin now p = p\<lparr>mLastActiveTime := now, mIsLoggedIn := True\<rparr>"

definition UpdateHeartbeat :: "u64 \<Rightarrow> player \<Rightarrow> player" where
  "UpdateHeartbeat now p = p\<lparr>mLastActiveTime := now\<rparr>"

record timeout_info =
  expired :: bool
  firstReport :: bool
  loggedIn :: bool
  idleMs :: u64

definition CheckTimeOutSnapshot :: "u64 \<Rightarrow> player \<Rightarrow> player \<times> timeout_info" where
  "CheckTimeOutSnapshot now p =
     (let isIn = mIsLoggedIn p;
          base = (if isIn then mLastActiveTime p else mConnectTime p);
          idle = now - base;
          limit = (if isIn then 120000 else 60000);
          ex = idle > limit;
          first = ex \<and> \<not> mTimeoutLogged p
      in (p\<lparr>mTimeoutLogged := mTimeoutLogged p \<or> ex\<rparr>,
          \<lparr>expired = ex, firstReport = first, loggedIn = isIn, idleMs = idle\<rparr>))"

section \<open>The grid\<close>

definition SECTOR_CNT_X :: int where "SECTOR_CNT_X = 50"
definition SECTOR_CNT_Y :: int where "SECTOR_CNT_Y = 50"

type_synonym sectors = "int \<Rightarrow> int \<Rightarrow> nat list"     \<comment> \<open>\<open>mSector[y][x].players\<close>\<close>

definition set_sector :: "sectors \<Rightarrow> int \<Rightarrow> int \<Rightarrow> nat list \<Rightarrow> sectors" where
  "set_sector s y x ps = (\<lambda>y' x'. if y' = y \<and> x' = x then ps else s y' x')"

text \<open>One entry of \<open>mSectorAroundTable\<close>, in the order the loops fill it.\<close>

definition sector_around :: "int \<Rightarrow> int \<Rightarrow> (int \<times> int) list" where
  "sector_around y x =
     (let iStartX = max 0 (x - 1); iEndX = min (SECTOR_CNT_X - 1) (x + 1);
          iStartY = max 0 (y - 1); iEndY = min (SECTOR_CNT_Y - 1) (y + 1)
      in concat (map (\<lambda>sy. map (\<lambda>sx. (sx, sy)) [iStartX..iEndX]) [iStartY..iEndY]))"

definition initSectorAroundTable :: "int \<Rightarrow> int \<Rightarrow> (int \<times> int) list" where
  "initSectorAroundTable y x =
     (if 0 \<le> y \<and> y < SECTOR_CNT_Y \<and> 0 \<le> x \<and> x < SECTOR_CNT_X then sector_around y x else [])"

text \<open>The erase idiom of the vector: the last element takes the place of the erased one.\<close>

definition swap_remove :: "'a \<Rightarrow> 'a list \<Rightarrow> 'a list" where
  "swap_remove p ps =
     (if p \<in> set ps then butlast (ps[length (takeWhile (\<lambda>q. q \<noteq> p) ps) := last ps]) else ps)"

definition in_grid :: "player \<Rightarrow> bool" where
  "in_grid p \<longleftrightarrow> uint (mSectorX p) < SECTOR_CNT_X \<and> uint (mSectorY p) < SECTOR_CNT_Y"

definition erasePlayerFromSector :: "nat \<Rightarrow> (nat \<Rightarrow> player) \<Rightarrow> sectors \<Rightarrow> sectors" where
  "erasePlayerFromSector p players s =
     (let x = uint (mSectorX (players p)); y = uint (mSectorY (players p)) in
      if x \<ge> SECTOR_CNT_X \<or> y \<ge> SECTOR_CNT_Y then s
      else set_sector s y x (swap_remove p (s y x)))"

definition movePlayerSector :: "nat \<Rightarrow> u16 \<Rightarrow> u16 \<Rightarrow> (nat \<Rightarrow> player) \<times> sectors \<Rightarrow> (nat \<Rightarrow> player) \<times> sectors" where
  "movePlayerSector p newSectorX newSectorY = (\<lambda>(players, s).
     (if uint newSectorX \<ge> SECTOR_CNT_X \<or> uint newSectorY \<ge> SECTOR_CNT_Y then (players, s)
      else if mSectorX (players p) = newSectorX \<and> mSectorY (players p) = newSectorY then (players, s)
      else
        (let s1 = erasePlayerFromSector p players s;
             players1 = players(p := (players p)\<lparr>mSectorX := newSectorX, mSectorY := newSectorY\<rparr>);
             y = uint newSectorY; x = uint newSectorX
         in (players1, set_sector s1 y x (s1 y x @ [p])))))"

text \<open>The recipients \<open>broadcast\<close> collects, in order.\<close>

definition broadcast_targets :: "player \<Rightarrow> (nat \<Rightarrow> player) \<Rightarrow> sectors \<Rightarrow> u64 list" where
  "broadcast_targets player players s =
     (let sectorX = uint (mSectorX player); sectorY = uint (mSectorY player) in
      if sectorX < 0 \<or> sectorX \<ge> SECTOR_CNT_X \<or> sectorY < 0 \<or> sectorY \<ge> SECTOR_CNT_Y then []
      else concat (map (\<lambda>(tx, ty). map (\<lambda>q. mSessionID_p (players q))
                      (filter (\<lambda>q. \<not> mWillDelete (players q) \<and> mIsLoggedIn (players q)) (s ty tx)))
                    (initSectorAroundTable sectorY sectorX)))"

section \<open>Neighbourhoods\<close>

lemma sector_around_set:
  "set (sector_around y x) =
     {(sx, sy). \<bar>sx - x\<bar> \<le> 1 \<and> \<bar>sy - y\<bar> \<le> 1 \<and> 0 \<le> sx \<and> sx < SECTOR_CNT_X \<and> 0 \<le> sy \<and> sy < SECTOR_CNT_Y}"
  by (fastforce simp: sector_around_def Let_def abs_le_iff image_iff)

lemma distinct_sector_around: "distinct (sector_around y x)"
proof -
  have "distinct (concat (map (\<lambda>sy. map (\<lambda>sx. (sx, sy)) xs) ys))" if "distinct xs" "distinct ys" for xs ys :: "int list"
    using that by (induction ys) (auto simp: distinct_map inj_on_def)
  then show ?thesis by (simp add: sector_around_def Let_def)
qed

text \<open>The array \<open>Around\<close> has nine entries.\<close>

lemma sector_around_bounds:
  assumes "0 \<le> y" "y < SECTOR_CNT_Y" "0 \<le> x" "x < SECTOR_CNT_X"
  shows "4 \<le> length (sector_around y x)" "length (sector_around y x) \<le> 9" "(x, y) \<in> set (sector_around y x)"
proof -
  have c: "length (concat (map (\<lambda>sy. map (\<lambda>sx. (sx, sy)) xs) ys)) = length ys * length xs" for xs ys :: "int list"
    by (induction ys) simp_all
  let ?a = "nat (min (SECTOR_CNT_X - 1) (x + 1) - max 0 (x - 1) + 1)"
  let ?b = "nat (min (SECTOR_CNT_Y - 1) (y + 1) - max 0 (y - 1) + 1)"
  have l: "length (sector_around y x) = ?b * ?a" by (simp add: sector_around_def Let_def c)
  have ab: "2 \<le> ?a" "?a \<le> 3" "2 \<le> ?b" "?b \<le> 3" using assms by (auto simp: SECTOR_CNT_X_def SECTOR_CNT_Y_def)
  note mult_le_mono [OF ab(3) ab(1)] mult_le_mono [OF ab(4) ab(2)]
  then show "4 \<le> length (sector_around y x)" "length (sector_around y x) \<le> 9"
    unfolding l by linarith+
  show "(x, y) \<in> set (sector_around y x)" using assms by (simp add: sector_around_set)
qed

section \<open>Erasing by swapping\<close>

lemma swap_remove_mset: "mset (swap_remove p ps) = mset ps - {#p#}"
proof (cases "p \<in> set ps")
  case True
  then obtain us vs where ps: "ps = us @ p # vs" "p \<notin> set us" by (meson split_list_first)
  have "takeWhile (\<lambda>q. q \<noteq> p) us = us" using ps(2) by (auto simp: takeWhile_eq_all_conv)
  then have i: "length (takeWhile (\<lambda>q. q \<noteq> p) ps) = length us" by (simp add: ps(1) takeWhile_append)
  show ?thesis
  proof (cases vs rule: rev_cases)
    case Nil
    then show ?thesis using ps i True by (simp add: swap_remove_def butlast_append)
  next
    case (snoc ws w)
    then show ?thesis using ps i True by (simp add: swap_remove_def list_update_append butlast_append)
  qed
qed (simp add: swap_remove_def diff_single_trivial)

lemma swap_remove_set:
  assumes "distinct ps"
  shows "set (swap_remove p ps) = set ps - {p}" "distinct (swap_remove p ps)"
proof -
  have "mset (swap_remove p ps) = mset (remove1 p ps)" by (simp add: swap_remove_mset)
  then have "set (swap_remove p ps) = set (remove1 p ps)" "distinct (swap_remove p ps) = distinct (remove1 p ps)"
    using mset_eq_setD mset_eq_imp_distinct_iff by blast+
  then show "set (swap_remove p ps) = set ps - {p}" "distinct (swap_remove p ps)"
    using assms by (simp_all add: set_remove1_eq distinct_remove1)
qed

section \<open>The invariant of the grid\<close>

text \<open>
  \<open>grid_ok live players s\<close>: the sectors hold exactly the players of \<open>live\<close> whose coordinates are
  in the grid, each once and in the sector of its coordinates.
\<close>

definition grid_ok :: "nat set \<Rightarrow> (nat \<Rightarrow> player) \<Rightarrow> sectors \<Rightarrow> bool" where
  "grid_ok live players s \<longleftrightarrow>
     (\<forall>y x. distinct (s y x) \<and>
        set (s y x) = {p \<in> live. in_grid (players p) \<and> uint (mSectorX (players p)) = x \<and> uint (mSectorY (players p)) = y})"

lemma set_sector_same [simp]: "set_sector s y x ps y x = ps"
  by (simp add: set_sector_def)

lemma grid_ok_players:
  assumes "grid_ok live players s"
    and "\<And>p. p \<in> live \<Longrightarrow> mSectorX (players' p) = mSectorX (players p) \<and> mSectorY (players' p) = mSectorY (players p)"
  shows "grid_ok live players' s"
proof -
  have "{p \<in> live. in_grid (players' p) \<and> uint (mSectorX (players' p)) = x \<and> uint (mSectorY (players' p)) = y} =
      {p \<in> live. in_grid (players p) \<and> uint (mSectorX (players p)) = x \<and> uint (mSectorY (players p)) = y}" for x y
    using assms(2) by (auto simp: in_grid_def)
  then show ?thesis using assms(1) by (simp add: grid_ok_def)
qed

lemma erasePlayerFromSector_ok:
  assumes "grid_ok live players s"
  shows "grid_ok (live - {p}) players (erasePlayerFromSector p players s)"
proof (cases "in_grid (players p)")
  case False
  then have "erasePlayerFromSector p players s = s" by (auto simp: erasePlayerFromSector_def in_grid_def)
  with False assms show ?thesis by (auto simp: grid_ok_def)
next
  case True
  let ?x = "uint (mSectorX (players p))" and ?y = "uint (mSectorY (players p))"
  have e: "erasePlayerFromSector p players s = set_sector s ?y ?x (swap_remove p (s ?y ?x))"
    using True by (auto simp: erasePlayerFromSector_def in_grid_def Let_def)
  have d: "distinct (s ?y ?x)" using assms by (simp add: grid_ok_def)
  show ?thesis unfolding grid_ok_def e
    using assms swap_remove_set [OF d, of p] by (auto simp: grid_ok_def set_sector_def)
qed

lemma movePlayerSector_ok:
  assumes "grid_ok live players s" and "p \<in> live" and "movePlayerSector p nx ny (players, s) = (players', s')"
  shows "grid_ok live players' s'"
    and "uint nx < SECTOR_CNT_X \<and> uint ny < SECTOR_CNT_Y \<Longrightarrow>
      players' = players(p := (players p)\<lparr>mSectorX := nx, mSectorY := ny\<rparr>)"
    and "\<not> (uint nx < SECTOR_CNT_X \<and> uint ny < SECTOR_CNT_Y) \<Longrightarrow> players' = players"
proof -
  let ?same = "mSectorX (players p) = nx \<and> mSectorY (players p) = ny"
  let ?in = "uint nx < SECTOR_CNT_X \<and> uint ny < SECTOR_CNT_Y"
  show "players' = players(p := (players p)\<lparr>mSectorX := nx, mSectorY := ny\<rparr>)" if ?in
    using assms(3) that by (auto simp: movePlayerSector_def Let_def fun_eq_iff split: if_splits)
  show "players' = players" if "\<not> ?in" using assms(3) that by (auto simp: movePlayerSector_def split: if_splits)
  show "grid_ok live players' s'"
  proof (cases "?in \<and> \<not> ?same")
    case False
    then show ?thesis using assms(1,3) by (auto simp: movePlayerSector_def split: if_splits)
  next
    case True
    define s1 where "s1 = erasePlayerFromSector p players s"
    have s': "s' = set_sector s1 (uint ny) (uint nx) (s1 (uint ny) (uint nx) @ [p])"
      "players' = players(p := (players p)\<lparr>mSectorX := nx, mSectorY := ny\<rparr>)"
      using assms(3) True by (auto simp: movePlayerSector_def Let_def s1_def split: if_splits)
    have g: "grid_ok (live - {p}) players s1" unfolding s1_def by (rule erasePlayerFromSector_ok [OF assms(1)])
    then have g1: "distinct (s1 y x)" "set (s1 y x) = {q \<in> live - {p}. in_grid (players q) \<and> uint (mSectorX (players q)) = x \<and>
        uint (mSectorY (players q)) = y}" for y x by (auto simp: grid_ok_def)
    show ?thesis unfolding grid_ok_def
    proof (intro allI conjI)
      fix y x
      show "distinct (s' y x)" using g1 by (auto simp: s' set_sector_def)
      show "set (s' y x) = {q \<in> live. in_grid (players' q) \<and> uint (mSectorX (players' q)) = x \<and> uint (mSectorY (players' q)) = y}"
        using g1 assms(2) True by (auto simp: s' set_sector_def in_grid_def)
    qed
  qed
qed

end
