(* ===== verification/Chat_Server.thy ===== *)
theory Chat_Server
  imports Chat_Sectors Base_Server
begin

text \<open>
  ChatingServer/ChatServer.cpp and DBConnect/RedisConnecter.cpp: the player table, the handlers
  NetLib calls and the packet handlers. What the server calls outside itself is an environment:
  whether \<open>SendPacket\<close> succeeds, the packet pool, the clock, the iteration order of the hash map
  and the Redis server that evaluates the compare-and-delete script. The effects on NetLib are returned as a list of \<open>action\<close>s in order.
  \<open>None\<close> is an access outside a buffer, or the invalid-parameter handler of the C library.
\<close>

section \<open>State and environment\<close>

record 'r chat =
  players :: "nat \<Rightarrow> player"
  mPlayerMap :: "(u64 \<times> nat) list"
  mPlayerCount :: int
  mSector :: sectors
  mJobCount :: int
  mRecvCount :: int
  mCheckHeartCount :: int
  timeoutCount :: int                     \<comment> \<open>\<open>mDisconnectCount[Timeout]\<close>\<close>
  freedPlayers :: "nat list"
  redis :: 'r

datatype redis_reply = RInteger int | ROther

record 'r chat_env =
  sendResult :: "u64 \<Rightarrow> bool"
  packetAlloc :: "packet option"
  tick :: u64
  evalScript :: "'r \<Rightarrow> string \<Rightarrow> bytes \<Rightarrow> ('r \<times> redis_reply) option"   \<comment> \<open>\<open>None\<close>: an exception\<close>
  iterOrder :: "(u64 \<times> nat) list \<Rightarrow> (u64 \<times> nat) list"   \<comment> \<open>the order of \<open>std::unordered_map\<close>\<close>
  indeterminate :: u64                    \<comment> \<open>what an uninitialised local holds\<close>

datatype action =
  ASend u64 packet | ADisconnect u64 DisconnectReason | AAlloc | AFreeResponse | AFreeRequest | AError

definition upd_player :: "nat \<Rightarrow> (player \<Rightarrow> player) \<Rightarrow> 'r chat \<Rightarrow> 'r chat" where
  "upd_player p f st = st\<lparr>players := (players st)(p := f (players st p))\<rparr>"

section \<open>Redis\<close>

text \<open>\<open>std::to_string\<close> of an unsigned number.\<close>

fun to_string :: "nat \<Rightarrow> string" where
  "to_string n = (if n < 10 then [char_of (48 + n)] else to_string (n div 10) @ [char_of (48 + n mod 10)])"

declare to_string.simps [simp del]

definition CompareAndDel :: "'r chat_env \<Rightarrow> string \<Rightarrow> bytes \<Rightarrow> 'r \<Rightarrow> 'r \<times> bool" where
  "CompareAndDel env key expected r =
     (case evalScript env r key expected of
        None \<Rightarrow> (r, False)
      | Some (r', reply) \<Rightarrow> (r', case reply of RInteger n \<Rightarrow> n = 1 | ROther \<Rightarrow> False))"

section \<open>Reading a packet\<close>

text \<open>\<open>packet >> value\<close>: the value, or what the variable held before when the packet is too short.\<close>

definition read_word :: "nat \<Rightarrow> 'a::len word \<Rightarrow> packet \<Rightarrow> (packet \<times> 'a word) option" where
  "read_word n garbage packet = do {
     (p1, v) \<leftarrow> shr_bytes packet n;
     Some (p1, case v of None \<Rightarrow> garbage | Some bs \<Rightarrow> le_word bs)
   }"

text \<open>\<open>GetData\<close> into a zeroed array of \<open>n\<close> bytes.\<close>

definition read_array :: "nat \<Rightarrow> packet \<Rightarrow> (packet \<times> bytes) option" where
  "read_array n packet = do {
     (p1, v) \<leftarrow> GetData packet (int n);
     Some (p1, v @ replicate (n - length v) 0)
   }"

section \<open>Players coming and going\<close>

definition findPlayer :: "u64 \<Rightarrow> 'r chat \<Rightarrow> nat option" where
  "findPlayer sessionId st = map_of (mPlayerMap st) sessionId"

definition OnClientJoin_chat :: "'r chat_env \<Rightarrow> nat \<Rightarrow> u64 \<Rightarrow> 'r chat \<Rightarrow> 'r chat" where
  "OnClientJoin_chat env p sessionID st =
     (let st1 = upd_player p (\<lambda>pl. OnConnect (tick env) ((Player_Clear pl)\<lparr>mSessionID_p := sessionID\<rparr>))
                  (st\<lparr>mJobCount := mJobCount st + 1, freedPlayers := removeAll p (freedPlayers st)\<rparr>)
      in if map_of (mPlayerMap st1) sessionID \<noteq> None then st1\<lparr>freedPlayers := freedPlayers st1 @ [p]\<rparr>
         else st1\<lparr>mPlayerMap := mPlayerMap st1 @ [(sessionID, p)], mPlayerCount := mPlayerCount st1 + 1\<rparr>)"

definition OnClientLeave_chat :: "u64 \<Rightarrow> 'r chat \<Rightarrow> 'r chat" where
  "OnClientLeave_chat sessionID st =
     (case findPlayer sessionID st of
        None \<Rightarrow> st
      | Some p \<Rightarrow>
          (let st1 = upd_player p (\<lambda>pl. pl\<lparr>mWillDelete := True\<rparr>) st;
               st2 = st1\<lparr>mPlayerMap := filter (\<lambda>(sid, q). sid \<noteq> sessionID) (mPlayerMap st1),
                         mPlayerCount := mPlayerCount st1 - 1\<rparr>;
               st3 = st2\<lparr>mSector := erasePlayerFromSector p (players st2) (mSector st2)\<rparr>;
               st4 = upd_player p (\<lambda>pl. pl\<lparr>mIsLoggedIn := False\<rparr>) st3
           in st4\<lparr>freedPlayers := freedPlayers st4 @ [p]\<rparr>))"

definition reserveDeletePlayer :: "nat \<Rightarrow> DisconnectReason \<Rightarrow> 'r chat \<Rightarrow> 'r chat \<times> action list" where
  "reserveDeletePlayer p reason st =
     (if mWillDelete (players st p) then (st, [])
      else (upd_player p (\<lambda>pl. pl\<lparr>mWillDelete := True\<rparr>) st, [ADisconnect (mSessionID_p (players st p)) reason]))"

section \<open>The packet handlers\<close>

text \<open>The first logged-in session of the account in the iteration over the map.\<close>

definition duplicate_session :: "'r chat_env \<Rightarrow> u64 \<Rightarrow> u64 \<Rightarrow> 'r chat \<Rightarrow> u64 option" where
  "duplicate_session env accountNo self st =
     map_option fst (find (\<lambda>(sid, q). mIsLoggedIn (players st q) \<and> mAccountNo (players st q) = accountNo \<and> sid \<noteq> self)
       (iterOrder env (mPlayerMap st)))"

definition login :: "'r chat_env \<Rightarrow> nat \<Rightarrow> packet \<Rightarrow> 'r chat \<Rightarrow> ('r chat \<times> bool \<times> action list) option" where
  "login env p packet st =
     (if mIsLoggedIn (players st p) then Some (st, False, [])
      else do {
        (p1, accountNo) \<leftarrow> read_word 8 (indeterminate env) packet;
        (p2, id_bytes) \<leftarrow> read_array 40 p1;
        (p3, nick_bytes) \<leftarrow> read_array 40 p2;
        (p4, sessionKey) \<leftarrow> read_array 64 p3;
        let pid = wstr_of id_bytes;
        let nickName = wstr_of nick_bytes;
        if 0 \<notin> set pid then Some (st, False, [])
        else if 0 \<notin> set nickName then Some (st, False, [])
        else
          (case packetAlloc env of
             None \<Rightarrow> Some (st, False, [AError])
           | Some pooled \<Rightarrow>
               (let resPacket = Packet_Init pooled;
                    (r', matched) = CompareAndDel env (to_string (unat accountNo)) sessionKey (redis st);
                    st1 = st\<lparr>redis := r'\<rparr>
                in if \<not> matched then Some (st1, False, [AAlloc, AFreeResponse])
                   else do {
                     let self = mSessionID_p (players st1 p);
                     let dup = (case duplicate_session env accountNo self st1 of
                                  None \<Rightarrow> [] | Some sid \<Rightarrow> [ADisconnect sid DuplicateLogin]);
                     let st2 = upd_player p (\<lambda>pl. OnLogin (tick env) (SetSessionKey sessionKey (SetNickName nickName
                                 (SetID pid (pl\<lparr>mAccountNo := accountNo\<rparr>))))) st1;
                     res \<leftarrow> MakeChatResLogin resPacket 1 (mAccountNo (players st2 p));
                     Some (st2, sendResult env self, AAlloc # dup @ [ASend self res, AFreeResponse])
                   }))
      })"

definition sectorMove :: "'r chat_env \<Rightarrow> nat \<Rightarrow> packet \<Rightarrow> 'r chat \<Rightarrow> ('r chat \<times> bool \<times> action list) option" where
  "sectorMove env p packet st = do {
     (p1, accountNo) \<leftarrow> read_word 8 (indeterminate env) packet;
     (p2, SectorX) \<leftarrow> read_word 2 (ucast (indeterminate env)) p1;
     (p3, SectorY) \<leftarrow> read_word 2 (ucast (indeterminate env)) p2;
     if mAccountNo (players st p) \<noteq> accountNo then Some (st, False, [])
     else if uint SectorX \<ge> SECTOR_CNT_X \<or> uint SectorY \<ge> SECTOR_CNT_Y then Some (st, False, [])
     else do {
       let (players1, sector1) = movePlayerSector p SectorX SectorY (players st, mSector st);
       let st1 = st\<lparr>players := players1, mSector := sector1\<rparr>;
       (case packetAlloc env of
          None \<Rightarrow> Some (st1, False, [AError])
        | Some pooled \<Rightarrow> do {
            res \<leftarrow> MakeChatSectorMove (Packet_Init pooled) (mAccountNo (players st1 p)) SectorX SectorY;
            let self = mSessionID_p (players st1 p);
            Some (st1, sendResult env self, [AAlloc, ASend self res, AFreeResponse])
          })
     }
   }"

definition sendChatMessage :: "'r chat_env \<Rightarrow> nat \<Rightarrow> packet \<Rightarrow> 'r chat \<Rightarrow> ('r chat \<times> bool \<times> action list) option" where
  "sendChatMessage env p packet st =
     (if \<not> mIsLoggedIn (players st p) then Some (st, False, [])
      else do {
        (p1, accountNo) \<leftarrow> read_word 8 (indeterminate env) packet;
        (p2, messageLen) \<leftarrow> read_word 2 (ucast (indeterminate env) :: u16) p1;
        if mAccountNo (players st p) \<noteq> accountNo then Some (st, False, [])
        else if uint messageLen > 1024 \<or> uint messageLen \<le> 0 then Some (st, False, [])
        else if uint messageLen mod 2 \<noteq> 0 then Some (st, False, [])
        else if mDataSize packet - 5 - 2 - 8 - 2 \<noteq> uint messageLen then Some (st, False, [])
        else do {
          (p3, chunk) \<leftarrow> GetData p2 (uint messageLen);
          message \<leftarrow> memcpy (replicate 1024 0) 0 chunk;
          let sx = uint (mSectorX (players st p));
          let sy = uint (mSectorY (players st p));
          if sx \<ge> SECTOR_CNT_X \<or> sy \<ge> SECTOR_CNT_Y then Some (st, False, [])
          else
            (case packetAlloc env of
               None \<Rightarrow> Some (st, False, [AError])
             | Some pooled \<Rightarrow> do {
                 res \<leftarrow> MakeChatResMessage (Packet_Init pooled) (mAccountNo (players st p)) (mID (players st p))
                          (mNickName (players st p)) messageLen message;
                 let targets = broadcast_targets (players st p) (players st) (mSector st);
                 Some (st, True, AAlloc # map (\<lambda>sid. ASend sid res) targets @ [AFreeResponse])
               })
        }
      })"

definition heartBeat :: "'r chat_env \<Rightarrow> nat \<Rightarrow> packet \<Rightarrow> 'r chat \<Rightarrow> ('r chat \<times> bool \<times> action list) option" where
  "heartBeat env p packet st = Some (upd_player p (UpdateHeartbeat (tick env)) st, True, [])"

definition packetProc :: "'r chat_env \<Rightarrow> nat \<Rightarrow> packet \<Rightarrow> 'r chat \<Rightarrow> ('r chat \<times> bool \<times> action list) option" where
  "packetProc env p packet st = do {
     (p1, headerType) \<leftarrow> read_word 2 (ucast (indeterminate env) :: u16) packet;
     if \<not> mIsLoggedIn (players st p) \<and> headerType \<noteq> en_PACKET_CS_CHAT_REQ_LOGIN then
       (let (st1, acts) = reserveDeletePlayer p InvalidPacket st in Some (st1, False, acts))
     else do {
       let payloadSize = mDataSize p1 - 5 - 2;
       if headerType = en_PACKET_CS_CHAT_REQ_LOGIN then
         (if payloadSize \<noteq> 152 then Some (st, False, []) else login env p p1 st)
       else if headerType = en_PACKET_CS_CHAT_REQ_SECTOR_MOVE then
         (if payloadSize \<noteq> 12 then Some (st, False, []) else sectorMove env p p1 st)
       else if headerType = en_PACKET_CS_CHAT_REQ_MESSAGE then
         (if payloadSize < 10 then Some (st, False, []) else sendChatMessage env p p1 st)
       else if headerType = en_PACKET_CS_CHAT_REQ_HEARTBEAT then
         (if payloadSize \<noteq> 0 then Some (st, False, []) else heartBeat env p p1 st)
       else Some (st, False, [])
     }
   }"

definition OnRecv_chat :: "'r chat_env \<Rightarrow> u64 \<Rightarrow> packet \<Rightarrow> 'r chat \<Rightarrow> ('r chat \<times> action list) option" where
  "OnRecv_chat env sessionID packet st =
     (let st0 = st\<lparr>mRecvCount := mRecvCount st + 1, mJobCount := mJobCount st + 1\<rparr> in
      case findPlayer sessionID st0 of
        Some p \<Rightarrow> do {
          (st1, ok, acts) \<leftarrow> packetProc env p packet st0;
          let (st2, acts2) = (if ok then (st1, []) else reserveDeletePlayer p InvalidPacket st1);
          Some (st2, acts @ acts2 @ [AFreeRequest])
        }
      | None \<Rightarrow> do {
          (p1, headerType) \<leftarrow> read_word 2 (ucast (indeterminate env) :: u16) packet;
          Some (st0, [ADisconnect sessionID InvalidPacket, AFreeRequest])
        })"

text \<open>The timeout check reports, it disconnects nobody.\<close>

definition CheckTimeOut :: "'r chat_env \<Rightarrow> 'r chat \<Rightarrow> 'r chat" where
  "CheckTimeOut env st =
     fold (\<lambda>(sid, p) s.
         if mWillDelete (players s p) then s
         else (case CheckTimeOutSnapshot (tick env) (players s p) of (pl, snap) \<Rightarrow>
           s\<lparr>players := (players s)(p := pl),
             timeoutCount := timeoutCount s + (if expired snap \<and> firstReport snap then 1 else 0)\<rparr>))
       (iterOrder env (mPlayerMap st)) (st\<lparr>mCheckHeartCount := mCheckHeartCount st + 1\<rparr>)"

end
