(* ===== verification/Chat_Safety.thy ===== *)
theory Chat_Safety
  imports Chat_Server
begin

text \<open>
  The invariant of the chat server's state, the memory safety of its packet handlers and the
  runs of the server: every sequence of joins, leaves, packets and timeout checks.
\<close>

section \<open>Reading never leaves the packet\<close>

lemma read_word_total:
  assumes "packet_ok p" and "n < 2 ^ 31"
  obtains p1 v where "read_word n g p = Some (p1, v)" "packet_ok p1" "mDataSize p1 = mDataSize p" "mStorage p1 = mStorage p"
proof (cases "n \<le> length (unread p)")
  case True
  then have "read_word n g p = Some (advance p n, le_word (take n (unread p)))"
    by (simp add: read_word_def shr_bytes_read [OF assms(1)])
  moreover have "packet_ok (advance p n)" "mDataSize (advance p n) = mDataSize p" "mStorage (advance p n) = mStorage p"
    using advance_simps [OF assms(1) True] by (simp_all add: advance_def)
  ultimately show ?thesis by (rule that)
next
  case False
  then have "read_word n g p = Some (p, g)"
    by (simp add: read_word_def shr_bytes_underflow [OF assms(1) _ assms(2)])
  then show ?thesis using that assms(1) by blast
qed

lemma GetData_total:
  assumes "packet_ok p"
  obtains p1 v where "GetData p (int n) = Some (p1, v)" "packet_ok p1" "mDataSize p1 = mDataSize p" "mStorage p1 = mStorage p"
    "length v \<le> n"
proof (cases "n \<le> length (unread p)")
  case True
  have "packet_ok (advance p n)" "mDataSize (advance p n) = mDataSize p" "mStorage (advance p n) = mStorage p"
    using advance_simps [OF assms True] by (simp_all add: advance_def)
  with GetData_read [OF assms True] show ?thesis by (rule that) simp
next
  case False
  let ?n = "length (unread p)"
  have "packet_ok (advance p ?n)" "mDataSize (advance p ?n) = mDataSize p" "mStorage (advance p ?n) = mStorage p"
    using advance_simps [OF assms, of ?n] by (simp_all add: advance_def)
  moreover have "GetData p (int n) = Some (advance p ?n, unread p)" using False by (intro GetData_short [OF assms]) simp
  ultimately show ?thesis using that [of "advance p ?n" "unread p"] False by simp
qed

lemma read_array_total:
  assumes "packet_ok p"
  obtains p1 v where "read_array n p = Some (p1, v)" "packet_ok p1" "mDataSize p1 = mDataSize p" "mStorage p1 = mStorage p"
    "length v = n"
proof -
  obtain p1 v where "GetData p (int n) = Some (p1, v)" "packet_ok p1" "mDataSize p1 = mDataSize p" "mStorage p1 = mStorage p"
    "length v \<le> n" by (rule GetData_total [OF assms])
  then show ?thesis by (intro that [of p1 "v @ replicate (n - length v) 0"]) (simp_all add: read_array_def)
qed

section \<open>The invariant\<close>

definition arrays_ok :: "player \<Rightarrow> bool" where
  "arrays_ok p \<longleftrightarrow> length (mID p) = 20 \<and> length (mNickName p) = 20 \<and> length (mSessionKey p) = 64"

definition names_ok :: "player \<Rightarrow> bool" where
  "names_ok p \<longleftrightarrow> length (wcs (mID p)) < 20 \<and> length (wcs (mNickName p)) < 20"

abbreviation live :: "'r chat \<Rightarrow> nat set" where
  "live st \<equiv> snd ` set (mPlayerMap st)"

definition chat_ok :: "'r chat \<Rightarrow> bool" where
  "chat_ok st \<longleftrightarrow>
     distinct (map fst (mPlayerMap st)) \<and> distinct (map snd (mPlayerMap st)) \<and>
     mPlayerCount st = int (length (mPlayerMap st)) \<and>
     (\<forall>(sid, p) \<in> set (mPlayerMap st). mSessionID_p (players st p) = sid) \<and>
     (\<forall>p. arrays_ok (players st p)) \<and>
     (\<forall>p \<in> live st. mIsLoggedIn (players st p) \<longrightarrow> names_ok (players st p)) \<and>
     grid_ok (live st) (players st) (mSector st) \<and>
     live st \<inter> set (freedPlayers st) = {}"

text \<open>What the environment guarantees: pool packets have the array of the class, the map's iteration visits each entry once.\<close>

definition env_ok :: "'r chat_env \<Rightarrow> bool" where
  "env_ok env \<longleftrightarrow> (\<forall>p. packetAlloc env = Some p \<longrightarrow> capacity p = 2048) \<and> (\<forall>m. mset (iterOrder env m) = mset m)"

lemma chat_okD:
  assumes "chat_ok st"
  shows "distinct (map fst (mPlayerMap st))" "distinct (map snd (mPlayerMap st))"
    "grid_ok (live st) (players st) (mSector st)" "arrays_ok (players st q)"
    "(sid, p) \<in> set (mPlayerMap st) \<Longrightarrow> mSessionID_p (players st p) = sid"
    "p \<in> live st \<Longrightarrow> mIsLoggedIn (players st p) \<Longrightarrow> names_ok (players st p)"
    "mPlayerCount st = int (length (mPlayerMap st))" "live st \<inter> set (freedPlayers st) = {}"
  using assms by (auto simp: chat_ok_def)

lemma chat_okI:
  assumes "distinct (map fst (mPlayerMap st))" and "distinct (map snd (mPlayerMap st))"
    and "mPlayerCount st = int (length (mPlayerMap st))"
    and "\<And>sid p. (sid, p) \<in> set (mPlayerMap st) \<Longrightarrow> mSessionID_p (players st p) = sid"
    and "\<And>p. arrays_ok (players st p)"
    and "\<And>p. p \<in> live st \<Longrightarrow> mIsLoggedIn (players st p) \<Longrightarrow> names_ok (players st p)"
    and "grid_ok (live st) (players st) (mSector st)"
    and "live st \<inter> set (freedPlayers st) = {}"
  shows "chat_ok st"
  using assms by (auto simp: chat_ok_def)

text \<open>Counters and the state of Redis do not matter to the invariant.\<close>

lemma chat_ok_frame [simp]:
  "chat_ok (st\<lparr>mJobCount := n\<rparr>) = chat_ok st" "chat_ok (st\<lparr>mRecvCount := n\<rparr>) = chat_ok st"
  "chat_ok (st\<lparr>mCheckHeartCount := n\<rparr>) = chat_ok st" "chat_ok (st\<lparr>timeoutCount := n\<rparr>) = chat_ok st"
  "chat_ok (st\<lparr>redis := r\<rparr>) = chat_ok st"
  by (simp_all add: chat_ok_def)

text \<open>A handler changes one player, and neither his session nor his place: the invariant stays.\<close>

lemma chat_ok_upd:
  assumes "chat_ok st"
    and "mSessionID_p pl = mSessionID_p (players st p)" "mSectorX pl = mSectorX (players st p)" "mSectorY pl = mSectorY (players st p)"
    and "arrays_ok pl" and "p \<in> live st \<Longrightarrow> mIsLoggedIn pl \<Longrightarrow> names_ok pl"
  shows "chat_ok (st\<lparr>players := (players st)(p := pl)\<rparr>)"
proof -
  note d = chat_okD [OF assms(1)]
  have g: "grid_ok (live st) ((players st)(p := pl)) (mSector st)"
    by (rule grid_ok_players [OF d(3)]) (use assms(3,4) in auto)
  show ?thesis
  proof (rule chat_okI, goal_cases)
    case (4 sid q) then show ?case using d(5) assms(2) by auto
  next
    case (6 q) then show ?case using d(6) [of q] assms(6) by (auto split: if_splits)
  qed (use d g assms(5) in \<open>simp_all\<close>)
qed

lemma findPlayer_live:
  "findPlayer sid st = Some p \<Longrightarrow> (sid, p) \<in> set (mPlayerMap st) \<and> p \<in> live st"
  by (force simp: findPlayer_def dest: map_of_SomeD)

section \<open>Every handler keeps the invariant and touches no memory outside its buffers\<close>

lemma join_ok:
  assumes "chat_ok st" and "p \<notin> live st"
  shows "chat_ok (OnClientJoin_chat env p sid st)"
proof -
  let ?pl = "OnConnect (tick env) ((Player_Clear (players st p))\<lparr>mSessionID_p := sid\<rparr>)"
  have out: "\<not> in_grid ?pl" "\<not> mIsLoggedIn ?pl" "mSessionID_p ?pl = sid" "arrays_ok ?pl"
    using assms(1) by (auto simp: in_grid_def OnConnect_def Player_Clear_def SECTOR_CNT_X_def arrays_ok_def chat_ok_def
        unsigned_minus_1_eq_mask mask_eq_exp_minus_1)
  have g: "grid_ok (live st) (players st) (mSector st)" by (rule chat_okD [OF assms(1)])
  have g1: "grid_ok (live st) ((players st)(p := ?pl)) (mSector st)"
    by (rule grid_ok_players [OF g]) (use assms(2) in auto)
  then have g2: "grid_ok (insert p (live st)) ((players st)(p := ?pl)) (mSector st)"
    using out(1) by (auto simp: grid_ok_def)
  have ne: "p \<noteq> q" if "(s, q) \<in> set (mPlayerMap st)" for s q using assms(2) that by force
  note d = chat_okD [OF assms(1)]
  let ?st = "st\<lparr>players := (players st)(p := ?pl), mJobCount := mJobCount st + 1, freedPlayers := removeAll p (freedPlayers st)\<rparr>"
  have names: "names_ok (((players st)(p := ?pl)) q)" if "q \<in> insert p (live st)" "mIsLoggedIn (((players st)(p := ?pl)) q)" for q
    using that d(6) [of q] out(2) by (auto split: if_splits)
  have sid: "mSessionID_p (((players st)(p := ?pl)) q) = s" if "(s, q) \<in> insert (sid, p) (set (mPlayerMap st))" for s q
    using that d(5) [of s q] out(3) ne [of s q] by (auto split: if_splits)
  show ?thesis
  proof (cases "map_of (mPlayerMap st) sid")
    case None
    then have new: "sid \<notin> fst ` set (mPlayerMap st)" by (simp add: map_of_eq_None_iff)
    have e: "OnClientJoin_chat env p sid st =
      ?st\<lparr>mPlayerMap := mPlayerMap st @ [(sid, p)], mPlayerCount := mPlayerCount st + 1\<rparr>"
      using None by (simp add: OnClientJoin_chat_def upd_player_def Let_def)
    show ?thesis unfolding e
    proof (rule chat_okI, goal_cases)
      case (4 s q) then show ?case using sid [of s q] by auto
    next
      case (6 q) then show ?case using names [of q] by auto
    qed (use d new g2 assms(2) out(4) in auto)
  next
    case (Some q)
    have e: "OnClientJoin_chat env p sid st = ?st\<lparr>freedPlayers := removeAll p (freedPlayers st) @ [p]\<rparr>"
      using Some by (simp add: OnClientJoin_chat_def upd_player_def Let_def)
    show ?thesis unfolding e
    proof (rule chat_okI, goal_cases)
      case (4 s q') then show ?case using sid [of s q'] by auto
    next
      case (6 q') then show ?case using names [of q'] by auto
    qed (use d g1 assms(2) out(4) in auto)
  qed
qed

lemma leave_ok:
  assumes "chat_ok st"
  shows "chat_ok (OnClientLeave_chat sid st)"
proof (cases "findPlayer sid st")
  case None
  then show ?thesis using assms by (simp add: OnClientLeave_chat_def)
next
  case (Some p)
  let ?m = "filter (\<lambda>(s, q). s \<noteq> sid) (mPlayerMap st)"
  note d = chat_okD [OF assms]
  have mem: "(sid, p) \<in> set (mPlayerMap st)" using findPlayer_live [OF Some] by simp
  have fst_uniq: "q = p" if "(sid, q) \<in> set (mPlayerMap st)" for q
    using d(1) mem that by (meson eq_key_imp_eq_value)
  have snd_uniq: "s = sid" if "(s, p) \<in> set (mPlayerMap st)" for s
    using d(5) [OF mem] d(5) [OF that] by simp
  have lv: "snd ` set ?m = live st - {p}"
  proof (rule set_eqI, rule iffI)
    fix q assume "q \<in> snd ` set ?m"
    then obtain s where s: "(s, q) \<in> set (mPlayerMap st)" "s \<noteq> sid" by auto
    with snd_uniq [of s] have "q \<noteq> p" by blast
    with s(1) show "q \<in> live st - {p}" by force
  next
    fix q assume "q \<in> live st - {p}"
    then obtain s where s: "(s, q) \<in> set (mPlayerMap st)" "q \<noteq> p" by auto
    with fst_uniq [of q] have "s \<noteq> sid" by blast
    with s(1) show "q \<in> snd ` set ?m" by force
  qed
  have len: "int (length ?m) = int (length (mPlayerMap st)) - 1"
  proof -
    have "length (filter (\<lambda>(s, q). s = sid) ms) = (if sid \<in> fst ` set ms then 1 else 0)"
      if "distinct (map fst ms)" for ms :: "(u64 \<times> nat) list" using that by (induction ms) (auto simp: filter_empty_conv)
    from this [OF d(1)] mem have "length (filter (\<lambda>(s, q). s = sid) (mPlayerMap st)) = 1" by force
    moreover have "length ?m + length (filter (\<lambda>(s, q). s = sid) (mPlayerMap st)) = length (mPlayerMap st)"
      using sum_length_filter_compl [of "\<lambda>(s, q). s \<noteq> sid" "mPlayerMap st"] by (simp add: case_prod_unfold)
    ultimately show ?thesis by simp
  qed
  let ?pl = "(players st p)\<lparr>mWillDelete := True\<rparr>" and ?pl2 = "(players st p)\<lparr>mWillDelete := True, mIsLoggedIn := False\<rparr>"
  have g1: "grid_ok (live st) ((players st)(p := ?pl)) (mSector st)" by (rule grid_ok_players [OF d(3)]) simp
  have g2: "grid_ok (live st - {p}) ((players st)(p := ?pl)) (erasePlayerFromSector p ((players st)(p := ?pl)) (mSector st))"
    by (rule erasePlayerFromSector_ok [OF g1])
  have g3: "grid_ok (live st - {p}) ((players st)(p := ?pl2)) (erasePlayerFromSector p ((players st)(p := ?pl)) (mSector st))"
    by (rule grid_ok_players [OF g2]) simp
  have dm: "distinct (map fst ?m)" "distinct (map snd ?m)"
    using d(1,2) by (simp_all add: distinct_map_filter)
  have e: "OnClientLeave_chat sid st = st\<lparr>players := (players st)(p := ?pl2), mPlayerMap := ?m, mPlayerCount := mPlayerCount st - 1,
     mSector := erasePlayerFromSector p ((players st)(p := ?pl)) (mSector st), freedPlayers := freedPlayers st @ [p]\<rparr>"
    by (simp add: OnClientLeave_chat_def Some upd_player_def Let_def)
  have a: "arrays_ok ?pl2" using d(4) [of p] by (simp add: arrays_ok_def)
  show ?thesis unfolding e
  proof (rule chat_okI, goal_cases)
    case (4 s q) then show ?case using d(5) [of s q] by auto
  next
    case (6 q) then show ?case using d(6) [of q] lv by (auto split: if_splits)
  qed (use d dm len g3 a lv in auto)
qed

lemma reserve_ok:
  assumes "chat_ok st"
  shows "chat_ok (fst (reserveDeletePlayer p reason st))"
    and "mPlayerMap (fst (reserveDeletePlayer p reason st)) = mPlayerMap st"
proof -
  note d = chat_okD [OF assms]
  have "chat_ok (st\<lparr>players := (players st)(p := (players st p)\<lparr>mWillDelete := True\<rparr>)\<rparr>)"
    by (rule chat_ok_upd [OF assms]) (use d(4) [of p] d(6) [of p] in \<open>simp_all add: arrays_ok_def names_ok_def\<close>)
  then show "chat_ok (fst (reserveDeletePlayer p reason st))" using assms by (simp add: reserveDeletePlayer_def upd_player_def)
qed (simp add: reserveDeletePlayer_def upd_player_def)

lemma timeout_ok:
  assumes "chat_ok st"
  shows "chat_ok (CheckTimeOut env st)"
proof -
  let ?f = "\<lambda>(sid, p) s.
     if mWillDelete (players s p) then s
     else (case CheckTimeOutSnapshot (tick env) (players s p) of (pl, snap) \<Rightarrow>
       s\<lparr>players := (players s)(p := pl), timeoutCount := timeoutCount s + (if expired snap \<and> firstReport snap then 1 else 0)\<rparr>)"
  have one: "chat_ok (?f x s)" if "chat_ok s" for x and s :: "'a chat"
  proof -
    note d = chat_okD [OF that]
    have "chat_ok (s\<lparr>players := (players s)(p := (players s p)\<lparr>mTimeoutLogged := b\<rparr>)\<rparr>)" for p b
      by (rule chat_ok_upd [OF that]) (use d(4) [of p] d(6) [of p] in \<open>simp_all add: arrays_ok_def names_ok_def\<close>)
    then show ?thesis using that by (simp add: CheckTimeOutSnapshot_def Let_def case_prod_unfold)
  qed
  have "chat_ok (fold ?f xs s)" if "chat_ok s" for xs and s :: "'a chat"
    using that by (induction xs arbitrary: s) (simp_all only: fold.simps o_apply id_apply one)
  moreover have "chat_ok (st\<lparr>mCheckHeartCount := mCheckHeartCount st + 1\<rparr>)" using assms by simp
  ultimately show ?thesis unfolding CheckTimeOut_def by blast
qed

definition handled :: "'r chat \<Rightarrow> ('r chat \<times> bool \<times> action list) option \<Rightarrow> bool" where
  "handled st r \<longleftrightarrow> (\<exists>st' ok acts. r = Some (st', ok, acts) \<and> chat_ok st' \<and> mPlayerMap st' = mPlayerMap st)"

lemma handled_Some [simp]: "handled st (Some (st', ok, acts)) \<longleftrightarrow> chat_ok st' \<and> mPlayerMap st' = mPlayerMap st"
  by (simp add: handled_def)

lemma handled_same: "chat_ok st \<Longrightarrow> handled st (Some (st, ok, acts))"
  by simp

lemma takeWhile_short: "c \<in> set ws \<Longrightarrow> length (takeWhile (\<lambda>x. x \<noteq> c) ws) < length ws"
proof (induction ws)
  case (Cons w ws) then show ?case by auto
qed simp

lemma logged_in_ok:
  assumes "arrays_ok pl" and "length pid = 20" "0 \<in> set pid" and "length nick = 20" "0 \<in> set nick"
  shows "arrays_ok (OnLogin now (SetSessionKey key (SetNickName nick (SetID pid (pl\<lparr>mAccountNo := acc\<rparr>)))))"
    and "names_ok (OnLogin now (SetSessionKey key (SetNickName nick (SetID pid (pl\<lparr>mAccountNo := acc\<rparr>)))))"
proof -
  note a = assms(1) [unfolded arrays_ok_def]
  then have ne: "mID pl \<noteq> []" "mNickName pl \<noteq> []" "mSessionKey pl \<noteq> []" by auto
  then show "arrays_ok (OnLogin now (SetSessionKey key (SetNickName nick (SetID pid (pl\<lparr>mAccountNo := acc\<rparr>)))))"
    using a by (simp add: arrays_ok_def OnLogin_def SetSessionKey_def SetNickName_def SetID_def length_copy_truncate)
  have w: "wcs (copy_truncate dest src) = wcs src" "length (wcs src) < 20"
    if "length dest = 20" "length src = 20" "0 \<in> set src" for dest src :: wstr
  proof -
    show l: "length (wcs src) < 20" using takeWhile_short [OF that(3)] that(2) by (simp add: wcs_def)
    have "dest \<noteq> []" using that(1) by auto
    then show "wcs (copy_truncate dest src) = wcs src"
      unfolding wcs_def by (rule copy_truncate_string) (use l that(1) in \<open>simp add: wcs_def\<close>)
  qed
  show "names_ok (OnLogin now (SetSessionKey key (SetNickName nick (SetID pid (pl\<lparr>mAccountNo := acc\<rparr>)))))"
    using w [of "mID pl" pid] w [of "mNickName pl" nick] a assms(2-5)
    by (simp add: names_ok_def OnLogin_def SetSessionKey_def SetNickName_def SetID_def)
qed

lemma login_handled:
  assumes "chat_ok st" and "env_ok env" and "packet_ok packet"
  shows "handled st (login env p packet st)"
proof (cases "mIsLoggedIn (players st p)")
  case True
  then show ?thesis using assms(1) by (simp add: login_def)
next
  case False
  obtain p1 acc where r1: "read_word 8 (indeterminate env) packet = Some (p1, acc)" "packet_ok p1"
    by (rule read_word_total [OF assms(3), of 8 "indeterminate env"]) auto
  obtain p2 idb where r2: "read_array 40 p1 = Some (p2, idb)" "packet_ok p2" "length idb = 40"
    by (rule read_array_total [OF r1(2), of 40]) auto
  obtain p3 nickb where r3: "read_array 40 p2 = Some (p3, nickb)" "packet_ok p3" "length nickb = 40"
    by (rule read_array_total [OF r2(2), of 40]) auto
  obtain p4 key where r4: "read_array 64 p3 = Some (p4, key)" by (rule read_array_total [OF r3(2), of 64]) auto
  show ?thesis
  proof (cases "0 \<notin> set (wstr_of idb) \<or> 0 \<notin> set (wstr_of nickb) \<or> packetAlloc env = None \<or>
      \<not> snd (CompareAndDel env (to_string (unat acc)) key (redis st))")
    case True
    then show ?thesis using assms(1) False r1 r2 r3 r4
      by (auto simp: login_def Let_def split: option.splits prod.splits)
  next
    case ok: False
    then obtain pooled r' where pooled: "packetAlloc env = Some pooled"
      "CompareAndDel env (to_string (unat acc)) key (redis st) = (r', True)"
      by (metis (full_types) option.exhaust surjective_pairing)
    have "fresh (Packet_Init pooled)" using pooled(1) assms(2) by (auto simp: env_ok_def intro: fresh_Packet_Init)
    then obtain res where res: "MakeChatResLogin (Packet_Init pooled) 1 acc = Some res" by (rule MakeChatResLogin_wrote)
    let ?pl = "OnLogin (tick env) (SetSessionKey key (SetNickName (wstr_of nickb)
      (SetID (wstr_of idb) ((players st p)\<lparr>mAccountNo := acc\<rparr>))))"
    have l: "length (wstr_of idb) = 20" "length (wstr_of nickb) = 20" using r2(3) r3(3) by (simp_all add: length_wstr_of)
    have pl: "arrays_ok ?pl" "names_ok ?pl" by (rule logged_in_ok; use l ok chat_okD(4) [OF assms(1)] in blast)+
    have "chat_ok (st\<lparr>players := (players st)(p := ?pl)\<rparr>)"
      by (rule chat_ok_upd [OF assms(1)]) (use pl in \<open>simp_all add: OnLogin_def SetSessionKey_def SetNickName_def SetID_def\<close>)
    then have "chat_ok (st\<lparr>redis := r', players := (players st)(p := ?pl)\<rparr>)"
      by (simp add: chat_ok_def)
    moreover have "mAccountNo ?pl = acc" by (simp add: OnLogin_def SetSessionKey_def SetNickName_def SetID_def)
    ultimately show ?thesis using ok False r1 r2 r3 r4 pooled res
      by (simp add: login_def Let_def upd_player_def)
  qed
qed

lemma heartBeat_handled:
  assumes "chat_ok st"
  shows "handled st (heartBeat env p packet st)"
proof -
  note d = chat_okD [OF assms]
  have "chat_ok (st\<lparr>players := (players st)(p := UpdateHeartbeat (tick env) (players st p))\<rparr>)"
    by (rule chat_ok_upd [OF assms]) (use d(4) [of p] d(6) [of p] in \<open>simp_all add: UpdateHeartbeat_def arrays_ok_def names_ok_def\<close>)
  then show ?thesis by (simp add: heartBeat_def upd_player_def)
qed

lemma movePlayerSector_chat_ok:
  assumes "chat_ok st" and "p \<in> live st" and "movePlayerSector p x y (players st, mSector st) = (ps, ss)"
  shows "chat_ok (st\<lparr>players := ps, mSector := ss\<rparr>)"
proof -
  note d = chat_okD [OF assms(1)]
  note m = movePlayerSector_ok [OF d(3) assms(2,3)]
  have ps: "ps = (players st)(p := (players st p)\<lparr>mSectorX := x, mSectorY := y\<rparr>) \<or> ps = players st"
    using m(2,3) by blast
  show ?thesis
  proof (rule chat_okI, goal_cases)
    case (4 s q) then show ?case using ps d(5) [of s q] by auto
  next
    case (5 q) then show ?case using ps d(4) [of q] by (auto simp: arrays_ok_def)
  next
    case (6 q) then show ?case using ps d(6) [of q] by (auto simp: names_ok_def split: if_splits)
  qed (use d m(1) in simp_all)
qed

lemma sectorMove_handled:
  assumes "chat_ok st" and "env_ok env" and "packet_ok packet" and "p \<in> live st"
  shows "handled st (sectorMove env p packet st)"
proof -
  obtain p1 acc where r1: "read_word 8 (indeterminate env) packet = Some (p1, acc)" "packet_ok p1"
    by (rule read_word_total [OF assms(3), of 8 "indeterminate env"]) auto
  obtain p2 x where r2: "read_word 2 (ucast (indeterminate env) :: u16) p1 = Some (p2, x)" "packet_ok p2"
    by (rule read_word_total [OF r1(2), of 2 "ucast (indeterminate env) :: u16"]) auto
  obtain p3 y where r3: "read_word 2 (ucast (indeterminate env) :: u16) p2 = Some (p3, y)"
    by (rule read_word_total [OF r2(2), of 2 "ucast (indeterminate env) :: u16"]) auto
  obtain ps ss where m: "movePlayerSector p x y (players st, mSector st) = (ps, ss)" by (rule prod.exhaust)
  note ok = movePlayerSector_chat_ok [OF assms(1,4) m]
  show ?thesis
  proof (cases "packetAlloc env")
    case None
    then show ?thesis using assms(1) r1 r2 r3 m ok by (simp add: sectorMove_def)
  next
    case (Some pooled)
    have "fresh (Packet_Init pooled)" using Some assms(2) by (auto simp: env_ok_def intro: fresh_Packet_Init)
    then obtain res where "MakeChatSectorMove (Packet_Init pooled) (mAccountNo (ps p)) x y = Some res"
      by (rule MakeChatSectorMove_wrote)
    then show ?thesis using assms(1) r1 r2 r3 m ok Some by (simp add: sectorMove_def Let_def)
  qed
qed

lemma sendChatMessage_handled:
  assumes "chat_ok st" and "env_ok env" and "packet_ok packet" and "p \<in> live st"
  shows "handled st (sendChatMessage env p packet st)"
proof (cases "mIsLoggedIn (players st p)")
  case False
  then show ?thesis using assms(1) by (simp add: sendChatMessage_def)
next
  case True
  obtain p1 acc where r1: "read_word 8 (indeterminate env) packet = Some (p1, acc)" "packet_ok p1"
    by (rule read_word_total [OF assms(3), of 8 "indeterminate env"]) auto
  obtain p2 len where r2: "read_word 2 (ucast (indeterminate env) :: u16) p1 = Some (p2, len)" "packet_ok p2"
    by (rule read_word_total [OF r1(2), of 2 "ucast (indeterminate env) :: u16"]) auto
  show ?thesis
  proof (cases "uint len > 1024")
    case True
    then show ?thesis using assms(1) \<open>mIsLoggedIn (players st p)\<close> r1 r2 by (simp add: sendChatMessage_def)
  next
    case len: False
    obtain p3 chunk where r3: "GetData p2 (int (unat len)) = Some (p3, chunk)" "length chunk \<le> unat len"
      by (rule GetData_total [OF r2(2), of "unat len"]) auto
    have chunk: "length chunk \<le> 1024" using r3(2) len by (simp flip: nat_uint_eq add: nat_le_iff)
    have g: "GetData p2 (uint len) = Some (p3, chunk)" using r3(1) by (simp only: uint_nat)
    have m: "memcpy (replicate 1024 0) 0 chunk = Some (overwrite (replicate 1024 0) 0 chunk)"
      using chunk by (intro memcpy_Some [where off = 0, simplified]) simp
    have names: "length (wcs (mID (players st p))) < 20" "length (wcs (mNickName (players st p))) < 20"
      using chat_okD(6) [OF assms(1,4) True] by (simp_all add: names_ok_def)
    show ?thesis
    proof (cases "packetAlloc env")
      case None
      then show ?thesis using assms(1) True r1 r2 g m by (simp add: sendChatMessage_def Let_def)
    next
      case (Some pooled)
      have "fresh (Packet_Init pooled)" using Some assms(2) by (auto simp: env_ok_def intro: fresh_Packet_Init)
      then obtain res where "MakeChatResMessage (Packet_Init pooled) acc (mID (players st p))
          (mNickName (players st p)) len (overwrite (replicate 1024 0) 0 chunk) = Some res"
        by (rule MakeChatResMessage_wrote [OF _ names, where len = len and msg = "overwrite (replicate 1024 0) 0 chunk"])
          (use len chunk in simp_all)
      then show ?thesis using assms(1) True r1 r2 g m Some by (simp add: sendChatMessage_def Let_def)
    qed
  qed
qed

lemma packetProc_handled:
  assumes "chat_ok st" and "env_ok env" and "packet_ok packet" and "p \<in> live st"
  shows "handled st (packetProc env p packet st)"
proof -
  obtain p1 t where r1: "read_word 2 (ucast (indeterminate env) :: u16) packet = Some (p1, t)" "packet_ok p1"
    by (rule read_word_total [OF assms(3), of 2 "ucast (indeterminate env) :: u16"]) auto
  note h = handled_same [OF assms(1)] login_handled [OF assms(1,2) r1(2)] sectorMove_handled [OF assms(1,2) r1(2) assms(4)]
    sendChatMessage_handled [OF assms(1,2) r1(2) assms(4)] heartBeat_handled [OF assms(1)]
  have "handled st (let (st1, acts) = reserveDeletePlayer p InvalidPacket st in Some (st1, False, acts))"
    using reserve_ok [OF assms(1), of p InvalidPacket] by (simp add: case_prod_unfold Let_def)
  then show ?thesis using h r1(1) by (simp add: packetProc_def Let_def)
qed

lemma OnRecv_handled:
  assumes "chat_ok st" and "env_ok env" and "packet_ok packet"
  obtains st' acts where "OnRecv_chat env sid packet st = Some (st', acts)" "chat_ok st'" "mPlayerMap st' = mPlayerMap st"
proof -
  let ?st = "st\<lparr>mRecvCount := mRecvCount st + 1, mJobCount := mJobCount st + 1\<rparr>"
  have ok: "chat_ok ?st" using assms(1) by simp
  show ?thesis
  proof (cases "findPlayer sid ?st")
    case None
    obtain p1 t where "read_word 2 (ucast (indeterminate env) :: u16) packet = Some (p1, t)"
      by (rule read_word_total [OF assms(3), of 2 "ucast (indeterminate env) :: u16"]) auto
    with None ok that [of ?st "[ADisconnect sid InvalidPacket, AFreeRequest]"] show ?thesis by (simp add: OnRecv_chat_def Let_def)
  next
    case (Some p)
    then have "p \<in> live ?st" using findPlayer_live by blast
    then have "handled ?st (packetProc env p packet ?st)" by (rule packetProc_handled [OF ok assms(2,3)])
    then obtain st1 k acts where h: "packetProc env p packet ?st = Some (st1, k, acts)" "chat_ok st1" "mPlayerMap st1 = mPlayerMap st"
      by (auto simp: handled_def)
    let ?r = "if k then (st1, []) else reserveDeletePlayer p InvalidPacket st1"
    have "OnRecv_chat env sid packet st = Some (fst ?r, acts @ snd ?r @ [AFreeRequest])"
      using h(1) Some by (simp add: OnRecv_chat_def Let_def case_prod_unfold)
    then show ?thesis
      by (rule that) (use h reserve_ok [OF h(2), of p InvalidPacket] in auto)
  qed
qed

section \<open>Runs of the server\<close>

text \<open>
  The calls NetLib makes, each with the environment it happens in: a session joins (with the player
  object the pool gave out), leaves, delivers a packet, or the timeout thread wakes up.
\<close>

datatype 'r chat_call =
  Join "'r chat_env" nat u64
| Leave u64
| Recv "'r chat_env" u64 packet
| Timeout "'r chat_env"
| Issue "'r \<Rightarrow> 'r"          \<comment> \<open>another process, such as the login server, writes to Redis\<close>

fun chat_step :: "'r chat_call \<Rightarrow> 'r chat \<Rightarrow> ('r chat \<times> action list) option" where
  "chat_step (Join env p sid) st = Some (OnClientJoin_chat env p sid st, [])"
| "chat_step (Leave sid) st = Some (OnClientLeave_chat sid st, [])"
| "chat_step (Recv env sid packet) st = OnRecv_chat env sid packet st"
| "chat_step (Timeout env) st = Some (CheckTimeOut env st, [])"
| "chat_step (Issue f) st = Some (st\<lparr>redis := f (redis st)\<rparr>, [])"

fun chat_run :: "'r chat_call list \<Rightarrow> 'r chat \<Rightarrow> ('r chat \<times> action list) option" where
  "chat_run [] st = Some (st, [])"
| "chat_run (c # cs) st = do {
     (st1, a1) \<leftarrow> chat_step c st;
     (st2, a2) \<leftarrow> chat_run cs st1;
     Some (st2, a1 @ a2)
   }"

text \<open>The pool gives out no object twice; packets arrive well formed.\<close>

fun call_ok :: "'r chat_call \<Rightarrow> 'r chat \<Rightarrow> bool" where
  "call_ok (Join env p sid) st \<longleftrightarrow> p \<notin> live st"
| "call_ok (Leave sid) st \<longleftrightarrow> True"
| "call_ok (Recv env sid packet) st \<longleftrightarrow> env_ok env \<and> packet_ok packet"
| "call_ok (Timeout env) st \<longleftrightarrow> env_ok env"
| "call_ok (Issue f) st \<longleftrightarrow> True"

fun calls_ok :: "'r chat_call list \<Rightarrow> 'r chat \<Rightarrow> bool" where
  "calls_ok [] st \<longleftrightarrow> True"
| "calls_ok (c # cs) st \<longleftrightarrow> call_ok c st \<and> (case chat_step c st of None \<Rightarrow> True | Some (st1, a) \<Rightarrow> calls_ok cs st1)"

lemma chat_step_ok:
  assumes "chat_ok st" and "call_ok c st"
  shows "\<exists>st' acts. chat_step c st = Some (st', acts) \<and> chat_ok st'"
proof (cases c)
  case (Recv env sid packet)
  then show ?thesis using OnRecv_handled [OF assms(1), of env packet] assms(2) by (metis call_ok.simps(3) chat_step.simps(3))
next
  case (Join env p sid)
  then show ?thesis using join_ok [OF assms(1)] assms(2) by simp
next
  case (Leave sid)
  then show ?thesis using leave_ok [OF assms(1)] by simp
next
  case (Timeout env)
  then show ?thesis using timeout_ok [OF assms(1)] by simp
next
  case (Issue f)
  then show ?thesis using assms(1) by simp
qed

definition chat_init :: "'r \<Rightarrow> (nat \<Rightarrow> player) \<Rightarrow> 'r chat" where
  "chat_init r pl = \<lparr>players = pl, mPlayerMap = [], mPlayerCount = 0, mSector = (\<lambda>y x. []), mJobCount = 0, mRecvCount = 0,
     mCheckHeartCount = 0, timeoutCount = 0, freedPlayers = [], redis = r\<rparr>"

lemma chat_init_ok: "(\<And>p. arrays_ok (pl p)) \<Longrightarrow> chat_ok (chat_init r pl)"
  by (simp add: chat_ok_def chat_init_def grid_ok_def)

lemma chat_run_ok:
  assumes "chat_ok st" and "calls_ok cs st"
  shows "\<exists>st' acts. chat_run cs st = Some (st', acts) \<and> chat_ok st'"
  using assms
proof (induction cs arbitrary: st)
  case (Cons c cs)
  obtain st1 a1 where s1: "chat_step c st = Some (st1, a1)" "chat_ok st1"
    using chat_step_ok [of st c] Cons.prems by auto
  obtain st2 a2 where s2: "chat_run cs st1 = Some (st2, a2)" "chat_ok st2"
    using Cons.IH [of st1] s1 Cons.prems(2) by auto
  show ?case using s1 s2 by simp
qed simp

end
