(* ===== verification/Chat_Behaviour.thy ===== *)
theory Chat_Behaviour
  imports Chat_Safety
begin

text \<open>
  What the packet handlers of the chat server do, branch by branch, and the properties of the
  server that follow: who receives a message, and what a session can do before and after its login.
\<close>

section \<open>The outcomes of the handlers\<close>

lemma bind_Some: "x \<bind> f = Some y \<longleftrightarrow> (\<exists>z. x = Some z \<and> f z = Some y)"
  by (cases x) auto

definition logged_in :: "'r chat_env \<Rightarrow> u64 \<Rightarrow> wstr \<Rightarrow> wstr \<Rightarrow> bytes \<Rightarrow> player \<Rightarrow> player" where
  "logged_in env acc pid nick key pl =
     OnLogin (tick env) (SetSessionKey key (SetNickName nick (SetID pid (pl\<lparr>mAccountNo := acc\<rparr>))))"

definition dup_disconnects :: "'r chat_env \<Rightarrow> u64 \<Rightarrow> u64 \<Rightarrow> 'r chat \<Rightarrow> action list" where
  "dup_disconnects env acc self st =
     (case duplicate_session env acc self st of None \<Rightarrow> [] | Some sid \<Rightarrow> [ADisconnect sid DuplicateLogin])"

lemma logged_in_simps [simp]:
  "mAccountNo (logged_in env acc pid nick key pl) = acc" "mIsLoggedIn (logged_in env acc pid nick key pl)"
  "mSessionID_p (logged_in env acc pid nick key pl) = mSessionID_p pl"
  "mSectorX (logged_in env acc pid nick key pl) = mSectorX pl" "mSectorY (logged_in env acc pid nick key pl) = mSectorY pl"
  "mWillDelete (logged_in env acc pid nick key pl) = mWillDelete pl"
  "mTimeoutLogged (logged_in env acc pid nick key pl) = mTimeoutLogged pl"
  by (simp_all add: logged_in_def OnLogin_def SetSessionKey_def SetNickName_def SetID_def)

text \<open>A login is refused without effect, refused by Redis, or accepted.\<close>

lemma login_cases:
  assumes "login env p packet st = Some (st', ok, acts)"
  obtains (refused) "st' = st" "\<not> ok" "acts = [] \<or> acts = [AError]"
  | (denied) acc key r' where "\<not> mIsLoggedIn (players st p)"
      "CompareAndDel env (to_string (unat (acc :: u64))) key (redis st) = (r', False)"
      "st' = st\<lparr>redis := r'\<rparr>" "\<not> ok" "acts = [AAlloc, AFreeResponse]"
  | (accepted) acc key r' pid nick where "\<not> mIsLoggedIn (players st p)"
      "CompareAndDel env (to_string (unat acc)) key (redis st) = (r', True)"
      "st' = st\<lparr>redis := r', players := (players st)(p := logged_in env acc pid nick key (players st p))\<rparr>"
      "ok = sendResult env (mSessionID_p (players st p))"
      "\<exists>res. acts = AAlloc # dup_disconnects env acc (mSessionID_p (players st p)) st @
        [ASend (mSessionID_p (players st p)) res, AFreeResponse]"
proof (cases "mIsLoggedIn (players st p)")
  case True
  then show ?thesis using assms refused by (simp add: login_def)
next
  case False
  obtain p1 acc p2 idb p3 nickb p4 key where r: "read_word 8 (indeterminate env) packet = Some (p1, acc)"
    "read_array 40 p1 = Some (p2, idb)" "read_array 40 p2 = Some (p3, nickb)" "read_array 64 p3 = Some (p4, key)"
    using assms False by (auto simp: login_def bind_Some)
  note a = assms [unfolded login_def r bind.simps prod.case Let_def]
  show ?thesis
  proof (cases "0 \<notin> set (wstr_of idb) \<or> 0 \<notin> set (wstr_of nickb) \<or> packetAlloc env = None")
    case True
    then show ?thesis using a False refused by (auto split: if_splits)
  next
    case ok: False
    then obtain pooled where pooled: "packetAlloc env = Some pooled" by auto
    obtain r' m where c: "CompareAndDel env (to_string (unat acc)) key (redis st) = (r', m)" by (rule prod.exhaust)
    show ?thesis
    proof (cases m)
      case False
      then show ?thesis using a ok \<open>\<not> mIsLoggedIn (players st p)\<close> pooled c
        by (intro denied [of acc key r']) auto
    next
      case True
      have d: "duplicate_session env acc self (st\<lparr>redis := r'\<rparr>) = duplicate_session env acc self st" for self
        by (simp add: duplicate_session_def)
      show ?thesis using a ok False pooled c True
        by (intro accepted [of acc key r' "wstr_of idb" "wstr_of nickb"]) (auto simp: bind_Some upd_player_def logged_in_def dup_disconnects_def d)
    qed
  qed
qed


text \<open>A sector move changes the place of the sender and answers him; nothing else.\<close>

lemma sectorMove_cases:
  assumes "sectorMove env p packet st = Some (st', ok, acts)"
  obtains (refused) "st' = st" "\<not> ok" "acts = []"
  | (moved) x y ps ss where "movePlayerSector p x y (players st, mSector st) = (ps, ss)"
      "uint x < SECTOR_CNT_X" "uint y < SECTOR_CNT_Y" "st' = st\<lparr>players := ps, mSector := ss\<rparr>"
      "\<not> ok \<and> acts = [AError] \<or> (\<exists>res. acts = [AAlloc, ASend (mSessionID_p (ps p)) res, AFreeResponse])"
proof -
  obtain p1 acc p2 x p3 y where r: "read_word 8 (indeterminate env) packet = Some (p1, acc)"
    "read_word 2 (ucast (indeterminate env) :: u16) p1 = Some (p2, x)" "read_word 2 (ucast (indeterminate env) :: u16) p2 = Some (p3, y)"
    using assms by (auto simp: sectorMove_def bind_Some)
  obtain ps ss where m: "movePlayerSector p x y (players st, mSector st) = (ps, ss)" by (rule prod.exhaust)
  note a = assms [unfolded sectorMove_def r bind.simps prod.case Let_def m]
  show ?thesis
  proof (cases "mAccountNo (players st p) \<noteq> acc \<or> SECTOR_CNT_X \<le> uint x \<or> SECTOR_CNT_Y \<le> uint y")
    case True
    then show ?thesis using a refused by (auto split: if_splits)
  next
    case False
    then show ?thesis using a by (intro moved [OF m]) (auto simp: bind_Some split: option.splits)
  qed
qed

text \<open>A chat message changes nothing and is sent to the neighbourhood.\<close>

lemma sendChatMessage_cases:
  assumes "sendChatMessage env p packet st = Some (st', ok, acts)"
  obtains (refused) "st' = st" "\<not> ok" "acts = [] \<or> acts = [AError]"
  | (sent) "st' = st" "ok" "mIsLoggedIn (players st p)"
      "\<exists>res. acts = AAlloc # map (\<lambda>sid. ASend sid res) (broadcast_targets (players st p) (players st) (mSector st)) @ [AFreeResponse]"
proof (cases "mIsLoggedIn (players st p)")
  case False
  then show ?thesis using assms refused by (simp add: sendChatMessage_def)
next
  case True
  show ?thesis using assms True refused sent
    by (auto simp: sendChatMessage_def bind_Some Let_def split: if_splits option.splits)
qed

section \<open>Effects of a packet\<close>

text \<open>\<open>sends acts\<close> and \<open>disconnects acts\<close>: the sessions sent to, and disconnected.\<close>

definition sends :: "action list \<Rightarrow> u64 set" where
  "sends acts = {sid. \<exists>res. ASend sid res \<in> set acts}"

definition disconnects :: "action list \<Rightarrow> u64 set" where
  "disconnects acts = {sid. \<exists>r. ADisconnect sid r \<in> set acts}"

definition balanced :: "action list \<Rightarrow> bool" where
  "balanced acts \<longleftrightarrow> length (filter (\<lambda>a. a = AAlloc) acts) = length (filter (\<lambda>a. a = AFreeResponse) acts)"

lemma effects_simps [simp]:
  "sends [] = {}" "sends (ASend sid res # as) = insert sid (sends as)" "sends (ADisconnect sid rs # as) = sends as"
  "sends (AAlloc # as) = sends as" "sends (AFreeResponse # as) = sends as" "sends (AFreeRequest # as) = sends as"
  "sends (AError # as) = sends as" "sends (as @ bs) = sends as \<union> sends bs"
  "disconnects [] = {}" "disconnects (ASend sid res # as) = disconnects as"
  "disconnects (ADisconnect sid rs # as) = insert sid (disconnects as)"
  "disconnects (AAlloc # as) = disconnects as" "disconnects (AFreeResponse # as) = disconnects as"
  "disconnects (AFreeRequest # as) = disconnects as"
  "disconnects (AError # as) = disconnects as" "disconnects (as @ bs) = disconnects as \<union> disconnects bs"
  "sends (map (\<lambda>sid. ASend sid res) ts) = set ts" "disconnects (map (\<lambda>sid. ASend sid res) ts) = {}"
  by (auto simp: sends_def disconnects_def)

lemma balanced_simps [simp]:
  "balanced []" "balanced (ASend sid res # as) = balanced as" "balanced (ADisconnect sid rs # as) = balanced as"
  "balanced (AFreeRequest # as) = balanced as" "balanced (AError # as) = balanced as"
  "balanced [AAlloc, AFreeResponse]" "balanced [AAlloc, ASend sid res, AFreeResponse]" "balanced (AAlloc # map (\<lambda>sid. ASend sid res) ts @ [AFreeResponse])"
  by (simp_all add: balanced_def filter_empty_conv)

lemma dup_disconnects_effects:
  "sends (dup_disconnects env acc self st) = {}"
  "disconnects (dup_disconnects env acc self st) = set_option (duplicate_session env acc self st)"
  "balanced (AAlloc # dup_disconnects env acc self st @ [ASend self res, AFreeResponse])"
  "AFreeRequest \<notin> set (dup_disconnects env acc self st)"
  by (simp_all add: dup_disconnects_def balanced_def split: option.splits)

lemma reserve_effects:
  "sends (snd (reserveDeletePlayer p rs st)) = {}" "balanced (snd (reserveDeletePlayer p rs st))"
  "disconnects (snd (reserveDeletePlayer p rs st)) \<subseteq> {mSessionID_p (players st p)}"
  "q \<noteq> p \<Longrightarrow> players (fst (reserveDeletePlayer p rs st)) q = players st q"
  "mIsLoggedIn (players (fst (reserveDeletePlayer p rs st)) q) = mIsLoggedIn (players st q)"
  "mSessionID_p (players (fst (reserveDeletePlayer p rs st)) q) = mSessionID_p (players st q)"
  "mTimeoutLogged (players (fst (reserveDeletePlayer p rs st)) q) = mTimeoutLogged (players st q)"
  "AFreeRequest \<notin> set (snd (reserveDeletePlayer p rs st))"
  "timeoutCount (fst (reserveDeletePlayer p rs st)) = timeoutCount st"
  "mSector (fst (reserveDeletePlayer p rs st)) = mSector st" "redis (fst (reserveDeletePlayer p rs st)) = redis st"
  by (simp_all add: reserveDeletePlayer_def upd_player_def)


text \<open>
  \<open>confined env p st st' acts\<close>: what handling a packet of player \<open>p\<close> may do. Other players stay as
  they are, every response packet taken from the pool is given back once. A session that is not logged
  in either is refused without sending anything, or becomes logged in by a session key Redis has matched
  and deleted. One that is logged in changes his own record and place, and sends.
\<close>

definition confined :: "'r chat_env \<Rightarrow> nat \<Rightarrow> 'r chat \<Rightarrow> 'r chat \<Rightarrow> action list \<Rightarrow> bool" where
  "confined env p st st' acts \<longleftrightarrow>
     (let self = mSessionID_p (players st p) in
      mPlayerMap st' = mPlayerMap st \<and> (\<forall>q. q \<noteq> p \<longrightarrow> players st' q = players st q) \<and>
      mSessionID_p (players st' p) = self \<and> mTimeoutLogged (players st' p) = mTimeoutLogged (players st p) \<and>
      timeoutCount st' = timeoutCount st \<and>
      balanced acts \<and> AFreeRequest \<notin> set acts \<and>
      (if mIsLoggedIn (players st p) then
         mIsLoggedIn (players st' p) \<and> mAccountNo (players st' p) = mAccountNo (players st p) \<and>
         redis st' = redis st \<and> disconnects acts \<subseteq> {self} \<and>
         sends acts \<subseteq> insert self (set (broadcast_targets (players st p) (players st) (mSector st)))
       else
         mSector st' = mSector st \<and>
         (if mIsLoggedIn (players st' p) then
            (\<exists>key. CompareAndDel env (to_string (unat (mAccountNo (players st' p)))) key (redis st) = (redis st', True)) \<and>
            sends acts = {self} \<and>
            disconnects acts \<subseteq> insert self (set_option (duplicate_session env (mAccountNo (players st' p)) self st))
          else sends acts = {} \<and> disconnects acts \<subseteq> {self} \<and>
            (redis st' = redis st \<or> (\<exists>acc key. CompareAndDel env (to_string (unat (acc :: u64))) key (redis st) = (redis st', False))))))"

lemma movePlayerSector_players:
  assumes "movePlayerSector p x y (ps, ss) = (ps', ss')"
  shows "q \<noteq> p \<Longrightarrow> ps' q = ps q" "mSessionID_p (ps' p) = mSessionID_p (ps p)" "mIsLoggedIn (ps' p) = mIsLoggedIn (ps p)"
    "mAccountNo (ps' p) = mAccountNo (ps p)" "mTimeoutLogged (ps' p) = mTimeoutLogged (ps p)"
  using assms by (auto simp: movePlayerSector_def Let_def split: if_splits)

lemma login_confined:
  assumes "login env p packet st = Some (st', ok, acts)" and "\<not> mIsLoggedIn (players st p)"
  shows "confined env p st st' acts \<and> (ok \<longrightarrow> mIsLoggedIn (players st' p))"
  using assms(1)
proof (cases rule: login_cases)
  case (accepted acc key r' pid nick)
  then show ?thesis using assms(2)
    by (auto simp: confined_def Let_def dup_disconnects_effects)
qed (use assms(2) in \<open>auto simp: confined_def Let_def\<close>)

lemma logged_in_confined:
  assumes "login env p packet st = Some (st', ok, acts) \<or> sectorMove env p packet st = Some (st', ok, acts) \<or>
      sendChatMessage env p packet st = Some (st', ok, acts) \<or> heartBeat env p packet st = Some (st', ok, acts)"
    and "mIsLoggedIn (players st p)"
  shows "confined env p st st' acts"
  using assms(1)
proof (elim disjE)
  assume "login env p packet st = Some (st', ok, acts)"
  then show ?thesis using assms(2) by (auto simp: login_def confined_def Let_def)
next
  assume "sectorMove env p packet st = Some (st', ok, acts)"
  then show ?thesis
  proof (cases rule: sectorMove_cases)
    case (moved x y ps ss)
    then show ?thesis using assms(2) movePlayerSector_players [OF moved(1)] by (auto simp: confined_def Let_def)
  qed (use assms(2) in \<open>auto simp: confined_def Let_def\<close>)
next
  assume "sendChatMessage env p packet st = Some (st', ok, acts)"
  then show ?thesis
    by (cases rule: sendChatMessage_cases) (use assms(2) in \<open>auto simp: confined_def Let_def\<close>)
next
  assume "heartBeat env p packet st = Some (st', ok, acts)"
  then show ?thesis using assms(2) by (auto simp: heartBeat_def upd_player_def UpdateHeartbeat_def confined_def Let_def)
qed

lemma confined_refused:
  "confined env p st st []" "mSessionID_p (players st p) = s \<Longrightarrow> confined env p st (fst (reserveDeletePlayer p rs st)) (snd (reserveDeletePlayer p rs st))"
  using reserve_effects(3) [of p rs st] reserve_ok
  by (auto simp: confined_def Let_def reserve_effects reserveDeletePlayer_def upd_player_def)

lemma packetProc_confined:
  assumes "packetProc env p packet st = Some (st', ok, acts)"
  shows "confined env p st st' acts \<and> (ok \<longrightarrow> mIsLoggedIn (players st' p))"
proof -
  obtain p1 t where t: "read_word 2 (ucast (indeterminate env) :: u16) packet = Some (p1, t)"
    using assms by (auto simp: packetProc_def bind_Some)
  show ?thesis
  proof (cases "mIsLoggedIn (players st p)")
    case True
    note a = assms [unfolded packetProc_def t bind.simps prod.case Let_def]
    have "st' = st \<and> \<not> ok \<and> acts = [] \<or> login env p p1 st = Some (st', ok, acts) \<or> sectorMove env p p1 st = Some (st', ok, acts) \<or>
      sendChatMessage env p p1 st = Some (st', ok, acts) \<or> heartBeat env p p1 st = Some (st', ok, acts)"
      using a True by (auto split: if_splits)
    then have c: "confined env p st st' acts" using logged_in_confined [OF _ True] confined_refused(1) by blast
    then show ?thesis using True by (simp add: confined_def Let_def)
  next
    case False
    show ?thesis
    proof (cases "t = en_PACKET_CS_CHAT_REQ_LOGIN")
      case True
      then have "st' = st \<and> \<not> ok \<and> acts = [] \<or> login env p p1 st = Some (st', ok, acts)"
        using assms t False by (auto simp: packetProc_def Let_def split: if_splits)
      then show ?thesis using login_confined [OF _ False] confined_refused(1) [of env p st] by auto
    next
      case t': False
      then have "st' = fst (reserveDeletePlayer p InvalidPacket st) \<and> acts = snd (reserveDeletePlayer p InvalidPacket st) \<and> \<not> ok"
        using assms t False by (simp add: packetProc_def Let_def case_prod_unfold)
      then show ?thesis using confined_refused(2) by blast
    qed
  qed
qed


lemma confined_then_reserve:
  assumes "confined env p st st1 acts" and "(st2, acts2) = reserveDeletePlayer p rs st1"
  shows "confined env p st st2 (acts @ acts2)"
proof -
  have e: "st2 = fst (reserveDeletePlayer p rs st1)" "acts2 = snd (reserveDeletePlayer p rs st1)"
    using assms(2) by (metis fst_conv snd_conv)+
  have b: "balanced (acts @ acts2)" using assms(1) e(2)
    by (auto simp: confined_def Let_def balanced_def reserveDeletePlayer_def)
  have m: "mPlayerMap st2 = mPlayerMap st1" "mAccountNo (players st2 p) = mAccountNo (players st1 p)"
    unfolding e by (simp_all add: reserveDeletePlayer_def upd_player_def)
  note re = reserve_effects [where p = p and rs = rs and st = st1, folded e]
  have s1: "mSessionID_p (players st1 p) = mSessionID_p (players st p)" using assms(1) by (simp add: confined_def Let_def)
  show ?thesis using assms(1) b m re s1
    by (auto simp: confined_def Let_def split: if_splits)
qed

lemma confined_counters:
  "confined env p (st\<lparr>mRecvCount := n, mJobCount := k\<rparr>) st' acts = confined env p st st' acts"
  by (simp add: confined_def duplicate_session_def)

lemma OnRecv_confined:
  assumes "OnRecv_chat env sid packet st = Some (st', acts)" and "findPlayer sid st = Some p"
  obtains acts' where "acts = acts' @ [AFreeRequest]" "confined env p st st' acts'" "AFreeRequest \<notin> set acts'"
    "\<not> mIsLoggedIn (players st' p) \<Longrightarrow> mWillDelete (players st' p)"
proof -
  let ?st = "st\<lparr>mRecvCount := mRecvCount st + 1, mJobCount := mJobCount st + 1\<rparr>"
  have fp: "findPlayer sid ?st = Some p" using assms(2) by (simp add: findPlayer_def)
  obtain st1 ok a1 where p1: "packetProc env p packet ?st = Some (st1, ok, a1)"
    using assms(1) fp by (auto simp: OnRecv_chat_def Let_def bind_Some)
  define st2 a2 where "st2 = fst (if ok then (st1, []) else reserveDeletePlayer p InvalidPacket st1)"
    and "a2 = snd (if ok then (st1, []) else reserveDeletePlayer p InvalidPacket st1)"
  have e: "st' = st2" "acts = (a1 @ a2) @ [AFreeRequest]"
    using assms(1) fp p1 by (auto simp: OnRecv_chat_def Let_def case_prod_unfold st2_def a2_def)
  have c1: "confined env p ?st st1 a1" "ok \<Longrightarrow> mIsLoggedIn (players st1 p)" using packetProc_confined [OF p1] by auto
  have "confined env p ?st st2 (a1 @ a2)"
  proof (cases ok)
    case True
    then show ?thesis using c1(1) by (simp add: st2_def a2_def)
  next
    case False
    then show ?thesis by (intro confined_then_reserve [OF c1(1), of _ _ InvalidPacket]) (simp add: st2_def a2_def)
  qed
  then have c2: "confined env p st st2 (a1 @ a2)" by (simp only: confined_counters)
  have w: "mWillDelete (players st2 p)" if "\<not> mIsLoggedIn (players st2 p)"
    using that c1(2) by (auto simp: st2_def reserveDeletePlayer_def upd_player_def)
  have "AFreeRequest \<notin> set (a1 @ a2)" using c2 by (simp add: confined_def Let_def)
  with c2 w e show ?thesis by (intro that [of "a1 @ a2"]) auto
qed


section \<open>Who receives a message\<close>

definition hears :: "'r chat \<Rightarrow> nat \<Rightarrow> nat \<Rightarrow> bool" where
  "hears st p q \<longleftrightarrow> mIsLoggedIn (players st q) \<and> \<not> mWillDelete (players st q) \<and> in_grid (players st q) \<and>
     \<bar>uint (mSectorX (players st q)) - uint (mSectorX (players st p))\<bar> \<le> 1 \<and>
     \<bar>uint (mSectorY (players st q)) - uint (mSectorY (players st p))\<bar> \<le> 1"

lemma broadcast_targets_spec:
  assumes "chat_ok st" and "in_grid (players st p)"
  shows "distinct (broadcast_targets (players st p) (players st) (mSector st))"
    and "set (broadcast_targets (players st p) (players st) (mSector st)) = {sid. \<exists>q. (sid, q) \<in> set (mPlayerMap st) \<and> hears st p q}"
proof -
  note d = chat_okD [OF assms(1)]
  let ?x = "uint (mSectorX (players st p))" and ?y = "uint (mSectorY (players st p))"
  let ?ok = "\<lambda>q. \<not> mWillDelete (players st q) \<and> mIsLoggedIn (players st q)"
  let ?at = "\<lambda>(tx, ty). filter ?ok (mSector st ty tx)"
  have g: "distinct (mSector st ty tx)" "set (mSector st ty tx) =
      {q \<in> live st. in_grid (players st q) \<and> uint (mSectorX (players st q)) = tx \<and> uint (mSectorY (players st q)) = ty}" for tx ty
    using d(3) by (simp_all add: grid_ok_def)
  have e: "broadcast_targets (players st p) (players st) (mSector st) =
      map (\<lambda>q. mSessionID_p (players st q)) (concat (map ?at (sector_around ?y ?x)))"
    using assms(2) by (auto simp: broadcast_targets_def Let_def in_grid_def initSectorAroundTable_def map_concat o_def case_prod_unfold)
  have dis: "distinct (concat (map ?at ts))" if "distinct ts" for ts
    using that by (induction ts) (auto simp: g)
  have se: "set (concat (map ?at (sector_around ?y ?x))) = {q \<in> live st. hears st p q}"
    using assms(2) by (auto simp: g hears_def sector_around_set in_grid_def)
  have sid: "(mSessionID_p (players st q), q) \<in> set (mPlayerMap st)" if "q \<in> live st" for q
    using that d(5) by auto
  have inj: "inj_on (\<lambda>q. mSessionID_p (players st q)) (live st)"
  proof (rule inj_onI)
    fix q q' assume "q \<in> live st" "q' \<in> live st" "mSessionID_p (players st q) = mSessionID_p (players st q')"
    then have "(mSessionID_p (players st q), q) \<in> set (mPlayerMap st)" "(mSessionID_p (players st q), q') \<in> set (mPlayerMap st)"
      using sid by metis+
    then show "q = q'" using d(1) by (meson eq_key_imp_eq_value)
  qed
  show "distinct (broadcast_targets (players st p) (players st) (mSector st))"
    unfolding e distinct_map using dis [OF distinct_sector_around] inj se by (auto intro: inj_on_subset)
  show "set (broadcast_targets (players st p) (players st) (mSector st)) = {sid. \<exists>q. (sid, q) \<in> set (mPlayerMap st) \<and> hears st p q}"
    unfolding e set_map se using sid d(5) by force
qed

text \<open>A packet as NetLib hands it over: behind the five header bytes, with nothing read.\<close>

definition received :: "packet \<Rightarrow> bytes \<Rightarrow> bool" where
  "received packet payload \<longleftrightarrow> packet_ok packet \<and> mReadPos packet = 5 \<and> unread packet = payload"

lemma received_size: "received packet payload \<Longrightarrow> mDataSize packet = 5 + int (length payload)"
  using length_unread [of packet] by (auto simp: received_def)

lemma read_word_prefix:
  assumes "packet_ok p" and "unread p = le_bytes n (w :: 'a::len word) @ rest" and "LENGTH('a) = 8 * n"
  shows "read_word n g p = Some (advance p n, w)" "packet_ok (advance p n)" "unread (advance p n) = rest"
    "mDataSize (advance p n) = mDataSize p"
  using assms advance_simps [OF assms(1), of n] shr_bytes_read [OF assms(1), of n] by (simp_all add: read_word_def)

lemma read_array_prefix:
  assumes "packet_ok p" and "unread p = bs @ rest" and "length bs = n"
  shows "read_array n p = Some (advance p n, bs)" "packet_ok (advance p n)" "unread (advance p n) = rest"
    "mDataSize (advance p n) = mDataSize p"
  using assms advance_simps [OF assms(1), of n] GetData_read [OF assms(1), of n] by (simp_all add: read_array_def)

definition chat_message :: "u64 \<Rightarrow> bytes \<Rightarrow> bytes" where
  "chat_message acc body = le_bytes 2 en_PACKET_CS_CHAT_REQ_MESSAGE @ le_bytes 8 acc @ le_bytes 2 (of_nat (length body) :: u16) @ body"

definition chat_delivery :: "player \<Rightarrow> bytes \<Rightarrow> bytes" where
  "chat_delivery pl body = replicate 5 0 @ le_bytes 2 en_PACKET_CS_CHAT_RES_MESSAGE @ le_bytes 8 (mAccountNo pl) @
     name_field (mID pl) @ name_field (mNickName pl) @ le_bytes 2 (of_nat (length body) :: u16) @ body"

text \<open>A response as the handlers leave it: complete, not encoded, with the handler's reference only.\<close>

definition ready_response :: "packet \<Rightarrow> bool" where
  "ready_response res \<longleftrightarrow> packet_ok res \<and> capacity res = BUFFER_DEFAULT \<and> 5 \<le> mDataSize res \<and> \<not> mIsEncoding res \<and> mRefCnt res = 1"

lemma sendChatMessage_delivers:
  assumes "chat_ok st" and "env_ok env" and "p \<in> live st" and "mIsLoggedIn (players st p)" and "in_grid (players st p)"
    and "packetAlloc env = Some pooled"
    and "packet_ok packet" and "unread packet = le_bytes 8 (mAccountNo (players st p)) @ le_bytes 2 (of_nat (length body) :: u16) @ body"
    and "mDataSize packet = 17 + int (length body)"
    and "even (length body)" and "0 < length body" and "length body \<le> 1024"
  obtains res where
    "sendChatMessage env p packet st = Some (st, True, AAlloc # map (\<lambda>sid. ASend sid res)
       (broadcast_targets (players st p) (players st) (mSector st)) @ [AFreeResponse])"
    "written res = chat_delivery (players st p) body" "ready_response res"
proof -
  let ?len = "of_nat (length body) :: u16" and ?g = "indeterminate env"
  have l: "uint ?len = int (length body)" "unat ?len = length body"
    using assms(12) by (simp_all add: unsigned_of_nat take_bit_nat_eq_self)
  have r1: "read_word 8 ?g packet = Some (advance packet 8, mAccountNo (players st p))" "packet_ok (advance packet 8)"
      "unread (advance packet 8) = le_bytes 2 ?len @ body"
    using read_word_prefix [OF assms(7,8)] by simp_all
  have r2: "read_word 2 (ucast ?g) (advance packet 8) = Some (advance (advance packet 8) 2, ?len)" "packet_ok (advance (advance packet 8) 2)"
      "unread (advance (advance packet 8) 2) = body"
    using read_word_prefix [OF r1(2,3)] by simp_all
  have g: "GetData (advance (advance packet 8) 2) (int (length body)) = Some (advance (advance (advance packet 8) 2) (length body), body)"
    using GetData_read [OF r2(2), of "length body"] r2(3) by simp
  have m: "memcpy (replicate 1024 0) 0 body = Some (overwrite (replicate 1024 0) 0 body)"
    using assms(12) by (intro memcpy_Some [where off = 0, simplified]) simp
  have names: "length (wcs (mID (players st p))) < 20" "length (wcs (mNickName (players st p))) < 20"
    using chat_okD(6) [OF assms(1,3,4)] by (simp_all add: names_ok_def)
  have f: "fresh (Packet_Init pooled)" using assms(2,6) by (auto simp: env_ok_def intro: fresh_Packet_Init)
  obtain res where res: "MakeChatResMessage (Packet_Init pooled) (mAccountNo (players st p)) (mID (players st p))
        (mNickName (players st p)) ?len (overwrite (replicate 1024 0) 0 body) = Some res"
      "wrote (Packet_Init pooled) (replicate 5 0 @ le_bytes 2 en_PACKET_CS_CHAT_RES_MESSAGE @ le_bytes 8 (mAccountNo (players st p)) @
         name_field (mID (players st p)) @ name_field (mNickName (players st p)) @ le_bytes 2 ?len @
         take (unat ?len) (overwrite (replicate 1024 0) 0 body)) res"
    by (rule MakeChatResMessage_wrote [OF f names, where len = ?len and msg = "overwrite (replicate 1024 0) 0 body"])
      (use l assms(12) in simp_all)
  have "take (unat ?len) (overwrite (replicate 1024 0) 0 body) = body" unfolding l(2) by (simp add: overwrite_def)
  then have w: "written res = chat_delivery (players st p) body"
    using res(2) f by (simp add: wrote_def fresh_def chat_delivery_def)
  have rr: "ready_response res" using res(2) f by (simp add: wrote_def fresh_def ready_response_def BUFFER_DEFAULT_def)
  have s: "uint (mSectorX (players st p)) < SECTOR_CNT_X" "uint (mSectorY (players st p)) < SECTOR_CNT_Y"
    using assms(5) by (simp_all add: in_grid_def)
  have ev: "int (length body) mod 2 = 0" using assms(10) by presburger
  have "sendChatMessage env p packet st = Some (st, True, AAlloc # map (\<lambda>sid. ASend sid res)
       (broadcast_targets (players st p) (players st) (mSector st)) @ [AFreeResponse])"
    unfolding sendChatMessage_def r1(1) r2(1) bind.simps prod.case l(1) g m Let_def
    using assms(4,6,9,11,12) res(1) s ev by simp
  then show ?thesis using w rr by (rule that)
qed


section \<open>An accepted login\<close>

definition login_message :: "u64 \<Rightarrow> wstr \<Rightarrow> wstr \<Rightarrow> bytes \<Rightarrow> bytes" where
  "login_message acc pid nick key = le_bytes 2 en_PACKET_CS_CHAT_REQ_LOGIN @ le_bytes 8 acc @ wbytes pid @ wbytes nick @ key"

lemma login_accepts:
  assumes "env_ok env" and "packetAlloc env = Some pooled" and "\<not> mIsLoggedIn (players st p)"
    and "packet_ok packet" and "unread packet = le_bytes 8 acc @ wbytes pid @ wbytes nick @ key"
    and "length pid = 20" "0 \<in> set pid" "length nick = 20" "0 \<in> set nick" "length key = 64"
    and "CompareAndDel env (to_string (unat acc)) key (redis st) = (r', True)"
  obtains res where
    "login env p packet st = Some (st\<lparr>redis := r', players := (players st)(p := logged_in env acc pid nick key (players st p))\<rparr>,
       sendResult env (mSessionID_p (players st p)),
       AAlloc # dup_disconnects env acc (mSessionID_p (players st p)) st @ [ASend (mSessionID_p (players st p)) res, AFreeResponse])"
    "written res = replicate 5 0 @ le_bytes 2 en_PACKET_CS_CHAT_RES_LOGIN @ [1] @ le_bytes 8 acc"
proof -
  let ?g = "indeterminate env"
  have r1: "read_word 8 ?g packet = Some (advance packet 8, acc)" "packet_ok (advance packet 8)"
      "unread (advance packet 8) = wbytes pid @ wbytes nick @ key"
    using read_word_prefix [OF assms(4,5)] by simp_all
  define p1 where "p1 = advance packet 8"
  have r2: "read_array 40 p1 = Some (advance p1 40, wbytes pid)" "packet_ok (advance p1 40)" "unread (advance p1 40) = wbytes nick @ key"
    using read_array_prefix [OF r1(2,3), of 40] assms(6) by (simp_all add: p1_def)
  define p2 where "p2 = advance p1 40"
  have r3: "read_array 40 p2 = Some (advance p2 40, wbytes nick)" "packet_ok (advance p2 40)" "unread (advance p2 40) = key"
    using read_array_prefix [OF r2(2,3), of 40] assms(8) by (simp_all add: p2_def)
  define p3 where "p3 = advance p2 40"
  have r4: "read_array 64 p3 = Some (advance p3 64, key)"
    using read_array_prefix [of p3 key "[]" 64] r3(2,3) assms(10) by (simp add: p3_def)
  have f: "fresh (Packet_Init pooled)" using assms(1,2) by (auto simp: env_ok_def intro: fresh_Packet_Init)
  obtain res where res: "MakeChatResLogin (Packet_Init pooled) 1 acc = Some res"
    "wrote (Packet_Init pooled) (replicate 5 0 @ le_bytes 2 en_PACKET_CS_CHAT_RES_LOGIN @ le_bytes 1 (1 :: u8) @ le_bytes 8 acc) res"
    by (rule MakeChatResLogin_wrote [OF f])
  have "le_bytes 1 (1 :: u8) = [1]" by (simp add: le_bytes_def)
  then have w: "written res = replicate 5 0 @ le_bytes 2 en_PACKET_CS_CHAT_RES_LOGIN @ [1] @ le_bytes 8 acc"
    using res(2) f by (simp add: wrote_def fresh_def)
  have d: "duplicate_session env acc self (st\<lparr>redis := r'\<rparr>) = duplicate_session env acc self st" for self
    by (simp add: duplicate_session_def)
  have "mAccountNo (logged_in env acc pid nick key (players st p)) = acc" by simp
  note acc = this [unfolded logged_in_def]
  have res': "MakeChatResLogin (Packet_Init pooled) 1
      (mAccountNo (players (upd_player p (\<lambda>pl. OnLogin (tick env) (SetSessionKey key (SetNickName nick (SetID pid (pl\<lparr>mAccountNo := acc\<rparr>)))))
         (st\<lparr>redis := r'\<rparr>)) p)) = Some res" using res(1) acc by (simp add: upd_player_def)
  show ?thesis
    by (rule that [OF _ w])
      (use assms(2,3,7,9) in \<open>simp add: login_def r1(1) r2(1) r3(1) r4 Let_def assms(11) d res' flip: p1_def p2_def p3_def,
        simp add: upd_player_def logged_in_def dup_disconnects_def\<close>)
qed

lemma OnRecv_login_accepts:
  assumes "env_ok env" and "packetAlloc env = Some pooled" and "findPlayer sid st = Some p" and "\<not> mIsLoggedIn (players st p)"
    and "mSessionID_p (players st p) = sid" and "sendResult env sid"
    and "received packet (login_message acc pid nick key)"
    and "length pid = 20" "0 \<in> set pid" "length nick = 20" "0 \<in> set nick" "length key = 64"
    and "CompareAndDel env (to_string (unat acc)) key (redis st) = (r', True)"
  obtains res where
    "OnRecv_chat env sid packet st = Some (st\<lparr>mRecvCount := mRecvCount st + 1, mJobCount := mJobCount st + 1, redis := r',
         players := (players st)(p := logged_in env acc pid nick key (players st p))\<rparr>,
       AAlloc # dup_disconnects env acc sid st @ [ASend sid res, AFreeResponse, AFreeRequest])"
    "written res = replicate 5 0 @ le_bytes 2 en_PACKET_CS_CHAT_RES_LOGIN @ [1] @ le_bytes 8 acc"
proof -
  let ?st = "st\<lparr>mRecvCount := mRecvCount st + 1, mJobCount := mJobCount st + 1\<rparr>"
  have p: "packet_ok packet" "unread packet = le_bytes 2 en_PACKET_CS_CHAT_REQ_LOGIN @ (le_bytes 8 acc @ wbytes pid @ wbytes nick @ key)"
    using assms(7) by (simp_all add: received_def login_message_def)
  have sz: "mDataSize packet = 159" using received_size [OF assms(7)] assms(8,10,12) by (simp add: login_message_def)
  have r: "read_word 2 (ucast (indeterminate env)) packet = Some (advance packet 2, en_PACKET_CS_CHAT_REQ_LOGIN)"
    "packet_ok (advance packet 2)" "unread (advance packet 2) = le_bytes 8 acc @ wbytes pid @ wbytes nick @ key"
    using read_word_prefix [OF p] by simp_all
  have ds: "mDataSize (advance packet 2) = 159" using sz by (simp add: advance_def)
  have fp: "findPlayer sid ?st = Some p" using assms(3) by (simp add: findPlayer_def)
  have "\<not> mIsLoggedIn (players ?st p)" "CompareAndDel env (to_string (unat acc)) key (redis ?st) = (r', True)"
    using assms(4,13) by simp_all
  then obtain res where res: "login env p (advance packet 2) ?st = Some (?st\<lparr>redis := r', players := (players ?st)(p := logged_in env acc pid nick key (players ?st p))\<rparr>,
       sendResult env (mSessionID_p (players ?st p)),
       AAlloc # dup_disconnects env acc (mSessionID_p (players ?st p)) ?st @ [ASend (mSessionID_p (players ?st p)) res, AFreeResponse])"
    "written res = replicate 5 0 @ le_bytes 2 en_PACKET_CS_CHAT_RES_LOGIN @ [1] @ le_bytes 8 acc"
    using login_accepts [OF assms(1,2) _ r(2,3) assms(8-12)] by blast
  have d: "dup_disconnects env acc sid ?st = dup_disconnects env acc sid st"
    by (simp add: dup_disconnects_def duplicate_session_def)
  have pp: "packetProc env p packet ?st = login env p (advance packet 2) ?st"
    using assms(4) ds by (simp add: packetProc_def r(1) Let_def)
  show ?thesis
    by (rule that [OF _ res(2)]) (use fp assms(5,6) d in \<open>simp add: OnRecv_chat_def Let_def pp res(1)\<close>)
qed


section \<open>Properties\<close>

text \<open>
  C12. In every run of the chat server, in any order of joins, leaves, packets with any content,
  timeout checks and Redis writes, no handler leaves a buffer or calls the C library's
  invalid-parameter handler, and the state stays well formed: the player map is one to one and counted
  exactly, the sectors hold exactly the mapped players, each once and in the sector of its coordinates,
  no freed player object is reachable, and a logged-in player has terminated names.
\<close>
theorem chat_server_invariant:
  fixes pl :: "nat \<Rightarrow> player" and r :: 'r
  assumes "\<And>p. arrays_ok (pl p)" and "calls_ok cs (chat_init r pl)"
  shows "\<exists>st acts. chat_run cs (chat_init r pl) = Some (st, acts) \<and> chat_ok st"
  by (rule chat_run_ok [OF chat_init_ok [OF assms(1)] assms(2)])

definition blank_player :: player where
  "blank_player = \<lparr>mSessionID_p = 0, mAccountNo = 0, mID = replicate 20 0, mNickName = replicate 20 0,
     mSessionKey = replicate 64 0, mSectorX = 0, mSectorY = 0, mWillDelete = False, mIsLoggedIn = False,
     mConnectTime = 0, mLastActiveTime = 0, mTimeoutLogged = False\<rparr>"

text \<open>Redis as a map from keys to values, and the script of \<open>CompareAndDel\<close> on it.\<close>

definition redis_script :: "(string \<Rightarrow> bytes option) \<Rightarrow> string \<Rightarrow> bytes \<Rightarrow> ((string \<Rightarrow> bytes option) \<times> redis_reply) option" where
  "redis_script r key expected = Some (if r key = Some expected then (r(key := None), RInteger 1) else (r, RInteger 0))"

definition sample_env :: "(string \<Rightarrow> bytes option) chat_env" where
  "sample_env = \<lparr>sendResult = (\<lambda>_. True), packetAlloc = Some (new_Packet 2048), tick = 1000, evalScript = redis_script,
     iterOrder = (\<lambda>m. m), indeterminate = 0\<rparr>"

definition sample_packet :: "bytes \<Rightarrow> packet" where
  "sample_packet payload = (new_Packet 0)\<lparr>mStorage := replicate 5 0 @ payload, mDataSize := 5 + int (length payload),
     mReadPos := 5, mRefCnt := 1\<rparr>"

lemma sample_env_ok: "env_ok sample_env"
  by (simp add: env_ok_def sample_env_def new_Packet_def capacity_def)

lemma sample_received: "length payload < 2048 \<Longrightarrow> received (sample_packet payload) payload"
  by (simp add: received_def sample_packet_def packet_ok_def capacity_def unread_def written_def)

lemma blank_player_ok: "arrays_ok blank_player"
  by (simp add: arrays_ok_def blank_player_def)

lemma chat_server_invariant_witness:
  "\<exists>st acts. chat_run [Join sample_env 3 7, Recv sample_env 7 (sample_packet [1, 0]), Leave 7, Timeout sample_env]
       (chat_init (\<lambda>_. None) (\<lambda>_. blank_player)) = Some (st, acts) \<and> chat_ok st"
proof (rule chat_server_invariant)
  show "arrays_ok blank_player" by (rule blank_player_ok)
  have "packet_ok (sample_packet [1, 0])" using sample_received [of "[1, 0]"] by (simp add: received_def)
  then show "calls_ok [Join sample_env 3 7, Recv sample_env 7 (sample_packet [1, 0]), Leave 7, Timeout sample_env]
       (chat_init (\<lambda>_. None) (\<lambda>_. blank_player))"
    by (simp add: chat_init_def sample_env_ok OnClientJoin_chat_def Let_def upd_player_def split: option.splits prod.splits)
qed

lemma chat_message_actions:
  assumes "chat_ok st" and "env_ok env" and "findPlayer sid st = Some p" and "mIsLoggedIn (players st p)"
    and "in_grid (players st p)" and "packetAlloc env = Some pooled"
    and "received packet (chat_message (mAccountNo (players st p)) body)"
    and "even (length body)" and "0 < length body" and "length body \<le> 1024"
  shows "\<exists>res targets. OnRecv_chat env sid packet st =
      Some (st\<lparr>mRecvCount := mRecvCount st + 1, mJobCount := mJobCount st + 1\<rparr>,
            AAlloc # map (\<lambda>s. ASend s res) targets @ [AFreeResponse, AFreeRequest]) \<and>
    written res = chat_delivery (players st p) body \<and> ready_response res \<and> distinct targets \<and>
    set targets = {s. \<exists>q. (s, q) \<in> set (mPlayerMap st) \<and> hears st p q}"
proof -
  let ?st = "st\<lparr>mRecvCount := mRecvCount st + 1, mJobCount := mJobCount st + 1\<rparr>"
  let ?pay = "le_bytes 8 (mAccountNo (players st p)) @ le_bytes 2 (of_nat (length body) :: u16) @ body"
  have pk: "packet_ok packet" "unread packet = le_bytes 2 en_PACKET_CS_CHAT_REQ_MESSAGE @ ?pay"
    using assms(7) by (simp_all add: received_def chat_message_def)
  have r: "read_word 2 (ucast (indeterminate env)) packet = Some (advance packet 2, en_PACKET_CS_CHAT_REQ_MESSAGE)"
    "packet_ok (advance packet 2)" "unread (advance packet 2) = ?pay"
    using read_word_prefix [OF pk] by simp_all
  have ds: "mDataSize (advance packet 2) = 17 + int (length body)"
    using received_size [OF assms(7)] by (simp add: chat_message_def advance_def)
  have ok: "chat_ok ?st" using assms(1) by simp
  have fp: "findPlayer sid ?st = Some p" using assms(3) by (simp add: findPlayer_def)
  then have pl: "p \<in> live ?st" using findPlayer_live by blast
  have h: "mIsLoggedIn (players ?st p)" "in_grid (players ?st p)"
    "unread (advance packet 2) = le_bytes 8 (mAccountNo (players ?st p)) @ le_bytes 2 (of_nat (length body) :: u16) @ body"
    using assms(4,5) r(3) by simp_all
  obtain res where res: "sendChatMessage env p (advance packet 2) ?st = Some (?st, True, AAlloc # map (\<lambda>s. ASend s res)
       (broadcast_targets (players ?st p) (players ?st) (mSector ?st)) @ [AFreeResponse])" "written res = chat_delivery (players ?st p) body" "ready_response res"
    using sendChatMessage_delivers [OF ok assms(2) pl h(1,2) assms(6) r(2) h(3) ds assms(8-10)] by blast
  have pp: "packetProc env p packet ?st = sendChatMessage env p (advance packet 2) ?st"
    using assms(4) ds assms(9) by (simp add: packetProc_def r(1) Let_def packet_types)
  have "OnRecv_chat env sid packet st = Some (?st, AAlloc # map (\<lambda>s. ASend s res)
       (broadcast_targets (players st p) (players st) (mSector st)) @ [AFreeResponse, AFreeRequest])"
    using fp by (simp add: OnRecv_chat_def Let_def pp res(1))
  then show ?thesis using res(2,3) broadcast_targets_spec [OF assms(1,5)] by auto
qed

text \<open>
  C13. Delivery of a chat message: the text of a logged-in player in a sector goes out in one packet,
  with his account number, his names padded to twenty characters and the text unchanged, to exactly
  the logged-in and not yet deleted players of the three by three neighbourhood of his sector, himself
  included, each once; his own record, the map and the sectors do not change.
\<close>
theorem chat_message_delivered:
  assumes "chat_ok st" and "env_ok env" and "findPlayer sid st = Some p" and "mIsLoggedIn (players st p)"
    and "in_grid (players st p)" and "packetAlloc env = Some pooled"
    and "received packet (chat_message (mAccountNo (players st p)) body)"
    and "even (length body)" and "0 < length body" and "length body \<le> 1024"
  shows "\<exists>res targets. OnRecv_chat env sid packet st =
      Some (st\<lparr>mRecvCount := mRecvCount st + 1, mJobCount := mJobCount st + 1\<rparr>,
            AAlloc # map (\<lambda>s. ASend s res) targets @ [AFreeResponse, AFreeRequest]) \<and>
    written res = chat_delivery (players st p) body \<and> distinct targets \<and>
    set targets = {s. \<exists>q. (s, q) \<in> set (mPlayerMap st) \<and> hears st p q}"
  using chat_message_actions [OF assms] by blast


text \<open>A state with three players: two neighbours, and one far away.\<close>

definition sample_player :: "u64 \<Rightarrow> u16 \<Rightarrow> u16 \<Rightarrow> player" where
  "sample_player sid x y = blank_player\<lparr>mSessionID_p := sid, mAccountNo := sid + 100, mID := [104, 105] @ replicate 18 0,
     mSectorX := x, mSectorY := y, mIsLoggedIn := True\<rparr>"

definition sample_chat :: "(string \<Rightarrow> bytes option) chat" where
  "sample_chat = (chat_init (\<lambda>_. None) (\<lambda>_. blank_player))
     \<lparr>players := (\<lambda>_. blank_player)(0 := sample_player 7 3 4, 1 := sample_player 8 4 4, 2 := sample_player 9 30 30),
      mPlayerMap := [(7, 0), (8, 1), (9, 2)], mPlayerCount := 3,
      mSector := set_sector (set_sector (set_sector (\<lambda>y x. []) 4 3 [0]) 4 4 [1]) 30 30 [2]\<rparr>"

lemma sample_chat_ok: "chat_ok sample_chat"
proof (rule chat_okI)
  show "grid_ok (live sample_chat) (players sample_chat) (mSector sample_chat)"
    by (auto simp: grid_ok_def sample_chat_def chat_init_def set_sector_def sample_player_def in_grid_def
        SECTOR_CNT_X_def SECTOR_CNT_Y_def)
qed (auto simp: sample_chat_def chat_init_def sample_player_def arrays_ok_def blank_player_def names_ok_def wcs_def)

lemma chat_message_delivered_witness:
  "\<exists>res targets. OnRecv_chat sample_env 7 (sample_packet (chat_message 107 [72, 0])) sample_chat =
      Some (sample_chat\<lparr>mRecvCount := 1, mJobCount := 1\<rparr>,
            AAlloc # map (\<lambda>s. ASend s res) targets @ [AFreeResponse, AFreeRequest]) \<and>
    written res = chat_delivery (sample_player 7 3 4) [72, 0] \<and> distinct targets \<and> set targets = {7, 8}"
proof -
  have acc: "mAccountNo (players sample_chat 0) = 107" "players sample_chat 0 = sample_player 7 3 4"
    by (simp_all add: sample_chat_def sample_player_def)
  have heard: "{s. \<exists>q. (s, q) \<in> set (mPlayerMap sample_chat) \<and> hears sample_chat 0 q} = {7, 8}"
    by (auto simp: sample_chat_def chat_init_def hears_def sample_player_def blank_player_def in_grid_def
        SECTOR_CNT_X_def SECTOR_CNT_Y_def)
  have "\<exists>res targets. OnRecv_chat sample_env 7 (sample_packet (chat_message 107 [72, 0])) sample_chat =
      Some (sample_chat\<lparr>mRecvCount := mRecvCount sample_chat + 1, mJobCount := mJobCount sample_chat + 1\<rparr>,
            AAlloc # map (\<lambda>s. ASend s res) targets @ [AFreeResponse, AFreeRequest]) \<and>
    written res = chat_delivery (players sample_chat 0) [72, 0] \<and> distinct targets \<and>
    set targets = {s. \<exists>q. (s, q) \<in> set (mPlayerMap sample_chat) \<and> hears sample_chat 0 q}"
    by (rule chat_message_delivered [OF sample_chat_ok sample_env_ok, where pooled = "new_Packet 2048"])
      (simp_all add: acc(1) sample_received chat_message_def, simp_all add: sample_chat_def chat_init_def findPlayer_def
        sample_player_def in_grid_def SECTOR_CNT_X_def SECTOR_CNT_Y_def sample_env_def)
  then show ?thesis unfolding heard acc(2) by (simp add: sample_chat_def chat_init_def)
qed

lemma unauthenticated_session_contained_aux:
  assumes "chat_ok st" and "findPlayer sid st = Some p" and "\<not> mIsLoggedIn (players st p)"
    and "OnRecv_chat env sid packet st = Some (st', acts)" and "mIsLoggedIn (players st' p)"
  shows "\<exists>key. CompareAndDel env (to_string (unat (mAccountNo (players st' p)))) key (redis st) = (redis st', True)"
proof -
  obtain acts' where "confined env p st st' acts'" by (rule OnRecv_confined [OF assms(4,2)]) auto
  then show ?thesis using assms(3,5) by (simp add: confined_def Let_def)
qed



text \<open>A player has connected and its session key lies in Redis.\<close>

definition sample_key :: bytes where "sample_key = replicate 64 5"
definition sample_name :: wstr where "sample_name = [104, 105] @ replicate 18 0"

definition waiting_chat :: "(string \<Rightarrow> bytes option) chat" where
  "waiting_chat = OnClientJoin_chat sample_env 0 7 (chat_init ((\<lambda>_. None)(to_string 42 := Some sample_key)) (\<lambda>_. blank_player))"

lemma waiting_chat_ok: "chat_ok waiting_chat"
  unfolding waiting_chat_def by (rule join_ok [OF chat_init_ok [OF blank_player_ok]]) (simp add: chat_init_def)

lemma waiting_chat_simps [simp]:
  "findPlayer 7 waiting_chat = Some 0" "\<not> mIsLoggedIn (players waiting_chat 0)" "mSessionID_p (players waiting_chat 0) = 7"
  "redis waiting_chat = (\<lambda>_. None)(to_string 42 := Some sample_key)" "mPlayerMap waiting_chat = [(7, 0)]"
  by (simp_all add: waiting_chat_def OnClientJoin_chat_def Let_def upd_player_def chat_init_def findPlayer_def
      OnConnect_def Player_Clear_def)

lemma sample_login:
  obtains res where "OnRecv_chat sample_env 7 (sample_packet (login_message 42 sample_name sample_name sample_key)) waiting_chat =
    Some (waiting_chat\<lparr>mRecvCount := mRecvCount waiting_chat + 1, mJobCount := mJobCount waiting_chat + 1, redis := \<lambda>_. None,
         players := (players waiting_chat)(0 := logged_in sample_env 42 sample_name sample_name sample_key (players waiting_chat 0))\<rparr>,
       [AAlloc, ASend 7 res, AFreeResponse, AFreeRequest])"
proof -
  have l: "received (sample_packet (login_message 42 sample_name sample_name sample_key)) (login_message 42 sample_name sample_name sample_key)"
    by (rule sample_received) (simp add: login_message_def sample_name_def sample_key_def)
  have c: "CompareAndDel sample_env (to_string (unat (42 :: u64))) sample_key (redis waiting_chat) = (\<lambda>_. None, True)"
    by (simp add: CompareAndDel_def sample_env_def redis_script_def)
  have d: "dup_disconnects sample_env 42 7 waiting_chat = []"
    by (simp add: dup_disconnects_def duplicate_session_def sample_env_def)
  show ?thesis
    by (rule OnRecv_login_accepts [OF sample_env_ok, where st = waiting_chat and p = 0 and sid = 7 and acc = 42 and
          pid = sample_name and nick = sample_name and key = sample_key and r' = "\<lambda>_. None" and pooled = "new_Packet 2048"])
      (use l c d that in \<open>simp_all add: sample_name_def sample_key_def sample_env_def\<close>)
qed


text \<open>
  C17. A packet of a logged-in session cannot touch another player: it changes only its own player record
  and place, it never changes Redis or the account the session is logged in on, and it is sent only to the
  session itself and the sessions in its neighbourhood; nobody else is disconnected.
\<close>
theorem logged_in_session_contained:
  assumes "chat_ok st" and "findPlayer sid st = Some p" and "mIsLoggedIn (players st p)"
    and "OnRecv_chat env sid packet st = Some (st', acts)"
  shows "mPlayerMap st' = mPlayerMap st \<and> (\<forall>q. q \<noteq> p \<longrightarrow> players st' q = players st q) \<and> redis st' = redis st \<and>
    mIsLoggedIn (players st' p) \<and> mAccountNo (players st' p) = mAccountNo (players st p) \<and>
    disconnects acts \<subseteq> {sid} \<and> sends acts \<subseteq> insert sid {s. \<exists>q. (s, q) \<in> set (mPlayerMap st) \<and> hears st p q}"
proof -
  have self: "mSessionID_p (players st p) = sid" using chat_okD(5) [OF assms(1)] findPlayer_live [OF assms(2)] by blast
  obtain acts' where a: "acts = acts' @ [AFreeRequest]" "confined env p st st' acts'"
    by (rule OnRecv_confined [OF assms(4,2)]) auto
  have "broadcast_targets (players st p) (players st) (mSector st) = []" if "\<not> in_grid (players st p)"
    using that by (auto simp: broadcast_targets_def Let_def in_grid_def)
  then have "set (broadcast_targets (players st p) (players st) (mSector st)) \<subseteq> {s. \<exists>q. (s, q) \<in> set (mPlayerMap st) \<and> hears st p q}"
    using broadcast_targets_spec(2) [OF assms(1), of p] by (cases "in_grid (players st p)") auto
  then show ?thesis using a(2) assms(3) self by (auto simp: confined_def Let_def a(1))
qed

lemma logged_in_session_contained_witness:
  "\<exists>st' acts. OnRecv_chat sample_env 7 (sample_packet [9, 9]) sample_chat = Some (st', acts) \<and> disconnects acts \<subseteq> {7} \<and>
     players st' 1 = sample_player 8 4 4"
proof -
  have "packet_ok (sample_packet [9, 9])" using sample_received [of "[9, 9]"] by (simp add: received_def)
  then obtain st' acts where o: "OnRecv_chat sample_env 7 (sample_packet [9, 9]) sample_chat = Some (st', acts)"
    by (rule OnRecv_handled [OF sample_chat_ok sample_env_ok])
  have "findPlayer 7 sample_chat = Some 0" "mIsLoggedIn (players sample_chat 0)" "players sample_chat 1 = sample_player 8 4 4"
    by (simp_all add: sample_chat_def findPlayer_def sample_player_def)
  with logged_in_session_contained [OF sample_chat_ok _ _ o] o show ?thesis by auto
qed



text \<open>
  C19. Packets of the pool are given back: handling any packet, of a known session or not, whatever its
  content and whatever fails on the way, releases the request packet exactly once, as the last step, and
  gives back exactly as many response packets as it took.
\<close>
theorem packets_given_back:
  assumes "chat_ok st" and "env_ok env" and "packet_ok packet"
  shows "\<exists>st' acts. OnRecv_chat env sid packet st = Some (st', acts @ [AFreeRequest]) \<and> AFreeRequest \<notin> set acts \<and> balanced acts"
proof -
  obtain st' acts where o: "OnRecv_chat env sid packet st = Some (st', acts)" by (rule OnRecv_handled [OF assms]) auto
  show ?thesis
  proof (cases "findPlayer sid st")
    case None
    then have "acts = [ADisconnect sid InvalidPacket] @ [AFreeRequest]"
      using o by (auto simp: OnRecv_chat_def Let_def findPlayer_def bind_Some)
    then show ?thesis using o by (intro exI [of _ st'] exI [of _ "[ADisconnect sid InvalidPacket]"]) simp
  next
    case (Some p)
    obtain acts' where "acts = acts' @ [AFreeRequest]" "confined env p st st' acts'" "AFreeRequest \<notin> set acts'"
      by (rule OnRecv_confined [OF o Some]) auto
    then show ?thesis using o by (auto simp: confined_def Let_def)
  qed
qed

lemma packets_given_back_witness:
  "\<exists>st' acts. OnRecv_chat sample_env 8 (sample_packet [1]) sample_chat = Some (st', acts @ [AFreeRequest]) \<and> balanced acts"
proof -
  have "packet_ok (sample_packet [1])" using sample_received [of "[1]"] by (simp add: received_def)
  from packets_given_back [OF sample_chat_ok sample_env_ok this] show ?thesis by blast
qed

end
