(* ===== verification/Chat_Wire.thy ===== *)
theory Chat_Wire
  imports Server_Safety Chat_Behaviour
begin

text \<open>
  The chat server on its IOCP core: the send loop of \<open>ChatServer::broadcast\<close> run on the session table, from the
  packet of a client that chats to the bytes queued for those around it. The handler runs uninterrupted.
\<close>

section \<open>The loop\<close>

text \<open>A call is a session id, the thread's random state and what \<open>WSASend\<close> reports.\<close>

type_synonym send_call = "u64 \<times> u32 \<times> io_result"

fun send_all :: "nat \<Rightarrow> send_call list \<Rightarrow> server \<Rightarrow> (server \<times> bool list) option" where
  "send_all p [] srv = Some (srv, [])"
| "send_all p ((sid, rng, w) # calls) srv = do {
     (srv1, b, cbs) \<leftarrow> SendPacket sid p rng w srv;
     (srv2, bs) \<leftarrow> send_all p calls srv1;
     Some (srv2, b # bs) }"

definition broadcast_response :: "nat \<Rightarrow> send_call list \<Rightarrow> server \<Rightarrow> (server \<times> bool list) option" where
  "broadcast_response p calls srv = do {
     (srv1, bs) \<leftarrow> send_all p calls srv;
     Some (srv1\<lparr>net := SubRef_at p (net srv1)\<rparr>, bs) }"

section \<open>One packet for many sessions\<close>

text \<open>The packet carries the payload, plain before its first session and framed under one key from then on.\<close>

definition framed :: "packet \<Rightarrow> bytes \<Rightarrow> u8 \<Rightarrow> bool" where
  "framed pk payload key \<longleftrightarrow> (if mIsEncoding pk then written pk = frame_bytes key payload else drop 5 (written pk) = payload)"

definition served :: "server \<Rightarrow> server \<Rightarrow> u8 \<Rightarrow> bytes \<Rightarrow> send_call \<Rightarrow> bool \<Rightarrow> bool" where
  "served srv srv' key payload call ok \<longleftrightarrow>
     (case findSession srv (fst call) of
        None \<Rightarrow> \<not> ok
      | Some i \<Rightarrow>
          (if ok then outbound (mSessionListHead srv' ! i) (net srv') =
              outbound (mSessionListHead srv ! i) (net srv) @ frame_bytes key payload
           else released (mSessionListHead srv' ! i)) \<and>
          (snd (snd call) = Started \<and> \<not> released (mSessionListHead srv ! i) \<and>
             contents (sendRing (mSessionListHead srv ! i)) = [] \<longrightarrow> ok))"

definition others_kept :: "server \<Rightarrow> server \<Rightarrow> u64 set \<Rightarrow> bool" where
  "others_kept srv srv' sids \<longleftrightarrow> (\<forall>j. (\<forall>sid \<in> sids. findSession srv sid \<noteq> Some j) \<longrightarrow> mSessionListHead srv' ! j = mSessionListHead srv ! j)"

definition not_queued :: "server \<Rightarrow> nat \<Rightarrow> u64 set \<Rightarrow> bool" where
  "not_queued srv p sids \<longleftrightarrow> (\<forall>sid \<in> sids. \<forall>i. findSession srv sid = Some i \<longrightarrow> p \<notin> set (contents (sendRing (mSessionListHead srv ! i))))"

definition kept_bytes :: "nat \<Rightarrow> netstate \<Rightarrow> netstate \<Rightarrow> bool" where
  "kept_bytes p g g' \<longleftrightarrow> (\<forall>q. q \<noteq> p \<longrightarrow> written (heap g' q) = written (heap g q))"

lemma step_ok_find: "step_ok srv srv' \<Longrightarrow> server_ok srv \<Longrightarrow> findSession srv' sid = findSession srv sid"
  by (rule findSession_ids) (auto simp: step_ok_def same_ids_def server_ok_def)

lemma findSession_inj: "findSession srv s = Some i \<Longrightarrow> findSession srv t = Some i \<Longrightarrow> s = t"
  using findSession_Some by blast

lemma outbound_kept:
  assumes "kept_bytes p g g'" and "p \<in> set (contents (sendRing s)) \<longrightarrow> written (heap g' p) = written (heap g p)"
  shows "outbound s g' = outbound s g"
proof -
  have "written (heap g' q) = written (heap g q)" if "q \<in> set (contents (sendRing s))" for q
    using assms that by (cases "q = p") (auto simp: kept_bytes_def)
  then show ?thesis by (simp add: outbound_def cong: map_cong)
qed

text \<open>One call of SendPacket.\<close>

lemma encode_framed:
  assumes "sendable g p" and "framed (heap g p) payload key" and "encode_packet (heap g p) rng = Some (pk, rng')"
    and "same_bytes (g\<lparr>heap := (heap g)(p := pk)\<rparr>) g'"
  obtains key' where "framed (heap g' p) payload key'" "mIsEncoding (heap g' p)" "mIsEncoding (heap g p) \<longrightarrow> key' = key"
    "sendable g' p" "kept_bytes p g g'"
proof -
  have same: "written (heap g' p) = written pk" "mIsEncoding (heap g' p) = mIsEncoding pk" "kept_bytes p g g'"
    "sendable g' p = (packet_ok pk \<and> capacity pk = BUFFER_DEFAULT \<and> 5 \<le> mDataSize pk)"
    using assms(4) by (auto simp: same_bytes_def kept_bytes_def sendable_def)
  show ?thesis
  proof (cases "mIsEncoding (heap g p)")
    case True
    with assms(3) have "pk = heap g p" by (simp add: encode_packet_def)
    with True assms(1,2) same show ?thesis by (intro that [of key]) (simp_all add: framed_def sendable_def)
  next
    case False
    with assms(1,3) encode_packet_spec [of "heap g p" rng]
    have "written pk = frame_bytes (ucast (xorshift rng AND 0xFF)) (drop 5 (written (heap g p)))" "mIsEncoding pk" "packet_ok pk"
      "capacity pk = BUFFER_DEFAULT" "5 \<le> mDataSize pk"
      by (auto simp: sendable_def)
    with False assms(2) same show ?thesis
      by (intro that [of "ucast (xorshift rng AND 0xFF)"]) (simp_all add: framed_def)
  qed
qed

lemma SendPacket_framed:
  assumes "server_ok srv" and "sendable (net srv) p" and "framed (heap (net srv) p) payload key"
    and "not_queued srv p {sid}"
  obtains srv' b cbs key' where "SendPacket sid p rng w srv = Some (srv', b, cbs)" "step_ok srv srv'" "sendable (net srv') p"
    "framed (heap (net srv') p) payload key'" "mIsEncoding (heap (net srv) p) \<longrightarrow> key' = key \<and> mIsEncoding (heap (net srv') p)"
    "b \<longrightarrow> mIsEncoding (heap (net srv') p)" "kept_bytes p (net srv) (net srv')" "others_kept srv srv' {sid}"
    "served srv srv' key' payload (sid, rng, w) b"
proof -
  obtain srv' b cbs where s: "SendPacket sid p rng w srv = Some (srv', b, cbs)" "step_ok srv srv'"
    and sent: "b \<longrightarrow> (\<exists>i pk rng'. findSession srv sid = Some i \<and> encode_packet (heap (net srv) p) rng = Some (pk, rng') \<and>
       written (heap (net srv') p) = written pk \<and>
       outbound (mSessionListHead srv' ! i) (net srv') = k_wire (mSessionListHead srv ! i) @
         concat (map (\<lambda>q. written (((heap (net srv))(p := pk)) q)) (contents (sendRing (mSessionListHead srv ! i)) @ [p])))"
    and frame: "send_frame sid p rng srv srv' b" and rel: "\<forall>i. findSession srv sid = Some i \<longrightarrow> b \<or> released (mSessionListHead srv' ! i)"
    and starts: "\<forall>i. w = Started \<and> findSession srv sid = Some i \<and> \<not> released (mSessionListHead srv ! i) \<and>
       contents (sendRing (mSessionListHead srv ! i)) = [] \<longrightarrow> b"
    using SendPacket_effect [OF assms(1,2), of sid rng w] by blast
  obtain key' where k: "framed (heap (net srv') p) payload key'" "b \<longrightarrow> mIsEncoding (heap (net srv') p)"
    "mIsEncoding (heap (net srv) p) \<longrightarrow> key' = key \<and> mIsEncoding (heap (net srv') p)" "sendable (net srv') p" "kept_bytes p (net srv) (net srv')"
  proof (cases "\<not> b \<and> same_bytes (net srv) (net srv')")
    case True
    with assms(2,3) show ?thesis
      by (intro that [of key]) (auto simp: same_bytes_def framed_def sendable_def kept_bytes_def)
  next
    case False
    with frame obtain pk rng' where "encode_packet (heap (net srv) p) rng = Some (pk, rng')"
      "same_bytes ((net srv)\<lparr>heap := (heap (net srv))(p := pk)\<rparr>) (net srv')" unfolding send_frame_def by blast
    from encode_framed [OF assms(2,3) this] that show ?thesis by metis
  qed
  have "served srv srv' key' payload (sid, rng, w) b"
  proof (cases "findSession srv sid")
    case None
    with sent show ?thesis by (auto simp: served_def)
  next
    case (Some i)
    note find = Some
    show ?thesis
    proof (cases b)
      case False
      with find rel starts show ?thesis by (auto simp: served_def)
    next
      case True
      with sent find obtain pk where pk: "written (heap (net srv') p) = written pk"
        "outbound (mSessionListHead srv' ! i) (net srv') = k_wire (mSessionListHead srv ! i) @
         concat (map (\<lambda>q. written (((heap (net srv))(p := pk)) q)) (contents (sendRing (mSessionListHead srv ! i)) @ [p]))"
        by auto
      have "p \<notin> set (contents (sendRing (mSessionListHead srv ! i)))" using assms(4) find by (simp add: not_queued_def)
      then have "map (\<lambda>q. written (((heap (net srv))(p := pk)) q)) (contents (sendRing (mSessionListHead srv ! i))) =
          map (\<lambda>q. written (heap (net srv) q)) (contents (sendRing (mSessionListHead srv ! i)))"
        by (intro map_cong refl) auto
      then have "outbound (mSessionListHead srv' ! i) (net srv') = outbound (mSessionListHead srv ! i) (net srv) @ written pk"
        unfolding pk(2) map_append concat_append by (simp only: outbound_def) simp
      moreover have "written pk = frame_bytes key' payload" using k(1,2) True pk(1) by (simp add: framed_def)
      ultimately show ?thesis using True find by (simp add: served_def)
    qed
  qed
  moreover have "others_kept srv srv' {sid}" using frame by (simp add: send_frame_def others_kept_def)
  ultimately show ?thesis using that s k by blast
qed


text \<open>The loop over different sessions: each call is served, and later calls change nothing about it.\<close>

lemma served_later:
  assumes "served srv srv1 key1 payload (sid, rng, w) b" and "step_ok srv srv1" and "server_ok srv"
    and "kept_bytes p (net srv1) (net srv')" and "others_kept srv1 srv' sids" and "sid \<notin> sids"
    and "b \<longrightarrow> key' = key1 \<and> written (heap (net srv') p) = written (heap (net srv1) p)"
  shows "served srv srv' key' payload (sid, rng, w) b"
proof (cases "findSession srv sid")
  case None
  with assms(1) show ?thesis by (simp add: served_def)
next
  case (Some i)
  have "findSession srv1 sid = Some i" using Some step_ok_find [OF assms(2,3)] by simp
  with assms(6) have "\<forall>s \<in> sids. findSession srv1 s \<noteq> Some i" by (metis findSession_inj)
  with assms(5) have slot: "mSessionListHead srv' ! i = mSessionListHead srv1 ! i" by (simp add: others_kept_def)
  show ?thesis
  proof (cases b)
    case True
    then have "outbound (mSessionListHead srv1 ! i) (net srv') = outbound (mSessionListHead srv1 ! i) (net srv1)"
      using assms(7) by (intro outbound_kept [OF assms(4)]) simp
    with assms(1,7) True Some slot show ?thesis by (simp add: served_def)
  qed (use assms(1) Some slot in \<open>simp add: served_def\<close>)
qed

lemma served_earlier:
  assumes "served srv1 srv' key payload call b" and "step_ok srv srv1" and "server_ok srv"
    and "kept_bytes p (net srv) (net srv1)" and "others_kept srv srv1 {sid}" and "fst call \<noteq> sid" and "not_queued srv p {fst call}"
  shows "served srv srv' key payload call b"
proof (cases "findSession srv (fst call)")
  case None
  with assms(1) step_ok_find [OF assms(2,3)] show ?thesis by (simp add: served_def)
next
  case (Some i)
  with assms(5,6) have slot: "mSessionListHead srv1 ! i = mSessionListHead srv ! i"
    by (metis findSession_inj others_kept_def singletonD)
  have "outbound (mSessionListHead srv ! i) (net srv1) = outbound (mSessionListHead srv ! i) (net srv)"
    using assms(7) Some by (intro outbound_kept [OF assms(4)]) (simp add: not_queued_def)
  with assms(1) Some slot step_ok_find [OF assms(2,3)] show ?thesis by (simp add: served_def)
qed

lemma step_ok_trans: "step_ok srv srv1 \<Longrightarrow> step_ok srv1 srv2 \<Longrightarrow> step_ok srv srv2"
  by (simp add: step_ok_def same_ids_def)

lemma send_all_spec:
  assumes "server_ok srv" and "sendable (net srv) p" and "framed (heap (net srv) p) payload key"
    and "not_queued srv p (fst ` set calls)" and "distinct (map fst calls)"
  shows "\<exists>srv' oks key'. send_all p calls srv = Some (srv', oks) \<and> step_ok srv srv' \<and> sendable (net srv') p \<and>
    framed (heap (net srv') p) payload key' \<and> (mIsEncoding (heap (net srv) p) \<longrightarrow> key' = key \<and> mIsEncoding (heap (net srv') p)) \<and>
    kept_bytes p (net srv) (net srv') \<and> others_kept srv srv' (fst ` set calls) \<and> list_all2 (served srv srv' key' payload) calls oks"
  using assms
proof (induction calls arbitrary: srv key)
  case Nil
  then show ?case by (auto simp: step_ok_refl kept_bytes_def others_kept_def)
next
  case (Cons call calls)
  obtain sid rng w where c: "call = (sid, rng, w)" by (cases call) auto
  have nq: "not_queued srv p {sid}" "not_queued srv p (fst ` set calls)" using Cons.prems(4) by (auto simp: not_queued_def c)
  have fresh_sid: "sid \<notin> fst ` set calls" and dist: "distinct (map fst calls)" using Cons.prems(5) by (auto simp: c)
  obtain srv1 b cbs key1 where s1: "SendPacket sid p rng w srv = Some (srv1, b, cbs)" "step_ok srv srv1" "sendable (net srv1) p"
    "framed (heap (net srv1) p) payload key1" "mIsEncoding (heap (net srv) p) \<longrightarrow> key1 = key \<and> mIsEncoding (heap (net srv1) p)"
    "b \<longrightarrow> mIsEncoding (heap (net srv1) p)" "kept_bytes p (net srv) (net srv1)" "others_kept srv srv1 {sid}"
    "served srv srv1 key1 payload (sid, rng, w) b"
    by (rule SendPacket_framed [OF Cons.prems(1-3) nq(1)])
  have ok1: "server_ok srv1" using s1(2) by (simp add: step_ok_def)
  note find1 = step_ok_find [OF s1(2) Cons.prems(1)]
  have slot: "mSessionListHead srv1 ! i = mSessionListHead srv ! i" if "s \<in> fst ` set calls" "findSession srv s = Some i" for s i
    using s1(8) that fresh_sid by (metis findSession_inj others_kept_def singletonD)
  have "not_queued srv1 p (fst ` set calls)"
    using nq(2) slot by (simp add: not_queued_def find1)
  from Cons.IH [OF ok1 s1(3,4) this dist] obtain srv2 oks key2 where s2: "send_all p calls srv1 = Some (srv2, oks)"
    "step_ok srv1 srv2" "sendable (net srv2) p" "framed (heap (net srv2) p) payload key2"
    "mIsEncoding (heap (net srv1) p) \<longrightarrow> key2 = key1 \<and> mIsEncoding (heap (net srv2) p)"
    "kept_bytes p (net srv1) (net srv2)" "others_kept srv1 srv2 (fst ` set calls)"
    "list_all2 (served srv1 srv2 key2 payload) calls oks" by blast
  have first: "served srv srv2 key2 payload (sid, rng, w) b"
  proof (rule served_later [OF s1(9,2) Cons.prems(1) s2(6,7) fresh_sid])
    show "b \<longrightarrow> key2 = key1 \<and> written (heap (net srv2) p) = written (heap (net srv1) p)"
      using s1(4,6) s2(4,5) by (auto simp: framed_def)
  qed
  have "served srv srv2 key2 payload d ok" if "d \<in> set calls" "served srv1 srv2 key2 payload d ok" for d ok
    using that(1) fresh_sid nq(2) by (intro served_earlier [OF that(2) s1(2) Cons.prems(1) s1(7,8)]) (auto simp: not_queued_def)
  then have rest: "list_all2 (served srv srv2 key2 payload) calls oks"
    using s2(8) by (auto simp: list_all2_conv_all_nth)
  have "others_kept srv srv2 (fst ` set (call # calls))"
    using s1(8) s2(7) by (auto simp: others_kept_def find1 c)
  moreover have "kept_bytes p (net srv) (net srv2)" using s1(7) s2(6) by (simp add: kept_bytes_def)
  moreover have "send_all p (call # calls) srv = Some (srv2, b # oks)" using s1(1) s2(1) by (simp add: c)
  moreover have "mIsEncoding (heap (net srv) p) \<longrightarrow> key2 = key \<and> mIsEncoding (heap (net srv2) p)" using s1(5) s2(5) by simp
  ultimately show ?case using first rest s2(3,4) step_ok_trans [OF s1(2) s2(2)]
    by (intro exI [of _ srv2] exI [of _ "b # oks"] exI [of _ key2]) (simp add: c)
qed


section \<open>From a chat message to the bytes of those who hear it\<close>

text \<open>What a client with the parser of NetLib reads once all the bytes queued for it have arrived.\<close>

definition reads :: "server \<Rightarrow> u64 \<Rightarrow> bytes list \<Rightarrow> bool" where
  "reads srv sid payloads \<longleftrightarrow> (\<exists>i. findSession srv sid = Some i \<and>
     stream_parse RECV_RINGBUFFER_SIZE (outbound (mSessionListHead srv ! i) (net srv)) = (payloads, [], None))"

lemma served_reads:
  assumes "served srv srv' key payload call True" and "reads srv (fst call) ps" and "payload_ok payload"
    and "findSession srv' (fst call) = findSession srv (fst call)"
  shows "reads srv' (fst call) (ps @ [payload])"
proof -
  obtain i where i: "findSession srv (fst call) = Some i"
    "stream_parse RECV_RINGBUFFER_SIZE (outbound (mSessionListHead srv ! i) (net srv)) = (ps, [], None)"
    using assms(2) by (auto simp: reads_def)
  have "BUFFER_DEFAULT \<le> RECV_RINGBUFFER_SIZE" by (simp add: BUFFER_DEFAULT_def RECV_RINGBUFFER_SIZE_def)
  then have "stream_parse RECV_RINGBUFFER_SIZE (frame_bytes key payload) = ([payload], [], None)"
    using stream_parse_frame [OF assms(3), of RECV_RINGBUFFER_SIZE key "[]"] wire.cut_nil [of RECV_RINGBUFFER_SIZE] by simp
  with i assms(1,4) wire.cut_append [OF i(2), of "frame_bytes key payload"] show ?thesis
    by (simp add: reads_def served_def)
qed

lemma total_owned_0:
  assumes "total_owned srv p = 0" and "i < length (mSessionListHead srv)"
  shows "p \<notin> set (contents (sendRing (mSessionListHead srv ! i)))"
proof -
  have nn: "\<forall>x \<in> set (map (\<lambda>s. owned s p) (mSessionListHead srv)). 0 \<le> x" by (auto simp: owned_def)
  have "owned (mSessionListHead srv ! i) p \<le> (\<Sum>s\<leftarrow>mSessionListHead srv. owned s p)"
    using nn assms(2) by (intro member_le_sum_list) auto
  then have "count_list (contents (sendRing (mSessionListHead srv ! i))) p = 0"
    using assms(1) by (simp add: total_owned_def owned_def split: if_splits)
  then show ?thesis by (simp add: count_list_0_iff)
qed

lemma loose_SubRef_at: "loose (srv\<lparr>net := SubRef_at p (net srv)\<rparr>) p = loose srv p - 1"
  by (simp add: loose_def total_owned_def refcnt_SubRef_at)

lemma served_SubRef: "served srv (srv'\<lparr>net := SubRef_at p (net srv')\<rparr>) = served srv srv'"
proof -
  have "outbound s (SubRef_at p g) = outbound s g" for s g
    using same_bytes_SubRef_at [of g p] by (simp add: outbound_def same_bytes_def)
  then show ?thesis by (simp add: served_def fun_eq_iff split: option.splits)
qed

lemma broadcast_response_spec:
  assumes "server_ok srv" and "heap (net srv) p = res" and "ready_response res" and "drop 5 (written res) = payload"
    and "total_owned srv p = 0" and "distinct (map fst calls)"
  obtains srv' oks key where "broadcast_response p calls srv = Some (srv', oks)" "server_ok srv'"
    "list_all2 (served srv srv' key payload) calls oks" "others_kept srv srv' (fst ` set calls)"
    "refcnt (net srv') p = total_owned srv' p" "\<And>sid. findSession srv' sid = findSession srv sid" "kept_bytes p (net srv) (net srv')"
proof -
  have se: "sendable (net srv) p" "framed (heap (net srv) p) payload 0"
    using assms(2-4) by (simp_all add: sendable_def ready_response_def framed_def)
  have nq: "not_queued srv p (fst ` set calls)"
    using total_owned_0 [OF assms(5)] found_live(1) [OF assms(1)] assms(1) by (auto simp: not_queued_def server_ok_def)
  obtain srv1 oks key where s: "send_all p calls srv = Some (srv1, oks)" "step_ok srv srv1" "kept_bytes p (net srv) (net srv1)"
    "others_kept srv srv1 (fst ` set calls)" "list_all2 (served srv srv1 key payload) calls oks"
    using send_all_spec [OF assms(1) se nq assms(6)] by blast
  define srv' where "srv' = srv1\<lparr>net := SubRef_at p (net srv1)\<rparr>"
  have "server_ok srv'" using s(2) by (simp add: srv'_def step_ok_def server_ok_def)
  moreover have "refcnt (net srv') p = total_owned srv' p"
  proof -
    have "loose srv p = 1" using assms(2,3,5) by (simp add: loose_def refcnt_def ready_response_def)
    then have "loose srv' p = 0" using s(2) by (simp add: srv'_def loose_SubRef_at step_ok_def)
    then show ?thesis by (simp add: loose_def)
  qed
  moreover have "findSession srv' sid = findSession srv sid" for sid
    unfolding step_ok_find [OF s(2) assms(1), symmetric] by (simp add: srv'_def findSession_def Let_def)
  moreover have "kept_bytes p (net srv) (net srv')"
    using s(3) same_bytes_SubRef_at [of "net srv1" p] by (simp add: srv'_def kept_bytes_def same_bytes_def)
  moreover have "others_kept srv srv' (fst ` set calls)" using s(4) by (simp add: srv'_def others_kept_def)
  ultimately show ?thesis using s(1,5) served_SubRef [of srv p srv1]
    by (intro that [of srv' oks key]) (simp_all add: broadcast_response_def srv'_def)
qed


lemma payload_ok_response:
  assumes "ready_response res" and "written res = chat_delivery pl body"
  shows "payload_ok (drop 5 (chat_delivery pl body))"
proof -
  have "length (written res) \<le> 2048"
    using assms(1) by (auto simp: ready_response_def packet_ok_def capacity_def written_def BUFFER_DEFAULT_def)
  then have "length (drop 5 (chat_delivery pl body)) \<le> 2043" by (simp add: assms(2))
  moreover have "drop 5 (chat_delivery pl body) \<noteq> []" by (simp add: chat_delivery_def le_bytes_2)
  ultimately show ?thesis by (simp add: payload_ok_def BUFFER_DEFAULT_def)
qed

text \<open>What a broadcast of \<open>payload\<close> in packet \<open>r\<close> leaves behind.\<close>

definition reaches :: "nat \<Rightarrow> send_call list \<Rightarrow> bytes \<Rightarrow> server \<Rightarrow> bool" where
  "reaches r calls payload srv \<longleftrightarrow> (\<exists>srv' oks key. broadcast_response r calls srv = Some (srv', oks) \<and>
     list_all2 (served srv srv' key payload) calls oks \<and>
     list_all2 (\<lambda>call ok. ok \<longrightarrow> (\<forall>ps. reads srv (fst call) ps \<longrightarrow> reads srv' (fst call) (ps @ [payload]))) calls oks \<and>
     (\<forall>j < DEFAULT_MAX_CONNECTION. (\<forall>sid \<in> fst ` set calls. findSession srv sid \<noteq> Some j) \<longrightarrow>
        mSessionListHead srv' ! j = mSessionListHead srv ! j \<and>
        outbound (mSessionListHead srv' ! j) (net srv') = outbound (mSessionListHead srv ! j) (net srv)) \<and>
     refcnt (net srv') r = total_owned srv' r)"

lemma response_reaches:
  assumes "server_ok srv" and "heap (net srv) r = res" and "ready_response res" and "drop 5 (written res) = payload"
    and "total_owned srv r = 0" and "distinct (map fst calls)" and "payload_ok payload"
  shows "reaches r calls payload srv"
proof -
  obtain srv' oks key where b: "broadcast_response r calls srv = Some (srv', oks)" "list_all2 (served srv srv' key payload) calls oks"
    "others_kept srv srv' (fst ` set calls)" "refcnt (net srv') r = total_owned srv' r"
    "\<And>s. findSession srv' s = findSession srv s" "kept_bytes r (net srv) (net srv')"
    by (rule broadcast_response_spec [OF assms(1-6)]) blast
  have "list_all2 (\<lambda>call ok. ok \<longrightarrow> (\<forall>ps. reads srv (fst call) ps \<longrightarrow> reads srv' (fst call) (ps @ [payload]))) calls oks"
    using b(2) served_reads [OF _ _ assms(7) b(5)] by (auto elim!: list_all2_mono)
  moreover have "outbound (mSessionListHead srv ! j) (net srv') = outbound (mSessionListHead srv ! j) (net srv)"
    if "j < DEFAULT_MAX_CONNECTION" for j
    using total_owned_0 [OF assms(5), of j] that assms(1) by (intro outbound_kept [OF b(6)]) (simp add: server_ok_def)
  ultimately show ?thesis using b(1-4) unfolding reaches_def others_kept_def by force
qed

text \<open>
  C0. A chat message reaches the wire of everyone who hears it. For a valid message of a logged-in player the
  handler sends one response to exactly the logged-in players around him; in every state of the server in which
  the response lies in a packet fresh from the pool, the send loop of broadcast ends and leaves for each of them
  one of three outcomes: the session is gone, or it is being shut down, or its bytes are extended by the frame of
  the message, under one key for all, so that a client who has read the messages before reads this one next. A
  session that is idle and whose send starts gets it. No other session or its bytes change, and
  only the send queues are left holding the packet.
\<close>

theorem chat_message_on_the_wire:
  assumes "chat_ok st" and "env_ok env" and "findPlayer sid st = Some p" and "mIsLoggedIn (players st p)"
    and "in_grid (players st p)" and "packetAlloc env = Some pooled"
    and "received packet (chat_message (mAccountNo (players st p)) body)"
    and "even (length body)" and "0 < length body" and "length body \<le> 1024"
  shows "\<exists>res targets st'. OnRecv_chat env sid packet st =
      Some (st', AAlloc # map (\<lambda>s. ASend s res) targets @ [AFreeResponse, AFreeRequest]) \<and>
    distinct targets \<and> set targets = {s. \<exists>q. (s, q) \<in> set (mPlayerMap st) \<and> hears st p q} \<and>
    (\<forall>g srv r calls. server_run (server_init g) srv \<and> heap (net srv) r = res \<and> total_owned srv r = 0 \<and> map fst calls = targets \<longrightarrow>
       reaches r calls (drop 5 (chat_delivery (players st p) body)) srv)"
proof -
  obtain res targets where a: "OnRecv_chat env sid packet st = Some (st\<lparr>mRecvCount := mRecvCount st + 1, mJobCount := mJobCount st + 1\<rparr>,
      AAlloc # map (\<lambda>s. ASend s res) targets @ [AFreeResponse, AFreeRequest])"
    "written res = chat_delivery (players st p) body" "ready_response res" "distinct targets"
    "set targets = {s. \<exists>q. (s, q) \<in> set (mPlayerMap st) \<and> hears st p q}"
    using chat_message_actions [OF assms] by blast
  have "reaches r calls (drop 5 (chat_delivery (players st p) body)) srv"
    if "server_run (server_init g) srv" "heap (net srv) r = res" "total_owned srv r = 0" "map fst calls = targets" for g srv r calls
    using response_reaches [OF server_run_ok [OF that(1) server_init_ok] that(2) a(3) _ that(3) _ payload_ok_response [OF a(3,2)]]
    by (simp add: that(4) a(2,4))
  with a(1,4,5) show ?thesis by blast
qed

text \<open>One player on the first session, who hears himself.\<close>

definition wire_chat :: "(string \<Rightarrow> bytes option) chat" where
  "wire_chat = (chat_init (\<lambda>_. None) (\<lambda>_. blank_player))
     \<lparr>players := (\<lambda>_. blank_player)(0 := sample_player first_id 3 4), mPlayerMap := [(first_id, 0)], mPlayerCount := 1,
      mSector := set_sector (\<lambda>y x. []) 4 3 [0]\<rparr>"

lemma wire_chat_ok: "chat_ok wire_chat"
proof (rule chat_okI)
  show "grid_ok (live wire_chat) (players wire_chat) (mSector wire_chat)"
    by (auto simp: grid_ok_def wire_chat_def chat_init_def set_sector_def sample_player_def in_grid_def
        SECTOR_CNT_X_def SECTOR_CNT_Y_def)
qed (auto simp: wire_chat_def chat_init_def sample_player_def arrays_ok_def blank_player_def names_ok_def wcs_def)

lemma one_client_owns: "total_owned (one_client g) r = 0"
proof -
  have idle: "owned new_Session r = 0"
    using new_RingBuffer_ok [of SEND_RINGBUFFER_SIZE "0 :: nat"] by (simp add: owned_def new_Session_def SEND_RINGBUFFER_SIZE_def)
  have "accept_connection 5 True (server_init g) = (one_client g, snd (accept_connection 5 True (server_init g)))"
    by (simp add: one_client_def)
  then obtain j cbs where "accept_connection 5 True (server_init g) = (one_client g, j, cbs)" by (metis prod.collapse)
  from accept_connection_step [OF server_init_ok this] have "loose (one_client g) r = loose (server_init g) r" by blast
  with idle show ?thesis by (simp add: loose_def one_client_net) (simp add: server_init_def total_owned_def sum_list_replicate)
qed

lemma chat_message_on_the_wire_witness:
  "\<exists>res srv'. broadcast_response 3 [(first_id, 7, Started)] (one_client (sample_net\<lparr>heap := \<lambda>_. res\<rparr>)) = Some (srv', [True]) \<and>
     reads srv' first_id [drop 5 (chat_delivery (sample_player first_id 3 4) [72, 0])]"
proof -
  let ?pl = "sample_player first_id 3 4" let ?pay = "drop 5 (chat_delivery ?pl [72, 0])"
  have pl: "players wire_chat 0 = ?pl" by (simp add: wire_chat_def)
  have heard: "{s. \<exists>q. (s, q) \<in> set (mPlayerMap wire_chat) \<and> hears wire_chat 0 q} = {first_id}"
    by (auto simp: wire_chat_def chat_init_def hears_def sample_player_def blank_player_def in_grid_def
        SECTOR_CNT_X_def SECTOR_CNT_Y_def)
  have acc: "mAccountNo (players wire_chat 0) = first_id + 100" by (simp add: pl sample_player_def)
  have h: "findPlayer first_id wire_chat = Some 0" "mIsLoggedIn (players wire_chat 0)" "in_grid (players wire_chat 0)"
    "packetAlloc sample_env = Some (new_Packet 2048)"
    "received (sample_packet (chat_message (first_id + 100) [72, 0])) (chat_message (mAccountNo (players wire_chat 0)) [72, 0])"
    by (simp add: wire_chat_def findPlayer_def, simp_all add: acc sample_received chat_message_def)
      (simp_all add: wire_chat_def sample_player_def in_grid_def SECTOR_CNT_X_def SECTOR_CNT_Y_def sample_env_def)
  have e: "even (length [72 :: u8, 0])" "0 < length [72 :: u8, 0]" "length [72 :: u8, 0] \<le> 1024" by simp_all
  have "\<exists>res targets st'. OnRecv_chat sample_env first_id (sample_packet (chat_message (first_id + 100) [72, 0])) wire_chat =
      Some (st', AAlloc # map (\<lambda>s. ASend s res) targets @ [AFreeResponse, AFreeRequest]) \<and>
    distinct targets \<and> set targets = {first_id} \<and>
    (\<forall>g srv r calls. server_run (server_init g) srv \<and> heap (net srv) r = res \<and> total_owned srv r = 0 \<and> map fst calls = targets \<longrightarrow>
       reaches r calls ?pay srv)"
    using chat_message_on_the_wire [OF wire_chat_ok sample_env_ok h e] unfolding heard pl .
  then obtain res targets where w: "distinct targets" "set targets = {first_id}"
    "\<And>g srv r calls. server_run (server_init g) srv \<Longrightarrow> heap (net srv) r = res \<Longrightarrow> total_owned srv r = 0 \<Longrightarrow> map fst calls = targets \<Longrightarrow>
       reaches r calls ?pay srv"
    by blast
  have t: "map fst [(first_id, 7 :: u32, Started)] = targets" using w(1,2) by (cases targets; cases "tl targets") auto
  define g where "g = sample_net\<lparr>heap := \<lambda>_. res\<rparr>"
  let ?srv = "one_client g" let ?s = "mSessionListHead ?srv ! 127"
  have s: "contents (sendRing ?s) = []" "\<not> released ?s" "k_wire ?s = []"
    using new_RingBuffer_ok [of SEND_RINGBUFFER_SIZE "0 :: nat"] ClearBuffer_ok(2) [of "new_RingBuffer SEND_RINGBUFFER_SIZE (0 :: nat)"]
    by (simp_all add: one_client_slot Session_Init_def new_Session_def released_def SEND_RINGBUFFER_SIZE_def)
  have "heap (net ?srv) 3 = res" by (simp add: one_client_net g_def)
  from w(3) [OF one_client_run this one_client_owns t]
  obtain srv' oks key where
    b: "broadcast_response 3 [(first_id, 7, Started)] ?srv = Some (srv', oks)" "list_all2 (served ?srv srv' key ?pay) [(first_id, 7, Started)] oks"
    "list_all2 (\<lambda>call ok. ok \<longrightarrow> (\<forall>ps. reads ?srv (fst call) ps \<longrightarrow> reads srv' (fst call) (ps @ [?pay]))) [(first_id, 7 :: u32, Started)] oks"
    unfolding reaches_def by blast
  have oks: "oks = [True]" using b(2) s one_client_found [of g] by (cases oks) (auto simp: served_def)
  have "reads ?srv first_id []"
    using s one_client_found [of g] wire.cut_nil [of RECV_RINGBUFFER_SIZE] by (simp add: reads_def outbound_def)
  moreover have "\<forall>ps. reads ?srv first_id ps \<longrightarrow> reads srv' first_id (ps @ [?pay])" using b(3) oks by simp
  ultimately have "reads srv' first_id ([] @ [?pay])" by blast
  then have "reads srv' first_id [?pay]" unfolding append_Nil .
  then show ?thesis using b(1) oks unfolding g_def by blast
qed

end
