(* ===== verification/Chat_Sessions.thy ===== *)
theory Chat_Sessions
  imports Chat_Behaviour
begin

text \<open>
  Properties of whole runs of the chat server: a session key is good for one login, a third quick
  login leaves two sessions on one account, the timeout check reports every session once.
\<close>

section \<open>Session keys are used once\<close>

text \<open>Different accounts have different keys in Redis.\<close>

fun of_string :: "string \<Rightarrow> nat \<Rightarrow> nat" where
  "of_string [] a = a"
| "of_string (c # cs) a = of_string cs (10 * a + (of_char c - 48))"

lemma of_string_append: "of_string (xs @ ys) a = of_string ys (of_string xs a)"
  by (induction xs arbitrary: a) simp_all

lemma of_string_to_string: "of_string (to_string n) 0 = n"
proof (induction n rule: to_string.induct)
  case (1 n)
  show ?case
  proof (cases "n < 10")
    case True
    then show ?thesis by (simp add: to_string.simps [of n])
  next
    case False
    have "48 + n mod 10 < 256" by (simp add: less_imp_le_nat trans_less_add1)
    then have "(of_char (char_of (48 + n mod 10) :: char) :: nat) = 48 + n mod 10" by simp
    then show ?thesis using False 1 by (simp add: to_string.simps [of n] of_string_append)
  qed
qed

lemma to_string_inj: "to_string m = to_string n \<longleftrightarrow> m = n"
  by (metis of_string_to_string)

text \<open>A call after which an absent key is still absent: Redis runs the script, and nobody issues the key again.\<close>

fun no_issue :: "string \<Rightarrow> (string \<Rightarrow> bytes option) chat_call \<Rightarrow> bool" where
  "no_issue k (Recv env sid packet) \<longleftrightarrow> evalScript env = redis_script"
| "no_issue k (Issue f) \<longleftrightarrow> (\<forall>r. r k = None \<longrightarrow> f r k = None)"
| "no_issue k _ \<longleftrightarrow> True"

lemma script_matched:
  assumes "evalScript env = redis_script" and "CompareAndDel env k key r = (r', b)"
  shows "b \<Longrightarrow> r k = Some key \<and> r' = r(k := None)" "\<not> b \<Longrightarrow> r' = r"
  using assms by (auto simp: CompareAndDel_def redis_script_def split: if_splits)

definition timeout_frame :: "'r chat \<Rightarrow> 'r chat \<Rightarrow> bool" where
  "timeout_frame s t \<longleftrightarrow> mPlayerMap t = mPlayerMap s \<and> redis t = redis s \<and>
     (\<forall>q. (players t q)\<lparr>mTimeoutLogged := False\<rparr> = (players s q)\<lparr>mTimeoutLogged := False\<rparr>)"

lemma timeout_frameD:
  assumes "timeout_frame s t"
  shows "mPlayerMap t = mPlayerMap s" "redis t = redis s" "mIsLoggedIn (players t q) = mIsLoggedIn (players s q)"
    "mAccountNo (players t q) = mAccountNo (players s q)" "mWillDelete (players t q) = mWillDelete (players s q)"
proof -
  have "(players t q)\<lparr>mTimeoutLogged := False\<rparr> = (players s q)\<lparr>mTimeoutLogged := False\<rparr>" using assms by (simp add: timeout_frame_def)
  then show "mIsLoggedIn (players t q) = mIsLoggedIn (players s q)" "mAccountNo (players t q) = mAccountNo (players s q)"
    "mWillDelete (players t q) = mWillDelete (players s q)"
    by (cases "players t q"; cases "players s q"; simp)+
qed (use assms in \<open>simp_all add: timeout_frame_def\<close>)

text \<open>One player of the timeout check.\<close>

definition check_one :: "u64 \<Rightarrow> u64 \<times> nat \<Rightarrow> 'r chat \<Rightarrow> 'r chat" where
  "check_one now = (\<lambda>(sid, p) s.
     if mWillDelete (players s p) then s
     else (case CheckTimeOutSnapshot now (players s p) of (pl, snap) \<Rightarrow>
       s\<lparr>players := (players s)(p := pl), timeoutCount := timeoutCount s + (if expired snap \<and> firstReport snap then 1 else 0)\<rparr>))"

lemma CheckTimeOut_fold:
  "CheckTimeOut env st = fold (check_one (tick env)) (iterOrder env (mPlayerMap st)) (st\<lparr>mCheckHeartCount := mCheckHeartCount st + 1\<rparr>)"
  by (simp add: CheckTimeOut_def check_one_def)

lemma check_one_frame: "timeout_frame s (check_one now x s)"
  by (simp add: timeout_frame_def check_one_def CheckTimeOutSnapshot_def Let_def case_prod_unfold)

lemma CheckTimeOut_frame: "timeout_frame st (CheckTimeOut env st)"
proof -
  have "timeout_frame s (fold (check_one now) xs s)" for xs now and s :: "'a chat"
  proof (induction xs arbitrary: s)
    case (Cons x xs)
    then show ?case using check_one_frame [of s now x] Cons [of "check_one now x s"] by (simp add: timeout_frame_def)
  qed (simp add: timeout_frame_def)
  from this [of "st\<lparr>mCheckHeartCount := mCheckHeartCount st + 1\<rparr>" "tick env" "iterOrder env (mPlayerMap st)"]
  show ?thesis by (simp add: CheckTimeOut_fold timeout_frame_def)
qed

definition account_session :: "u64 \<Rightarrow> 'r chat \<Rightarrow> (u64 \<times> nat) \<Rightarrow> bool" where
  "account_session acc st = (\<lambda>(sid, p). (sid, p) \<in> set (mPlayerMap st) \<and> mIsLoggedIn (players st p) \<and> mAccountNo (players st p) = acc)"

lemma no_new_session:
  assumes "chat_ok st" and "call_ok c st" and "chat_step c st = Some (st', acts)"
    and "no_issue (to_string (unat acc)) c" and "redis st (to_string (unat acc)) = None"
  shows "redis st' (to_string (unat acc)) = None \<and> (\<forall>e. account_session acc st' e \<longrightarrow> account_session acc st e)"
proof (cases c)
  case (Join env p sid)
  then show ?thesis using assms
    by (auto simp: account_session_def OnClientJoin_chat_def Let_def upd_player_def OnConnect_def Player_Clear_def
        split: if_splits option.splits)
next
  case (Leave sid)
  then show ?thesis using assms
    by (auto simp: account_session_def OnClientLeave_chat_def Let_def upd_player_def split: if_splits option.splits)
next
  case (Timeout env)
  have e: "st' = CheckTimeOut env st" using Timeout assms(3) by simp
  note f = timeout_frameD [OF CheckTimeOut_frame [of st env]]
  show ?thesis unfolding e using assms(5) by (simp add: f(2) account_session_def f(1,3,4))
next
  case (Issue f)
  then show ?thesis using assms by (auto simp: account_session_def)
next
  case (Recv env sid packet)
  show ?thesis
  proof (cases "findPlayer sid st")
    case None
    then have "redis st' = redis st" "mPlayerMap st' = mPlayerMap st" "players st' = players st"
      using Recv assms(3) by (auto simp: OnRecv_chat_def Let_def findPlayer_def bind_Some)
    then show ?thesis using assms(5) by (simp add: account_session_def)
  next
    case (Some p)
    have o: "OnRecv_chat env sid packet st = Some (st', acts)" using Recv assms(3) by simp
    obtain a where c: "confined env p st st' a" by (rule OnRecv_confined [OF o Some]) auto
    have ev: "evalScript env = redis_script" using Recv assms(4) by simp
    have same: "players st' q = players st q" if "q \<noteq> p" for q using c that by (simp add: confined_def Let_def)
    have m: "mPlayerMap st' = mPlayerMap st" using c by (simp add: confined_def Let_def)
    consider (inside) "mIsLoggedIn (players st p)" "mIsLoggedIn (players st' p)" "redis st' = redis st" "mAccountNo (players st' p) = mAccountNo (players st p)"
      | (new) key where "mIsLoggedIn (players st' p)"
        "CompareAndDel env (to_string (unat (mAccountNo (players st' p)))) key (redis st) = (redis st', True)"
      | (outside) "\<not> mIsLoggedIn (players st' p)" "redis st' = redis st"
      using c script_matched(2) [OF ev] by (auto simp: confined_def Let_def split: if_splits)
    then show ?thesis
    proof cases
      case inside
      then show ?thesis using same m assms(5) by (auto simp: account_session_def; metis)
    next
      case new
      note r = script_matched(1) [OF ev new(2)]
      then have ne: "mAccountNo (players st' p) \<noteq> acc" using assms(5) by auto
      then show ?thesis using r same m assms(5) by (auto simp: account_session_def; metis)
    next
      case outside
      then show ?thesis using same m assms(5) by (auto simp: account_session_def; metis)
    qed
  qed
qed

text \<open>
  C15. A session key is good for one login. When a packet logs a session in, the key of its account was in
  Redis and is deleted, the keys of all other accounts are untouched, and in every later run in which
  nobody issues a new key for the account, no further session becomes logged in on it.
\<close>
theorem session_key_single_use:
  assumes "chat_ok st" and "calls_ok (Recv env sid packet # cs) st" and "evalScript env = redis_script"
    and "findPlayer sid st = Some p" and "\<not> mIsLoggedIn (players st p)"
    and "OnRecv_chat env sid packet st = Some (st1, a1)" and "mIsLoggedIn (players st1 p)" and "mAccountNo (players st1 p) = acc"
    and "list_all (no_issue (to_string (unat acc))) cs" and "chat_run cs st1 = Some (st2, a2)"
  shows "redis st (to_string (unat acc)) \<noteq> None \<and> redis st1 (to_string (unat acc)) = None \<and>
    (\<forall>acc'. acc' \<noteq> acc \<longrightarrow> redis st1 (to_string (unat acc')) = redis st (to_string (unat acc'))) \<and>
    (\<forall>e. account_session acc st2 e \<longrightarrow> account_session acc st1 e)"
proof -
  let ?k = "to_string (unat acc)"
  obtain key where "CompareAndDel env ?k key (redis st) = (redis st1, True)"
    using unauthenticated_session_contained_aux [OF assms(1,4,5,6,7)] assms(8) by blast
  note r = script_matched(1) [OF assms(3) this, simplified]
  have ok1: "chat_ok st1" "calls_ok cs st1"
    using assms(1,2,6) chat_step_ok [of st "Recv env sid packet"] by auto
  have "\<forall>e. account_session acc st2 e \<longrightarrow> account_session acc s e"
    if "chat_ok s" "calls_ok cs' s" "list_all (no_issue ?k) cs'" "redis s ?k = None" "chat_run cs' s = Some (st2, b)" for cs' s b
    using that
  proof (induction cs' arbitrary: s b)
    case (Cons c cs')
    obtain s' b1 b2 where s': "chat_step c s = Some (s', b1)" "chat_run cs' s' = Some (st2, b2)"
      using Cons.prems(5) by (auto simp: bind_Some)
    have n: "redis s' ?k = None" "\<forall>e. account_session acc s' e \<longrightarrow> account_session acc s e"
      using no_new_session [OF Cons.prems(1) _ s'(1) _ Cons.prems(4)] Cons.prems(2,3) by auto
    have "chat_ok s'" using chat_step_ok [OF Cons.prems(1), of c] Cons.prems(2) s'(1) by auto
    then show ?case using Cons.IH [OF _ _ _ n(1) s'(2)] Cons.prems(2,3) s'(1) n(2) by auto
  qed simp
  from this [OF ok1 assms(9) _ assms(10)] have "\<forall>e. account_session acc st2 e \<longrightarrow> account_session acc st1 e" using r by simp
  then show ?thesis using r by (auto simp: to_string_inj simp flip: word_unat_eq_iff)
qed

lemma session_key_single_use_witness:
  "\<exists>st1 a1. OnRecv_chat sample_env 7 (sample_packet (login_message 42 sample_name sample_name sample_key)) waiting_chat = Some (st1, a1) \<and>
     redis waiting_chat (to_string 42) \<noteq> None \<and> redis st1 (to_string 42) = None \<and>
     (\<forall>e. account_session 42 (OnClientJoin_chat sample_env 5 6 st1) e \<longrightarrow> account_session 42 st1 e)"
proof (rule sample_login)
  let ?packet = "sample_packet (login_message 42 sample_name sample_name sample_key)"
  fix res
  assume r: "OnRecv_chat sample_env 7 ?packet waiting_chat =
    Some (waiting_chat\<lparr>mRecvCount := mRecvCount waiting_chat + 1, mJobCount := mJobCount waiting_chat + 1, redis := \<lambda>_. None,
         players := (players waiting_chat)(0 := logged_in sample_env 42 sample_name sample_name sample_key (players waiting_chat 0))\<rparr>,
       [AAlloc, ASend 7 res, AFreeResponse, AFreeRequest])" (is "_ = Some (?st1, ?a1)")
  have "packet_ok ?packet"
    using sample_received [of "login_message 42 sample_name sample_name sample_key"]
    by (simp add: received_def login_message_def sample_name_def sample_key_def)
  then have c: "calls_ok [Recv sample_env 7 ?packet, Join sample_env 5 6] waiting_chat"
    by (simp add: sample_env_ok r)
  have "list_all (no_issue (to_string (unat (42 :: u64)))) [Join sample_env 5 6]" by simp
  from session_key_single_use [OF waiting_chat_ok c _ waiting_chat_simps(1,2) r _ _ this, of "OnClientJoin_chat sample_env 5 6 ?st1" "[]"]
  have "redis waiting_chat (to_string 42) \<noteq> None \<and> redis ?st1 (to_string 42) = None \<and>
     (\<forall>e. account_session 42 (OnClientJoin_chat sample_env 5 6 ?st1) e \<longrightarrow> account_session 42 ?st1 e)"
    by (simp add: sample_env_def)
  then show ?thesis using r by blast
qed

section \<open>Duplicate logins\<close>

lemma duplicate_session_Some:
  assumes "duplicate_session env acc self st = Some sid" and "env_ok env"
  shows "sid \<noteq> self" "\<exists>p. account_session acc st (sid, p)"
proof -
  have "set (iterOrder env (mPlayerMap st)) = set (mPlayerMap st)" using assms(2) by (metis env_ok_def mset_eq_setD)
  moreover obtain q where "(sid, q) \<in> set (iterOrder env (mPlayerMap st))" "mIsLoggedIn (players st q)"
      "mAccountNo (players st q) = acc" "sid \<noteq> self"
    using assms(1) by (fastforce simp: duplicate_session_def find_Some_iff dest: nth_mem)
  ultimately show "sid \<noteq> self" "\<exists>p. account_session acc st (sid, p)" by (auto simp: account_session_def)
qed

lemma duplicate_session_None:
  assumes "duplicate_session env acc self st = None" and "env_ok env"
  shows "account_session acc st (sid, p) \<Longrightarrow> sid = self"
proof -
  have "set (iterOrder env (mPlayerMap st)) = set (mPlayerMap st)" using assms(2) by (metis env_ok_def mset_eq_setD)
  then show "account_session acc st (sid, p) \<Longrightarrow> sid = self"
    using assms(1) by (auto simp: duplicate_session_def account_session_def find_None_iff)
qed

text \<open>
  C18. A valid login: with the key Redis holds for the account and terminated names, the session is logged
  in under this account with the names and the time of the login, the key is gone, the answer says success
  with the account number, and, when another session is logged in on the account, exactly one such session
  is disconnected and nobody else.
\<close>
theorem valid_login_accepted:
  assumes "chat_ok st" and "env_ok env" and "packetAlloc env \<noteq> None" and "evalScript env = redis_script"
    and "findPlayer sid st = Some p" and "\<not> mIsLoggedIn (players st p)" and "sendResult env sid"
    and "received packet (login_message acc pid nick key)"
    and "length pid = 20" "0 \<in> set pid" "length nick = 20" "0 \<in> set nick" "length key = 64"
    and "redis st (to_string (unat acc)) = Some key"
  shows "\<exists>st' acts res. OnRecv_chat env sid packet st = Some (st', acts) \<and> mIsLoggedIn (players st' p) \<and>
    mAccountNo (players st' p) = acc \<and> wcs (mID (players st' p)) = wcs pid \<and> wcs (mNickName (players st' p)) = wcs nick \<and>
    mLastActiveTime (players st' p) = tick env \<and> redis st' = (redis st)(to_string (unat acc) := None) \<and>
    ASend sid res \<in> set acts \<and> written res = replicate 5 0 @ le_bytes 2 en_PACKET_CS_CHAT_RES_LOGIN @ [1] @ le_bytes 8 acc \<and>
    (if \<exists>e. account_session acc st e then \<exists>s q. disconnects acts = {s} \<and> account_session acc st (s, q) else disconnects acts = {})"
proof -
  obtain pooled where pooled: "packetAlloc env = Some pooled" using assms(3) by auto
  have self: "mSessionID_p (players st p) = sid" using chat_okD(5) [OF assms(1)] findPlayer_live [OF assms(5)] by blast
  let ?r = "(redis st)(to_string (unat acc) := None)"
  have c: "CompareAndDel env (to_string (unat acc)) key (redis st) = (?r, True)"
    using assms(4,14) by (simp add: CompareAndDel_def redis_script_def)
  obtain res where res: "OnRecv_chat env sid packet st = Some (st\<lparr>mRecvCount := mRecvCount st + 1, mJobCount := mJobCount st + 1, redis := ?r,
         players := (players st)(p := logged_in env acc pid nick key (players st p))\<rparr>,
       AAlloc # dup_disconnects env acc sid st @ [ASend sid res, AFreeResponse, AFreeRequest])"
    "written res = replicate 5 0 @ le_bytes 2 en_PACKET_CS_CHAT_RES_LOGIN @ [1] @ le_bytes 8 acc"
    by (rule OnRecv_login_accepts [OF assms(2) pooled assms(5,6) self assms(7-13) c])
  have ne: "mID (players st p) \<noteq> []" "mNickName (players st p) \<noteq> []" "length (mID (players st p)) = 20" "length (mNickName (players st p)) = 20"
    using chat_okD(4) [OF assms(1), of p] by (auto simp: arrays_ok_def)
  have l: "length (takeWhile (\<lambda>c. c \<noteq> 0) pid) < 20" "length (takeWhile (\<lambda>c. c \<noteq> 0) nick) < 20"
    using takeWhile_short [OF assms(10)] takeWhile_short [OF assms(12)] assms(9,11) by simp_all
  have w: "wcs (mID (logged_in env acc pid nick key (players st p))) = wcs pid"
    "wcs (mNickName (logged_in env acc pid nick key (players st p))) = wcs nick"
    "mLastActiveTime (logged_in env acc pid nick key (players st p)) = tick env"
    using copy_truncate_string [OF ne(1), of pid] copy_truncate_string [OF ne(2), of nick] l ne(3,4)
    by (simp_all add: logged_in_def OnLogin_def SetSessionKey_def SetNickName_def SetID_def wcs_def)
  have nl: "\<not> account_session acc st (sid, q)" for q
  proof
    assume "account_session acc st (sid, q)"
    then have "(sid, q) \<in> set (mPlayerMap st)" "mIsLoggedIn (players st q)" by (simp_all add: account_session_def)
    then show False using findPlayer_live [OF assms(5)] chat_okD(1) [OF assms(1)] assms(6) by (metis eq_key_imp_eq_value)
  qed
  have d: "if \<exists>e. account_session acc st e then \<exists>s q. disconnects (dup_disconnects env acc sid st) = {s} \<and> account_session acc st (s, q)
      else disconnects (dup_disconnects env acc sid st) = {}"
    using duplicate_session_Some [OF _ assms(2), of acc sid st] duplicate_session_None [OF _ assms(2), of acc sid st] nl
    by (cases "duplicate_session env acc sid st") (auto simp: dup_disconnects_effects)
  have de: "disconnects (AAlloc # dup_disconnects env acc sid st @ [ASend sid res, AFreeResponse, AFreeRequest]) =
     disconnects (dup_disconnects env acc sid st)" by simp
  show ?thesis
    by (rule exI, rule exI, rule exI [of _ res], rule conjI [OF res(1)], unfold de) (use res(2) w d in simp)
qed

lemma valid_login_accepted_witness:
  "\<exists>st' acts res. OnRecv_chat sample_env 7 (sample_packet (login_message 42 sample_name sample_name sample_key)) waiting_chat = Some (st', acts) \<and>
    mIsLoggedIn (players st' 0) \<and> ASend 7 res \<in> set acts \<and> disconnects acts = {}"
proof -
  have l: "received (sample_packet (login_message 42 sample_name sample_name sample_key)) (login_message 42 sample_name sample_name sample_key)"
    by (rule sample_received) (simp add: login_message_def sample_name_def sample_key_def)
  have n: "\<not> account_session 42 waiting_chat e" for e by (cases e) (auto simp: account_session_def)
  have e: "packetAlloc sample_env \<noteq> None" "evalScript sample_env = redis_script" "sendResult sample_env 7"
    "length sample_name = 20" "0 \<in> set sample_name" "length sample_key = 64" "redis waiting_chat (to_string (unat (42 :: u64))) = Some sample_key"
    by (simp_all add: sample_env_def sample_name_def sample_key_def)
  show ?thesis
    using valid_login_accepted [OF waiting_chat_ok sample_env_ok e(1,2) waiting_chat_simps(1,2) e(3) l e(4,5,4,5,6,7)] n by auto
qed

text \<open>
  Three sessions of one account log in before the first of them has left. The map is iterated in the
  order of insertion here; the scan then meets the first session each time.
\<close>

definition quick_login :: "u64 \<Rightarrow> u64 \<Rightarrow> (string \<Rightarrow> bytes option) chat_call list" where
  "quick_login acc sid =
     [Issue (\<lambda>r. r(to_string (unat acc) := Some sample_key)),
      Recv sample_env sid (sample_packet (login_message acc sample_name sample_name sample_key))]"

definition three_logins :: "u64 \<Rightarrow> (string \<Rightarrow> bytes option) chat_call list" where
  "three_logins acc = [Join sample_env 0 7, Join sample_env 1 8, Join sample_env 2 9] @
     quick_login acc 7 @ quick_login acc 8 @ quick_login acc 9 @ [Leave 7]"

definition three_joined :: "(string \<Rightarrow> bytes option) chat" where
  "three_joined = OnClientJoin_chat sample_env 2 9 (OnClientJoin_chat sample_env 1 8 (OnClientJoin_chat sample_env 0 7
     (chat_init (\<lambda>_. None) (\<lambda>_. blank_player))))"

lemma chat_run_append:
  "chat_run (xs @ ys) st = do { (st1, a1) \<leftarrow> chat_run xs st; (st2, a2) \<leftarrow> chat_run ys st1; Some (st2, a1 @ a2) }"
  by (induction xs arbitrary: st) (auto split: prod.splits bind_splits)

lemma quick_login_run:
  assumes "findPlayer sid st = Some p" and "\<not> mIsLoggedIn (players st p)" and "mSessionID_p (players st p) = sid"
  obtains st' acts where "chat_run (quick_login acc sid) st = Some (st', acts)" "calls_ok (quick_login acc sid) st"
    "disconnects acts = set_option (duplicate_session sample_env acc sid st)" "mPlayerMap st' = mPlayerMap st"
    "players st' = (players st)(p := logged_in sample_env acc sample_name sample_name sample_key (players st p))"
proof -
  let ?k = "to_string (unat acc)"
  let ?st = "st\<lparr>redis := (redis st)(?k := Some sample_key)\<rparr>"
  let ?packet = "sample_packet (login_message acc sample_name sample_name sample_key)"
  have l: "received ?packet (login_message acc sample_name sample_name sample_key)"
    by (rule sample_received) (simp add: login_message_def sample_name_def sample_key_def)
  have c: "CompareAndDel sample_env ?k sample_key (redis ?st) = ((redis st)(?k := None), True)"
    by (simp add: CompareAndDel_def sample_env_def redis_script_def)
  have d: "dup_disconnects sample_env acc sid ?st = dup_disconnects sample_env acc sid st"
    by (simp add: dup_disconnects_def duplicate_session_def)
  have h: "findPlayer sid ?st = Some p" "\<not> mIsLoggedIn (players ?st p)" "mSessionID_p (players ?st p) = sid"
    "packetAlloc sample_env = Some (new_Packet 2048)" "sendResult sample_env sid"
    "length sample_name = 20" "0 \<in> set sample_name" "length sample_key = 64"
    using assms by (simp_all add: findPlayer_def sample_env_def sample_name_def sample_key_def)
  obtain res where res: "OnRecv_chat sample_env sid ?packet ?st = Some (?st\<lparr>mRecvCount := mRecvCount ?st + 1, mJobCount := mJobCount ?st + 1,
         redis := (redis st)(?k := None),
         players := (players ?st)(p := logged_in sample_env acc sample_name sample_name sample_key (players ?st p))\<rparr>,
       AAlloc # dup_disconnects sample_env acc sid ?st @ [ASend sid res, AFreeResponse, AFreeRequest])"
    using OnRecv_login_accepts [OF sample_env_ok h(4,1,2,3,5) l h(6,7,6,7,8) c] by blast
  have "packet_ok ?packet" using l by (simp add: received_def)
  with res show ?thesis
    by (intro that [of "st\<lparr>mRecvCount := mRecvCount st + 1, mJobCount := mJobCount st + 1, redis := (redis st)(?k := None),
         players := (players st)(p := logged_in sample_env acc sample_name sample_name sample_key (players st p))\<rparr>"
       "AAlloc # dup_disconnects sample_env acc sid st @ [ASend sid res, AFreeResponse, AFreeRequest]"])
      (simp_all add: quick_login_def d dup_disconnects_effects sample_env_ok)
qed

text \<open>
  Two sessions can stay logged in on one account. When three sessions log in on an account one after
  the other, each with a key of its own, before the first has left, the scan of the second and of the third
  login both stop at the first session: it is disconnected twice, and the second and third session both
  stay logged in on the account, neither of them disconnected nor marked for deletion.
\<close>
lemma three_logins_two_sessions:
  "\<exists>st acts. calls_ok (three_logins acc) (chat_init (\<lambda>_. None) (\<lambda>_. blank_player)) \<and>
     chat_run (three_logins acc) (chat_init (\<lambda>_. None) (\<lambda>_. blank_player)) = Some (st, acts) \<and>
     disconnects acts = {7} \<and> account_session acc st (8, 1) \<and> account_session acc st (9, 2) \<and>
     \<not> mWillDelete (players st 1) \<and> \<not> mWillDelete (players st 2)"
proof -
  let ?init = "chat_init (\<lambda>_. None) (\<lambda>_. blank_player) :: (string \<Rightarrow> bytes option) chat"
  let ?joins = "[Join sample_env 0 7, Join sample_env 1 8, Join sample_env 2 9]"
  let ?L = "logged_in sample_env acc sample_name sample_name sample_key"
  have j: "chat_run ?joins ?init = Some (three_joined, [])" by (simp add: three_joined_def)
  have ms: "mPlayerMap three_joined = [(7, 0), (8, 1), (9, 2)]"
    by (simp add: three_joined_def chat_init_def OnClientJoin_chat_def Let_def upd_player_def)
  have pl: "\<not> mIsLoggedIn (players three_joined q) \<and> \<not> mWillDelete (players three_joined q)" for q
    by (simp add: three_joined_def chat_init_def OnClientJoin_chat_def Let_def upd_player_def OnConnect_def Player_Clear_def blank_player_def)
  have sid: "mSessionID_p (players three_joined 0) = 7" "mSessionID_p (players three_joined 1) = 8" "mSessionID_p (players three_joined 2) = 9"
    by (simp_all add: three_joined_def chat_init_def OnClientJoin_chat_def Let_def upd_player_def OnConnect_def)
  have io: "iterOrder sample_env = (\<lambda>m. m)" by (simp add: sample_env_def)
  obtain s1 a1 where s1: "chat_run (quick_login acc 7) three_joined = Some (s1, a1)" "calls_ok (quick_login acc 7) three_joined"
    "disconnects a1 = set_option (duplicate_session sample_env acc 7 three_joined)" "mPlayerMap s1 = mPlayerMap three_joined"
    "players s1 = (players three_joined)(0 := ?L (players three_joined 0))"
    by (rule quick_login_run [of 7 three_joined 0 acc]) (use pl sid ms in \<open>auto simp: findPlayer_def\<close>)
  have d1: "disconnects a1 = {}" unfolding s1(3) by (simp add: duplicate_session_def io ms pl)
  obtain s2 a2 where s2: "chat_run (quick_login acc 8) s1 = Some (s2, a2)" "calls_ok (quick_login acc 8) s1"
    "disconnects a2 = set_option (duplicate_session sample_env acc 8 s1)" "mPlayerMap s2 = mPlayerMap s1"
    "players s2 = (players s1)(1 := ?L (players s1 1))"
    by (rule quick_login_run [of 8 s1 1 acc]) (use pl sid ms s1 in \<open>auto simp: findPlayer_def\<close>)
  have d2: "disconnects a2 = {7}" unfolding s2(3) by (simp add: duplicate_session_def io ms pl s1(4,5))
  obtain s3 a3 where s3: "chat_run (quick_login acc 9) s2 = Some (s3, a3)" "calls_ok (quick_login acc 9) s2"
    "disconnects a3 = set_option (duplicate_session sample_env acc 9 s2)" "mPlayerMap s3 = mPlayerMap s2"
    "players s3 = (players s2)(2 := ?L (players s2 2))"
    by (rule quick_login_run [of 9 s2 2 acc]) (use pl sid ms s1 s2 in \<open>auto simp: findPlayer_def\<close>)
  have d3: "disconnects a3 = {7}" unfolding s3(3) by (simp add: duplicate_session_def io ms pl s1(4,5) s2(4,5))
  let ?st = "OnClientLeave_chat 7 s3"
  have run: "chat_run (three_logins acc) ?init = Some (?st, a1 @ a2 @ a3)"
    unfolding three_logins_def chat_run_append j bind.simps prod.case s1(1) s2(1) s3(1) by simp
  have calls: "calls_ok (xs @ ys) st \<longleftrightarrow> calls_ok xs st \<and> (case chat_run xs st of None \<Rightarrow> True | Some (st1, a) \<Rightarrow> calls_ok ys st1)"
    for xs ys and st :: "(string \<Rightarrow> bytes option) chat"
    by (induction xs arbitrary: st) (auto split: option.splits prod.splits bind_splits)
  have "calls_ok ?joins ?init"
    by (simp add: chat_init_def OnClientJoin_chat_def Let_def upd_player_def)
  then have ok: "calls_ok (three_logins acc) ?init"
    unfolding three_logins_def calls j using s1(1,2) s2(1,2) s3(1,2) by simp
  have fin: "account_session acc ?st (8, 1)" "account_session acc ?st (9, 2)" "\<not> mWillDelete (players ?st 1)" "\<not> mWillDelete (players ?st 2)"
    using pl [of 1] pl [of 2] by (simp_all add: account_session_def OnClientLeave_chat_def findPlayer_def s3(4,5) s2(4,5) s1(4,5) ms
        upd_player_def Let_def)
  show ?thesis using run ok fin d1 d2 d3 by auto
qed


section \<open>The timeout check\<close>

definition unreported :: "'r chat \<Rightarrow> nat set" where
  "unreported st = {p \<in> live st. \<not> mTimeoutLogged (players st p)}"

definition overdue :: "u64 \<Rightarrow> player \<Rightarrow> bool" where
  "overdue now p \<longleftrightarrow> \<not> mWillDelete p \<and> \<not> mTimeoutLogged p \<and>
     (if mIsLoggedIn p then now - mLastActiveTime p > 120000 else now - mConnectTime p > 60000)"

lemma check_one_unreported:
  assumes "p \<in> live s"
  shows "timeoutCount (check_one now (sid, p) s) = timeoutCount s + (if overdue now (players s p) then 1 else 0)"
    and "unreported (check_one now (sid, p) s) = (if overdue now (players s p) then unreported s - {p} else unreported s)"
  using assms by (auto simp: check_one_def CheckTimeOutSnapshot_def Let_def overdue_def unreported_def)

lemma check_one_other: "q \<noteq> p \<Longrightarrow> players (check_one now (sid, p) s) q = players s q"
  by (simp add: check_one_def CheckTimeOutSnapshot_def Let_def case_prod_unfold)

lemma finite_unreported: "finite (unreported st)"
  by (simp add: unreported_def)

lemma CheckTimeOut_count:
  assumes "distinct (map snd xs)" and "set (map snd xs) \<subseteq> live s"
  shows "timeoutCount (fold (check_one now) xs s) = timeoutCount s + int (card {p \<in> set (map snd xs). overdue now (players s p)})"
    and "unreported (fold (check_one now) xs s) = unreported s - {p \<in> set (map snd xs). overdue now (players s p)}"
proof -
  have "timeoutCount (fold (check_one now) xs s) = timeoutCount s + int (card {p \<in> set (map snd xs). overdue now (players s p)}) \<and>
     unreported (fold (check_one now) xs s) = unreported s - {p \<in> set (map snd xs). overdue now (players s p)}"
    using assms
  proof (induction xs arbitrary: s)
    case (Cons x xs)
    obtain sid p where x: "x = (sid, p)" by (rule prod.exhaust)
    let ?s = "check_one now x s"
    have lv: "live ?s = live s" by (simp add: timeout_frameD(1) [OF check_one_frame])
    have same: "{q \<in> set (map snd xs). overdue now (players ?s q)} = {q \<in> set (map snd xs). overdue now (players s q)}"
    proof (rule Collect_cong, rule conj_cong [OF refl])
      fix q assume "q \<in> set (map snd xs)"
      then have "q \<noteq> p" using Cons.prems(1) by (auto simp: x)
      then show "overdue now (players ?s q) = overdue now (players s q)" by (simp add: x check_one_other)
    qed
    have ih: "timeoutCount (fold (check_one now) xs ?s) = timeoutCount ?s + int (card {q \<in> set (map snd xs). overdue now (players s q)})"
      "unreported (fold (check_one now) xs ?s) = unreported ?s - {q \<in> set (map snd xs). overdue now (players s q)}"
      using Cons.IH [of ?s] Cons.prems lv unfolding same by auto
    have p: "p \<in> live s" "p \<notin> set (map snd xs)" using Cons.prems by (auto simp: x)
    note one = check_one_unreported [OF p(1), of now sid, folded x]
    let ?A = "{q \<in> set (map snd xs). overdue now (players s q)}"
    have A: "{q \<in> set (map snd (x # xs)). overdue now (players s q)} = (if overdue now (players s p) then insert p ?A else ?A)"
      by (auto simp: x)
    have "card (insert p ?A) = Suc (card ?A)" using p(2) by (subst card_insert_disjoint) auto
    then show ?case using ih one unfolding A by auto
  qed simp
  then show "timeoutCount (fold (check_one now) xs s) = timeoutCount s + int (card {p \<in> set (map snd xs). overdue now (players s p)})"
    "unreported (fold (check_one now) xs s) = unreported s - {p \<in> set (map snd xs). overdue now (players s p)}" by auto
qed

lemma timeout_check:
  assumes "chat_ok st" and "env_ok env"
  shows "timeoutCount (CheckTimeOut env st) = timeoutCount st + int (card {p \<in> live st. overdue (tick env) (players st p)})"
    and "unreported (CheckTimeOut env st) = unreported st - {p \<in> live st. overdue (tick env) (players st p)}"
proof -
  let ?xs = "iterOrder env (mPlayerMap st)"
  have "mset ?xs = mset (mPlayerMap st)" using assms(2) by (simp add: env_ok_def)
  then have m: "mset (map snd ?xs) = mset (map snd (mPlayerMap st))" by simp
  have xs: "distinct (map snd ?xs)" "set (map snd ?xs) = live st"
    using chat_okD(2) [OF assms(1)] mset_eq_imp_distinct_iff [OF m] mset_eq_setD [OF m] by simp_all
  have "unreported (st\<lparr>mCheckHeartCount := k\<rparr>) = unreported st" for k by (simp add: unreported_def)
  then show "timeoutCount (CheckTimeOut env st) = timeoutCount st + int (card {p \<in> live st. overdue (tick env) (players st p)})"
    "unreported (CheckTimeOut env st) = unreported st - {p \<in> live st. overdue (tick env) (players st p)}"
    using CheckTimeOut_count [OF xs(1), of "st\<lparr>mCheckHeartCount := mCheckHeartCount st + 1\<rparr>" "tick env"] xs(2)
    by (simp_all add: CheckTimeOut_fold)
qed


fun joins :: "'r chat_call list \<Rightarrow> nat" where
  "joins [] = 0"
| "joins (Join env p sid # cs) = Suc (joins cs)"
| "joins (_ # cs) = joins cs"

lemma joins_Cons: "joins (c # cs) = joins [c] + joins cs"
  by (cases c) simp_all

lemma step_unreported:
  assumes "chat_ok st" and "call_ok c st" and "chat_step c st = Some (st', acts)"
  shows "timeoutCount st' + int (card (unreported st')) \<le> timeoutCount st + int (card (unreported st)) + int (joins [c])"
proof (cases c)
  case (Join env p sid)
  have "unreported st' \<subseteq> insert p (unreported st)" "timeoutCount st' = timeoutCount st"
    using Join assms(3) by (auto simp: unreported_def OnClientJoin_chat_def Let_def upd_player_def split: if_splits)
  moreover from this have "card (unreported st') \<le> Suc (card (unreported st))"
    using card_mono [of "insert p (unreported st)" "unreported st'"] finite_unreported card_insert_le_m1
    by (metis card_insert_if finite_insert le_SucI order_trans order_refl)
  ultimately show ?thesis by (simp add: Join)
next
  case (Leave sid)
  have "unreported st' \<subseteq> unreported st" "timeoutCount st' = timeoutCount st"
    using Leave assms(3)
    by (auto simp: unreported_def OnClientLeave_chat_def Let_def upd_player_def split: if_splits option.splits)
  then show ?thesis using card_mono [OF finite_unreported, of "unreported st'" st] by (simp add: Leave)
next
  case (Timeout env)
  let ?O = "{p \<in> live st. overdue (tick env) (players st p)}"
  have "env_ok env" using Timeout assms(2) by simp
  note t = timeout_check [OF assms(1) this]
  have sub: "?O \<subseteq> unreported st" by (auto simp: unreported_def overdue_def)
  then have "card (unreported st - ?O) = card (unreported st) - card ?O" "card ?O \<le> card (unreported st)"
    using card_Diff_subset [OF finite_subset [OF sub finite_unreported] sub] card_mono [OF finite_unreported sub] by simp_all
  then show ?thesis using Timeout assms(3) t by auto
next
  case (Issue f)
  then show ?thesis using assms(3) by (auto simp: unreported_def)
next
  case (Recv env sid packet)
  have o: "OnRecv_chat env sid packet st = Some (st', acts)" using Recv assms(3) by simp
  have "unreported st' = unreported st \<and> timeoutCount st' = timeoutCount st"
  proof (cases "findPlayer sid st")
    case None
    then show ?thesis using o by (auto simp: OnRecv_chat_def Let_def findPlayer_def bind_Some unreported_def)
  next
    case (Some p)
    obtain a where c: "confined env p st st' a" by (rule OnRecv_confined [OF o Some]) auto
    then have "mTimeoutLogged (players st' q) = mTimeoutLogged (players st q)" for q
      by (cases "q = p") (auto simp: confined_def Let_def)
    moreover have "mPlayerMap st' = mPlayerMap st" "timeoutCount st' = timeoutCount st" using c by (simp_all add: confined_def Let_def)
    ultimately show ?thesis by (simp add: unreported_def)
  qed
  then show ?thesis by (simp add: Recv)
qed


text \<open>
  A session is reported as timed out at most once in its life: in every run the counter of timeouts
  is at most the number of sessions that ever joined, whatever heartbeats, logins and further checks do.
\<close>
lemma timeout_reported_once:
  fixes pl :: "nat \<Rightarrow> player" and r :: 'r
  assumes "\<And>p. arrays_ok (pl p)" and "calls_ok cs (chat_init r pl)" and "chat_run cs (chat_init r pl) = Some (st, acts)"
  shows "timeoutCount st \<le> int (joins cs)"
proof -
  have "timeoutCount s' + int (card (unreported s')) \<le> timeoutCount s + int (card (unreported s)) + int (joins cs')"
    if "chat_ok s" "calls_ok cs' s" "chat_run cs' s = Some (s', b)" for cs' and s s' :: "'r chat" and b
    using that
  proof (induction cs' arbitrary: s b)
    case (Cons c cs')
    obtain s1 b1 b2 where s1: "chat_step c s = Some (s1, b1)" "chat_run cs' s1 = Some (s', b2)"
      using Cons.prems(3) by (auto simp: bind_Some)
    have "chat_ok s1" using chat_step_ok [OF Cons.prems(1), of c] Cons.prems(2) s1(1) by auto
    then show ?case using Cons.IH [OF _ _ s1(2)] step_unreported [OF Cons.prems(1) _ s1(1)] Cons.prems(2) s1(1) joins_Cons [of c cs']
      by auto
  qed simp
  from this [OF chat_init_ok [OF assms(1)] assms(2,3)] show ?thesis by (simp add: chat_init_def unreported_def)
qed

text \<open>
  The timeout check counts exactly the sessions it should, once each: those not being deleted whose
  time since the last login or heartbeat exceeds two minutes, or whose time since the connection exceeds
  one minute when they are not logged in, and that were not counted before. It marks these as reported and
  changes no player otherwise; it disconnects nobody.
\<close>
lemma timeout_check_counts:
  assumes "chat_ok st" and "env_ok env"
  shows "timeoutCount (CheckTimeOut env st) = timeoutCount st + int (card {p \<in> live st. overdue (tick env) (players st p)}) \<and>
    (\<forall>p. (players (CheckTimeOut env st) p)\<lparr>mTimeoutLogged := False\<rparr> = (players st p)\<lparr>mTimeoutLogged := False\<rparr>) \<and>
    (\<forall>p \<in> live st. mTimeoutLogged (players (CheckTimeOut env st) p) \<longleftrightarrow>
       mTimeoutLogged (players st p) \<or> overdue (tick env) (players st p))"
proof -
  note f = CheckTimeOut_frame [of st env]
  have "mTimeoutLogged (players (CheckTimeOut env st) p) \<longleftrightarrow> mTimeoutLogged (players st p) \<or> overdue (tick env) (players st p)"
    if "p \<in> live st" for p
  proof -
    have "p \<in> unreported (CheckTimeOut env st) \<longleftrightarrow> p \<in> unreported st \<and> \<not> overdue (tick env) (players st p)"
      using timeout_check(2) [OF assms] that by auto
    then show ?thesis using that timeout_frameD(1) [OF f] by (simp add: unreported_def) blast
  qed
  then show ?thesis using timeout_check(1) [OF assms] f by (simp add: timeout_frame_def)
qed

text \<open>
  The subtraction in the snapshot wraps around. The check reads the clock before it loads the time of
  the last heartbeat, and a heartbeat may store a later time in between; a player who has just been active
  is then reported as expired, with an idle time near the maximum of 64 bits.
\<close>
lemma timeout_snapshot_wraps:
  assumes "mIsLoggedIn p" and "now < mLastActiveTime p" and "mLastActiveTime p \<le> now + 1000" and "now < 2 ^ 62" and "\<not> mTimeoutLogged p"
  shows "expired (snd (CheckTimeOutSnapshot now p)) \<and> firstReport (snd (CheckTimeOutSnapshot now p)) \<and>
    idleMs (snd (CheckTimeOutSnapshot now p)) > 2 ^ 63"
proof -
  let ?d = "mLastActiveTime p - now"
  have "unat (now + 1000) = unat now + 1000" using assms(4) by (subst unat_plus_if') (auto simp: word_less_nat_alt unat_word_ariths)
  then have "unat (mLastActiveTime p) \<le> unat now + 1000" "unat now < unat (mLastActiveTime p)"
    using assms(2,3) by (simp_all add: word_le_nat_alt word_less_nat_alt)
  then have "unat (now - mLastActiveTime p) = 2 ^ 64 - (unat (mLastActiveTime p) - unat now)"
    using unsigned_less [of "mLastActiveTime p", where 'a = nat] by (simp add: unat_sub_if')
  then have "unat (now - mLastActiveTime p) \<ge> 2 ^ 64 - 1000" using \<open>unat (mLastActiveTime p) \<le> unat now + 1000\<close> by simp
  then have "now - mLastActiveTime p > 2 ^ 63" by (simp add: word_less_nat_alt)
  moreover from this have "now - mLastActiveTime p > 120000" by (rule order.strict_trans [rotated]) simp
  ultimately show ?thesis using assms(1,5) by (simp add: CheckTimeOutSnapshot_def Let_def)
qed

end
