(* ===== verification/Login_Server.thy ===== *)
theory Login_Server
  imports Chat_Sessions
begin

text \<open>
  LoginServer/LoginServer.cpp with Job.h and PacketGenerator.h, and DBConnect: the network callbacks post
  jobs to the queue of the content thread their session belongs to, the content threads take them from
  there. \<open>Player.h\<close> is that of the chat server. The account table, \<open>MultiByteToWideChar\<close>, Redis, the
  clock and the pool are an environment; posting to a completion port succeeds.
\<close>

section \<open>State and environment\<close>

definition CONTENT_THREAD_CNT :: nat where "CONTENT_THREAD_CNT = 4"

text \<open>A job with the fields its type uses.\<close>

datatype job = CLIENT_JOIN u64 | CLIENT_LEAVE u64 | PACKET_JOB u64 packet | CHECK_HEAR_BEAT

record 'r loginsrv =
  loginPlayers :: "nat \<Rightarrow> player"
  playerMaps :: "nat \<Rightarrow> (u64 \<times> nat) list"      \<comment> \<open>\<open>mPlayerMap[tid]\<close>\<close>
  contentQueues :: "nat \<Rightarrow> job list"           \<comment> \<open>\<open>mContentocpHandles[tid]\<close>\<close>
  loginJobCount :: int
  loginRecvCount :: int
  loginHeartCount :: int
  loginTimeouts :: int
  loginFreed :: "nat list"
  loginRedis :: 'r

record 'r login_env =
  l_alloc :: "packet option"
  l_tick :: u64
  l_indeterminate :: u64
  l_connected :: "nat \<Rightarrow> bool"                 \<comment> \<open>\<open>mDBConn[i]\<close> has a connection\<close>
  l_query :: "string \<Rightarrow> (bytes option \<times> bytes option) list option"   \<comment> \<open>columns 1 and 2 of the rows; \<open>None\<close>: an error\<close>
  l_wide :: "bytes option \<Rightarrow> wstr"             \<comment> \<open>\<open>MultiByteToWideChar\<close> into twenty zeros\<close>
  l_setex :: "string \<Rightarrow> nat \<Rightarrow> bytes \<Rightarrow> 'r \<Rightarrow> 'r option"              \<comment> \<open>\<open>None\<close>: an exception\<close>
  l_iterOrder :: "(u64 \<times> nat) list \<Rightarrow> (u64 \<times> nat) list"

definition upd_login :: "nat \<Rightarrow> (player \<Rightarrow> player) \<Rightarrow> 'r loginsrv \<Rightarrow> 'r loginsrv" where
  "upd_login p f st = st\<lparr>loginPlayers := (loginPlayers st)(p := f (loginPlayers st p))\<rparr>"

definition GetTargetThread :: "u64 \<Rightarrow> nat" where
  "GetTargetThread sessionId = unat sessionId mod CONTENT_THREAD_CNT"

definition post_job :: "nat \<Rightarrow> job \<Rightarrow> 'r loginsrv \<Rightarrow> 'r loginsrv" where
  "post_job tid j st = st\<lparr>contentQueues := (contentQueues st)(tid := contentQueues st tid @ [j])\<rparr>"

section \<open>The network callbacks\<close>

definition OnClientJoin_login :: "u64 \<Rightarrow> 'r loginsrv \<Rightarrow> 'r loginsrv" where
  "OnClientJoin_login sessionID st = post_job (GetTargetThread sessionID) (CLIENT_JOIN sessionID) st"

definition OnClientLeave_login :: "u64 \<Rightarrow> 'r loginsrv \<Rightarrow> 'r loginsrv" where
  "OnClientLeave_login sessionID st = post_job (GetTargetThread sessionID) (CLIENT_LEAVE sessionID) st"

definition OnRecv_login :: "u64 \<Rightarrow> packet \<Rightarrow> 'r loginsrv \<Rightarrow> 'r loginsrv" where
  "OnRecv_login sessionID packet st =
     post_job (GetTargetThread sessionID) (PACKET_JOB sessionID packet)
       (st\<lparr>loginRecvCount := loginRecvCount st + 1, loginJobCount := loginJobCount st + 1\<rparr>)"

definition PostHeartBeatCheck :: "'r loginsrv \<Rightarrow> 'r loginsrv" where
  "PostHeartBeatCheck st = fold (\<lambda>i. post_job i CHECK_HEAR_BEAT) [0..<CONTENT_THREAD_CNT] st"

section \<open>Redis and the account table\<close>

definition Redis_Set :: "'r login_env \<Rightarrow> string \<Rightarrow> bytes \<Rightarrow> nat \<Rightarrow> 'r \<Rightarrow> 'r \<times> bool" where
  "Redis_Set env key value ttlSeconds r =
     (case l_setex env key ttlSeconds value r of None \<Rightarrow> (r, False) | Some r' \<Rightarrow> (r', True))"

definition Query :: "'r login_env \<Rightarrow> nat \<Rightarrow> string \<Rightarrow> (bytes option \<times> bytes option) list option" where
  "Query env i query = (if \<not> l_connected env i then None else l_query env query)"

text \<open>\<open>sprintf_s\<close> with \<open>%lld\<close>; text that does not fit with its terminator ends the process.\<close>

definition lld :: "u64 \<Rightarrow> string" where
  "lld w = (if sint w < 0 then CHR ''-'' # to_string (nat (- sint w)) else to_string (nat (sint w)))"

definition sprintf_s :: "nat \<Rightarrow> string \<Rightarrow> string option" where
  "sprintf_s n txt = (if length txt < n then Some txt else None)"

definition account_query :: "u64 \<Rightarrow> string option" where
  "account_query accountNo =
     sprintf_s 512 (''SELECT `accountno`, `userid`, `usernick` FROM `account` WHERE `accountno` = '' @ lld accountNo)"

section \<open>The response\<close>

definition en_PACKET_CS_LOGIN_REQ_LOGIN :: u16 where "en_PACKET_CS_LOGIN_REQ_LOGIN = 101"
definition en_PACKET_CS_LOGIN_RES_LOGIN :: u16 where "en_PACKET_CS_LOGIN_RES_LOGIN = 102"
definition dfLOGIN_STATUS_FAIL :: u8 where "dfLOGIN_STATUS_FAIL = 0"
definition dfLOGIN_STATUS_OK :: u8 where "dfLOGIN_STATUS_OK = 1"

definition server_ip :: wstr where     \<comment> \<open>\<open>L"127.0.0.1"\<close> in sixteen characters\<close>
  "server_ip = [49, 50, 55, 46, 48, 46, 48, 46, 49] @ replicate 7 0"

definition GAME_SERVER_PORT :: u16 where "GAME_SERVER_PORT = 6003"
definition CHAT_SERVER_PORT :: u16 where "CHAT_SERVER_PORT = 6000"

definition MakeLoginResLogin :: "packet \<Rightarrow> u64 \<Rightarrow> u8 \<Rightarrow> wstr \<Rightarrow> wstr \<Rightarrow> wstr \<Rightarrow> u16 \<Rightarrow> wstr \<Rightarrow> u16 \<Rightarrow> packet option" where
  "MakeLoginResLogin pPacket accountNo status pid nickname gameServerIP gameServerPort chatServerIP chatServerPort = do {
     p1 \<leftarrow> InitPacket pPacket en_PACKET_CS_LOGIN_RES_LOGIN;
     p2 \<leftarrow> shl_bytes p1 (le_bytes 8 accountNo);
     p3 \<leftarrow> shl_bytes p2 (le_bytes 1 status);
     (p4, n4) \<leftarrow> PutData p3 (wbytes pid);
     (p5, n5) \<leftarrow> PutData p4 (wbytes nickname);
     (p6, n6) \<leftarrow> PutData p5 (wbytes gameServerIP);
     p7 \<leftarrow> shl_bytes p6 (le_bytes 2 gameServerPort);
     (p8, n8) \<leftarrow> PutData p7 (wbytes chatServerIP);
     shl_bytes p8 (le_bytes 2 chatServerPort)
   }"

section \<open>The content threads\<close>

definition findPlayer_login :: "u64 \<Rightarrow> 'r loginsrv \<Rightarrow> nat option" where
  "findPlayer_login sessionId st = map_of (playerMaps st (GetTargetThread sessionId)) sessionId"

text \<open>
  The account row decides; the escaped key is computed and not used. \<open>std::string\<close> of the key stops at
  its first zero byte.
\<close>

definition login_row :: "'r login_env \<Rightarrow> nat \<Rightarrow> u64 \<Rightarrow> (bytes option \<times> bytes option) option option" where
  "login_row env threadIdx accountNo =
     (if \<not> l_connected env threadIdx then Some None
      else do {
        query \<leftarrow> account_query accountNo;
        Some (case Query env threadIdx query of None \<Rightarrow> None | Some [] \<Rightarrow> None | Some (row # rows) \<Rightarrow> Some row)
      })"

definition login_login :: "'r login_env \<Rightarrow> nat \<Rightarrow> nat \<Rightarrow> packet \<Rightarrow> 'r loginsrv \<Rightarrow> ('r loginsrv \<times> bool \<times> action list) option" where
  "login_login env threadIdx p packet st = do {
     (p1, accountNo) \<leftarrow> read_word 8 (l_indeterminate env) packet;
     (p2, sessionKey) \<leftarrow> read_array 64 p1;
     found \<leftarrow> login_row env threadIdx accountNo;
     let (st1, status, userId, userNick) =
       (case found of
          None \<Rightarrow> (st, dfLOGIN_STATUS_FAIL, replicate 20 0, replicate 20 0)
        | Some (row1, row2) \<Rightarrow>
            (let userId = l_wide env row1; userNick = l_wide env row2;
                 st' = upd_login p (\<lambda>pl. OnLogin (l_tick env) (SetNickName userNick (SetID userId (pl\<lparr>mAccountNo := accountNo\<rparr>)))) st
             in (st'\<lparr>loginRedis := fst (Redis_Set env (to_string (unat accountNo)) (takeWhile (\<lambda>b. b \<noteq> 0) sessionKey) 60
                       (loginRedis st'))\<rparr>, dfLOGIN_STATUS_OK, userId, userNick)));
     pooled \<leftarrow> l_alloc env;
     resPacket \<leftarrow> MakeLoginResLogin (Packet_Init pooled) accountNo status userId userNick
       server_ip GAME_SERVER_PORT server_ip CHAT_SERVER_PORT;
     Some (st1, True, [AAlloc, ASend (mSessionID_p (loginPlayers st1 p)) resPacket, AFreeResponse])
   }"

definition packetProc_login :: "'r login_env \<Rightarrow> nat \<Rightarrow> nat \<Rightarrow> packet \<Rightarrow> 'r loginsrv \<Rightarrow> ('r loginsrv \<times> bool \<times> action list) option" where
  "packetProc_login env threadIdx p packet st = do {
     (p1, headerType) \<leftarrow> read_word 2 (ucast (l_indeterminate env) :: u16) packet;
     if headerType = en_PACKET_CS_LOGIN_REQ_LOGIN then login_login env threadIdx p p1 st
     else Some (st, False, [])
   }"

definition removePlayer_login :: "nat \<Rightarrow> 'r loginsrv \<Rightarrow> 'r loginsrv \<times> action list" where
  "removePlayer_login p st =
     (let sessionId = mSessionID_p (loginPlayers st p);
          tid = GetTargetThread sessionId;
          st1 = st\<lparr>playerMaps := (playerMaps st)(tid := filter (\<lambda>(sid, q). sid \<noteq> sessionId) (playerMaps st tid))\<rparr>;
          st2 = upd_login p (\<lambda>pl. pl\<lparr>mIsLoggedIn := False\<rparr>) st1
      in (st2\<lparr>loginFreed := loginFreed st2 @ [p]\<rparr>, [ADisconnect sessionId Logic]))"

definition reserveDeletePlayer_login :: "nat \<Rightarrow> 'r loginsrv \<Rightarrow> 'r loginsrv \<times> action list" where
  "reserveDeletePlayer_login p st =
     (if mWillDelete (loginPlayers st p) then (st, [])
      else (upd_login p (\<lambda>pl. pl\<lparr>mWillDelete := True\<rparr>) st, [ADisconnect (mSessionID_p (loginPlayers st p)) Logic]))"

definition check_hear_beat :: "'r login_env \<Rightarrow> nat \<Rightarrow> 'r loginsrv \<Rightarrow> 'r loginsrv" where
  "check_hear_beat env threadIdx st =
     fold (\<lambda>(sid, p) s.
         if mWillDelete (loginPlayers s p) then s
         else (case CheckTimeOutSnapshot (l_tick env) (loginPlayers s p) of (pl, snap) \<Rightarrow>
           s\<lparr>loginPlayers := (loginPlayers s)(p := pl),
             loginTimeouts := loginTimeouts s + (if expired snap \<and> firstReport snap then 1 else 0)\<rparr>))
       (l_iterOrder env (playerMaps st threadIdx)) (st\<lparr>loginHeartCount := loginHeartCount st + 1\<rparr>)"

text \<open>One job; \<open>p\<close> is the block the player pool returns to a join.\<close>

fun content_job :: "'r login_env \<Rightarrow> nat \<Rightarrow> nat \<Rightarrow> job \<Rightarrow> 'r loginsrv \<Rightarrow> ('r loginsrv \<times> action list) option" where
  "content_job env threadIdx p (CLIENT_JOIN sessionID) st =
     (let st1 = upd_login p (\<lambda>pl. OnConnect (l_tick env) ((Player_Clear pl)\<lparr>mSessionID_p := sessionID\<rparr>))
            (st\<lparr>loginJobCount := loginJobCount st + 1, loginFreed := removeAll p (loginFreed st)\<rparr>);
          tid = GetTargetThread sessionID
      in if map_of (playerMaps st1 tid) sessionID \<noteq> None then Some (st1, [])
         else Some (st1\<lparr>playerMaps := (playerMaps st1)(tid := playerMaps st1 tid @ [(sessionID, p)])\<rparr>, []))"
| "content_job env threadIdx p (CLIENT_LEAVE sessionID) st =
     (case findPlayer_login sessionID st of None \<Rightarrow> Some (st, []) | Some q \<Rightarrow> Some (removePlayer_login q st))"
| "content_job env threadIdx p (PACKET_JOB sessionID packet) st =
     (let st0 = st\<lparr>loginJobCount := loginJobCount st + 1\<rparr> in
      case findPlayer_login sessionID st0 of
        Some q \<Rightarrow> do {
          (st1, ok, acts) \<leftarrow> packetProc_login env threadIdx q packet st0;
          let (st2, acts2) = (if ok then (st1, []) else reserveDeletePlayer_login q st1);
          Some (st2, acts @ acts2 @ [AFreeRequest])
        }
      | None \<Rightarrow> do {
          (p1, headerType) \<leftarrow> read_word 2 (ucast (l_indeterminate env) :: u16) packet;
          Some (st0, [AFreeRequest])
        })"
| "content_job env threadIdx p CHECK_HEAR_BEAT st = Some (check_hear_beat env threadIdx st, [])"

definition contentThread :: "'r login_env \<Rightarrow> nat \<Rightarrow> nat \<Rightarrow> 'r loginsrv \<Rightarrow> ('r loginsrv \<times> action list) option" where
  "contentThread env threadIdx p st =
     (case contentQueues st threadIdx of
        [] \<Rightarrow> Some (st, [])
      | j # rest \<Rightarrow> content_job env threadIdx p j (st\<lparr>contentQueues := (contentQueues st)(threadIdx := rest)\<rparr>))"

section \<open>The response message\<close>

lemma MakeLoginResLogin_wrote:
  assumes "fresh p" and "length pid = 20" and "length nick = 20" and "length gip = 16" and "length cip = 16"
  obtains p' where "MakeLoginResLogin p acc status pid nick gip gport cip cport = Some p'"
    "written p' = replicate 5 0 @ le_bytes 2 en_PACKET_CS_LOGIN_RES_LOGIN @ le_bytes 8 acc @ le_bytes 1 status @ wbytes pid @
       wbytes nick @ wbytes gip @ le_bytes 2 gport @ wbytes cip @ le_bytes 2 cport"
proof -
  let ?t = "en_PACKET_CS_LOGIN_RES_LOGIN"
  obtain p1 where p1: "InitPacket p ?t = Some p1" "wrote p (replicate 5 0 @ le_bytes 2 ?t) p1" by (rule InitPacket_wrote [OF assms(1)])
  have "packet_ok p1" "fits p1 (length (le_bytes 8 acc))" using p1(2) assms(1) by (auto simp: wrote_def fresh_def fits_def)
  then obtain p2 where p2: "shl_bytes p1 (le_bytes 8 acc) = Some p2" "wrote p1 (le_bytes 8 acc) p2" by (rule shl_wrote)
  note w2 = wrote_trans [OF p1(2) p2(2)]
  have "packet_ok p2" "fits p2 (length (le_bytes 1 status))" using w2 assms(1) by (auto simp: wrote_def fresh_def fits_def)
  then obtain p3 where p3: "shl_bytes p2 (le_bytes 1 status) = Some p3" "wrote p2 (le_bytes 1 status) p3" by (rule shl_wrote)
  note w3 = wrote_trans [OF w2 p3(2)]
  have "packet_ok p3" "fits p3 (length (wbytes pid))" using w3 assms(1,2) by (auto simp: wrote_def fresh_def fits_def)
  then obtain p4 where p4: "PutData p3 (wbytes pid) = Some (p4, int (length (wbytes pid)))" "wrote p3 (wbytes pid) p4" by (rule PutData_wrote)
  note w4 = wrote_trans [OF w3 p4(2)]
  have "packet_ok p4" "fits p4 (length (wbytes nick))" using w4 assms(1-3) by (auto simp: wrote_def fresh_def fits_def)
  then obtain p5 where p5: "PutData p4 (wbytes nick) = Some (p5, int (length (wbytes nick)))" "wrote p4 (wbytes nick) p5" by (rule PutData_wrote)
  note w5 = wrote_trans [OF w4 p5(2)]
  have "packet_ok p5" "fits p5 (length (wbytes gip))" using w5 assms(1-4) by (auto simp: wrote_def fresh_def fits_def)
  then obtain p6 where p6: "PutData p5 (wbytes gip) = Some (p6, int (length (wbytes gip)))" "wrote p5 (wbytes gip) p6" by (rule PutData_wrote)
  note w6 = wrote_trans [OF w5 p6(2)]
  have "packet_ok p6" "fits p6 (length (le_bytes 2 gport))" using w6 assms(1-4) by (auto simp: wrote_def fresh_def fits_def)
  then obtain p7 where p7: "shl_bytes p6 (le_bytes 2 gport) = Some p7" "wrote p6 (le_bytes 2 gport) p7" by (rule shl_wrote)
  note w7 = wrote_trans [OF w6 p7(2)]
  have "packet_ok p7" "fits p7 (length (wbytes cip))" using w7 assms by (auto simp: wrote_def fresh_def fits_def)
  then obtain p8 where p8: "PutData p7 (wbytes cip) = Some (p8, int (length (wbytes cip)))" "wrote p7 (wbytes cip) p8" by (rule PutData_wrote)
  note w8 = wrote_trans [OF w7 p8(2)]
  have "packet_ok p8" "fits p8 (length (le_bytes 2 cport))" using w8 assms by (auto simp: wrote_def fresh_def fits_def)
  then obtain p9 where p9: "shl_bytes p8 (le_bytes 2 cport) = Some p9" "wrote p8 (le_bytes 2 cport) p9" by (rule shl_wrote)
  show ?thesis
    using that [of p9] wrote_trans [OF w8 p9(2)] assms(1) p1(1) p2(1) p3(1) p4(1) p5(1) p6(1) p7(1) p8(1) p9(1)
    by (simp add: MakeLoginResLogin_def wrote_def fresh_def)
qed

section \<open>The query text fits\<close>

lemma length_to_string: "n < 10 ^ Suc k \<Longrightarrow> length (to_string n) \<le> Suc k"
proof (induction k arbitrary: n)
  case 0
  then show ?case by (simp add: to_string.simps [of n])
next
  case (Suc k)
  have "n div 10 < 10 ^ Suc k" using Suc.prems by (simp add: less_mult_imp_div_less)
  then show ?case using Suc.IH [of "n div 10"] by (simp add: to_string.simps [of n])
qed

lemma account_query_total: "account_query acc \<noteq> None"
proof -
  have r: "- (2 ^ 63) \<le> sint acc" "sint acc < 2 ^ 63" using sint_greater_eq [of acc] sint_less [of acc] by simp_all
  have "nat \<bar>sint acc\<bar> < 10 ^ Suc 19" using r by simp
  from length_to_string [OF this] have "length (to_string (nat \<bar>sint acc\<bar>)) \<le> 20" by simp
  then have "length (lld acc) \<le> 21" by (auto simp: lld_def abs_if split: if_splits)
  then show ?thesis by (simp add: account_query_def sprintf_s_def)
qed

section \<open>The invariant\<close>

text \<open>The player objects a content thread owns.\<close>

definition thread_players :: "'r loginsrv \<Rightarrow> nat \<Rightarrow> nat set" where
  "thread_players st i = snd ` set (playerMaps st i)"

fun job_ok :: "nat \<Rightarrow> job \<Rightarrow> bool" where
  "job_ok i (CLIENT_JOIN sid) \<longleftrightarrow> GetTargetThread sid = i"
| "job_ok i (CLIENT_LEAVE sid) \<longleftrightarrow> GetTargetThread sid = i"
| "job_ok i (PACKET_JOB sid packet) \<longleftrightarrow> GetTargetThread sid = i \<and> packet_ok packet"
| "job_ok i CHECK_HEAR_BEAT \<longleftrightarrow> True"

definition login_ok :: "'r loginsrv \<Rightarrow> bool" where
  "login_ok st \<longleftrightarrow>
     (\<forall>i. \<forall>(sid, p) \<in> set (playerMaps st i). GetTargetThread sid = i \<and> mSessionID_p (loginPlayers st p) = sid) \<and>
     (\<forall>i. distinct (map fst (playerMaps st i)) \<and> distinct (map snd (playerMaps st i))) \<and>
     (\<forall>i. thread_players st i \<inter> set (loginFreed st) = {}) \<and>
     (\<forall>p. arrays_ok (loginPlayers st p)) \<and>
     (\<forall>i. \<forall>j \<in> set (contentQueues st i). job_ok i j)"

definition login_env_ok :: "'r login_env \<Rightarrow> bool" where
  "login_env_ok env \<longleftrightarrow> (\<exists>p. l_alloc env = Some p \<and> capacity p = 2048) \<and> (\<forall>x. length (l_wide env x) = 20) \<and>
     (\<forall>m. mset (l_iterOrder env m) = mset m)"

lemma login_okD:
  assumes "login_ok st"
  shows "(sid, p) \<in> set (playerMaps st i) \<Longrightarrow> GetTargetThread sid = i \<and> mSessionID_p (loginPlayers st p) = sid"
    "distinct (map fst (playerMaps st i))" "distinct (map snd (playerMaps st i))" "thread_players st i \<inter> set (loginFreed st) = {}"
    "arrays_ok (loginPlayers st p)" "j \<in> set (contentQueues st i) \<Longrightarrow> job_ok i j"
  using assms by (auto simp: login_ok_def)

text \<open>No player object belongs to two threads.\<close>

lemma threads_disjoint:
  assumes "login_ok st" and "p \<in> thread_players st i" and "p \<in> thread_players st k"
  shows "i = k"
proof -
  obtain s1 s2 where "(s1, p) \<in> set (playerMaps st i)" "(s2, p) \<in> set (playerMaps st k)"
    using assms(2,3) by (auto simp: thread_players_def)
  from this [THEN login_okD(1) [OF assms(1)]] show ?thesis by blast
qed

lemma findPlayer_login_player:
  assumes "findPlayer_login sid st = Some p"
  shows "(sid, p) \<in> set (playerMaps st (GetTargetThread sid))" "p \<in> thread_players st (GetTargetThread sid)"
proof -
  show "(sid, p) \<in> set (playerMaps st (GetTargetThread sid))" using assms by (auto simp: findPlayer_login_def dest: map_of_SomeD)
  then show "p \<in> thread_players st (GetTargetThread sid)" by (force simp: thread_players_def)
qed

section \<open>What a packet does\<close>

text \<open>
  The handling of a packet is a fixed update of the player and of Redis and fixed actions, whatever the rest
  of the state.
\<close>

definition packet_effect :: "'r login_env \<Rightarrow> nat \<Rightarrow> packet \<Rightarrow> (player \<Rightarrow> player) \<Rightarrow> ('r \<Rightarrow> 'r) \<Rightarrow> bool \<Rightarrow> (u64 \<Rightarrow> action list) \<Rightarrow> bool" where
  "packet_effect env i packet F R ok A \<longleftrightarrow>
     (\<forall>q st. packetProc_login env i q packet st =
        Some (upd_login q F (st\<lparr>loginRedis := R (loginRedis st)\<rparr>), ok, A (mSessionID_p (loginPlayers st q)))) \<and>
     (\<forall>pl. mSessionID_p (F pl) = mSessionID_p pl \<and> mWillDelete (F pl) = mWillDelete pl \<and> (arrays_ok pl \<longrightarrow> arrays_ok (F pl))) \<and>
     (\<forall>sid. A sid = [] \<or> (\<exists>res. A sid = [AAlloc, ASend sid res, AFreeResponse]))"

lemma upd_login_id: "upd_login q (\<lambda>pl. pl) st = st"
  by (simp add: upd_login_def)

lemma packetProc_login_effect:
  assumes "login_env_ok env" and "packet_ok packet"
  obtains F R ok A where "packet_effect env i packet F R ok A"
proof -
  obtain p1 t where t: "read_word 2 (ucast (l_indeterminate env) :: u16) packet = Some (p1, t)" "packet_ok p1"
    by (rule read_word_total [OF assms(2), of 2]) auto
  show ?thesis
  proof (cases "t = en_PACKET_CS_LOGIN_REQ_LOGIN")
    case False
    then have "packet_effect env i packet (\<lambda>pl. pl) (\<lambda>r. r) False (\<lambda>sid. [])"
      by (simp add: packet_effect_def packetProc_login_def t(1) upd_login_id)
    then show ?thesis by (rule that)
  next
    case True
    obtain p2 acc where a: "read_word 8 (l_indeterminate env) p1 = Some (p2, acc)" "packet_ok p2"
      by (rule read_word_total [OF t(2), of 8]) auto
    obtain p3 key where k: "read_array 64 p2 = Some (p3, key)" by (rule read_array_total [OF a(2)])
    obtain found where r: "login_row env i acc = Some found"
      using account_query_total [of acc] by (cases "l_connected env i") (auto simp: login_row_def)
    obtain pooled where pooled: "l_alloc env = Some pooled" "capacity pooled = 2048" using assms(1) by (auto simp: login_env_ok_def)
    have wl: "length (l_wide env x) = 20" for x using assms(1) by (simp add: login_env_ok_def)
    have sl: "length server_ip = 16" by (simp add: server_ip_def)
    note f = fresh_Packet_Init [OF pooled(2)]
    show ?thesis
    proof (cases found)
      case None
      obtain res where res: "MakeLoginResLogin (Packet_Init pooled) acc dfLOGIN_STATUS_FAIL (replicate 20 0) (replicate 20 0)
          server_ip GAME_SERVER_PORT server_ip CHAT_SERVER_PORT = Some res"
        by (rule MakeLoginResLogin_wrote [OF f, where pid = "replicate 20 0" and nick = "replicate 20 0" and gip = server_ip and cip = server_ip])
          (simp_all add: sl)
      have "packet_effect env i packet (\<lambda>pl. pl) (\<lambda>r. r) True (\<lambda>sid. [AAlloc, ASend sid res, AFreeResponse])"
        using True None by (simp add: packet_effect_def packetProc_login_def login_login_def t(1) a(1) k r Let_def pooled(1) res upd_login_id)
      then show ?thesis by (rule that)
    next
      case (Some row)
      obtain row1 row2 where row: "row = (row1, row2)" by fastforce
      obtain res where res: "MakeLoginResLogin (Packet_Init pooled) acc dfLOGIN_STATUS_OK (l_wide env row1) (l_wide env row2)
          server_ip GAME_SERVER_PORT server_ip CHAT_SERVER_PORT = Some res"
        by (rule MakeLoginResLogin_wrote [OF f, where pid = "l_wide env row1" and nick = "l_wide env row2" and gip = server_ip and cip = server_ip])
          (simp_all add: sl wl)
      let ?F = "\<lambda>pl. OnLogin (l_tick env) (SetNickName (l_wide env row2) (SetID (l_wide env row1) (pl\<lparr>mAccountNo := acc\<rparr>)))"
      let ?R = "\<lambda>r. fst (Redis_Set env (to_string (unat acc)) (takeWhile (\<lambda>b. b \<noteq> 0) key) 60 r)"
      have F: "mSessionID_p (?F pl) = mSessionID_p pl \<and> mWillDelete (?F pl) = mWillDelete pl \<and> (arrays_ok pl \<longrightarrow> arrays_ok (?F pl))" for pl
        by (auto simp: OnLogin_def SetNickName_def SetID_def arrays_ok_def length_copy_truncate simp flip: length_greater_0_conv)
      have "packet_effect env i packet ?F ?R True (\<lambda>sid. [AAlloc, ASend sid res, AFreeResponse])"
        using True Some row F
        by (simp add: packet_effect_def packetProc_login_def login_login_def t(1) a(1) k r Let_def pooled(1) res upd_login_def)
      then show ?thesis by (rule that)
    qed
  qed
qed

section \<open>What a content thread does\<close>

text \<open>The effect of the heartbeat check on one player.\<close>

definition beat_one :: "u64 \<Rightarrow> player \<Rightarrow> player" where
  "beat_one now pl = (if mWillDelete pl then pl else fst (CheckTimeOutSnapshot now pl))"

definition beat_count :: "u64 \<Rightarrow> player \<Rightarrow> int" where
  "beat_count now pl =
     (if mWillDelete pl then 0 else if expired (snd (CheckTimeOutSnapshot now pl)) \<and> firstReport (snd (CheckTimeOutSnapshot now pl)) then 1 else 0)"

lemma beat_one_simps [simp]:
  "mSessionID_p (beat_one now pl) = mSessionID_p pl" "arrays_ok (beat_one now pl) = arrays_ok pl"
  by (simp_all add: beat_one_def CheckTimeOutSnapshot_def Let_def arrays_ok_def)

lemma beat_fold:
  assumes "distinct (map snd xs)"
  shows "fold (\<lambda>(sid, p) s.
         if mWillDelete (loginPlayers s p) then s
         else (case CheckTimeOutSnapshot now (loginPlayers s p) of (pl, snap) \<Rightarrow>
           s\<lparr>loginPlayers := (loginPlayers s)(p := pl),
             loginTimeouts := loginTimeouts s + (if expired snap \<and> firstReport snap then 1 else 0)\<rparr>)) xs st =
    st\<lparr>loginPlayers := (\<lambda>q. if q \<in> snd ` set xs then beat_one now (loginPlayers st q) else loginPlayers st q),
       loginTimeouts := loginTimeouts st + sum_list (map (\<lambda>(sid, p). beat_count now (loginPlayers st p)) xs)\<rparr>"
  using assms
proof (induction xs arbitrary: st)
  case (Cons x xs)
  obtain sid p where x: "x = (sid, p)" by fastforce
  define s1 where "s1 = st\<lparr>loginPlayers := (loginPlayers st)(p := beat_one now (loginPlayers st p)),
    loginTimeouts := loginTimeouts st + beat_count now (loginPlayers st p)\<rparr>"
  have p: "p \<notin> snd ` set xs" using Cons.prems x by auto
  have one: "(if mWillDelete (loginPlayers st p) then st
         else (case CheckTimeOutSnapshot now (loginPlayers st p) of (pl, snap) \<Rightarrow>
           st\<lparr>loginPlayers := (loginPlayers st)(p := pl),
             loginTimeouts := loginTimeouts st + (if expired snap \<and> firstReport snap then 1 else 0)\<rparr>)) = s1"
    by (simp add: s1_def beat_one_def beat_count_def split: prod.splits)
  have sums: "sum_list (map (\<lambda>(sid, p). beat_count now (loginPlayers s1 p)) xs) =
      sum_list (map (\<lambda>(sid, p). beat_count now (loginPlayers st p)) xs)"
    using p by (intro arg_cong [where f = sum_list] map_cong) (force simp: s1_def)+
  have "distinct (map snd xs)" using Cons.prems by simp
  from Cons.IH [OF this, of s1] show ?case
    using p unfolding x fold_Cons comp_def prod.case one sums by (auto simp: s1_def fun_eq_iff)
qed (simp add: fun_eq_iff)

text \<open>
  An update of the slice of thread \<open>i\<close>: its map, its queue, the players \<open>U\<close> rewrites, and the shared
  counters, free list and Redis.
\<close>

definition slice :: "nat \<Rightarrow> (nat \<Rightarrow> player \<Rightarrow> player) \<Rightarrow> (u64 \<times> nat) list \<Rightarrow> job list \<Rightarrow> int \<times> int \<times> int
    \<Rightarrow> (nat list \<Rightarrow> nat list) \<Rightarrow> ('r \<Rightarrow> 'r) \<Rightarrow> 'r loginsrv \<Rightarrow> 'r loginsrv" where
  "slice i U M Q d Fr R st = (case d of (a, b, c) \<Rightarrow>
     st\<lparr>loginPlayers := (\<lambda>q. U q (loginPlayers st q)), playerMaps := (playerMaps st)(i := M),
        contentQueues := (contentQueues st)(i := Q), loginJobCount := loginJobCount st + a,
        loginHeartCount := loginHeartCount st + b, loginTimeouts := loginTimeouts st + c,
        loginFreed := Fr (loginFreed st), loginRedis := R (loginRedis st)\<rparr>)"

text \<open>What a thread can see of two states is the same.\<close>

definition same_slice :: "nat \<Rightarrow> 'r loginsrv \<Rightarrow> 'r loginsrv \<Rightarrow> bool" where
  "same_slice i st s \<longleftrightarrow> playerMaps s i = playerMaps st i \<and> contentQueues s i = contentQueues st i \<and>
     (\<forall>q \<in> thread_players st i. loginPlayers s q = loginPlayers st q)"

definition unowned :: "nat \<Rightarrow> 'r loginsrv \<Rightarrow> bool" where
  "unowned p st \<longleftrightarrow> (\<forall>k. p \<notin> thread_players st k)"

lemma same_slice_refl [simp]: "same_slice i st st"
  by (simp add: same_slice_def)

lemma slice_ok:
  assumes "login_ok st" and "\<And>q pl. arrays_ok pl \<Longrightarrow> arrays_ok (U q pl)"
    and "\<And>sid q. (sid, q) \<in> set M \<Longrightarrow> GetTargetThread sid = i \<and> mSessionID_p (U q (loginPlayers st q)) = sid"
    and "\<And>k q. k \<noteq> i \<Longrightarrow> q \<in> thread_players st k \<Longrightarrow> U q = (\<lambda>pl. pl)"
    and "distinct (map fst M)" "distinct (map snd M)" "snd ` set M \<inter> set (Fr (loginFreed st)) = {}"
    and "\<And>k. k \<noteq> i \<Longrightarrow> thread_players st k \<inter> set (Fr (loginFreed st)) = {}"
    and "set Q \<subseteq> set (contentQueues st i)"
  shows "login_ok (slice i U M Q d Fr R st)"
proof -
  obtain a b c where d: "d = (a, b, c)" by (cases d)
  have other: "GetTargetThread sid = k \<and> mSessionID_p (U q (loginPlayers st q)) = sid"
    if "k \<noteq> i" "(sid, q) \<in> set (playerMaps st k)" for k sid q
  proof -
    have "q \<in> thread_players st k" using that(2) by (force simp: thread_players_def)
    then show ?thesis using assms(4) [OF that(1)] login_okD(1) [OF assms(1) that(2)] by simp
  qed
  show ?thesis
    unfolding login_ok_def slice_def d prod.case
    using assms(2,3,5-9) other login_okD(2-6) [OF assms(1)]
    by (auto simp: thread_players_def subset_iff)
qed

lemma content_slice:
  assumes "login_ok st" and "login_env_ok env" and "unowned p st"
  obtains U M Q d Fr R acts where
    "\<And>s. same_slice i st s \<Longrightarrow> contentThread env i p s = Some (slice i U M Q d Fr R s, acts)"
    "\<And>q. q \<notin> thread_players st i \<Longrightarrow> q \<noteq> p \<Longrightarrow> U q = (\<lambda>pl. pl)"
    "login_ok (slice i U M Q d Fr R st)"
proof (cases "contentQueues st i")
  case Nil
  let ?U = "\<lambda>q pl. pl" and ?M = "playerMaps st i"
  have "login_ok (slice i ?U ?M [] (0, 0, 0) (\<lambda>f. f) (\<lambda>r. r) st)"
    by (rule slice_ok [OF assms(1)]) (use login_okD [OF assms(1)] in \<open>auto simp: thread_players_def\<close>)
  then show ?thesis
    by (rule that [rotated 2]) (use Nil in \<open>auto simp: contentThread_def slice_def same_slice_def fun_upd_idem\<close>)
next
  case (Cons j rest)
  have j: "job_ok i j" using login_okD(6) [OF assms(1), of j i] Cons by simp
  have rest: "set rest \<subseteq> set (contentQueues st i)" using Cons by auto
  note ok = login_okD [OF assms(1)]
  have un: "p \<notin> thread_players st k" for k using assms(3) by (simp add: unowned_def)
  have disj: "k \<noteq> i \<Longrightarrow> q \<in> thread_players st k \<Longrightarrow> q \<notin> thread_players st i" for k q
    using threads_disjoint [OF assms(1)] by blast
  show ?thesis
  proof (cases j)
    case (CLIENT_JOIN sid)
    let ?U = "\<lambda>q. if q = p then (\<lambda>pl. OnConnect (l_tick env) ((Player_Clear pl)\<lparr>mSessionID_p := sid\<rparr>)) else (\<lambda>pl. pl)"
    let ?M = "if map_of (playerMaps st i) sid \<noteq> None then playerMaps st i else playerMaps st i @ [(sid, p)]"
    have sid: "GetTargetThread sid = i" using j CLIENT_JOIN by simp
    have new: "map_of (playerMaps st i) sid = None \<Longrightarrow> sid \<notin> fst ` set (playerMaps st i)" by (simp add: map_of_eq_None_iff)
    have "login_ok (slice i ?U ?M rest (1, 0, 0) (removeAll p) (\<lambda>r. r) st)"
    proof (rule slice_ok [OF assms(1)])
      show "arrays_ok (?U q pl)" if "arrays_ok pl" for q pl
        using that by (simp add: arrays_ok_def OnConnect_def Player_Clear_def)
      show "GetTargetThread s' = i \<and> mSessionID_p (?U q (loginPlayers st q)) = s'" if "(s', q) \<in> set ?M" for s' q
        using that ok(1) [of s' q i] un [of i] sid by (force simp: thread_players_def OnConnect_def split: if_splits)
      show "?U q = (\<lambda>pl. pl)" if "q \<in> thread_players st k" for k q using that un by auto
      show "distinct (map fst ?M)" using ok(2) [of i] new by (auto simp: image_image)
      show "distinct (map snd ?M)" using ok(3) [of i] un [of i] by (auto simp: thread_players_def)
      show "snd ` set ?M \<inter> set (removeAll p (loginFreed st)) = {}" using ok(4) [of i] by (auto simp: thread_players_def)
      show "thread_players st k \<inter> set (removeAll p (loginFreed st)) = {}" for k using ok(4) [of k] by auto
    qed (rule rest)
    then show ?thesis
      by (rule that [rotated 2])
        (use Cons CLIENT_JOIN sid in \<open>auto simp: contentThread_def slice_def same_slice_def fun_upd_idem upd_login_def Let_def fun_eq_iff\<close>)
  next
    case (CLIENT_LEAVE sid)
    have sid: "GetTargetThread sid = i" using j CLIENT_LEAVE by simp
    show ?thesis
    proof (cases "map_of (playerMaps st i) sid")
      case None
      let ?U = "\<lambda>q pl. pl" and ?M = "playerMaps st i"
      have "login_ok (slice i ?U ?M rest (0, 0, 0) (\<lambda>f. f) (\<lambda>r. r) st)"
        by (rule slice_ok [OF assms(1)]) (use login_okD [OF assms(1)] rest in \<open>auto simp: thread_players_def\<close>)
      then show ?thesis
        by (rule that [rotated 2])
          (use Cons CLIENT_LEAVE None sid in \<open>auto simp: contentThread_def slice_def same_slice_def fun_upd_idem findPlayer_login_def\<close>)
    next
      case (Some q)
      then have q: "(sid, q) \<in> set (playerMaps st i)" by (rule map_of_SomeD)
      then have qi: "q \<in> thread_players st i" by (force simp: thread_players_def)
      have qs: "mSessionID_p (loginPlayers st q) = sid" using ok(1) [OF q] by simp
      let ?U = "\<lambda>q'. if q' = q then (\<lambda>pl. pl\<lparr>mIsLoggedIn := False\<rparr>) else (\<lambda>pl. pl)"
      let ?M = "filter (\<lambda>(s, q). s \<noteq> sid) (playerMaps st i)"
      have gone: "q \<notin> snd ` set ?M"
      proof
        assume "q \<in> snd ` set ?M"
        then obtain s where "(s, q) \<in> set (playerMaps st i)" "s \<noteq> sid" by auto
        with ok(1) [of s q i] qs show False by simp
      qed
      have "login_ok (slice i ?U ?M rest (0, 0, 0) (\<lambda>f. f @ [q]) (\<lambda>r. r) st)"
      proof (rule slice_ok [OF assms(1)])
        show "GetTargetThread s' = i \<and> mSessionID_p (?U q' (loginPlayers st q')) = s'" if "(s', q') \<in> set ?M" for s' q'
          using that ok(1) [of s' q' i] by auto
        show "?U q' = (\<lambda>pl. pl)" if "k \<noteq> i" "q' \<in> thread_players st k" for k q' using disj [OF that] qi by auto
        show "distinct (map fst ?M)" "distinct (map snd ?M)" using ok(2,3) [of i] by (simp_all add: distinct_map_filter)
        show "snd ` set ?M \<inter> set (loginFreed st @ [q]) = {}" using ok(4) [of i] gone by (auto simp: thread_players_def)
        show "thread_players st k \<inter> set (loginFreed st @ [q]) = {}" if "k \<noteq> i" for k
          using ok(4) [of k] disj [OF that] qi by auto
      qed (use rest in \<open>auto simp: arrays_ok_def\<close>)
      moreover have "contentThread env i p s = Some (slice i ?U ?M rest (0, 0, 0) (\<lambda>f. f @ [q]) (\<lambda>r. r) s, [ADisconnect sid Logic])"
        if "same_slice i st s" for s
        using that Cons CLIENT_LEAVE Some sid qi qs
        by (auto simp: contentThread_def slice_def same_slice_def findPlayer_login_def removePlayer_login_def Let_def upd_login_def fun_eq_iff)
      ultimately show ?thesis by (rule that [rotated 2]) (use qi in auto)
    qed
  next
    case (PACKET_JOB sid packet)
    have sid: "GetTargetThread sid = i" "packet_ok packet" using j PACKET_JOB by simp_all
    show ?thesis
    proof (cases "map_of (playerMaps st i) sid")
      case None
      let ?U = "\<lambda>q pl. pl" and ?M = "playerMaps st i"
      obtain p1 t where t: "read_word 2 (ucast (l_indeterminate env) :: u16) packet = Some (p1, t)"
        by (rule read_word_total [OF sid(2), of 2]) auto
      have "login_ok (slice i ?U ?M rest (1, 0, 0) (\<lambda>f. f) (\<lambda>r. r) st)"
        by (rule slice_ok [OF assms(1)]) (use login_okD [OF assms(1)] rest in \<open>auto simp: thread_players_def\<close>)
      then show ?thesis
        by (rule that [rotated 2])
          (use Cons PACKET_JOB None sid t in \<open>auto simp: contentThread_def slice_def same_slice_def fun_upd_idem findPlayer_login_def Let_def\<close>)
    next
      case (Some q)
      then have q: "(sid, q) \<in> set (playerMaps st i)" by (rule map_of_SomeD)
      then have qi: "q \<in> thread_players st i" by (force simp: thread_players_def)
      have qs: "mSessionID_p (loginPlayers st q) = sid" using ok(1) [OF q] by simp
      obtain F R okb A where eff: "packet_effect env i packet F R okb A" by (rule packetProc_login_effect [OF assms(2) sid(2)])
      define G where "G = (\<lambda>pl. if okb then F pl else (F pl)\<lparr>mWillDelete := True\<rparr>)"
      define acts where "acts = A sid @ (if okb \<or> mWillDelete (loginPlayers st q) then [] else [ADisconnect sid Logic]) @ [AFreeRequest]"
      let ?U = "\<lambda>q'. if q' = q then G else (\<lambda>pl. pl)" and ?M = "playerMaps st i"
      have F: "mSessionID_p (F pl) = mSessionID_p pl" "mWillDelete (F pl) = mWillDelete pl" "arrays_ok pl \<Longrightarrow> arrays_ok (F pl)" for pl
        using eff by (simp_all add: packet_effect_def)
      have same: "(F pl)\<lparr>mWillDelete := True\<rparr> = F pl" if "mWillDelete pl" for pl using F(2) [of pl] that by (cases "F pl") simp
      have "login_ok (slice i ?U ?M rest (1, 0, 0) (\<lambda>f. f) R st)"
      proof (rule slice_ok [OF assms(1)])
        show "arrays_ok (?U q' pl)" if "arrays_ok pl" for q' pl using that F(3) [of pl] by (simp add: G_def arrays_ok_def)
        show "GetTargetThread s' = i \<and> mSessionID_p (?U q' (loginPlayers st q')) = s'" if "(s', q') \<in> set ?M" for s' q'
          using that ok(1) [of s' q' i] F(1) by (auto simp: G_def)
        show "?U q' = (\<lambda>pl. pl)" if "k \<noteq> i" "q' \<in> thread_players st k" for k q' using disj [OF that] qi by auto
      qed (use ok(2-4) rest in \<open>auto simp: thread_players_def\<close>)
      moreover have "contentThread env i p s = Some (slice i ?U ?M rest (1, 0, 0) (\<lambda>f. f) R s, acts)" if "same_slice i st s" for s
      proof -
        have s: "map_of (playerMaps s i) sid = Some q" "contentQueues s i = PACKET_JOB sid packet # rest"
          "loginPlayers s q = loginPlayers st q" "playerMaps s i = ?M"
          using that Some Cons PACKET_JOB qi by (auto simp: same_slice_def)
        have pp: "packetProc_login env i q packet s' =
            Some (upd_login q F (s'\<lparr>loginRedis := R (loginRedis s')\<rparr>), okb, A (mSessionID_p (loginPlayers s' q)))" for s'
          using eff by (simp add: packet_effect_def)
        have fe: "(\<lambda>q'. (if q' = q then H else (\<lambda>pl. pl)) (g q')) = g(q := H (g q))" for H :: "player \<Rightarrow> player" and g by (simp add: fun_eq_iff)
        have g: "okb \<or> mWillDelete (loginPlayers st q) \<Longrightarrow> G (loginPlayers st q) = F (loginPlayers st q)"
          "\<not> okb \<Longrightarrow> \<not> mWillDelete (loginPlayers st q) \<Longrightarrow> G (loginPlayers st q) = (F (loginPlayers st q))\<lparr>mWillDelete := True\<rparr>"
          using same [of "loginPlayers st q"] by (auto simp: G_def)
        show ?thesis
          unfolding contentThread_def s(2) list.case content_job.simps Let_def
          using s(1,3,4) sid(1) qs F(1,2)
          by (cases okb; cases "mWillDelete (loginPlayers st q)")
            (simp_all add: findPlayer_login_def pp reserveDeletePlayer_login_def slice_def upd_login_def acts_def g fun_upd_idem fe)
      qed
      ultimately show ?thesis by (rule that [rotated 2]) (use qi in auto)
    qed
  next
    case CHECK_HEAR_BEAT
    let ?g = "beat_one (l_tick env)"
    let ?U = "\<lambda>q. if q \<in> thread_players st i then ?g else (\<lambda>pl. pl)" and ?M = "playerMaps st i"
    let ?xs = "l_iterOrder env ?M"
    let ?c = "sum_list (map (\<lambda>(sid, p). beat_count (l_tick env) (loginPlayers st p)) ?xs)"
    have ms: "mset ?xs = mset ?M" using assms(2) by (simp add: login_env_ok_def)
    then have sx: "set ?xs = set ?M" by (rule mset_eq_setD)
    have "mset (map snd ?xs) = mset (map snd ?M)" by (simp add: ms)
    then have dx: "distinct (map snd ?xs)" using ok(3) [of i] mset_eq_imp_distinct_iff by blast
    have "login_ok (slice i ?U ?M rest (0, 1, ?c) (\<lambda>f. f) (\<lambda>r. r) st)"
    proof (rule slice_ok [OF assms(1)])
      show "?U q' = (\<lambda>pl. pl)" if "k \<noteq> i" "q' \<in> thread_players st k" for k q' using disj [OF that] by auto
      show "GetTargetThread s' = i \<and> mSessionID_p (?U q' (loginPlayers st q')) = s'" if "(s', q') \<in> set ?M" for s' q'
        using ok(1) [OF that] by simp
    qed (use ok(2-4) rest in \<open>auto simp: thread_players_def\<close>)
    moreover have "contentThread env i p s = Some (slice i ?U ?M rest (0, 1, ?c) (\<lambda>f. f) (\<lambda>r. r) s, [])" if "same_slice i st s" for s
    proof -
      have s: "playerMaps s i = ?M" "contentQueues s i = CHECK_HEAR_BEAT # rest"
        "\<And>q. q \<in> thread_players st i \<Longrightarrow> loginPlayers s q = loginPlayers st q"
        using that Cons CHECK_HEAR_BEAT by (auto simp: same_slice_def)
      have c: "map (\<lambda>(sid, p). beat_count (l_tick env) (loginPlayers s p)) ?xs = map (\<lambda>(sid, p). beat_count (l_tick env) (loginPlayers st p)) ?xs"
        using s(3) sx by (intro map_cong) (force simp: thread_players_def)+
      have q: "snd ` set ?xs = thread_players st i" by (simp add: sx thread_players_def)
      show ?thesis
        unfolding contentThread_def s(2) list.case content_job.simps check_hear_beat_def
        by (simp add: s(1) beat_fold [OF dx] c q slice_def fun_upd_idem fun_eq_iff)
    qed
    ultimately show ?thesis by (rule that [rotated 2]) auto
  qed
qed

section \<open>Runs\<close>

datatype 'r login_event =
  NetJoin u64 | NetLeave u64 | NetRecv u64 packet | HeartBeatTimer | Content "'r login_env" nat nat

fun login_step :: "'r login_event \<Rightarrow> 'r loginsrv \<Rightarrow> ('r loginsrv \<times> action list) option" where
  "login_step (NetJoin sid) st = Some (OnClientJoin_login sid st, [])"
| "login_step (NetLeave sid) st = Some (OnClientLeave_login sid st, [])"
| "login_step (NetRecv sid packet) st = Some (OnRecv_login sid packet st, [])"
| "login_step HeartBeatTimer st = Some (PostHeartBeatCheck st, [])"
| "login_step (Content env i p) st = contentThread env i p st"

fun login_run :: "'r login_event list \<Rightarrow> 'r loginsrv \<Rightarrow> ('r loginsrv \<times> action list) option" where
  "login_run [] st = Some (st, [])"
| "login_run (e # es) st = do {
     (st1, a1) \<leftarrow> login_step e st;
     (st2, a2) \<leftarrow> login_run es st1;
     Some (st2, a1 @ a2)
   }"

text \<open>Packets come from the parser, and the pool hands out blocks no thread holds.\<close>

fun event_ok :: "'r login_event \<Rightarrow> 'r loginsrv \<Rightarrow> bool" where
  "event_ok (NetRecv sid packet) st \<longleftrightarrow> packet_ok packet"
| "event_ok (Content env i p) st \<longleftrightarrow> login_env_ok env \<and> unowned p st"
| "event_ok e st \<longleftrightarrow> True"

fun events_ok :: "'r login_event list \<Rightarrow> 'r loginsrv \<Rightarrow> bool" where
  "events_ok [] st \<longleftrightarrow> True"
| "events_ok (e # es) st \<longleftrightarrow> event_ok e st \<and> (case login_step e st of None \<Rightarrow> True | Some (st1, a) \<Rightarrow> events_ok es st1)"

definition login_init :: "'r \<Rightarrow> (nat \<Rightarrow> player) \<Rightarrow> 'r loginsrv" where
  "login_init r pl = \<lparr>loginPlayers = pl, playerMaps = (\<lambda>_. []), contentQueues = (\<lambda>_. []), loginJobCount = 0,
     loginRecvCount = 0, loginHeartCount = 0, loginTimeouts = 0, loginFreed = [], loginRedis = r\<rparr>"

lemma login_init_ok: "(\<And>p. arrays_ok (pl p)) \<Longrightarrow> login_ok (login_init r pl)"
  by (simp add: login_ok_def login_init_def thread_players_def)

lemma post_job_ok: "login_ok st \<Longrightarrow> job_ok i j \<Longrightarrow> login_ok (post_job i j st)"
  unfolding login_ok_def post_job_def by (auto simp: thread_players_def)

lemma post_job_fold_ok: "login_ok st \<Longrightarrow> login_ok (fold (\<lambda>i. post_job i CHECK_HEAR_BEAT) is st)"
  by (induction "is" arbitrary: st) (simp_all add: post_job_ok)

lemma login_step_ok:
  assumes "login_ok st" and "event_ok e st"
  obtains st' acts where "login_step e st = Some (st', acts)" "login_ok st'"
proof (cases e)
  case (NetRecv sid packet)
  have "login_ok (st\<lparr>loginRecvCount := n, loginJobCount := m\<rparr>)" for n m
    using assms(1) unfolding login_ok_def by (auto simp: thread_players_def)
  then show ?thesis using that NetRecv assms(2) by (simp add: OnRecv_login_def post_job_ok)
next
  case (Content env i p)
  then have "login_env_ok env" "unowned p st" using assms(2) by simp_all
  then obtain U M Q d Fr R acts where "\<And>s. same_slice i st s \<Longrightarrow> contentThread env i p s = Some (slice i U M Q d Fr R s, acts)"
    "login_ok (slice i U M Q d Fr R st)" by (rule content_slice [OF assms(1), where i = i]) blast
  then show ?thesis using that Content by simp
qed (use that assms(1) in \<open>simp_all add: OnClientJoin_login_def OnClientLeave_login_def PostHeartBeatCheck_def post_job_ok post_job_fold_ok\<close>)

lemma login_run_ok:
  assumes "login_ok st" and "events_ok es st"
  shows "\<exists>st' acts. login_run es st = Some (st', acts) \<and> login_ok st'"
  using assms
proof (induction es arbitrary: st)
  case (Cons e es)
  obtain st1 a where s: "login_step e st = Some (st1, a)" "login_ok st1"
    using login_step_ok [OF Cons.prems(1), of e] Cons.prems(2) by auto
  then obtain st2 b where "login_run es st1 = Some (st2, b)" "login_ok st2" using Cons.IH [OF s(2)] Cons.prems(2) by auto
  then show ?case using s by simp
qed simp

end
