(* ===== verification/DB_Server.thy ===== *)
theory DB_Server
  imports Login_Server
begin

text \<open>
  DBServer/: the queue of database messages, the writer thread that drains it and the statements each
  message becomes, with and without a transaction. \<open>mysql_query\<close> is a parameter \<open>exec\<close> on the state of the
  connection; what a transaction relies on is the hypothesis \<open>transactional\<close>, as the MySQL manual states it.
\<close>

section \<open>Messages\<close>

type_synonym s64 = "64 word"
type_synonym s32 = "32 word"

record item_trade =
  fromAccountNo :: s64
  fromItemSlot :: s64
  toAccountNo :: s64
  toItemSlot :: s64
  tradeMoney :: s32
  quantity :: s32

datatype db_message =
  LevelUp s64 s32                 \<comment> \<open>account, level\<close>
| MoneyAdd s64 s32 s32            \<comment> \<open>account, money, reason\<close>
| QuestComplete s64 s32           \<comment> \<open>account, quest\<close>
| ItemBuy s64 s32 s32 s32         \<comment> \<open>account, item, price, slot\<close>
| ItemTrade item_trade

text \<open>\<open>UpdateThread\<close>'s message from a roll of the die and further results of \<open>rand\<close>.\<close>

definition make_message :: "nat \<Rightarrow> nat \<Rightarrow> nat \<Rightarrow> nat \<Rightarrow> nat \<Rightarrow> nat \<Rightarrow> nat \<Rightarrow> db_message" where
  "make_message roll a b c d e f =
     (if roll = 0 then LevelUp (of_nat (a mod 5 + 10000)) (of_nat (b mod 100 + 1))
      else if roll = 1 then QuestComplete (of_nat (a mod 5 + 10000)) (of_nat (b mod 50))
      else if roll = 2 then ItemBuy (of_nat (a mod 5 + 10000)) (of_nat (b mod 200)) (of_nat ((c mod 100 + 1) * 10)) (of_nat (d mod 40))
      else if roll = 3 then MoneyAdd (of_nat (a mod 5 + 10000)) (of_nat ((b mod 100 + 1) * 100)) (of_nat (c mod 10))
      else
        (let from = of_nat (a mod 5 + 10000)
         in ItemTrade \<lparr>fromAccountNo = from, fromItemSlot = of_nat (b mod 40), toAccountNo = of_nat (c mod 5 + 10000) + from,
              toItemSlot = of_nat (d mod 40), tradeMoney = of_nat ((e mod 100 + 1) * 50), quantity = of_nat (f mod 10 + 1)\<rparr>))"

text \<open>The accounts of the schema are 10000 to 10004; the buyer of a trade is none of them.\<close>

lemma trade_buyer_unknown:
  assumes "make_message roll a b c d e f = ItemTrade t"
  shows "unat (fromAccountNo t) \<in> {10000..10004}" "unat (toAccountNo t) \<in> {20000..20008}"
proof -
  have t: "fromAccountNo t = of_nat (a mod 5 + 10000)" "toAccountNo t = of_nat (c mod 5 + a mod 5 + 20000)"
    using assms by (auto simp: make_message_def Let_def split: if_splits)
  have m: "a mod 5 \<le> 4" "c mod 5 \<le> 4" by simp_all
  have u: "unat (of_nat n :: s64) = n" if "n < 30000" for n using that by (simp add: unsigned_of_nat take_bit_nat_eq_self)
  have "unat (fromAccountNo t) = a mod 5 + 10000" unfolding t(1) by (rule u) (use m in linarith)
  moreover have "unat (toAccountNo t) = c mod 5 + a mod 5 + 20000" unfolding t(2) by (rule u) (use m in linarith)
  ultimately show "unat (fromAccountNo t) \<in> {10000..10004}" "unat (toAccountNo t) \<in> {20000..20008}" using m by auto
qed

section \<open>Statements\<close>

definition d32 :: "s32 \<Rightarrow> string" where
  "d32 w = (if sint w < 0 then CHR ''-'' # to_string (nat (- sint w)) else to_string (nat (sint w)))"

definition level_query :: "s64 \<Rightarrow> s32 \<Rightarrow> string option" where
  "level_query account level = sprintf_s 256 (''UPDATE `player` SET `level` = '' @ d32 level @ '' WHERE `account_no` = '' @ lld account)"

definition money_add_query :: "nat \<Rightarrow> s32 \<Rightarrow> s64 \<Rightarrow> string option" where
  "money_add_query n money account =
     sprintf_s n (''UPDATE `player` SET `money` = `money` + '' @ d32 money @ '' WHERE `account_no` = '' @ lld account)"

definition money_sub_query :: "nat \<Rightarrow> s32 \<Rightarrow> s64 \<Rightarrow> string option" where
  "money_sub_query n money account =
     sprintf_s n (''UPDATE `player` SET `money` = `money` - '' @ d32 money @ '' WHERE `account_no` = '' @ lld account)"

definition quest_query :: "s64 \<Rightarrow> s32 \<Rightarrow> string option" where
  "quest_query account quest =
     sprintf_s 256 (''INSERT INTO `quest_complete` (`account_no`, `quest_id`, `complete_date`) VALUES ('' @ lld account @ '', '' @ d32 quest @ '', NOW())'')"

definition inventory_query :: "nat \<Rightarrow> s64 \<Rightarrow> s32 \<Rightarrow> string \<Rightarrow> s32 \<Rightarrow> string option" where
  "inventory_query n account item islot price =
     sprintf_s n (''INSERT INTO `inventory` (`account_no`, `item_id`, `slot`, `price`) VALUES ('' @
       lld account @ '', '' @ d32 item @ '', '' @ islot @ '', '' @ d32 price @ '')'')"

definition delete_query :: "s64 \<Rightarrow> s64 \<Rightarrow> string option" where
  "delete_query account islot =
     sprintf_s 512 (''DELETE FROM `inventory` WHERE `account_no` = '' @ lld account @ '' AND `slot` = '' @ lld islot)"

text \<open>\<open>DBConnector::Execute\<close> on an open connection, and the counting variant; the state is the connection and \<open>lQueryTotal\<close>.\<close>

type_synonym 'c exec = "string \<Rightarrow> 'c \<Rightarrow> 'c \<times> bool"

definition ExecuteCount :: "'c exec \<Rightarrow> string \<Rightarrow> 'c \<times> nat \<Rightarrow> ('c \<times> nat) \<times> bool" where
  "ExecuteCount exec query = (\<lambda>(c, n). case exec query c of (c', ok) \<Rightarrow> ((c', if ok then n + 1 else n), ok))"

definition Execute :: "'c exec \<Rightarrow> string \<Rightarrow> 'c \<times> nat \<Rightarrow> ('c \<times> nat) \<times> bool" where
  "Execute exec query = (\<lambda>(c, n). case exec query c of (c', ok) \<Rightarrow> ((c', n), ok))"

definition BeginTransaction :: "'c exec \<Rightarrow> 'c \<times> nat \<Rightarrow> ('c \<times> nat) \<times> bool" where
  "BeginTransaction exec = Execute exec ''START TRANSACTION''"

definition Commit :: "'c exec \<Rightarrow> 'c \<times> nat \<Rightarrow> ('c \<times> nat) \<times> bool" where
  "Commit exec = Execute exec ''COMMIT''"

definition Rollback :: "'c exec \<Rightarrow> 'c \<times> nat \<Rightarrow> ('c \<times> nat) \<times> bool" where
  "Rollback exec = Execute exec ''ROLLBACK''"

section \<open>The handlers\<close>

definition HandleLevelUp :: "'c exec \<Rightarrow> s64 \<Rightarrow> s32 \<Rightarrow> 'c \<times> nat \<Rightarrow> ('c \<times> nat) option" where
  "HandleLevelUp exec account level s = do { query \<leftarrow> level_query account level; Some (fst (ExecuteCount exec query s)) }"

definition HandleMoneyAdd :: "'c exec \<Rightarrow> s64 \<Rightarrow> s32 \<Rightarrow> 'c \<times> nat \<Rightarrow> ('c \<times> nat) option" where
  "HandleMoneyAdd exec account money s = do { query \<leftarrow> money_add_query 256 money account; Some (fst (ExecuteCount exec query s)) }"

definition HandleQuestComplete :: "'c exec \<Rightarrow> s64 \<Rightarrow> s32 \<Rightarrow> 'c \<times> nat \<Rightarrow> ('c \<times> nat) option" where
  "HandleQuestComplete exec account quest s = do { query \<leftarrow> quest_query account quest; Some (fst (ExecuteCount exec query s)) }"

definition HandleItemBuy :: "'c exec \<Rightarrow> s64 \<Rightarrow> s32 \<Rightarrow> s32 \<Rightarrow> s32 \<Rightarrow> 'c \<times> nat \<Rightarrow> ('c \<times> nat) option" where
  "HandleItemBuy exec account item price islot s =
     do { query \<leftarrow> inventory_query 256 account item (d32 islot) price; Some (fst (ExecuteCount exec query s)) }"

definition HandleItemTradeTransaction :: "'c exec \<Rightarrow> item_trade \<Rightarrow> 'c \<times> nat \<Rightarrow> ('c \<times> nat) option" where
  "HandleItemTradeTransaction exec data s =
     (case BeginTransaction exec s of
        (s0, False) \<Rightarrow> Some s0
      | (s0, True) \<Rightarrow> do {
          q1 \<leftarrow> money_sub_query 512 (tradeMoney data) (toAccountNo data);
          (case ExecuteCount exec q1 s0 of
             (s1, False) \<Rightarrow> Some (fst (Rollback exec s1))
           | (s1, True) \<Rightarrow> do {
               q2 \<leftarrow> money_add_query 512 (tradeMoney data) (fromAccountNo data);
               (case ExecuteCount exec q2 s1 of
                  (s2, False) \<Rightarrow> Some (fst (Rollback exec s2))
                | (s2, True) \<Rightarrow> do {
                    q3 \<leftarrow> inventory_query 512 (toAccountNo data) 1 (lld (toItemSlot data)) (tradeMoney data);
                    (case ExecuteCount exec q3 s2 of
                       (s3, False) \<Rightarrow> Some (fst (Rollback exec s3))
                     | (s3, True) \<Rightarrow> do {
                         q4 \<leftarrow> delete_query (fromAccountNo data) (fromItemSlot data);
                         (case ExecuteCount exec q4 s3 of
                            (s4, False) \<Rightarrow> Some (fst (Rollback exec s4))
                          | (s4, True) \<Rightarrow>
                              (case Commit exec s4 of
                                 (s5, False) \<Rightarrow> Some (fst (Rollback exec s5))
                               | (s5, True) \<Rightarrow> Some s5))
                       })
                  })
             })
        })"

definition HandleItemTradeNoTransaction :: "'c exec \<Rightarrow> item_trade \<Rightarrow> 'c \<times> nat \<Rightarrow> ('c \<times> nat) option" where
  "HandleItemTradeNoTransaction exec data s = do {
     q1 \<leftarrow> money_sub_query 512 (tradeMoney data) (toAccountNo data);
     let s1 = fst (ExecuteCount exec q1 s);
     q2 \<leftarrow> money_add_query 512 (tradeMoney data) (fromAccountNo data);
     let s2 = fst (ExecuteCount exec q2 s1);
     q3 \<leftarrow> inventory_query 512 (toAccountNo data) 1 (lld (toItemSlot data)) (tradeMoney data);
     let s3 = fst (ExecuteCount exec q3 s2);
     q4 \<leftarrow> delete_query (fromAccountNo data) (fromItemSlot data);
     Some (fst (ExecuteCount exec q4 s3))
   }"

text \<open>The visit of a message in \<open>DBWriterThread\<close>.\<close>

fun handle_message :: "'c exec \<Rightarrow> bool \<Rightarrow> db_message \<Rightarrow> 'c \<times> nat \<Rightarrow> ('c \<times> nat) option" where
  "handle_message exec useTransaction (LevelUp account level) s = HandleLevelUp exec account level s"
| "handle_message exec useTransaction (MoneyAdd account money why) s = HandleMoneyAdd exec account money s"
| "handle_message exec useTransaction (QuestComplete account quest) s = HandleQuestComplete exec account quest s"
| "handle_message exec useTransaction (ItemBuy account item price islot) s = HandleItemBuy exec account item price islot s"
| "handle_message exec useTransaction (ItemTrade data) s =
     (if useTransaction then HandleItemTradeTransaction exec data s else HandleItemTradeNoTransaction exec data s)"

section \<open>Every statement fits its buffer\<close>

lemma length_lld: "length (lld acc) \<le> 21"
proof -
  have r: "- (2 ^ 63) \<le> sint acc" "sint acc < 2 ^ 63" using sint_greater_eq [of acc] sint_less [of acc] by simp_all
  have "nat \<bar>sint acc\<bar> < 10 ^ Suc 19" using r by simp
  from length_to_string [OF this] have "length (to_string (nat \<bar>sint acc\<bar>)) \<le> 20" by simp
  then show ?thesis by (auto simp: lld_def abs_if split: if_splits)
qed

lemma length_d32: "length (d32 w) \<le> 21"
proof -
  have r: "- (2 ^ 31) \<le> sint w" "sint w < 2 ^ 31" using sint_greater_eq [of w] sint_less [of w] by simp_all
  have "nat \<bar>sint w\<bar> < 10 ^ Suc 19" using r by simp
  from length_to_string [OF this] have "length (to_string (nat \<bar>sint w\<bar>)) \<le> 20" by simp
  then show ?thesis by (auto simp: d32_def abs_if split: if_splits)
qed

lemma sprintf_fits: "length txt < n \<Longrightarrow> sprintf_s n txt = Some txt"
  by (simp add: sprintf_s_def)

lemma queries_total:
  "level_query a w \<noteq> None" "money_add_query 256 w a \<noteq> None" "money_add_query 512 w a \<noteq> None" "money_sub_query 512 w a \<noteq> None"
  "quest_query a w \<noteq> None" "inventory_query 256 a w (d32 x) y \<noteq> None" "inventory_query 512 a w (lld b) y \<noteq> None" "delete_query a b \<noteq> None"
  using length_lld [of a] length_lld [of b] length_d32 [of w] length_d32 [of x] length_d32 [of y]
  by (simp_all add: level_query_def money_add_query_def money_sub_query_def quest_query_def inventory_query_def delete_query_def sprintf_fits)

end
