(* ===== verification/Monitor_Log.thy ===== *)
theory Monitor_Log
  imports DB_Server "HOL-Library.Signed_Division"
begin

text \<open>
  LoginServer/DBConnect/DBConnecter.cpp: the accumulation of monitoring values and their monthly log table. The
  connection is the state of the database with \<open>exec\<close> for \<open>mysql_query\<close> and \<open>errno\<close> for \<open>mysql_errno\<close>; the date
  and the iteration order of the hash map are arguments. \<open>None\<close> is a text that does not fit its array or a
  division by zero. That the database does what the MySQL manual says of tables is the hypothesis \<open>log_database\<close>.
\<close>

section \<open>Accumulation\<close>

record accum =
  a_sum :: s64
  a_count :: s32
  a_min :: s32
  a_max :: s32

record 'c dblog =
  mConn :: "'c option"
  mAccumMap :: "s32 \<rightharpoonup> accum"
  mTotalInsertCount :: s32

definition dblog_init :: "'c dblog" where
  "dblog_init = \<lparr>mConn = None, mAccumMap = \<lambda>_. None, mTotalInsertCount = 0\<rparr>"

text \<open>\<open>mysql_init\<close> and \<open>mysql_real_connect\<close> give a connection or fail.\<close>

definition Connect_db :: "'c option \<Rightarrow> 'c dblog \<Rightarrow> 'c dblog \<times> bool" where
  "Connect_db conn s = (s\<lparr>mConn := conn\<rparr>, conn \<noteq> None)"

definition Disconnect_db :: "'c dblog \<Rightarrow> 'c dblog" where
  "Disconnect_db s = (if mConn s \<noteq> None then s\<lparr>mConn := None\<rparr> else s)"

definition MakeKey :: "s32 \<Rightarrow> s32 \<Rightarrow> s32" where
  "MakeKey serverNo dataType = (push_bit 16 serverNo OR dataType)"

definition AddData :: "s32 \<Rightarrow> s32 \<Rightarrow> s32 \<Rightarrow> 'c dblog \<Rightarrow> 'c dblog" where
  "AddData serverNo dataType dataValue s =
     (let key = MakeKey serverNo dataType in
      case mAccumMap s key of
        None \<Rightarrow> s\<lparr>mAccumMap := (mAccumMap s)(key \<mapsto> \<lparr>a_sum = scast dataValue, a_count = 1, a_min = dataValue, a_max = dataValue\<rparr>)\<rparr>
      | Some a \<Rightarrow>
          (let a1 = a\<lparr>a_sum := a_sum a + scast dataValue, a_count := a_count a + 1\<rparr>;
               a2 = (if sint dataValue < sint (a_min a1) then a1\<lparr>a_min := dataValue\<rparr> else a1);
               a3 = (if sint dataValue > sint (a_max a2) then a2\<lparr>a_max := dataValue\<rparr> else a2)
           in s\<lparr>mAccumMap := (mAccumMap s)(key \<mapsto> a3)\<rparr>))"

section \<open>The log table\<close>

text \<open>A number in decimal, padded with zeros.\<close>

definition padded :: "nat \<Rightarrow> nat \<Rightarrow> string" where
  "padded n x = replicate (n - length (to_string x)) (CHR ''0'') @ to_string x"

definition table_name :: "nat \<Rightarrow> nat \<Rightarrow> string option" where
  "table_name year month = sprintf_s 64 (''monitorlog_'' @ padded 4 year @ padded 2 month)"

definition insert_query :: "string \<Rightarrow> s32 \<Rightarrow> s32 \<Rightarrow> s64 \<Rightarrow> s32 \<Rightarrow> s32 \<Rightarrow> string option" where
  "insert_query table serverNo dataType avgVal minVal maxVal =
     sprintf_s 512 (''INSERT INTO `'' @ table @ ''` (`logtime`, `serverno`, `type`, `avr`, `min`, `max`) VALUES (NOW(), '' @
       d32 serverNo @ '', '' @ d32 dataType @ '', '' @ lld avgVal @ '', '' @ d32 minVal @ '', '' @ d32 maxVal @ '')'')"

definition create_query :: "string \<Rightarrow> string option" where
  "create_query table = sprintf_s 256 (''CREATE TABLE `'' @ table @ ''` LIKE `monitorlog_template`'')"

definition EnsureTable :: "'c exec \<Rightarrow> string \<Rightarrow> 'c \<Rightarrow> ('c \<times> bool) option" where
  "EnsureTable exec table c = do { query \<leftarrow> create_query table; Some (exec query c) }"

definition average :: "accum \<Rightarrow> s64 option" where
  "average a = (if a_count a = 0 then None else Some (word_of_int (sint (a_sum a) sdiv sint (a_count a))))"

text \<open>The statement of one entry of the map.\<close>

definition entry_query :: "string \<Rightarrow> s32 \<Rightarrow> accum \<Rightarrow> string option" where
  "entry_query table key a = do {
     avgVal \<leftarrow> average a;
     insert_query table (drop_bit 16 key AND 0xFFFF) (key AND 0xFFFF) avgVal (a_min a) (a_max a) }"

definition insert_entry :: "'c exec \<Rightarrow> ('c \<Rightarrow> nat) \<Rightarrow> string \<Rightarrow> s32 \<Rightarrow> accum \<Rightarrow> 'c \<times> s32 \<Rightarrow> ('c \<times> s32) option" where
  "insert_entry exec errno table key a = (\<lambda>(c, n). do {
     query \<leftarrow> entry_query table key a;
     (case exec query c of
        (c1, True) \<Rightarrow> Some (c1, n + 1)
      | (c1, False) \<Rightarrow>
          if errno c1 = 1146
          then do {
            (c2, made) \<leftarrow> EnsureTable exec table c1;
            if made then (case exec query c2 of (c3, ok) \<Rightarrow> Some (c3, if ok then n + 1 else n)) else Some (c2, n) }
          else Some (c1, n)) })"

fun insert_entries :: "'c exec \<Rightarrow> ('c \<Rightarrow> nat) \<Rightarrow> string \<Rightarrow> (s32 \<rightharpoonup> accum) \<Rightarrow> s32 list \<Rightarrow> 'c \<times> s32 \<Rightarrow> ('c \<times> s32) option" where
  "insert_entries exec errno table m [] s = Some s"
| "insert_entries exec errno table m (key # keys) s =
     (case m key of
        None \<Rightarrow> insert_entries exec errno table m keys s
      | Some a \<Rightarrow> do { s1 \<leftarrow> insert_entry exec errno table key a s; insert_entries exec errno table m keys s1 })"

text \<open>\<open>order\<close> is the iteration order of the map.\<close>

definition Flush :: "'c exec \<Rightarrow> ('c \<Rightarrow> nat) \<Rightarrow> nat \<Rightarrow> nat \<Rightarrow> s32 list \<Rightarrow> 'c dblog \<Rightarrow> 'c dblog option" where
  "Flush exec errno year month order s =
     (case mConn s of
        None \<Rightarrow> Some s
      | Some c \<Rightarrow>
          (let snapshot = mAccumMap s; s1 = s\<lparr>mAccumMap := \<lambda>_. None\<rparr> in
           if order = [] then Some s1
           else do {
             table \<leftarrow> table_name year month;
             (c1, n) \<leftarrow> insert_entries exec errno table snapshot order (c, mTotalInsertCount s1);
             Some (s1\<lparr>mConn := Some c1, mTotalInsertCount := n\<rparr>) }))"

section \<open>What the database promises\<close>

text \<open>
  \<open>has table c\<close>: the table exists. An insertion into it succeeds and adds the row; without it, the insertion
  fails with error 1146 and leaves the data alone, and the creation makes it and nothing else.
\<close>

definition log_database :: "'c exec \<Rightarrow> ('c \<Rightarrow> nat) \<Rightarrow> (string \<Rightarrow> 'c \<Rightarrow> bool) \<Rightarrow> ('c \<Rightarrow> string list) \<Rightarrow> bool" where
  "log_database exec errno has rows \<longleftrightarrow>
     (\<forall>table c s t v lo hi q. insert_query table s t v lo hi = Some q \<longrightarrow>
        (\<exists>c' ok. exec q c = (c', ok) \<and> (ok \<longleftrightarrow> has table c) \<and> (\<forall>u. has u c' \<longleftrightarrow> has u c) \<and>
           rows c' = (if ok then rows c @ [q] else rows c) \<and> (\<not> ok \<longrightarrow> errno c' = 1146))) \<and>
     (\<forall>table c q. create_query table = Some q \<and> \<not> has table c \<longrightarrow>
        (\<exists>c'. exec q c = (c', True) \<and> has table c' \<and> rows c' = rows c))"

section \<open>The statistics of what was added\<close>

text \<open>
  The specification: for each server and type of value the values since the last flush, in order, and a row with
  their statistics over the integers. A run of the server visits the entries of its map in some order \<open>order\<close>.
\<close>

type_synonym sample = "s32 \<times> s32 \<times> s32"

definition add_all :: "sample list \<Rightarrow> 'c dblog \<Rightarrow> 'c dblog" where
  "add_all xs s = fold (\<lambda>(serverNo, dataType, v). AddData serverNo dataType v) xs s"

definition values_of :: "s32 \<times> s32 \<Rightarrow> sample list \<Rightarrow> int list" where
  "values_of i xs = map (\<lambda>(_, _, v). sint v) (filter (\<lambda>(serverNo, dataType, _). (serverNo, dataType) = i) xs)"

definition statistics_row :: "string \<Rightarrow> s32 \<times> s32 \<Rightarrow> int list \<Rightarrow> string" where
  "statistics_row table i vs =
     ''INSERT INTO `'' @ table @ ''` (`logtime`, `serverno`, `type`, `avr`, `min`, `max`) VALUES (NOW(), '' @
       d32 (fst i) @ '', '' @ d32 (snd i) @ '', '' @ lld (word_of_int (sum_list vs sdiv int (length vs))) @ '', '' @
       d32 (word_of_int (Min (set vs))) @ '', '' @ d32 (word_of_int (Max (set vs))) @ '')''"

definition id_ok :: "s32 \<times> s32 \<Rightarrow> bool" where
  "id_ok i = (fst i < 2 ^ 16 \<and> snd i < 2 ^ 16)"

definition iterates :: "(s32 \<times> s32) list \<Rightarrow> sample list \<Rightarrow> bool" where
  "iterates order xs = (distinct order \<and> set order = (\<lambda>(serverNo, dataType, _). (serverNo, dataType)) ` set xs)"

abbreviation key_of :: "s32 \<times> s32 \<Rightarrow> s32" where
  "key_of i \<equiv> MakeKey (fst i) (snd i)"

end
