(* ===== verification/Log_Behaviour.thy ===== *)
theory Log_Behaviour
  imports Monitor_Log
begin

text \<open>
  A flush of the monitoring log writes one row for each server and type of value that occurred, with the
  average, minimum and maximum of exactly the values added since the last flush, and makes the month's table if need be.
\<close>

section \<open>Keys\<close>

lemma mask_16: "(0xFFFF :: s32) = mask 16"
  by (simp add: mask_eq_exp_minus_1)

lemma MakeKey_decode:
  assumes "id_ok i"
  shows "drop_bit 16 (key_of i) AND 0xFFFF = fst i" and "key_of i AND 0xFFFF = snd i"
proof -
  have t: "take_bit 16 (fst i) = fst i" "take_bit 16 (snd i) = snd i"
    using assms by (simp_all add: id_ok_def take_bit_eq_mask less_mask_eq)
  have "take_bit 16 (drop_bit 16 (push_bit 16 (fst i) OR take_bit 16 (snd i))) = take_bit 16 (fst i)"
    by (rule bit_eqI) (auto simp: bit_simps)
  then show "drop_bit 16 (key_of i) AND 0xFFFF = fst i" unfolding MakeKey_def mask_16 take_bit_eq_mask [symmetric] t .
  have "take_bit 16 (push_bit 16 (fst i) OR take_bit 16 (snd i)) = take_bit 16 (snd i)"
    by (rule bit_eqI) (auto simp: bit_simps)
  then show "key_of i AND 0xFFFF = snd i" unfolding MakeKey_def mask_16 take_bit_eq_mask [symmetric] t .
qed

lemma MakeKey_inj: "id_ok i \<Longrightarrow> id_ok j \<Longrightarrow> key_of i = key_of j \<longleftrightarrow> i = j"
  by (metis MakeKey_decode prod_eqI)

section \<open>The map holds the statistics\<close>

definition holds_stats :: "accum option \<Rightarrow> int list \<Rightarrow> bool" where
  "holds_stats e vs \<longleftrightarrow> (if vs = [] then e = None else
     (\<exists>a. e = Some a \<and> a_sum a = word_of_int (sum_list vs) \<and> a_count a = word_of_int (int (length vs)) \<and>
        sint (a_min a) = Min (set vs) \<and> sint (a_max a) = Max (set vs)))"

lemma AddData_stats:
  assumes "holds_stats (mAccumMap s key) vs" and "key = MakeKey serverNo dataType"
  shows "holds_stats (mAccumMap (AddData serverNo dataType v s) key) (vs @ [sint v])"
proof (cases "vs = []")
  case True
  with assms show ?thesis by (simp add: holds_stats_def AddData_def Let_def)
next
  case False
  with assms(1) obtain a where a: "mAccumMap s key = Some a" "a_sum a = word_of_int (sum_list vs)"
    "a_count a = word_of_int (int (length vs))" "sint (a_min a) = Min (set vs)" "sint (a_max a) = Max (set vs)"
    by (auto simp: holds_stats_def)
  have m: "Min (set (vs @ [sint v])) = min (sint v) (Min (set vs))" "Max (set (vs @ [sint v])) = max (sint v) (Max (set vs))"
    using False by simp_all
  define b where "b = \<lparr>a_sum = a_sum a + scast v, a_count = a_count a + 1,
    a_min = (if sint v < sint (a_min a) then v else a_min a), a_max = (if sint v > sint (a_max a) then v else a_max a)\<rparr>"
  have "mAccumMap (AddData serverNo dataType v s) key = Some b"
    using a(1) assms(2) by (simp add: AddData_def Let_def b_def)
  moreover have "a_sum b = word_of_int (sum_list (vs @ [sint v]))" "a_count b = word_of_int (int (length (vs @ [sint v])))"
    by (simp_all add: b_def a(2,3))
  moreover have "sint (a_min b) = Min (set (vs @ [sint v]))" "sint (a_max b) = Max (set (vs @ [sint v]))"
    unfolding m by (simp_all add: b_def a(4,5) min_def max_def)
  ultimately show ?thesis by (simp add: holds_stats_def)
qed

lemma AddData_other: "key \<noteq> MakeKey serverNo dataType \<Longrightarrow> mAccumMap (AddData serverNo dataType v s) key = mAccumMap s key"
  by (simp add: AddData_def Let_def split: option.splits)

lemma AddData_frame: "mConn (AddData serverNo dataType v s) = mConn s" "mTotalInsertCount (AddData serverNo dataType v s) = mTotalInsertCount s"
  by (simp_all add: AddData_def Let_def split: option.splits)

lemma add_all_stats:
  assumes "mAccumMap s = (\<lambda>_. None)" and "list_all (\<lambda>(serverNo, dataType, _). id_ok (serverNo, dataType)) xs" and "id_ok i"
  shows "holds_stats (mAccumMap (add_all xs s) (key_of i)) (values_of i xs)"
  using assms(2)
proof (induction xs rule: rev_induct)
  case Nil
  show ?case by (simp add: holds_stats_def add_all_def values_of_def assms(1))
next
  case (snoc x xs)
  obtain sn dt v where x: "x = (sn, dt, v)" by (cases x) auto
  have ih: "holds_stats (mAccumMap (add_all xs s) (key_of i)) (values_of i xs)" using snoc by simp
  have ok: "id_ok (sn, dt)" using snoc.prems x by simp
  have add: "add_all (xs @ [x]) s = AddData sn dt v (add_all xs s)" by (simp add: add_all_def x)
  show ?case
  proof (cases "(sn, dt) = i")
    case True
    then have "values_of i (xs @ [x]) = values_of i xs @ [sint v]" by (simp add: values_of_def x)
    with AddData_stats [OF ih] True show ?thesis by (auto simp: add)
  next
    case False
    then have "key_of i \<noteq> MakeKey sn dt" using MakeKey_inj [OF ok assms(3)] by auto
    moreover have "values_of i (xs @ [x]) = values_of i xs" using False by (simp add: values_of_def x)
    ultimately show ?thesis using ih by (simp add: add AddData_other)
  qed
qed

lemma add_all_frame: "mConn (add_all xs s) = mConn s" "mTotalInsertCount (add_all xs s) = mTotalInsertCount s"
  by (induction xs arbitrary: s) (auto simp: add_all_def AddData_frame)

text \<open>As long as the counters do not wrap, what is written are the statistics over the integers.\<close>

lemma sint_range: "- (2 ^ 31) \<le> sint (w :: s32)" "sint (w :: s32) < 2 ^ 31" "- (2 ^ 63) \<le> sint (z :: s64)" "sint (z :: s64) < 2 ^ 63"
  using sint_greater_eq [of w] sint_less [of w] sint_greater_eq [of z] sint_less [of z] by simp_all

lemma values_of_bounds:
  "length (values_of i xs) \<le> length xs" "x \<in> set (values_of i xs) \<Longrightarrow> - (2 ^ 31) \<le> x \<and> x < 2 ^ 31"
proof -
  show "length (values_of i xs) \<le> length xs" by (simp add: values_of_def)
  show "- (2 ^ 31) \<le> x \<and> x < 2 ^ 31" if "x \<in> set (values_of i xs)"
    using that sint_range by (auto simp: values_of_def)
qed

lemma sum_list_bounds:
  "(\<And>x. x \<in> set vs \<Longrightarrow> - b \<le> x \<and> x \<le> b) \<Longrightarrow> \<bar>sum_list vs\<bar> \<le> b * int (length vs)"
proof (induction vs)
  case (Cons v vs)
  have "\<bar>sum_list vs\<bar> \<le> b * int (length vs)" by (rule Cons.IH) (use Cons.prems in auto)
  moreover have "\<bar>v\<bar> \<le> b" using Cons.prems [of v] by auto
  ultimately show ?case by (simp add: algebra_simps)
qed simp

lemma sint_small: "- (2 ^ 63) \<le> x \<Longrightarrow> x < 2 ^ 63 \<Longrightarrow> sint (word_of_int x :: s64) = x"
  by (simp add: sint_sbintrunc' signed_take_bit_int_eq_self)

lemma sint_count: "n < 2 ^ 31 \<Longrightarrow> sint (word_of_int (int n) :: s32) = int n"
  by (simp add: sint_sbintrunc' signed_take_bit_int_eq_self del: of_int_of_nat_eq)

lemma entry_query_row:
  assumes "holds_stats (Some a) (values_of i xs)" and "id_ok i" and "length xs < 2 ^ 31"
  shows "entry_query table (key_of i) a = sprintf_s 512 (statistics_row table i (values_of i xs))"
    and "insert_query table (fst i) (snd i) (word_of_int (sum_list (values_of i xs) sdiv int (length (values_of i xs))))
      (a_min a) (a_max a) = sprintf_s 512 (statistics_row table i (values_of i xs))"
proof -
  let ?vs = "values_of i xs"
  from assms(1) have a: "?vs \<noteq> []" "a_sum a = word_of_int (sum_list ?vs)" "a_count a = word_of_int (int (length ?vs))"
    "sint (a_min a) = Min (set ?vs)" "sint (a_max a) = Max (set ?vs)"
    by (auto simp: holds_stats_def split: if_splits)
  have len: "length ?vs < 2 ^ 31" using values_of_bounds(1) [of i xs] assms(3) by linarith
  have count: "sint (a_count a) = int (length ?vs)" unfolding a(3) by (rule sint_count [OF len])
  then have "a_count a \<noteq> 0" using a(1) by (metis length_0_conv of_nat_0_eq_iff signed_0)
  have "\<bar>sum_list ?vs\<bar> \<le> 2 ^ 31 * int (length ?vs)"
    by (rule sum_list_bounds) (use values_of_bounds(2) in fastforce)
  also have "\<dots> < 2 ^ 31 * 2 ^ 31" using len by simp
  finally have sum: "sint (a_sum a) = sum_list ?vs" unfolding a(2) by (intro sint_small) auto
  have avg: "average a = Some (word_of_int (sum_list ?vs sdiv int (length ?vs)))"
    using \<open>a_count a \<noteq> 0\<close> by (simp add: average_def sum count)
  have lim: "a_min a = word_of_int (Min (set ?vs))" "a_max a = word_of_int (Max (set ?vs))"
    by (simp_all flip: a(4,5))
  show ins: "insert_query table (fst i) (snd i) (word_of_int (sum_list ?vs sdiv int (length ?vs))) (a_min a) (a_max a) =
      sprintf_s 512 (statistics_row table i ?vs)"
    unfolding insert_query_def statistics_row_def lim ..
  then show "entry_query table (key_of i) a = sprintf_s 512 (statistics_row table i ?vs)"
    by (simp add: entry_query_def avg MakeKey_decode [OF assms(2)])
qed

section \<open>Texts fit their arrays\<close>

lemma length_padded: "x < 10 ^ n \<Longrightarrow> 0 < n \<Longrightarrow> length (padded n x) = n"
  using length_to_string [of x "n - 1"] by (simp add: padded_def)

lemma table_name_fits:
  assumes "year < 10000" and "month < 100"
  obtains table where "table_name year month = Some table" and "length table = 17"
  using assms length_padded [of year 4] length_padded [of month 2] that by (simp add: table_name_def sprintf_s_def)

lemma statistics_row_fits:
  assumes "length table = 17"
  shows "sprintf_s 512 (statistics_row table i vs) = Some (statistics_row table i vs)"
  using assms length_d32 [of "fst i"] length_d32 [of "snd i"] length_lld [of "word_of_int (sum_list vs sdiv int (length vs))"]
    length_d32 [of "word_of_int (Min (set vs))"] length_d32 [of "word_of_int (Max (set vs))"]
  by (simp add: sprintf_s_def statistics_row_def)

section \<open>Insertion\<close>

lemma create_query_fits: "length table = 17 \<Longrightarrow> \<exists>q. create_query table = Some q"
  by (simp add: create_query_def sprintf_s_def)

lemma log_databaseD:
  assumes "log_database exec errno has rows"
  shows "insert_query table p t v lo hi = Some q \<Longrightarrow>
      \<exists>c' ok. exec q c = (c', ok) \<and> (ok \<longleftrightarrow> has table c) \<and> (\<forall>u. has u c' \<longleftrightarrow> has u c) \<and>
        rows c' = (if ok then rows c @ [q] else rows c) \<and> (\<not> ok \<longrightarrow> errno c' = 1146)"
    and "create_query table = Some q \<Longrightarrow> \<not> has table c \<Longrightarrow> \<exists>c'. exec q c = (c', True) \<and> has table c' \<and> rows c' = rows c"
  using assms unfolding log_database_def by blast+

text \<open>With the table or without, the row is inserted once.\<close>

lemma insert_entry_spec:
  assumes "log_database exec errno has rows" and "entry_query table key a = Some q" and "insert_query table p t v lo hi = Some q"
    and "length table = 17"
  shows "\<exists>c'. insert_entry exec errno table key a (c, n) = Some (c', n + 1) \<and> rows c' = rows c @ [q] \<and> has table c'"
proof -
  obtain c1 ok where c1: "exec q c = (c1, ok)" "ok \<longleftrightarrow> has table c" "\<forall>u. has u c1 \<longleftrightarrow> has u c"
    "rows c1 = (if ok then rows c @ [q] else rows c)" "\<not> ok \<longrightarrow> errno c1 = 1146"
    using log_databaseD(1) [OF assms(1,3)] by blast
  show ?thesis
  proof (cases ok)
    case True
    with c1 assms(2) show ?thesis by (simp add: insert_entry_def)
  next
    case False
    obtain r where r: "create_query table = Some r" using create_query_fits [OF assms(4)] by blast
    have "\<not> has table c1" using False c1(2,3) by simp
    then obtain c2 where c2: "exec r c1 = (c2, True)" "has table c2" "rows c2 = rows c1"
      using log_databaseD(2) [OF assms(1) r] by blast
    obtain c3 ok3 where c3: "exec q c2 = (c3, ok3)" "ok3 \<longleftrightarrow> has table c2" "\<forall>u. has u c3 \<longleftrightarrow> has u c2"
      "rows c3 = (if ok3 then rows c2 @ [q] else rows c2)"
      using log_databaseD(1) [OF assms(1,3), of c2] by blast
    with c2 have "ok3" "has table c3" "rows c3 = rows c @ [q]" using False c1(4) by auto
    then show ?thesis using False c1(1,5) r c2(1) c3(1) assms(2)
      by (simp add: insert_entry_def EnsureTable_def)
  qed
qed

lemma insert_entries_spec:
  assumes "log_database exec errno has rows" and "length table = 17" and "length xs < 2 ^ 31"
    and "\<And>i. i \<in> set order \<Longrightarrow> id_ok i \<and> values_of i xs \<noteq> [] \<and> holds_stats (m (key_of i)) (values_of i xs)"
  shows "\<exists>c'. insert_entries exec errno table m (map key_of order) (c, n) = Some (c', n + of_nat (length order)) \<and>
     rows c' = rows c @ map (\<lambda>i. statistics_row table i (values_of i xs)) order \<and> (order \<noteq> [] \<longrightarrow> has table c')"
  using assms(4)
proof (induction order arbitrary: c n rule: list.induct)
  case (Cons i order)
  have i: "id_ok i" "values_of i xs \<noteq> []" "holds_stats (m (key_of i)) (values_of i xs)" using Cons.prems by auto
  from i(2,3) obtain a where a: "m (key_of i) = Some a" by (auto simp: holds_stats_def)
  note q = entry_query_row [OF i(3) [unfolded a] i(1) assms(3), of table, unfolded statistics_row_fits [OF assms(2)]]
  obtain c1 where c1: "insert_entry exec errno table (key_of i) a (c, n) = Some (c1, n + 1)"
    "rows c1 = rows c @ [statistics_row table i (values_of i xs)]" "has table c1"
    using insert_entry_spec [OF assms(1) q assms(2)] by blast
  obtain c2 where c2: "insert_entries exec errno table m (map key_of order) (c1, n + 1) = Some (c2, n + 1 + of_nat (length order))"
    "rows c2 = rows c1 @ map (\<lambda>i. statistics_row table i (values_of i xs)) order" "order \<noteq> [] \<longrightarrow> has table c2"
    using Cons.IH [of c1 "n + 1"] Cons.prems by auto
  have "has table c2" using c1(3) c2(1,3) by (cases order) auto
  with a c1 c2 show ?case by (simp add: add.commute add.left_commute)
qed simp

section \<open>The property\<close>


text \<open>A database of table names, rows and the last error, to run the property on.\<close>

definition quoted :: "string \<Rightarrow> string" where
  "quoted txt = takeWhile (\<lambda>c. c \<noteq> CHR ''`'') txt"

definition sample_exec :: "(string list \<times> string list \<times> nat) exec" where
  "sample_exec q = (\<lambda>(tables, rows, err).
     if take 6 q = ''INSERT''
     then if quoted (drop 13 q) \<in> set tables then ((tables, rows @ [q], 0), True) else ((tables, rows, 1146), False)
     else ((quoted (drop 14 q) # tables, rows, 0), True))"

lemma quoted_append: "quoted (table @ CHR ''`'' # rest) = quoted table"
  by (induction table) (simp_all add: quoted_def)

lemma sample_exec_ok:
  "log_database sample_exec (snd \<circ> snd) (\<lambda>table c. quoted table \<in> set (fst c)) (fst \<circ> snd)"
proof -
  have ins: "take 6 q = ''INSERT'' \<and> quoted (drop 13 q) = quoted table" if "insert_query table p t v lo hi = Some q" for table p t v lo hi q
    using that by (auto simp: insert_query_def sprintf_s_def quoted_append split: if_splits)
  have cre: "take 6 q \<noteq> ''INSERT'' \<and> quoted (drop 14 q) = quoted table" if "create_query table = Some q" for table q
    using that by (auto simp: create_query_def sprintf_s_def quoted_append split: if_splits)
  show ?thesis unfolding log_database_def
  proof (intro conjI allI impI)
    fix table p t v lo hi q and c :: "string list \<times> string list \<times> nat"
    assume "insert_query table p t v lo hi = Some q"
    with ins [OF this] show "\<exists>c' ok. sample_exec q c = (c', ok) \<and> (ok \<longleftrightarrow> quoted table \<in> set (fst c)) \<and>
        (\<forall>u. quoted u \<in> set (fst c') \<longleftrightarrow> quoted u \<in> set (fst c)) \<and>
        (fst \<circ> snd) c' = (if ok then (fst \<circ> snd) c @ [q] else (fst \<circ> snd) c) \<and> (\<not> ok \<longrightarrow> (snd \<circ> snd) c' = 1146)"
      by (cases c) (auto simp: sample_exec_def)
  next
    fix table q and c :: "string list \<times> string list \<times> nat"
    assume "create_query table = Some q \<and> quoted table \<notin> set (fst c)"
    with cre [of table q] show "\<exists>c'. sample_exec q c = (c', True) \<and> quoted table \<in> set (fst c') \<and> (fst \<circ> snd) c' = (fst \<circ> snd) c"
      by (cases c) (auto simp: sample_exec_def)
  qed
qed


text \<open>
  A row that cannot be inserted is lost: the map was emptied before, and nothing puts the entry back.
\<close>

lemma failed_insert_drops_values:
  assumes "mConn s = Some c" and "mAccumMap s key = Some a" and "entry_query table key a = Some q" and "table_name year month = Some table"
    and "exec q c = (c1, False)" and "errno c1 \<noteq> 1146"
  shows "\<exists>s'. Flush exec errno year month [key] s = Some s' \<and> mAccumMap s' = (\<lambda>_. None) \<and> mTotalInsertCount s' = mTotalInsertCount s"
  using assms by (simp add: Flush_def Let_def insert_entry_def)

end
