(* ===== verification/Slist_Pool.thy ===== *)
theory Slist_Pool
  imports Prelude
begin

text \<open>
  memory-pool/LockFreeMemoryPool.h: the object pool over the interlocked singly linked list of Windows,
  whose push, pop and flush are atomic operations on a stack of entries. Any number of threads and of
  pools; \<open>Alloc\<close>, \<open>Free\<close> and \<open>Reserve\<close> are cut at their accesses to shared memory. A node is a number and
  exists while \<open>sl_owner\<close> is defined for it; \<open>None\<close> is an access to a node that does not exist. The cookie
  of a node never changes, so that only the owner matters. \<open>sl_held\<close>, which the code does not store, are the
  objects that were handed to a thread and not yet given back, and \<open>sl_ret\<close> is what \<open>Free\<close> last
  returned to a thread.
\<close>

section \<open>State\<close>

type_synonym pool_id = nat

datatype 'v slist_pc =
  SIdle
| SCreate pool_id "'v option"            \<comment> \<open>line 61, the list was empty\<close>
| SInit pool_id nat "'v option"          \<comment> \<open>line 63\<close>
| SCount pool_id nat                     \<comment> \<open>line 67\<close>
| SFreed pool_id                         \<comment> \<open>line 82\<close>
| SReserve pool_id nat                   \<comment> \<open>line 87, with the number of rounds left\<close>
| SPush pool_id nat nat                  \<comment> \<open>line 89\<close>

record 'v slist_pools =
  sl_list :: "pool_id \<Rightarrow> nat list"
  sl_capacity :: "pool_id \<Rightarrow> u64"
  sl_inUse :: "pool_id \<Rightarrow> u64"
  sl_owner :: "nat \<Rightarrow> pool_id option"
  sl_value :: "nat \<Rightarrow> 'v"
  sl_pc :: "nat \<Rightarrow> 'v slist_pc"
  sl_held :: "nat \<Rightarrow> nat list"
  sl_ret :: "nat \<Rightarrow> bool"

text \<open>The calls of a thread with their arguments, the address \<open>new\<close> returns, and going on.\<close>

datatype 'v slist_choice =
  CallAllocS pool_id "'v option" | CallFreeS pool_id "nat option" | CallReserve pool_id nat | NewNode nat | Go

definition slist_start :: "'v \<Rightarrow> 'v slist_pools" where
  "slist_start v0 = \<lparr>sl_list = \<lambda>_. [], sl_capacity = \<lambda>_. 0, sl_inUse = \<lambda>_. 0, sl_owner = \<lambda>_. None, sl_value = \<lambda>_. v0,
     sl_pc = \<lambda>_. SIdle, sl_held = \<lambda>_. [], sl_ret = \<lambda>_. False\<rparr>"

definition slist_at :: "nat \<Rightarrow> 'v slist_pc \<Rightarrow> 'v slist_pools \<Rightarrow> 'v slist_pools" where
  "slist_at t c s = s\<lparr>sl_pc := (sl_pc s)(t := c)\<rparr>"

section \<open>The operations\<close>

definition push_entry :: "pool_id \<Rightarrow> nat \<Rightarrow> 'v slist_pools \<Rightarrow> 'v slist_pools" where
  "push_entry q a s = s\<lparr>sl_list := (sl_list s)(q := a # sl_list s q)\<rparr>"

text \<open>\<open>v0\<close> is the value-initialised object \<open>T{}\<close>.\<close>

definition CreateNode :: "'v \<Rightarrow> pool_id \<Rightarrow> nat \<Rightarrow> 'v slist_pools \<Rightarrow> 'v slist_pools" where
  "CreateNode v0 q a s = s\<lparr>sl_owner := (sl_owner s)(a := Some q), sl_value := (sl_value s)(a := v0),
     sl_capacity := (sl_capacity s)(q := sl_capacity s q + 1)\<rparr>"

fun AllocS_step :: "'v \<Rightarrow> nat \<Rightarrow> 'v slist_choice \<Rightarrow> 'v slist_pc \<Rightarrow> 'v slist_pools \<Rightarrow> 'v slist_pools option" where
  "AllocS_step v0 t (CallAllocS q args) SIdle s =
     Some (case sl_list s q of
       [] \<Rightarrow> slist_at t (SCreate q args) s
     | a # rest \<Rightarrow> slist_at t (SInit q a args) (s\<lparr>sl_list := (sl_list s)(q := rest)\<rparr>))"
| "AllocS_step v0 t (NewNode a) (SCreate q args) s = Some (slist_at t (SInit q a args) (CreateNode v0 q a s))"
| "AllocS_step v0 t Go (SInit q a args) s =
     (if sl_owner s a = None then None
      else Some (slist_at t (SCount q a) (case args of None \<Rightarrow> s | Some v \<Rightarrow> s\<lparr>sl_value := (sl_value s)(a := v)\<rparr>)))"
| "AllocS_step v0 t Go (SCount q a) s =
     Some (slist_at t SIdle (s\<lparr>sl_inUse := (sl_inUse s)(q := sl_inUse s q + 1), sl_held := (sl_held s)(t := a # sl_held s t)\<rparr>))"
| "AllocS_step v0 t ch c s = Some s"

definition returns_S :: "nat \<Rightarrow> bool \<Rightarrow> 'v slist_pools \<Rightarrow> 'v slist_pools" where
  "returns_S t r s = s\<lparr>sl_ret := (sl_ret s)(t := r)\<rparr>"

fun FreeS_step :: "nat \<Rightarrow> 'v slist_choice \<Rightarrow> 'v slist_pc \<Rightarrow> 'v slist_pools \<Rightarrow> 'v slist_pools option" where
  "FreeS_step t (CallFreeS q None) SIdle s = Some (returns_S t False s)"
| "FreeS_step t (CallFreeS q (Some a)) SIdle s =
     (case sl_owner s a of
        None \<Rightarrow> None
      | Some r \<Rightarrow>
          Some (if r \<noteq> q then returns_S t False s
                else slist_at t (SFreed q) (push_entry q a (s\<lparr>sl_held := (sl_held s)(t := remove1 a (sl_held s t))\<rparr>))))"
| "FreeS_step t Go (SFreed q) s = Some (returns_S t True (slist_at t SIdle (s\<lparr>sl_inUse := (sl_inUse s)(q := sl_inUse s q - 1)\<rparr>)))"
| "FreeS_step t ch c s = Some s"

fun Reserve_step :: "'v \<Rightarrow> nat \<Rightarrow> 'v slist_choice \<Rightarrow> 'v slist_pc \<Rightarrow> 'v slist_pools \<Rightarrow> 'v slist_pools option" where
  "Reserve_step v0 t (CallReserve q n) SIdle s = Some (slist_at t (SReserve q n) s)"
| "Reserve_step v0 t Go (SReserve q 0) s = Some (slist_at t SIdle s)"
| "Reserve_step v0 t (NewNode a) (SReserve q (Suc n)) s = Some (slist_at t (SPush q a n) (CreateNode v0 q a s))"
| "Reserve_step v0 t Go (SPush q a n) s = Some (slist_at t (SReserve q n) (push_entry q a s))"
| "Reserve_step v0 t ch c s = Some s"

definition slist_step :: "'v \<Rightarrow> nat \<Rightarrow> 'v slist_choice \<Rightarrow> 'v slist_pools \<Rightarrow> 'v slist_pools option" where
  "slist_step v0 t ch s =
     (case sl_pc s t of
        SIdle \<Rightarrow> (case ch of CallFreeS q p \<Rightarrow> FreeS_step t ch SIdle s | CallReserve q n \<Rightarrow> Reserve_step v0 t ch SIdle s
                     | _ \<Rightarrow> AllocS_step v0 t ch SIdle s)
      | SFreed q \<Rightarrow> FreeS_step t ch (SFreed q) s
      | SReserve q n \<Rightarrow> Reserve_step v0 t ch (SReserve q n) s
      | SPush q a n \<Rightarrow> Reserve_step v0 t ch (SPush q a n) s
      | c \<Rightarrow> AllocS_step v0 t ch c s)"

text \<open>The destructor: the entries are taken off at once and deleted one by one.\<close>

fun delete_entries :: "nat list \<Rightarrow> (nat \<Rightarrow> pool_id option) \<Rightarrow> (nat \<Rightarrow> pool_id option) option" where
  "delete_entries [] h = Some h"
| "delete_entries (a # as) h = (if h a = None then None else delete_entries as (h(a := None)))"

definition destroy_pool :: "pool_id \<Rightarrow> 'v slist_pools \<Rightarrow> 'v slist_pools option" where
  "destroy_pool q s =
     (if sl_inUse s q \<noteq> 0 then Some s
      else map_option (\<lambda>h. s\<lparr>sl_list := (sl_list s)(q := []), sl_owner := h\<rparr>) (delete_entries (sl_list s q) (sl_owner s)))"

section \<open>Runs\<close>

text \<open>
  \<open>new\<close> returns an address not in use, and a thread gives back what it was handed, to whatever pool.
\<close>

definition slist_lawful :: "nat \<Rightarrow> 'v slist_choice \<Rightarrow> 'v slist_pools \<Rightarrow> bool" where
  "slist_lawful t ch s = (case ch of NewNode a \<Rightarrow> sl_owner s a = None | CallFreeS q (Some a) \<Rightarrow> a \<in> set (sl_held s t) | _ \<Rightarrow> True)"

inductive slist_run :: "'v \<Rightarrow> 'v slist_pools \<Rightarrow> bool" for v0 where
  start: "slist_run v0 (slist_start v0)"
| more: "slist_run v0 s \<Longrightarrow> slist_lawful t ch s \<Longrightarrow> slist_step v0 t ch s = Some s' \<Longrightarrow> slist_run v0 s'"

section \<open>The invariant\<close>

fun carried :: "'v slist_pc \<Rightarrow> (pool_id \<times> nat) option" where
  "carried (SInit q a args) = Some (q, a)"
| "carried (SCount q a) = Some (q, a)"
| "carried (SPush q a n) = Some (q, a)"
| "carried c = None"

text \<open>Where a node can be: in a list, on its way in a thread, in the hands of a thread.\<close>

datatype node_place = Listed pool_id | OnWay nat pool_id | InHand nat

fun place_pool :: "node_place \<Rightarrow> pool_id option" where
  "place_pool (Listed q) = Some q"
| "place_pool (OnWay t q) = Some q"
| "place_pool (InHand t) = None"

fun sits :: "'v slist_pools \<Rightarrow> nat \<Rightarrow> node_place \<Rightarrow> bool" where
  "sits s a (Listed q) \<longleftrightarrow> a \<in> set (sl_list s q)"
| "sits s a (OnWay t q) \<longleftrightarrow> carried (sl_pc s t) = Some (q, a)"
| "sits s a (InHand t) \<longleftrightarrow> a \<in> set (sl_held s t)"

definition places_ok :: "'v slist_pools \<Rightarrow> bool" where
  "places_ok s \<longleftrightarrow>
     (\<forall>q. distinct (sl_list s q)) \<and> (\<forall>t. distinct (sl_held s t)) \<and>
     (\<forall>a p p'. sits s a p \<and> sits s a p' \<longrightarrow> p = p') \<and>
     (\<forall>a. (\<exists>p. sits s a p) \<longleftrightarrow> sl_owner s a \<noteq> None) \<and>
     (\<forall>a p q. sits s a p \<and> place_pool p = Some q \<longrightarrow> sl_owner s a = Some q)"

definition handed :: "'v slist_pools \<Rightarrow> pool_id \<Rightarrow> nat set" where
  "handed s q = {a. sl_owner s a = Some q \<and> (\<exists>t. a \<in> set (sl_held s t))}"

definition counts_ok :: "'v slist_pools \<Rightarrow> bool" where
  "counts_ok s \<longleftrightarrow>
     finite {a. sl_owner s a \<noteq> None} \<and> finite {t. sl_pc s t \<noteq> SIdle} \<and>
     (\<forall>q. sl_capacity s q = of_nat (card {a. sl_owner s a = Some q})) \<and>
     (\<forall>q. sl_inUse s q = of_nat (card (handed s q) + card {t. sl_pc s t = SFreed q}))"

end
