(* ===== verification/Slist_Safety.thy ===== *)
theory Slist_Safety
  imports Slist_Pool
begin

text \<open>
  The pool of memory-pool/LockFreeMemoryPool.h under any interleaving: every node is in one place, the
  counters agree with the places, and the destructor deletes the nodes of a pool of which nothing is out.
\<close>

section \<open>One node moves\<close>

lemmas slist_upd = slist_at_def push_entry_def CreateNode_def returns_S_def

lemma places_unique:
  "places_ok s \<Longrightarrow> sits s a p \<Longrightarrow> sits s a p' \<Longrightarrow> p' = p"
  unfolding places_ok_def by metis

lemma places_owner: "places_ok s \<Longrightarrow> sits s a p \<Longrightarrow> \<exists>q. sl_owner s a = Some q \<and> (place_pool p = Some q \<or> place_pool p = None)"
  unfolding places_ok_def by (metis not_None_eq)

lemma places_free: "places_ok s \<Longrightarrow> sl_owner s a = None \<Longrightarrow> \<not> sits s a p"
  unfolding places_ok_def by metis

text \<open>One node moved, or came to be.\<close>

lemma places_move:
  assumes "places_ok s" and "sl_owner s' = (sl_owner s)(a \<mapsto> q)"
    and "\<And>b r. sits s' b r = (if b = a then r = p else sits s b r)"
    and "place_pool p = Some q \<or> place_pool p = None"
    and "\<And>q. distinct (sl_list s' q)" and "\<And>t. distinct (sl_held s' t)"
  shows "places_ok s'"
proof -
  have "(\<exists>p. sits s' b p) \<longleftrightarrow> sl_owner s' b \<noteq> None" for b
    using assms(1-3) by (auto simp: places_ok_def)
  moreover have "sits s' b r \<and> sits s' b r' \<longrightarrow> r = r'" for b r r'
    using assms(1,3) unfolding places_ok_def by (metis (full_types))
  moreover have "sits s' b r \<and> place_pool r = Some q' \<longrightarrow> sl_owner s' b = Some q'" for b r q'
    using assms(1-4) by (auto simp: places_ok_def)
  ultimately show ?thesis using assms(5,6) by (simp add: places_ok_def)
qed

lemma places_same:
  assumes "places_ok s" and "sl_owner s' = sl_owner s" "sl_list s' = sl_list s" "sl_held s' = sl_held s"
    and "\<And>u. carried (sl_pc s' u) = carried (sl_pc s u)"
  shows "places_ok s'"
proof -
  have "sits s' b r = sits s b r" for b r using assms by (cases r) auto
  then show ?thesis using assms by (simp add: places_ok_def)
qed

section \<open>Every step keeps it\<close>

lemma sits_at: "sits (slist_at t c s) b r = (case r of OnWay u q \<Rightarrow> carried (if u = t then c else sl_pc s u) = Some (q, b) | _ \<Rightarrow> sits s b r)"
  by (cases r) (auto simp: slist_upd)

lemma places_distinct: "places_ok s \<Longrightarrow> distinct (sl_list s q)" "places_ok s \<Longrightarrow> distinct (sl_held s t)"
  by (simp_all add: places_ok_def)

lemma places_at:
  assumes "places_ok s" and "sits s a p"
  shows "a \<in> set (sl_list s q) \<longleftrightarrow> p = Listed q" and "carried (sl_pc s u) = Some (q, a) \<longleftrightarrow> p = OnWay u q"
    and "a \<in> set (sl_held s u) \<longleftrightarrow> p = InHand u"
  using places_unique[OF assms, of "Listed q"] places_unique[OF assms, of "OnWay u q"] places_unique[OF assms, of "InHand u"] assms(2)
  by auto

lemma places_pop:
  assumes "places_ok s" and "sl_list s q = a # rest" and "carried (sl_pc s t) = None" and "carried c = Some (q, a)"
  shows "places_ok (slist_at t c (s\<lparr>sl_list := (sl_list s)(q := rest)\<rparr>))"
proof (rule places_move[OF assms(1), where a = a and q = q and p = "OnWay t q"])
  have at: "sits s a (Listed q)" using assms(2) by simp
  have d: "a \<notin> set rest" using places_distinct(1)[OF assms(1), of q] assms(2) by simp
  show "sits (slist_at t c (s\<lparr>sl_list := (sl_list s)(q := rest)\<rparr>)) b r = (if b = a then r = OnWay t q else sits s b r)" for b r
    using d assms(2-4) places_at[OF assms(1) at] by (cases r; cases "b = a") (auto simp: slist_upd)
  show "sl_owner (slist_at t c (s\<lparr>sl_list := (sl_list s)(q := rest)\<rparr>)) = (sl_owner s)(a \<mapsto> q)"
    using places_owner[OF assms(1) at] by (auto simp: slist_upd)
qed (use places_distinct[OF assms(1)] assms(2) in \<open>auto simp: slist_upd, metis distinct.simps(2)\<close>)

lemma places_new:
  assumes "places_ok s" and "sl_owner s a = None" and "carried (sl_pc s t) = None" and "carried c = Some (q, a)"
  shows "places_ok (slist_at t c (CreateNode v0 q a s))"
proof (rule places_move[OF assms(1), where a = a and q = q and p = "OnWay t q"])
  have no: "\<not> sits s a r" for r using places_free[OF assms(1,2)] .
  show "sits (slist_at t c (CreateNode v0 q a s)) b r = (if b = a then r = OnWay t q else sits s b r)" for b r
    using no[of r] assms(3,4) by (cases r) (auto simp: slist_upd)
qed (use places_distinct[OF assms(1)] in \<open>auto simp: slist_upd\<close>)

lemma places_hand:
  assumes "places_ok s" and "carried (sl_pc s t) = Some (q, a)"
  shows "places_ok (slist_at t SIdle (s\<lparr>sl_inUse := n, sl_held := (sl_held s)(t := a # sl_held s t)\<rparr>))" (is "places_ok ?s")
proof (rule places_move[OF assms(1), where a = a and q = q and p = "InHand t"])
  have at: "sits s a (OnWay t q)" using assms(2) by simp
  show "sits ?s b r = (if b = a then r = InHand t else sits s b r)" for b r
    using places_at[OF assms(1) at] by (cases r; cases "b = a") (auto simp: slist_upd assms(2))
  show "sl_owner ?s = (sl_owner s)(a \<mapsto> q)"
    using places_owner[OF assms(1) at] by (auto simp: slist_upd)
  show "distinct (sl_held ?s u)" for u
    using places_distinct(2)[OF assms(1)] places_at[OF assms(1) at] by (auto simp: slist_upd)
qed (use places_distinct(1)[OF assms(1)] in \<open>auto simp: slist_upd\<close>)

lemma places_give_back:
  assumes "places_ok s" and "a \<in> set (sl_held s t)" and "sl_owner s a = Some q" and "carried (sl_pc s t) = None" and "carried c = None"
  shows "places_ok (slist_at t c (push_entry q a (s\<lparr>sl_held := (sl_held s)(t := remove1 a (sl_held s t))\<rparr>)))" (is "places_ok ?s")
proof (rule places_move[OF assms(1), where a = a and q = q and p = "Listed q"])
  have at: "sits s a (InHand t)" using assms(2) by simp
  show "sits ?s b r = (if b = a then r = Listed q else sits s b r)" for b r
    using assms(4,5) places_distinct(2)[OF assms(1), of t] places_at[OF assms(1) at] by (cases r; cases "b = a") (auto simp: slist_upd)
  show "distinct (sl_list ?s u)" for u
    using places_distinct(1)[OF assms(1)] places_at[OF assms(1) at] by (auto simp: slist_upd)
qed (use places_distinct(2)[OF assms(1)] assms(3) in \<open>auto simp: slist_upd distinct_remove1\<close>)

lemma places_push:
  assumes "places_ok s" and "carried (sl_pc s t) = Some (q, a)" and "carried c = None"
  shows "places_ok (slist_at t c (push_entry q a s))" (is "places_ok ?s")
proof (rule places_move[OF assms(1), where a = a and q = q and p = "Listed q"])
  have at: "sits s a (OnWay t q)" using assms(2) by simp
  show "sits ?s b r = (if b = a then r = Listed q else sits s b r)" for b r
    using assms(3) places_at[OF assms(1) at] by (cases r; cases "b = a") (auto simp: slist_upd assms(2))
  show "sl_owner ?s = (sl_owner s)(a \<mapsto> q)"
    using places_owner[OF assms(1) at] by (auto simp: slist_upd)
  show "distinct (sl_list ?s u)" for u
    using places_distinct(1)[OF assms(1)] places_at[OF assms(1) at] by (auto simp: slist_upd)
qed (use places_distinct(2)[OF assms(1)] in \<open>auto simp: slist_upd\<close>)

lemma slist_step_places:
  assumes "places_ok s" and "slist_lawful t ch s" and "slist_step v0 t ch s = Some s'"
  shows "places_ok s'"
proof -
  have same: "places_ok s''" if "sl_owner s'' = sl_owner s" "sl_list s'' = sl_list s" "sl_held s'' = sl_held s"
    "\<And>u. carried (sl_pc s'' u) = carried (sl_pc s u)" for s'' :: "'a slist_pools"
    using places_same[OF assms(1)] that by blast
  show ?thesis
  proof (cases "sl_pc s t")
    case SIdle
    show ?thesis
    proof (cases ch)
      case (CallAllocS q args)
      show ?thesis
      proof (cases "sl_list s q")
        case Nil
        with SIdle CallAllocS assms(3) show ?thesis by (auto simp: slist_step_def slist_upd intro!: same)
      next
        case (Cons a rest)
        with SIdle CallAllocS assms show ?thesis
          by (auto simp: slist_step_def intro!: places_pop)
      qed
    next
      case (CallFreeS q p)
      show ?thesis
      proof (cases p)
        case None
        with SIdle CallFreeS assms(3) show ?thesis by (auto simp: slist_step_def slist_upd intro!: same)
      next
        case (Some a)
        show ?thesis
        proof (cases "sl_owner s a = Some q")
          case True
          with SIdle CallFreeS Some assms show ?thesis
            by (auto simp: slist_step_def slist_lawful_def intro!: places_give_back)
        next
          case False
          with SIdle CallFreeS Some assms(3) show ?thesis
            by (auto simp: slist_step_def slist_upd split: option.splits intro!: same)
        qed
      qed
    qed (use SIdle assms(3) in \<open>auto simp: slist_step_def slist_upd intro!: same\<close>)
  next
    case (SCreate q args)
    with assms show ?thesis
      by (cases ch) (auto simp: slist_step_def slist_lawful_def intro!: places_new)
  next
    case (SInit q a args)
    with assms(1,3) show ?thesis
      by (cases ch) (auto simp: slist_step_def slist_upd split: option.splits if_splits intro!: same)
  next
    case (SCount q a)
    with assms(1,3) show ?thesis
      by (cases ch) (auto simp: slist_step_def intro!: places_hand)
  next
    case (SFreed q)
    with assms(1,3) show ?thesis
      by (cases ch) (auto simp: slist_step_def slist_upd intro!: same)
  next
    case (SReserve q n)
    show ?thesis
    proof (cases n)
      case 0
      with SReserve assms(1,3) show ?thesis by (cases ch) (auto simp: slist_step_def slist_upd intro!: same)
    next
      case (Suc m)
      with SReserve assms show ?thesis
        by (cases ch) (auto simp: slist_step_def slist_lawful_def intro!: places_new)
    qed
  next
    case (SPush q a n)
    with assms(1,3) show ?thesis
      by (cases ch) (auto simp: slist_step_def intro!: places_push)
  qed
qed

section \<open>The counters\<close>

lemma slist_fields:
  "sl_pc (slist_at t c s) = (sl_pc s)(t := c)" "sl_inUse (slist_at t c s) = sl_inUse s" "sl_capacity (slist_at t c s) = sl_capacity s"
  "sl_owner (slist_at t c s) = sl_owner s" "sl_held (slist_at t c s) = sl_held s" "sl_list (slist_at t c s) = sl_list s"
  "sl_pc (returns_S t r s) = sl_pc s" "sl_inUse (returns_S t r s) = sl_inUse s" "sl_capacity (returns_S t r s) = sl_capacity s"
  "sl_owner (returns_S t r s) = sl_owner s" "sl_held (returns_S t r s) = sl_held s" "sl_list (returns_S t r s) = sl_list s"
  "sl_pc (push_entry q a s) = sl_pc s" "sl_inUse (push_entry q a s) = sl_inUse s" "sl_capacity (push_entry q a s) = sl_capacity s"
  "sl_owner (push_entry q a s) = sl_owner s" "sl_held (push_entry q a s) = sl_held s"
  by (simp_all add: slist_upd)

lemma counts_unchanged:
  assumes "counts_ok s" and "sl_owner s' = sl_owner s" and "sl_capacity s' = sl_capacity s" and "sl_inUse s' = sl_inUse s"
    and "sl_held s' = sl_held s" and "sl_pc s' = (sl_pc s)(t := c)" and "\<And>q. sl_pc s t = SFreed q \<longleftrightarrow> c = SFreed q"
  shows "counts_ok s'"
proof -
  have "{u. sl_pc s' u \<noteq> SIdle} \<subseteq> insert t {u. sl_pc s u \<noteq> SIdle}" using assms(6) by auto
  then have "finite {u. sl_pc s' u \<noteq> SIdle}" by (rule finite_subset) (use assms(1) in \<open>simp add: counts_ok_def\<close>)
  moreover have "{u. sl_pc s' u = SFreed q} = {u. sl_pc s u = SFreed q}" for q using assms(6,7) by auto
  ultimately show ?thesis using assms(1-5) by (simp add: counts_ok_def handed_def)
qed

lemma counts_finite_pc:
  assumes "counts_ok s"
  shows "finite {u. (if u = t then c else sl_pc s u) \<noteq> SIdle}" and "finite {u. sl_pc s u = SFreed q}"
proof -
  have "{u. (if u = t then c else sl_pc s u) \<noteq> SIdle} \<subseteq> insert t {u. sl_pc s u \<noteq> SIdle}" by auto
  then show "finite {u. (if u = t then c else sl_pc s u) \<noteq> SIdle}" by (rule finite_subset) (use assms in \<open>simp add: counts_ok_def\<close>)
  have "{u. sl_pc s u = SFreed q} \<subseteq> {u. sl_pc s u \<noteq> SIdle}" by auto
  then show "finite {u. sl_pc s u = SFreed q}" by (rule finite_subset) (use assms in \<open>simp add: counts_ok_def\<close>)
qed

lemma handed_finite: "counts_ok s \<Longrightarrow> finite (handed s q)"
  by (rule finite_subset[of _ "{a. sl_owner s a \<noteq> None}"]) (auto simp: counts_ok_def handed_def)

lemma freeing_same:
  assumes "\<And>q. sl_pc s t \<noteq> SFreed q" and "\<And>q. c \<noteq> SFreed q"
  shows "{u. (if u = t then c else sl_pc s u) = SFreed q} = {u. sl_pc s u = SFreed q}"
  using assms by auto

lemma counts_new:
  assumes "counts_ok s" and "places_ok s" and "sl_owner s a = None"
    and "\<And>q. sl_pc s t \<noteq> SFreed q" and "\<And>q. c \<noteq> SFreed q"
  shows "counts_ok (slist_at t c (CreateNode v0 q a s))" (is "counts_ok ?s")
proof -
  have no: "a \<notin> set (sl_held s u)" for u using places_free[OF assms(2,3), of "InHand u"] by simp
  have h: "handed ?s r = handed s r" for r using no assms(3) by (auto simp: handed_def slist_upd)
  have f: "{u. sl_pc ?s u = SFreed r} = {u. sl_pc s u = SFreed r}" for r
    using freeing_same[OF assms(4,5)] by (simp add: slist_upd)
  have own: "{b. sl_owner ?s b = Some r} = (if r = q then insert a {b. sl_owner s b = Some r} else {b. sl_owner s b = Some r})" for r
    using assms(3) by (auto simp: slist_upd)
  have fin: "finite {b. sl_owner s b = Some r}" for r
    by (rule finite_subset[of _ "{a. sl_owner s a \<noteq> None}"]) (use assms(1) in \<open>auto simp: counts_ok_def\<close>)
  have cap: "sl_capacity ?s r = of_nat (card {b. sl_owner ?s b = Some r})" for r
    using assms(1,3) fin own by (simp add: counts_ok_def slist_upd)
  have "{b. sl_owner ?s b \<noteq> None} = insert a {b. sl_owner s b \<noteq> None}" by (auto simp: slist_upd)
  then have "finite {b. sl_owner ?s b \<noteq> None}" using assms(1) by (simp add: counts_ok_def)
  moreover have "finite {u. sl_pc ?s u \<noteq> SIdle}" using counts_finite_pc(1)[OF assms(1), of t c] by (simp add: slist_upd)
  moreover have "sl_inUse ?s = sl_inUse s" by (simp add: slist_upd)
  ultimately show ?thesis using assms(1) h f cap by (simp add: counts_ok_def)
qed

lemma counts_hand:
  assumes "counts_ok s" and "places_ok s" and "sl_pc s t = SCount q a"
  shows "counts_ok (slist_at t SIdle (s\<lparr>sl_inUse := (sl_inUse s)(q := sl_inUse s q + 1), sl_held := (sl_held s)(t := a # sl_held s t)\<rparr>))"
    (is "counts_ok ?s")
proof -
  have at: "sits s a (OnWay t q)" using assms(3) by simp
  have own: "sl_owner s a = Some q" using places_owner[OF assms(2) at] by simp
  have no: "a \<notin> set (sl_held s u)" for u using places_at(3)[OF assms(2) at] by simp
  have h: "handed ?s r = (if r = q then insert a (handed s r) else handed s r)" for r
    using own by (auto simp: handed_def slist_upd)
  have "a \<notin> handed s q" using no by (simp add: handed_def)
  then have card: "card (handed ?s r) = card (handed s r) + (if r = q then 1 else 0)" for r
    using h handed_finite[OF assms(1)] by simp
  have f: "{u. sl_pc ?s u = SFreed r} = {u. sl_pc s u = SFreed r}" for r
    using freeing_same[of s t SIdle] assms(3) by (simp add: slist_upd)
  have "finite {u. sl_pc ?s u \<noteq> SIdle}" using counts_finite_pc(1)[OF assms(1), of t SIdle] by (simp add: slist_upd)
  then show ?thesis using assms(1) card f by (simp add: counts_ok_def slist_upd)
qed

lemma counts_give_back:
  assumes "counts_ok s" and "places_ok s" and "sl_pc s t = SIdle" and "a \<in> set (sl_held s t)" and "sl_owner s a = Some q"
  shows "counts_ok (slist_at t (SFreed q) (push_entry q a (s\<lparr>sl_held := (sl_held s)(t := remove1 a (sl_held s t))\<rparr>)))"
    (is "counts_ok ?s")
proof -
  have at: "sits s a (InHand t)" using assms(4) by simp
  have others: "b \<in> set (sl_held ?s u) \<longleftrightarrow> b \<in> set (sl_held s u) \<and> b \<noteq> a" for b u
    using places_at(3)[OF assms(2) at] places_distinct(2)[OF assms(2), of t] by (auto simp: slist_upd)
  have h: "handed ?s r = handed s r - {a}" for r
    using others by (auto simp: handed_def) (auto simp: slist_upd)
  have mem: "a \<in> handed s r \<longleftrightarrow> r = q" for r using assms(4,5) by (auto simp: handed_def)
  have card: "card (handed s r) = card (handed ?s r) + (if r = q then 1 else 0)" for r
    using h mem card.remove[OF handed_finite[OF assms(1), of r], of a] by (cases "r = q") simp_all
  have "{u. sl_pc ?s u = SFreed r} = (if r = q then insert t {u. sl_pc s u = SFreed r} else {u. sl_pc s u = SFreed r})" for r
    using assms(3) by (auto simp: slist_upd)
  then have f: "card {u. sl_pc ?s u = SFreed r} = card {u. sl_pc s u = SFreed r} + (if r = q then 1 else 0)" for r
    using counts_finite_pc(2)[OF assms(1), of r] assms(3) by (cases "r = q") simp_all
  have "finite {u. sl_pc ?s u \<noteq> SIdle}" using counts_finite_pc(1)[OF assms(1), of t "SFreed q"] by (simp add: slist_upd)
  moreover have "sl_inUse ?s = sl_inUse s" "sl_owner ?s = sl_owner s" "sl_capacity ?s = sl_capacity s" by (simp_all add: slist_upd)
  ultimately show ?thesis using assms(1) card f by (simp add: counts_ok_def)
qed

lemma counts_freed:
  assumes "counts_ok s" and "sl_pc s t = SFreed q"
  shows "counts_ok (returns_S t r (slist_at t SIdle (s\<lparr>sl_inUse := (sl_inUse s)(q := sl_inUse s q - 1)\<rparr>)))" (is "counts_ok ?s")
proof -
  have set: "{u. sl_pc ?s u = SFreed p} = {u. sl_pc s u = SFreed p} - {t}" for p by (auto simp: slist_upd)
  have "t \<in> {u. sl_pc s u = SFreed p} \<longleftrightarrow> p = q" for p using assms(2) by auto
  then have f: "card {u. sl_pc s u = SFreed p} = card {u. sl_pc ?s u = SFreed p} + (if p = q then 1 else 0)" for p
    using set card.remove[OF counts_finite_pc(2)[OF assms(1), of p], of t] by (cases "p = q") simp_all
  have h: "handed ?s p = handed s p" for p by (simp add: handed_def slist_upd)
  have "finite {u. sl_pc ?s u \<noteq> SIdle}" using counts_finite_pc(1)[OF assms(1), of t SIdle] by (simp add: slist_upd)
  moreover have "sl_inUse ?s p = of_nat (card (handed ?s p) + card {u. sl_pc ?s u = SFreed p})" for p
  proof -
    have now: "sl_inUse ?s p = sl_inUse s p - of_nat (if p = q then 1 else 0)" by (simp add: slist_fields)
    have "sl_inUse s p = of_nat (card (handed s p) + card {u. sl_pc s u = SFreed p})"
      using assms(1) unfolding counts_ok_def by blast
    also have "\<dots> = of_nat (card (handed ?s p) + card {u. sl_pc ?s u = SFreed p}) + of_nat (if p = q then 1 else 0)"
      unfolding h f of_nat_add by (rule add.assoc[symmetric])
    finally show ?thesis unfolding now by (simp only: add_diff_cancel_right')
  qed
  moreover have "sl_owner ?s = sl_owner s" "sl_capacity ?s = sl_capacity s" by (simp_all add: slist_fields)
  ultimately show ?thesis using assms(1) unfolding counts_ok_def by simp
qed

section \<open>Every run\<close>

lemma slist_step_counts:
  assumes "counts_ok s" and "places_ok s" and "slist_lawful t ch s" and "slist_step v0 t ch s = Some s'"
  shows "counts_ok s'"
proof -
  have same: "counts_ok s''" if "sl_owner s'' = sl_owner s" "sl_capacity s'' = sl_capacity s" "sl_inUse s'' = sl_inUse s"
    "sl_held s'' = sl_held s" "sl_pc s'' = (sl_pc s)(t := c)" "\<And>q. sl_pc s t = SFreed q \<longleftrightarrow> c = SFreed q" for s'' :: "'a slist_pools" and c
    using counts_unchanged[OF assms(1)] that by blast
  have here: "sl_pc s = (sl_pc s)(t := sl_pc s t)" by simp
  show ?thesis
  proof (cases "sl_pc s t")
    case SIdle
    show ?thesis
    proof (cases ch)
      case (CallAllocS q args)
      with SIdle assms(4) have "\<exists>c. s' = slist_at t c s \<and> (\<forall>r. c \<noteq> SFreed r) \<or>
          (\<exists>l. s' = slist_at t c (s\<lparr>sl_list := l\<rparr>)) \<and> (\<forall>r. c \<noteq> SFreed r)"
        by (auto simp: slist_step_def split: list.splits)
      with SIdle show ?thesis by (auto simp: slist_fields intro!: same)
    next
      case (CallFreeS q p)
      show ?thesis
      proof (cases "p = None \<or> (\<exists>a. p = Some a \<and> sl_owner s a \<noteq> Some q)")
        case True
        with SIdle CallFreeS assms(4) have "s' = returns_S t False s"
          by (auto simp: slist_step_def split: option.splits if_splits)
        then show ?thesis using here SIdle by (auto simp: slist_fields intro!: same[where c = SIdle])
      next
        case False
        with SIdle CallFreeS assms show ?thesis
          by (auto simp: slist_step_def slist_lawful_def intro!: counts_give_back)
      qed
    next
      case (CallReserve q n)
      with SIdle assms(4) show ?thesis by (auto simp: slist_step_def slist_fields intro!: same)
    qed (use SIdle assms in \<open>auto simp: slist_step_def\<close>)
  next
    case (SCreate q args)
    with assms show ?thesis
      by (cases ch) (auto simp: slist_step_def slist_lawful_def intro!: counts_new)
  next
    case (SInit q a args)
    show ?thesis
    proof (cases "ch = Go")
      case True
      with SInit assms(4) have "\<exists>h. s' = slist_at t (SCount q a) (s\<lparr>sl_value := h\<rparr>) \<or> s' = slist_at t (SCount q a) s"
        by (auto simp: slist_step_def split: option.splits if_splits)
      with SInit show ?thesis by (auto simp: slist_fields intro!: same)
    next
      case False
      with SInit assms(1,4) show ?thesis by (cases ch) (auto simp: slist_step_def)
    qed
  next
    case (SCount q a)
    with assms show ?thesis
      by (cases ch) (auto simp: slist_step_def intro!: counts_hand)
  next
    case (SFreed q)
    with assms show ?thesis
      by (cases ch) (auto simp: slist_step_def intro!: counts_freed)
  next
    case (SReserve q n)
    show ?thesis
    proof (cases n)
      case 0
      with SReserve assms(1,4) show ?thesis by (cases ch) (auto simp: slist_step_def slist_fields intro!: same)
    next
      case (Suc m)
      with SReserve assms show ?thesis
        by (cases ch) (auto simp: slist_step_def slist_lawful_def intro!: counts_new)
    qed
  next
    case (SPush q a n)
    with assms(1,4) show ?thesis
      by (cases ch) (auto simp: slist_step_def slist_fields intro!: same)
  qed
qed

lemma slist_run_ok: "slist_run v0 s \<Longrightarrow> places_ok s \<and> counts_ok s"
proof (induction rule: slist_run.induct)
  case start
  have "sits (slist_start v0) a p \<longleftrightarrow> False" for a p by (cases p) (simp_all add: slist_start_def)
  then show ?case by (simp add: places_ok_def counts_ok_def handed_def) (simp add: slist_start_def)
next
  case (more s t ch s')
  then show ?case using slist_step_places[OF _ more.hyps(2,3)] slist_step_counts[OF _ _ more.hyps(2,3)] by simp
qed

lemma slist_step_defined:
  assumes "places_ok s" and "slist_lawful t ch s"
  shows "slist_step v0 t ch s \<noteq> None"
proof (cases "sl_pc s t")
  case SIdle
  show ?thesis
  proof (cases "\<exists>q a. ch = CallFreeS q (Some a)")
    case True
    then obtain q a where ch: "ch = CallFreeS q (Some a)" by blast
    with assms(2) have "sits s a (InHand t)" by (simp add: slist_lawful_def)
    from places_owner[OF assms(1) this] show ?thesis using SIdle ch by (auto simp: slist_step_def)
  next
    case False
    have "FreeS_step t (CallFreeS q p) SIdle s \<noteq> None" if "ch = CallFreeS q p" for q p
      using False that by (cases p) auto
    then show ?thesis using SIdle by (cases ch) (auto simp: slist_step_def split: list.splits)
  qed
next
  case (SInit q a args)
  have "sits s a (OnWay t q)" using SInit by simp
  from places_owner[OF assms(1) this] show ?thesis using SInit by (cases ch) (auto simp: slist_step_def)
next
  case (SReserve q n)
  then show ?thesis by (cases ch; cases n) (auto simp: slist_step_def)
qed (cases ch; simp add: slist_step_def)+

section \<open>The destructor\<close>

lemma delete_entries_all:
  "distinct l \<Longrightarrow> \<forall>a \<in> set l. h a \<noteq> None \<Longrightarrow> delete_entries l h = Some (\<lambda>a. if a \<in> set l then None else h a)"
proof (induction l arbitrary: h)
  case (Cons a l)
  then have "\<forall>b \<in> set l. (h(a := None)) b \<noteq> None" by auto
  then have "delete_entries l (h(a := None)) = Some (\<lambda>b. if b \<in> set l then None else (h(a := None)) b)"
    using Cons.IH Cons.prems(1) by simp
  moreover have "(\<lambda>b. if b \<in> set l then None else (h(a := None)) b) = (\<lambda>b. if b \<in> set (a # l) then None else h b)" by auto
  ultimately show ?case using Cons.prems(2) by simp
qed simp

lemma handed_listed:
  assumes "places_ok s" and "\<forall>t. sl_pc s t = SIdle" and "handed s q = {}"
  shows "sl_owner s a = Some q \<longleftrightarrow> a \<in> set (sl_list s q)"
proof
  assume own: "sl_owner s a = Some q"
  then obtain p where p: "sits s a p" using assms(1) unfolding places_ok_def by (metis option.distinct(1))
  from places_owner[OF assms(1) p] own have "place_pool p = Some q \<or> place_pool p = None" by auto
  with p own assms(2,3) show "a \<in> set (sl_list s q)" by (cases p) (auto simp: handed_def)
next
  assume "a \<in> set (sl_list s q)"
  then have "sits s a (Listed q)" by simp
  from places_owner[OF assms(1) this] show "sl_owner s a = Some q" by auto
qed

lemma destroy_pool_effect:
  assumes "places_ok s" and "counts_ok s" and "\<forall>t. sl_pc s t = SIdle" and "card (handed s q) < 2 ^ 64"
  shows "destroy_pool q s = Some (if handed s q = {}
    then s\<lparr>sl_list := (sl_list s)(q := []), sl_owner := \<lambda>a. if sl_owner s a = Some q then None else sl_owner s a\<rparr> else s)"
proof -
  have "sl_inUse s q = of_nat (card (handed s q))" using assms(2,3) by (simp add: counts_ok_def)
  then have zero: "sl_inUse s q = 0 \<longleftrightarrow> handed s q = {}"
    using assms(4) handed_finite[OF assms(2)] by (simp add: word_of_nat_eq_0_iff nat_dvd_not_less card_gt_0_iff) (metis card_gt_0_iff card.empty dvd_0_right nat_dvd_not_less)
  show ?thesis
  proof (cases "handed s q = {}")
    case True
    have l: "a \<in> set (sl_list s q) \<longleftrightarrow> sl_owner s a = Some q" for a using handed_listed[OF assms(1,3) True] by simp
    have "delete_entries (sl_list s q) (sl_owner s) = Some (\<lambda>a. if a \<in> set (sl_list s q) then None else sl_owner s a)"
      using delete_entries_all[OF places_distinct(1)[OF assms(1)]] l by simp
    with True zero l show ?thesis by (simp add: destroy_pool_def)
  next
    case False
    with zero show ?thesis by (simp add: destroy_pool_def)
  qed
qed

section \<open>The property\<close>

text \<open>
  C0. Under any interleaving of \<open>Alloc\<close>, \<open>Free\<close> and \<open>Reserve\<close> of any threads on any pools, where \<open>new\<close> returns
  addresses not in use and a thread gives back only what it holds, no step reads a node that does not exist;
  no object is in the hands of two threads or twice in those of one, and none that is handed out is on a free
  list; the capacity is the number of nodes of the pool, and the use counter the number of objects handed
  out, plus those of which \<open>Free\<close> has yet to count the return, both modulo $2^{64}$. An object offered to another pool
  is refused without any effect. And once the threads are idle and less than $2^{64}$ objects are out, the destructor
  deletes every node of the pool and no other if none is out, and otherwise does nothing.
\<close>

theorem slist_pool_sound:
  assumes "slist_run v0 s"
  shows "(\<forall>t ch. slist_lawful t ch s \<longrightarrow> slist_step v0 t ch s \<noteq> None)
    \<and> (\<forall>t. distinct (sl_held s t))
    \<and> (\<forall>t t' a. a \<in> set (sl_held s t) \<and> a \<in> set (sl_held s t') \<longrightarrow> t = t')
    \<and> (\<forall>t q a. a \<in> set (sl_held s t) \<longrightarrow> a \<notin> set (sl_list s q))
    \<and> (\<forall>q. sl_capacity s q = of_nat (card {a. sl_owner s a = Some q}))
    \<and> (\<forall>q. sl_inUse s q = of_nat (card (handed s q) + card {t. sl_pc s t = SFreed q}))
    \<and> (\<forall>t q a. sl_pc s t = SIdle \<and> a \<in> set (sl_held s t) \<and> sl_owner s a \<noteq> Some q \<longrightarrow>
         slist_step v0 t (CallFreeS q (Some a)) s = Some (returns_S t False s))
    \<and> (\<forall>q. (\<forall>t. sl_pc s t = SIdle) \<and> card (handed s q) < 2 ^ 64 \<longrightarrow>
         destroy_pool q s = Some (if handed s q = {}
           then s\<lparr>sl_list := (sl_list s)(q := []), sl_owner := \<lambda>a. if sl_owner s a = Some q then None else sl_owner s a\<rparr>
           else s))"
proof -
  have po: "places_ok s" and co: "counts_ok s" using slist_run_ok[OF assms] by simp_all
  have held: "t = t'" if "a \<in> set (sl_held s t)" "a \<in> set (sl_held s t')" for t t' a
    using places_unique[OF po, of a "InHand t" "InHand t'"] that by simp
  have off: "a \<notin> set (sl_list s q)" if "a \<in> set (sl_held s t)" for t q a
    using places_unique[OF po, of a "InHand t" "Listed q"] that by auto
  have foreign: "slist_step v0 t (CallFreeS q (Some a)) s = Some (returns_S t False s)"
    if "sl_pc s t = SIdle" "a \<in> set (sl_held s t)" "sl_owner s a \<noteq> Some q" for t q a
    using places_owner[OF po, of a "InHand t"] that by (auto simp: slist_step_def)
  show ?thesis
    using slist_step_defined[OF po] places_distinct(2)[OF po] held off foreign destroy_pool_effect[OF po co] co
    unfolding counts_ok_def by blast
qed

lemma slist_run_first_object:
  "slist_run v0 (slist_start v0)"
  "\<exists>s. slist_run v0 s \<and> sl_held s 0 = [7] \<and> sl_pc s 0 = SIdle \<and> sl_owner s 7 = Some 0"
proof -
  show run0: "slist_run v0 (slist_start v0)" by (rule slist_run.start)
  note go = slist_run.more[where t = 0]
  let ?s1 = "slist_at 0 (SCreate 0 None) (slist_start v0)"
  let ?s2 = "slist_at 0 (SInit 0 7 None) (CreateNode v0 0 7 ?s1)"
  let ?s3 = "slist_at 0 (SCount 0 7) ?s2"
  have "slist_run v0 ?s1"
    by (rule go[OF run0, where ch = "CallAllocS 0 None"]) (simp_all add: slist_lawful_def slist_step_def slist_start_def)
  then have "slist_run v0 ?s2"
    by (rule go[where ch = "NewNode 7"]) (simp_all add: slist_lawful_def slist_step_def slist_upd slist_start_def)
  then have "slist_run v0 ?s3"
    by (rule go[where ch = Go]) (simp_all add: slist_lawful_def slist_step_def slist_upd slist_start_def)
  then have "slist_run v0 (slist_at 0 SIdle (?s3\<lparr>sl_inUse := (sl_inUse ?s3)(0 := sl_inUse ?s3 0 + 1), sl_held := (sl_held ?s3)(0 := 7 # sl_held ?s3 0)\<rparr>))"
    by (rule go[where ch = Go]) (simp_all add: slist_lawful_def slist_step_def slist_upd slist_start_def)
  then show "\<exists>s. slist_run v0 s \<and> sl_held s 0 = [7] \<and> sl_pc s 0 = SIdle \<and> sl_owner s 7 = Some 0"
    by (intro exI conjI, assumption) (simp_all add: slist_upd slist_start_def)
qed

lemma slist_pool_sound_witness:
  "\<exists>s. slist_run (0::nat) s \<and> sl_held s 0 = [7] \<and> slist_step 0 0 (CallFreeS 1 (Some 7)) s = Some (returns_S 0 False s)
     \<and> slist_step 0 0 (CallFreeS 0 (Some 7)) s \<noteq> None \<and> 7 \<notin> set (sl_list s 0)"
proof -
  from slist_run_first_object(2)[of "0::nat"] obtain s :: "nat slist_pools"
    where s: "slist_run 0 s" "sl_held s 0 = [7]" "sl_pc s 0 = SIdle" "sl_owner s 7 = Some 0"
    by (elim exE conjE) (rule that, assumption+)
  note ok = slist_pool_sound[OF s(1)]
  have steps: "\<forall>t ch. slist_lawful t ch s \<longrightarrow> slist_step 0 t ch s \<noteq> None" using ok by (elim conjE)
  have off: "\<forall>t q a. a \<in> set (sl_held s t) \<longrightarrow> a \<notin> set (sl_list s q)" using ok by (elim conjE)
  have foreign: "\<forall>t q a. sl_pc s t = SIdle \<and> a \<in> set (sl_held s t) \<and> sl_owner s a \<noteq> Some q \<longrightarrow>
      slist_step 0 t (CallFreeS q (Some a)) s = Some (returns_S t False s)" using ok by (elim conjE)
  have "slist_step 0 0 (CallFreeS 0 (Some 7)) s \<noteq> None" by (rule steps[rule_format]) (simp add: slist_lawful_def s(2))
  moreover have "slist_step 0 0 (CallFreeS 1 (Some 7)) s = Some (returns_S 0 False s)"
    by (rule foreign[rule_format]) (simp add: s)
  moreover have "7 \<notin> set (sl_list s 0)" by (rule off[rule_format, of _ 0]) (simp add: s(2))
  ultimately show ?thesis using s(1,2) by blast
qed

end
