(* ===== verification/Server_Lifecycle.thy ===== *)
theory Server_Lifecycle
  imports Prelude
begin

text \<open>
  How the servers come up and go down: the constructors of \<open>BaseServer\<close>, \<open>ChatServer\<close> and \<open>GroupServer\<close>, the
  threads they start, \<open>main\<close>, and the destructors. The main thread is the list of operations it still has to
  do; the other threads are cut at the places where they look at the shared state or call a virtual function.
  While the constructor of a base class runs, and from the moment its destructor runs, a virtual call goes to
  the base class. So a state records how far the object is: \<open>Bare\<close>, where the callbacks are pure virtual, \<open>Raw\<close>,
  where they are those of the server but its members are not constructed and prepared, or destroyed, and \<open>Alive\<close>.
  The login server shares the chat server's base class; its own constructor is not modelled.
\<close>

section \<open>State\<close>

datatype server_stage = Bare | Raw | Alive

datatype server_call = OnConnectionRequest | OnClientJoin_v | OnClientLeave_v | OnRecv_v | OnSend_v | CheckTimeOut_v | GroupUpdate

datatype lifecycle_fault = PureVirtualCall server_call | DeadMembers server_call | DeadCriticalSection

datatype accept_pc = ATop | ABlocked | AAsk | ASession | AJoin | AEnd
datatype worker_pc = WWait | WRun "server_call list" | WEnd
datatype timer_pc = TTop | TScan | TEnd
datatype content_pc = CStart | CTop | CRun | CFinal | CEnd

datatype server_thread =
  AcceptThread accept_pc | WorkerThread worker_pc | TimeoutThread timer_pc | ContentThread content_pc

text \<open>What the completion port holds: the null completion, or one whose handling makes these callbacks.\<close>

datatype port_item = ExitItem | IoItem "server_call list"

text \<open>How far \<open>listenSocketInit\<close> gets.\<close>

datatype listen_result = NoWinsock | NoSocket | NotBound | NotListening | Listens

datatype main_op =
  OpenPort | ListenSocketInit listen_result | SetStage server_stage | Spawn server_thread
| RunLoop | SetTerminate | PostExit | CloseListen | JoinAll | DeleteCs | ClosePort

record server_life =
  lc_stage :: server_stage
  lc_main :: "main_op list"
  lc_threads :: "server_thread list"
  lc_port :: "port_item list option"
  lc_listening :: bool
  lc_cs :: bool
  lc_terminate :: bool

section \<open>The main thread's operations\<close>

text \<open>
  \<open>init\<close> of the chat server; \<open>OpenPort\<close> stands for the port, the critical section and the session table. The
  arguments are the outcomes of opening the port and of listening, and the number of worker threads.
\<close>

definition BaseServer_init :: "bool \<Rightarrow> listen_result \<Rightarrow> nat \<Rightarrow> main_op list" where
  "BaseServer_init port r n =
     (if \<not> port then []
      else [OpenPort, ListenSocketInit r] @
        (if r \<noteq> Listens then [] else Spawn (AcceptThread ATop) # replicate n (Spawn (WorkerThread WWait))))"

text \<open>Its copy in the group server leaves the threads to \<open>Start\<close>, which asks for the handle of the listening socket.\<close>

definition group_base_init :: "bool \<Rightarrow> listen_result \<Rightarrow> main_op list" where
  "group_base_init port r = (if \<not> port then [] else [OpenPort, ListenSocketInit r])"

definition handle_left :: "listen_result \<Rightarrow> bool" where
  "handle_left r = (r \<notin> {NoWinsock, NoSocket})"

definition group_Start :: "bool \<Rightarrow> listen_result \<Rightarrow> nat \<Rightarrow> main_op list" where
  "group_Start port r n =
     (if \<not> port \<or> \<not> handle_left r then [] else replicate n (Spawn (WorkerThread WWait)) @ [Spawn (AcceptThread ATop)])"

definition ChatServer_ctor :: "bool \<Rightarrow> listen_result \<Rightarrow> nat \<Rightarrow> main_op list" where
  "ChatServer_ctor port r n = BaseServer_init port r n @ [SetStage Raw, SetStage Alive, Spawn (TimeoutThread TTop)]"

definition GroupServer_ctor :: "nat \<Rightarrow> bool \<Rightarrow> listen_result \<Rightarrow> nat \<Rightarrow> main_op list" where
  "GroupServer_ctor k port r n = group_base_init port r @ [SetStage Raw, SetStage Alive] @
     replicate k (Spawn (ContentThread CStart)) @ [Spawn (TimeoutThread TTop)] @ group_Start port r n"

definition BaseServer_dtor :: "nat \<Rightarrow> main_op list" where
  "BaseServer_dtor n = SetTerminate # replicate n PostExit @ [CloseListen, JoinAll, DeleteCs, ClosePort]"

text \<open>The bodies of the servers' own destructors are empty; their members go, then the base class.\<close>

definition server_dtor :: "nat \<Rightarrow> main_op list" where
  "server_dtor n = [SetStage Raw, SetStage Bare] @ BaseServer_dtor n"

datatype server_kind = ChatKind | GroupKind nat

fun server_ctor :: "server_kind \<Rightarrow> bool \<Rightarrow> listen_result \<Rightarrow> nat \<Rightarrow> main_op list" where
  "server_ctor ChatKind port r n = ChatServer_ctor port r n"
| "server_ctor (GroupKind k) port r n = GroupServer_ctor k port r n"

definition server_main :: "server_kind \<Rightarrow> bool \<Rightarrow> listen_result \<Rightarrow> nat \<Rightarrow> main_op list" where
  "server_main kind port r n = server_ctor kind port r n @ [RunLoop] @ server_dtor n"

section \<open>Calls\<close>

text \<open>\<open>OnConnectionRequest\<close> answers true, \<open>OnSend_v\<close> counts in a member of \<open>BaseServer\<close>; the others use the server's members.\<close>

definition uses_members :: "server_call \<Rightarrow> bool" where
  "uses_members c = (c \<notin> {OnConnectionRequest, OnSend_v})"

definition is_virtual :: "server_call \<Rightarrow> bool" where
  "is_virtual c = (c \<notin> {CheckTimeOut_v, GroupUpdate})"

definition call_fault :: "server_call \<Rightarrow> server_stage \<Rightarrow> lifecycle_fault option" where
  "call_fault c st =
     (if st = Alive then None
      else if st = Bare \<and> is_virtual c then Some (PureVirtualCall c)
      else if uses_members c then Some (DeadMembers c) else None)"

type_synonym thread_result = "lifecycle_fault + server_thread \<times> server_life"

definition call_then :: "server_call \<Rightarrow> server_thread \<Rightarrow> server_life \<Rightarrow> thread_result" where
  "call_then c t s = (case call_fault c (lc_stage s) of Some f \<Rightarrow> Inl f | None \<Rightarrow> Inr (t, s))"

section \<open>Threads\<close>

text \<open>The answer of the outside: a call of it fails, or there is a client (a free session).\<close>

datatype accept_answer = AcceptFails | AcceptClient

text \<open>\<open>None\<close>: the thread waits, or has ended.\<close>

fun accept_step :: "accept_answer \<Rightarrow> server_life \<Rightarrow> accept_pc \<Rightarrow> thread_result option" where
  "accept_step ans s ATop = Some (Inr (AcceptThread (if lc_terminate s then AEnd else ABlocked), s))"
| "accept_step AcceptFails s ABlocked = Some (Inr (AcceptThread ATop, s))"
| "accept_step AcceptClient s ABlocked = (if lc_listening s then Some (Inr (AcceptThread AAsk, s)) else None)"
| "accept_step ans s AAsk = Some (call_then OnConnectionRequest (AcceptThread ASession) s)"
| "accept_step ans s ASession =
     (if \<not> lc_cs s then Some (Inl DeadCriticalSection)
      else Some (Inr (AcceptThread (if ans = AcceptClient then AJoin else ATop), s)))"
| "accept_step ans s AJoin = Some (call_then OnClientJoin_v (AcceptThread ATop) s)"
| "accept_step ans s AEnd = None"

fun worker_step :: "server_life \<Rightarrow> worker_pc \<Rightarrow> thread_result option" where
  "worker_step s WWait =
     (case lc_port s of
        Some (ExitItem # q) \<Rightarrow> Some (Inr (WorkerThread WEnd, s\<lparr>lc_port := Some q\<rparr>))
      | Some (IoItem cs # q) \<Rightarrow> Some (Inr (WorkerThread (WRun cs), s\<lparr>lc_port := Some q\<rparr>))
      | _ \<Rightarrow> None)"
| "worker_step s (WRun []) = Some (Inr (WorkerThread WWait, s))"
| "worker_step s (WRun (c # cs)) = Some (call_then c (WorkerThread (WRun cs)) s)"
| "worker_step s WEnd = None"

fun timeout_step :: "server_life \<Rightarrow> timer_pc \<Rightarrow> thread_result option" where
  "timeout_step s TTop = Some (Inr (TimeoutThread (if lc_terminate s then TEnd else TScan), s))"
| "timeout_step s TScan = Some (call_then CheckTimeOut_v (TimeoutThread TTop) s)"
| "timeout_step s TEnd = None"

text \<open>\<open>contentThread\<close> is virtual, with an empty body in \<open>BaseServer\<close>; the group server's first takes its group.\<close>

fun content_step :: "server_life \<Rightarrow> content_pc \<Rightarrow> thread_result option" where
  "content_step s CStart =
     (case lc_stage s of
        Bare \<Rightarrow> Some (Inr (ContentThread CEnd, s))
      | Raw \<Rightarrow> Some (Inl (DeadMembers GroupUpdate))
      | Alive \<Rightarrow> Some (Inr (ContentThread CTop, s)))"
| "content_step s CTop = Some (Inr (ContentThread (if lc_terminate s then CFinal else CRun), s))"
| "content_step s CRun = Some (call_then GroupUpdate (ContentThread CTop) s)"
| "content_step s CFinal = Some (call_then GroupUpdate (ContentThread CEnd) s)"
| "content_step s CEnd = None"

fun thread_step :: "accept_answer \<Rightarrow> server_life \<Rightarrow> server_thread \<Rightarrow> thread_result option" where
  "thread_step ans s (AcceptThread p) = accept_step ans s p"
| "thread_step ans s (WorkerThread p) = worker_step s p"
| "thread_step ans s (TimeoutThread p) = timeout_step s p"
| "thread_step ans s (ContentThread p) = content_step s p"

fun has_ended :: "server_thread \<Rightarrow> bool" where
  "has_ended (AcceptThread p) = (p = AEnd)"
| "has_ended (WorkerThread p) = (p = WEnd)"
| "has_ended (TimeoutThread p) = (p = TEnd)"
| "has_ended (ContentThread p) = (p = CEnd)"

section \<open>Steps\<close>

definition enqueue_item :: "port_item \<Rightarrow> server_life \<Rightarrow> server_life" where
  "enqueue_item i s = s\<lparr>lc_port := map_option (\<lambda>q. q @ [i]) (lc_port s)\<rparr>"

fun main_effect :: "main_op \<Rightarrow> server_life \<Rightarrow> server_life option" where
  "main_effect OpenPort s = Some (s\<lparr>lc_port := Some [], lc_cs := True\<rparr>)"
| "main_effect (ListenSocketInit r) s = Some (s\<lparr>lc_listening := (r = Listens)\<rparr>)"
| "main_effect (SetStage st) s = Some (s\<lparr>lc_stage := st\<rparr>)"
| "main_effect (Spawn t) s = Some (s\<lparr>lc_threads := lc_threads s @ [t]\<rparr>)"
| "main_effect RunLoop s = (if lc_terminate s then Some s else None)"
| "main_effect SetTerminate s = Some (s\<lparr>lc_terminate := True\<rparr>)"
| "main_effect PostExit s = Some (enqueue_item ExitItem s)"
| "main_effect CloseListen s = Some (s\<lparr>lc_listening := False\<rparr>)"
| "main_effect JoinAll s = (if list_all has_ended (lc_threads s) then Some (s\<lparr>lc_threads := []\<rparr>) else None)"
| "main_effect DeleteCs s = Some (s\<lparr>lc_cs := False\<rparr>)"
| "main_effect ClosePort s = Some (s\<lparr>lc_port := None\<rparr>)"

fun main_step :: "server_life \<Rightarrow> server_life option" where
  "main_step s = (case lc_main s of [] \<Rightarrow> None | op # ops \<Rightarrow> map_option (\<lambda>s'. s'\<lparr>lc_main := ops\<rparr>) (main_effect op s))"

text \<open>
  What can happen: the main thread or another goes on, I/O completes, or the key Q is handled, which nothing
  but the control console does.
\<close>

datatype lifecycle_event = MainGoes | ThreadGoes nat accept_answer | Arrives "server_call list" | QKey

definition ServerControll_Q :: "server_life \<Rightarrow> server_life" where
  "ServerControll_Q s = s\<lparr>lc_terminate := True\<rparr>"

fun lc_step :: "lifecycle_event \<Rightarrow> server_life \<Rightarrow> (lifecycle_fault + server_life) option" where
  "lc_step MainGoes s = map_option Inr (main_step s)"
| "lc_step (ThreadGoes i ans) s =
     (if i < length (lc_threads s)
      then (case thread_step ans s (lc_threads s ! i) of
              None \<Rightarrow> None
            | Some (Inl f) \<Rightarrow> Some (Inl f)
            | Some (Inr (t, s')) \<Rightarrow> Some (Inr (s'\<lparr>lc_threads := (lc_threads s')[i := t]\<rparr>)))
      else None)"
| "lc_step (Arrives cs) s = (if lc_port s = None then None else Some (Inr (enqueue_item (IoItem cs) s)))"
| "lc_step QKey s = (if lc_main s \<noteq> [] \<and> hd (lc_main s) = RunLoop then Some (Inr (ServerControll_Q s)) else None)"

fun lc_run :: "lifecycle_event list \<Rightarrow> server_life \<Rightarrow> (lifecycle_fault + server_life) option" where
  "lc_run [] s = Some (Inr s)"
| "lc_run (e # es) s =
     (case lc_step e s of None \<Rightarrow> None | Some (Inl f) \<Rightarrow> (if es = [] then Some (Inl f) else None) | Some (Inr s') \<Rightarrow> lc_run es s')"

definition lc_start :: "main_op list \<Rightarrow> server_life" where
  "lc_start ops = \<lparr>lc_stage = Bare, lc_main = ops, lc_threads = [], lc_port = None, lc_listening = False,
     lc_cs = False, lc_terminate = False\<rparr>"

inductive lc_reach :: "main_op list \<Rightarrow> server_life \<Rightarrow> bool" for ops where
  start: "lc_reach ops (lc_start ops)"
| step: "lc_reach ops s \<Longrightarrow> lc_step e s = Some (Inr s') \<Longrightarrow> lc_reach ops s'"

end
