(* ===== verification/Lifecycle_Safety.thy ===== *)
theory Lifecycle_Safety
  imports Server_Lifecycle
begin

text \<open>
  What holds of every run of a server's life: which operations of the main thread are behind it determines the
  stage of the object, the threads that exist, whether the socket listens, and how many null completions the
  worker threads have taken or will find. From that: the group server calls nothing before it is ready, and a
  destructor that waits for the threads gets to its end.
\<close>

section \<open>What the operations behind the main thread determine\<close>

definition stage_of :: "main_op list \<Rightarrow> server_stage" where
  "stage_of pre = fold (\<lambda>op st. case op of SetStage x \<Rightarrow> x | _ \<Rightarrow> st) pre Bare"

fun thread_kind :: "server_thread \<Rightarrow> server_thread" where
  "thread_kind (AcceptThread p) = AcceptThread ATop"
| "thread_kind (WorkerThread p) = WorkerThread WWait"
| "thread_kind (TimeoutThread p) = TimeoutThread TTop"
| "thread_kind (ContentThread p) = ContentThread CStart"

definition spawned :: "main_op list \<Rightarrow> server_thread list" where
  "spawned pre = List.map_filter (\<lambda>op. case op of Spawn t \<Rightarrow> Some (thread_kind t) | _ \<Rightarrow> None) pre"

lemma spawned_append [simp]: "spawned (xs @ ys) = spawned xs @ spawned ys"
  by (induction xs) (auto simp: spawned_def map_filter_simps split: option.splits)

lemma spawned_simps [simp]:
  "spawned [] = []" "spawned (Spawn t # ops) = thread_kind t # spawned ops"
  "\<forall>t. op \<noteq> Spawn t \<Longrightarrow> spawned (op # ops) = spawned ops"
  by (auto simp: spawned_def map_filter_simps split: main_op.splits)

lemma spawned_replicate [simp]:
  "spawned (replicate n (Spawn t)) = replicate n (thread_kind t)" "spawned (replicate n PostExit) = []"
  by (induction n) simp_all

definition lc_inv :: "main_op list \<Rightarrow> server_life \<Rightarrow> bool" where
  "lc_inv ops s \<longleftrightarrow> (\<exists>pre. ops = pre @ lc_main s \<and>
     lc_stage s = stage_of pre \<and>
     (SetTerminate \<in> set pre \<longrightarrow> lc_terminate s) \<and>
     (CloseListen \<in> set pre \<longrightarrow> \<not> lc_listening s) \<and>
     (OpenPort \<in> set pre \<and> DeleteCs \<notin> set pre \<longrightarrow> lc_cs s) \<and>
     (JoinAll \<in> set pre \<longrightarrow> lc_threads s = []) \<and>
     (JoinAll \<notin> set pre \<longrightarrow> map thread_kind (lc_threads s) = spawned pre) \<and>
     (OpenPort \<in> set pre \<and> ClosePort \<notin> set pre \<longrightarrow> lc_port s \<noteq> None) \<and>
     (\<forall>q. lc_port s = Some q \<longrightarrow> OpenPort \<in> set pre \<and> (JoinAll \<notin> set pre \<longrightarrow>
        count_list q ExitItem + count_list (lc_threads s) (WorkerThread WEnd) = count_list pre PostExit)))"

text \<open>The programs of the servers: the port is opened first if at all, and no listening starts after the close.\<close>

definition ops_ok :: "main_op list \<Rightarrow> bool" where
  "ops_ok ops \<longleftrightarrow> OpenPort \<notin> set (tl ops) \<and>
     (\<forall>pre r post. ops = pre @ ListenSocketInit r # post \<longrightarrow> CloseListen \<notin> set pre) \<and>
     (\<forall>pre t post. ops = pre @ Spawn t # post \<longrightarrow> JoinAll \<notin> set pre \<and> t = thread_kind t)"

lemma count_list_update:
  "i < length xs \<Longrightarrow> count_list (xs[i := y]) x + (if xs ! i = x then 1 else 0) = count_list xs x + (if y = x then 1 else 0)"
proof (induction xs arbitrary: i)
  case (Cons a xs)
  show ?case
  proof (cases i)
    case (Suc j)
    have "count_list (xs[j := y]) x + (if xs ! j = x then 1 else 0) = count_list xs x + (if y = x then 1 else 0)"
      using Cons.prems Suc by (intro Cons.IH) simp
    then show ?thesis by (cases "y = x"; cases "xs ! j = x") (auto simp: Suc)
  qed simp
qed simp

lemma stage_of_snoc [simp]: "stage_of (pre @ [op]) = (case op of SetStage x \<Rightarrow> x | _ \<Rightarrow> stage_of pre)"
  by (cases op) (simp_all add: stage_of_def)

section \<open>Threads\<close>

text \<open>A step of a thread keeps its kind and leaves all alone but the port, from which a worker takes.\<close>

lemma thread_step_frame:
  assumes "thread_step ans s t = Some (Inr (t', s'))"
  shows "thread_kind t' = thread_kind t" and "\<not> has_ended t"
    and "s' = s \<and> t' \<noteq> WorkerThread WEnd \<or> (\<exists>cs q. t = WorkerThread WWait \<and> t' = WorkerThread (WRun cs) \<and> lc_port s = Some (IoItem cs # q) \<and> s' = s\<lparr>lc_port := Some q\<rparr>)
      \<or> (\<exists>q. t = WorkerThread WWait \<and> t' = WorkerThread WEnd \<and> lc_port s = Some (ExitItem # q) \<and> s' = s\<lparr>lc_port := Some q\<rparr>)"
proof -
  have "thread_kind t' = thread_kind t \<and> \<not> has_ended t \<and> s' = s \<and> (\<forall>p. t' \<noteq> WorkerThread p)" if "\<forall>p. t \<noteq> WorkerThread p"
  proof (cases t)
    case (AcceptThread p)
    with assms show ?thesis by (cases p; cases ans) (auto simp: call_then_def split: option.splits if_splits)
  next
    case (TimeoutThread p)
    with assms show ?thesis by (cases p) (auto simp: call_then_def split: option.splits if_splits)
  next
    case (ContentThread p)
    with assms show ?thesis by (cases p) (auto simp: call_then_def split: option.splits if_splits server_stage.splits)
  qed (use that in simp)
  moreover have "\<exists>p. t = WorkerThread p \<and> (p = WWait \<and> (\<exists>cs q. t' = WorkerThread (WRun cs) \<and> lc_port s = Some (IoItem cs # q) \<and> s' = s\<lparr>lc_port := Some q\<rparr>)
      \<or> p = WWait \<and> (\<exists>q. t' = WorkerThread WEnd \<and> lc_port s = Some (ExitItem # q) \<and> s' = s\<lparr>lc_port := Some q\<rparr>)
      \<or> p = WRun [] \<and> t' = WorkerThread WWait \<and> s' = s \<or> (\<exists>c cs. p = WRun (c # cs) \<and> t' = WorkerThread (WRun cs) \<and> s' = s))"
    if "t = WorkerThread p" for p
  proof (cases p)
    case WWait
    with assms that show ?thesis by (auto split: option.splits list.splits port_item.splits)
  next
    case (WRun cs)
    with assms that show ?thesis by (cases cs) (auto simp: call_then_def split: option.splits)
  qed (use assms that in simp)
  ultimately show "thread_kind t' = thread_kind t" "\<not> has_ended t"
    "s' = s \<and> t' \<noteq> WorkerThread WEnd \<or> (\<exists>cs q. t = WorkerThread WWait \<and> t' = WorkerThread (WRun cs) \<and> lc_port s = Some (IoItem cs # q) \<and> s' = s\<lparr>lc_port := Some q\<rparr>)
      \<or> (\<exists>q. t = WorkerThread WWait \<and> t' = WorkerThread WEnd \<and> lc_port s = Some (ExitItem # q) \<and> s' = s\<lparr>lc_port := Some q\<rparr>)"
    by (atomize (full), cases "\<exists>p. t = WorkerThread p") (fastforce, fastforce)
qed


section \<open>The invariant\<close>

lemma lc_inv_start: "lc_inv ops (lc_start ops)"
  unfolding lc_inv_def by (rule exI [of _ "[]"]) (simp add: lc_start_def stage_of_def)

lemma lc_inv_thread:
  assumes "lc_inv ops s" and "i < length (lc_threads s)" and "thread_step ans s (lc_threads s ! i) = Some (Inr (t, s'))"
  shows "lc_inv ops (s'\<lparr>lc_threads := (lc_threads s')[i := t]\<rparr>)"
proof -
  let ?u = "lc_threads s ! i"
  note frame = thread_step_frame [OF assms(3)]
  have s': "s' = s \<or> (\<exists>q. lc_port s = Some q \<and> q \<noteq> [] \<and> s' = s\<lparr>lc_port := Some (tl q)\<rparr>)" using frame(3) by auto
  have same: "lc_threads s' = lc_threads s" "lc_main s' = lc_main s" "lc_stage s' = lc_stage s" "lc_terminate s' = lc_terminate s"
    "lc_listening s' = lc_listening s" "lc_cs s' = lc_cs s" "lc_port s' = None \<longleftrightarrow> lc_port s = None"
    using s' by auto
  from assms(1) obtain pre where pre: "ops = pre @ lc_main s" "lc_stage s = stage_of pre" "SetTerminate \<in> set pre \<longrightarrow> lc_terminate s"
    "CloseListen \<in> set pre \<longrightarrow> \<not> lc_listening s" "OpenPort \<in> set pre \<and> DeleteCs \<notin> set pre \<longrightarrow> lc_cs s"
    "JoinAll \<in> set pre \<longrightarrow> lc_threads s = []" "JoinAll \<notin> set pre \<longrightarrow> map thread_kind (lc_threads s) = spawned pre"
    "OpenPort \<in> set pre \<and> ClosePort \<notin> set pre \<longrightarrow> lc_port s \<noteq> None"
    "\<And>q. lc_port s = Some q \<Longrightarrow> OpenPort \<in> set pre \<and> (JoinAll \<notin> set pre \<longrightarrow>
      count_list q ExitItem + count_list (lc_threads s) (WorkerThread WEnd) = count_list pre PostExit)"
    unfolding lc_inv_def by blast
  have live: "JoinAll \<notin> set pre" using pre(6) assms(2) by auto
  have kinds: "map thread_kind ((lc_threads s)[i := t]) = spawned pre"
  proof -
    have "map thread_kind ((lc_threads s)[i := t]) = (map thread_kind (lc_threads s))[i := thread_kind t]" by (rule map_update)
    also have "\<dots> = map thread_kind (lc_threads s)" using frame(1) assms(2) by (simp add: list_update_same_conv)
    finally show ?thesis using pre(7) live by simp
  qed
  have count: "OpenPort \<in> set pre \<and> count_list q' ExitItem + count_list ((lc_threads s)[i := t]) (WorkerThread WEnd) = count_list pre PostExit"
    if q': "lc_port s' = Some q'" for q'
  proof -
    from q' same(7) obtain q where q: "lc_port s = Some q" by auto
    have old: "OpenPort \<in> set pre" "count_list q ExitItem + count_list (lc_threads s) (WorkerThread WEnd) = count_list pre PostExit"
      using pre(9) [OF q] live by auto
    have alive: "?u \<noteq> WorkerThread WEnd" using frame(2) by (cases ?u) auto
    have upd: "count_list ((lc_threads s)[i := t]) (WorkerThread WEnd) = count_list (lc_threads s) (WorkerThread WEnd) + (if t = WorkerThread WEnd then 1 else 0)"
      using count_list_update [OF assms(2), of t "WorkerThread WEnd"] alive by simp
    have "count_list q' ExitItem + (if t = WorkerThread WEnd then 1 else 0) = count_list q ExitItem"
      using frame(3) proof (elim disjE exE conjE)
      assume "s' = s" "t \<noteq> WorkerThread WEnd"
      then show ?thesis using q q' by simp
    qed (use q q' in simp_all)
    with old upd show ?thesis by simp
  qed
  show ?thesis unfolding lc_inv_def
    by (rule exI [of _ pre]) (use pre same live kinds count in simp)
qed

lemma lc_inv_main:
  assumes "lc_inv ops s" and "ops_ok ops" and "lc_main s = op # rest" and "main_effect op s = Some s1"
  shows "lc_inv ops (s1\<lparr>lc_main := rest\<rparr>)"
proof -
  from assms(1,3) obtain pre where pre: "ops = pre @ op # rest" "lc_stage s = stage_of pre" "SetTerminate \<in> set pre \<longrightarrow> lc_terminate s"
    "CloseListen \<in> set pre \<longrightarrow> \<not> lc_listening s" "OpenPort \<in> set pre \<and> DeleteCs \<notin> set pre \<longrightarrow> lc_cs s"
    "JoinAll \<in> set pre \<longrightarrow> lc_threads s = []" "JoinAll \<notin> set pre \<longrightarrow> map thread_kind (lc_threads s) = spawned pre"
    "OpenPort \<in> set pre \<and> ClosePort \<notin> set pre \<longrightarrow> lc_port s \<noteq> None"
    "\<And>q. lc_port s = Some q \<Longrightarrow> OpenPort \<in> set pre \<and> (JoinAll \<notin> set pre \<longrightarrow>
      count_list q ExitItem + count_list (lc_threads s) (WorkerThread WEnd) = count_list pre PostExit)"
    unfolding lc_inv_def by metis
  have ops: "ops = (pre @ [op]) @ rest" using pre(1) by simp
  have first: "pre = []" if "op = OpenPort"
    using assms(2) pre(1) that by (cases pre) (auto simp: ops_ok_def)
  have spawn: "JoinAll \<notin> set pre \<and> thread_kind t = t" if "op = Spawn t" for t
    using assms(2) pre(1) that unfolding ops_ok_def by metis
  have listen: "CloseListen \<notin> set pre" if "op = ListenSocketInit r" for r
    using assms(2) pre(1) that unfolding ops_ok_def by blast
  have live: "count_list (lc_threads s) (WorkerThread WEnd) = 0" if "pre = []"
    using pre(7) that by simp
  show ?thesis unfolding lc_inv_def
  proof (rule exI [of _ "pre @ [op]"], intro conjI)
    show "ops = (pre @ [op]) @ lc_main (s1\<lparr>lc_main := rest\<rparr>)" using ops by simp
    show "\<forall>q. lc_port (s1\<lparr>lc_main := rest\<rparr>) = Some q \<longrightarrow> OpenPort \<in> set (pre @ [op]) \<and> (JoinAll \<notin> set (pre @ [op]) \<longrightarrow>
        count_list q ExitItem + count_list (lc_threads (s1\<lparr>lc_main := rest\<rparr>)) (WorkerThread WEnd) = count_list (pre @ [op]) PostExit)"
    proof (cases op)
      case OpenPort
      then show ?thesis using assms(4) first live by auto
    next
      case (Spawn t)
      with spawn have "t \<noteq> WorkerThread WEnd" by (metis server_thread.inject(2) thread_kind.simps(2) worker_pc.distinct(3))
      with Spawn assms(4) pre(9) show ?thesis by auto
    next
      case PostExit
      with assms(4) pre(9) show ?thesis by (auto simp: enqueue_item_def)
    qed (use assms(4) pre(9) in \<open>auto split: if_splits\<close>)
    let ?s = "s1\<lparr>lc_main := rest\<rparr>"
    show "lc_stage ?s = stage_of (pre @ [op])"
      using assms(4) pre(2) by (cases op) (auto simp: enqueue_item_def split: if_splits)
    show "SetTerminate \<in> set (pre @ [op]) \<longrightarrow> lc_terminate ?s"
      using assms(4) pre(3) by (cases op) (auto simp: enqueue_item_def split: if_splits)
    show "CloseListen \<in> set (pre @ [op]) \<longrightarrow> \<not> lc_listening ?s"
      using assms(4) pre(4) listen by (cases op) (auto simp: enqueue_item_def split: if_splits)
    show "OpenPort \<in> set (pre @ [op]) \<and> DeleteCs \<notin> set (pre @ [op]) \<longrightarrow> lc_cs ?s"
      using assms(4) pre(5) by (cases op) (auto simp: enqueue_item_def split: if_splits)
    show "JoinAll \<in> set (pre @ [op]) \<longrightarrow> lc_threads ?s = []"
      using assms(4) pre(6) spawn by (cases op) (auto simp: enqueue_item_def split: if_splits)
    show "JoinAll \<notin> set (pre @ [op]) \<longrightarrow> map thread_kind (lc_threads ?s) = spawned (pre @ [op])"
      using assms(4) pre(7) by (cases op) (auto simp: enqueue_item_def split: if_splits)
    show "OpenPort \<in> set (pre @ [op]) \<and> ClosePort \<notin> set (pre @ [op]) \<longrightarrow> lc_port ?s \<noteq> None"
      using assms(4) pre(8) by (cases op) (auto simp: enqueue_item_def split: if_splits)
  qed
qed

lemma lc_inv_reach:
  assumes "lc_reach ops s" and "ops_ok ops"
  shows "lc_inv ops s"
  using assms(1)
proof (induction rule: lc_reach.induct)
  case start
  show ?case by (rule lc_inv_start)
next
  case (step s e s')
  show ?case
  proof (cases e)
    case MainGoes
    with step.hyps(2) obtain op rest s1 where "lc_main s = op # rest" "main_effect op s = Some s1" "s' = s1\<lparr>lc_main := rest\<rparr>"
      by (auto split: list.splits)
    then show ?thesis using lc_inv_main [OF step.IH assms(2)] by simp
  next
    case (ThreadGoes i ans)
    with step.hyps(2) obtain t s1 where "i < length (lc_threads s)" "thread_step ans s (lc_threads s ! i) = Some (Inr (t, s1))"
      "s' = s1\<lparr>lc_threads := (lc_threads s1)[i := t]\<rparr>"
      by (auto split: if_splits option.splits sum.splits)
    then show ?thesis using lc_inv_thread [OF step.IH] by simp
  next
    case (Arrives cs)
    with step show ?thesis by (auto simp: lc_inv_def enqueue_item_def split: if_splits)
  next
    case QKey
    with step show ?thesis by (auto simp: lc_inv_def ServerControll_Q_def split: if_splits)
  qed
qed

section \<open>The programs\<close>

lemma before_split: "xs @ x # ys = A @ B \<Longrightarrow> x \<notin> set B \<Longrightarrow> set xs \<subseteq> set A"
  by (auto simp: append_eq_append_conv2 append_eq_Cons_conv Cons_eq_append_conv)

lemma server_ctor_ops:
  "op \<in> set (server_ctor kind port r n) \<Longrightarrow>
   op \<in> {OpenPort, ListenSocketInit r, SetStage Raw, SetStage Alive} \<or> (\<exists>t. op = Spawn t \<and> thread_kind t = t)"
  by (cases kind) (auto simp: ChatServer_ctor_def GroupServer_ctor_def BaseServer_init_def group_base_init_def group_Start_def split: if_splits)

lemma server_dtor_ops: "op \<in> set (server_dtor n) \<Longrightarrow> op \<notin> {OpenPort, ListenSocketInit r, RunLoop, Spawn t}"
  by (auto simp: server_dtor_def BaseServer_dtor_def)

lemma server_main_ops_ok: "ops_ok (server_main kind port r n)"
proof -
  let ?A = "server_ctor kind port r n" and ?B = "RunLoop # server_dtor n"
  have main: "server_main kind port r n = ?A @ ?B" by (simp add: server_main_def)
  have "OpenPort \<notin> set (tl ?A)"
    by (cases kind) (auto simp: ChatServer_ctor_def GroupServer_ctor_def BaseServer_init_def group_base_init_def group_Start_def split: if_splits)
  moreover have "?A \<noteq> []" by (cases kind) (simp_all add: ChatServer_ctor_def GroupServer_ctor_def)
  ultimately have "OpenPort \<notin> set (tl (server_main kind port r n))"
    using server_dtor_ops unfolding main by (auto simp: tl_append split: list.splits)
  moreover have "CloseListen \<notin> set pre" if "server_main kind port r n = pre @ ListenSocketInit q # post" for pre q post
    using before_split [of pre "ListenSocketInit q" post ?A ?B] that server_dtor_ops server_ctor_ops unfolding main by fastforce
  moreover have "JoinAll \<notin> set pre \<and> t = thread_kind t" if "server_main kind port r n = pre @ Spawn t # post" for pre t post
  proof -
    have "set pre \<subseteq> set ?A" using before_split [of pre "Spawn t" post ?A ?B] that server_dtor_ops unfolding main by auto
    moreover have "Spawn t \<in> set (?A @ ?B)" using that unfolding main by simp
    then have "Spawn t \<in> set ?A" using server_dtor_ops by auto
    ultimately show ?thesis using server_ctor_ops by fastforce
  qed
  ultimately show ?thesis unfolding ops_ok_def by blast
qed

lemma thread_step_fault:
  assumes "thread_step ans s t = Some (Inl f)"
  shows "lc_stage s \<noteq> Alive \<or> (\<exists>p. t = AcceptThread p) \<and> \<not> lc_cs s"
proof (cases t)
  case (AcceptThread p)
  with assms show ?thesis by (cases p; cases ans) (auto simp: call_then_def call_fault_def split: option.splits if_splits)
next
  case (WorkerThread p)
  with assms show ?thesis
    by (cases "(s, p)" rule: worker_step.cases) (auto simp: call_then_def call_fault_def split: option.splits list.splits port_item.splits if_splits)
next
  case (TimeoutThread p)
  with assms show ?thesis by (cases p) (auto simp: call_then_def call_fault_def split: option.splits if_splits)
next
  case (ContentThread p)
  with assms show ?thesis by (cases p) (auto simp: call_then_def call_fault_def split: option.splits if_splits server_stage.splits)
qed

text \<open>Until \<open>main\<close> leaves its loop, what is behind it is a prefix of the constructor.\<close>

lemma before_loop:
  assumes "server_main kind port r n = pre @ rest" and "RunLoop \<in> set rest"
  obtains u where "server_ctor kind port r n = pre @ u"
proof -
  from assms(2) obtain u v where rest: "rest = u @ RunLoop # v" "RunLoop \<notin> set u" by (metis split_list_first)
  have "RunLoop \<notin> set (server_ctor kind port r n)" using server_ctor_ops by fastforce
  moreover have "RunLoop \<notin> set (server_dtor n)" using server_dtor_ops by blast
  moreover have "server_ctor kind port r n @ RunLoop # server_dtor n = (pre @ u) @ RunLoop # v"
    using assms(1) rest(1) by (simp add: server_main_def)
  ultimately show ?thesis
    using that by (metis append_Cons_eq_iff)
qed

lemma group_ready:
  assumes "GroupServer_ctor k port r n = pre @ u" and "spawned pre \<noteq> []"
  shows "stage_of pre = Alive" and "AcceptThread ATop \<in> set (spawned pre) \<Longrightarrow> OpenPort \<in> set pre"
proof -
  let ?A = "group_base_init port r @ [SetStage Raw, SetStage Alive]"
  let ?B = "replicate k (Spawn (ContentThread CStart)) @ [Spawn (TimeoutThread TTop)] @ group_Start port r n"
  have A: "spawned ?A = []" by (simp add: group_base_init_def)
  have split: "?A @ ?B = pre @ u" using assms(1) by (simp add: GroupServer_ctor_def)
  obtain B' where B': "pre = ?A @ B'" "?B = B' @ u"
  proof -
    from split obtain us where "?A = pre @ us \<and> us @ ?B = u \<or> ?A @ us = pre \<and> ?B = us @ u"
      unfolding append_eq_append_conv2 by blast
    moreover have False if "?A = pre @ us" using A assms(2) that by (metis append_is_Nil_conv spawned_append)
    ultimately show ?thesis using that by blast
  qed
  have "\<forall>op \<in> set ?B. \<exists>t. op = Spawn t" by (auto simp: group_Start_def split: if_splits)
  then have "\<forall>op \<in> set B'. \<exists>t. op = Spawn t" unfolding B'(2) by simp
  then have "fold (\<lambda>op st. case op of SetStage x \<Rightarrow> x | _ \<Rightarrow> st) B' st = st" for st
    by (induction B' arbitrary: st) auto
  then show "stage_of pre = Alive" unfolding B'(1) by (simp add: stage_of_def)
  assume "AcceptThread ATop \<in> set (spawned pre)"
  moreover have "AcceptThread ATop \<notin> set (spawned B')" if "\<not> port"
  proof -
    have "set (spawned ?B) \<subseteq> {ContentThread CStart, TimeoutThread TTop}" using that by (auto simp: group_Start_def)
    then show ?thesis unfolding B'(2) by auto
  qed
  ultimately have port using A unfolding B'(1) by auto
  then show "OpenPort \<in> set pre" unfolding B'(1) by (simp add: group_base_init_def)
qed

section \<open>Construction\<close>

text \<open>
  C0. Until \<open>main\<close> leaves its loop, no thread of the group server calls a callback of an object that is not
  complete, touches a member that is not constructed, or enters a critical section that is not initialised:
  whatever the number of its threads, whether or not the port opens and the socket listens, and in any
  interleaving with the constructor.
\<close>

theorem group_server_construction_safe:
  assumes "lc_reach (server_main (GroupKind k) port r n) s" and "RunLoop \<in> set (lc_main s)"
  shows "lc_step e s \<noteq> Some (Inl f)"
proof
  assume fault: "lc_step e s = Some (Inl f)"
  then obtain i ans where i: "i < length (lc_threads s)" "thread_step ans s (lc_threads s ! i) = Some (Inl f)"
    by (cases e) (auto split: if_splits option.splits sum.splits)
  from lc_inv_reach [OF assms(1) server_main_ops_ok] obtain pre where pre: "server_main (GroupKind k) port r n = pre @ lc_main s"
    "lc_stage s = stage_of pre" "OpenPort \<in> set pre \<and> DeleteCs \<notin> set pre \<longrightarrow> lc_cs s"
    "JoinAll \<notin> set pre \<longrightarrow> map thread_kind (lc_threads s) = spawned pre"
    unfolding lc_inv_def by blast
  from before_loop [OF pre(1) assms(2)] obtain u where u: "GroupServer_ctor k port r n = pre @ u" by auto
  then have ctor: "set pre \<subseteq> set (server_ctor (GroupKind k) port r n)" by simp
  have no: "JoinAll \<notin> set pre" "DeleteCs \<notin> set pre" using ctor server_ctor_ops by fastforce+
  then have kinds: "map thread_kind (lc_threads s) = spawned pre" using pre(4) by simp
  then have "spawned pre \<noteq> []" using i(1) by (metis length_0_conv length_map not_less_zero)
  note ready = group_ready [OF u this]
  from thread_step_fault [OF i(2)] ready(1) pre(2) obtain p where p: "lc_threads s ! i = AcceptThread p" "\<not> lc_cs s" by auto
  have "thread_kind (lc_threads s ! i) \<in> set (spawned pre)" unfolding kinds [symmetric] using i(1) by simp
  then have "OpenPort \<in> set pre" using ready(2) p(1) by simp
  with pre(3) no(2) p(2) show False by simp
qed

lemma lc_run_reach: "lc_reach ops s \<Longrightarrow> lc_run es s = Some (Inr s') \<Longrightarrow> lc_reach ops s'"
  by (induction es arbitrary: s) (auto split: option.splits sum.splits if_splits intro: lc_reach.step)

lemma replicate_numeral: "replicate (numeral n) x = x # replicate (pred_numeral n) x"
  by (simp add: numeral_eq_Suc)

lemma lc_simps:
  "server_main ChatKind True Listens n =
     [OpenPort, ListenSocketInit Listens, Spawn (AcceptThread ATop)] @ replicate n (Spawn (WorkerThread WWait)) @
     [SetStage Raw, SetStage Alive, Spawn (TimeoutThread TTop), RunLoop] @ server_dtor n"
  "server_main ChatKind False r n = [SetStage Raw, SetStage Alive, Spawn (TimeoutThread TTop), RunLoop] @ server_dtor n"
  by (simp_all add: server_main_def ChatServer_ctor_def BaseServer_init_def)

text \<open>The group server with one group and one worker: a client arrives while \<open>main\<close> is in its loop.\<close>

lemma group_server_construction_safe_witness:
  "\<exists>s. lc_reach (server_main (GroupKind 1) True Listens 1) s \<and> lc_threads s ! 3 = AcceptThread AJoin \<and>
     lc_step (ThreadGoes 3 AcceptClient) s \<noteq> None \<and> (\<forall>e f. lc_step e s \<noteq> Some (Inl f))"
proof -
  let ?main = "server_main (GroupKind 1) True Listens 1"
  let ?es = "[MainGoes, MainGoes, MainGoes, MainGoes, MainGoes, MainGoes, MainGoes, MainGoes,
    ThreadGoes 3 AcceptFails, ThreadGoes 3 AcceptClient, ThreadGoes 3 AcceptClient, ThreadGoes 3 AcceptClient]"
  let ?s = "\<lparr>lc_stage = Alive, lc_main = RunLoop # server_dtor 1,
    lc_threads = [ContentThread CStart, TimeoutThread TTop, WorkerThread WWait, AcceptThread AJoin],
    lc_port = Some [], lc_listening = True, lc_cs = True, lc_terminate = False\<rparr>"
  have "lc_run ?es (lc_start ?main) = Some (Inr ?s)"
    by (simp add: lc_start_def server_main_def GroupServer_ctor_def group_base_init_def group_Start_def handle_left_def
      call_then_def call_fault_def uses_members_def)
  then have reach: "lc_reach ?main ?s" using lc_run_reach [OF lc_reach.start] by blast
  moreover have "lc_step (ThreadGoes 3 AcceptClient) ?s \<noteq> None" by (simp add: call_then_def call_fault_def)
  moreover have "lc_step e ?s \<noteq> Some (Inl f)" for e f
    by (rule group_server_construction_safe [OF reach]) simp
  ultimately show ?thesis by (intro exI [of _ ?s]) auto
qed

text \<open>
  The chat server starts its accept thread inside the constructor of \<open>BaseServer\<close>: a client that connects at once
  is answered by a pure virtual call. And both servers destroy their members before the threads that use them
  were told to end.
\<close>

lemma chat_server_pure_call:
  "lc_run [MainGoes, MainGoes, MainGoes, ThreadGoes 0 AcceptFails, ThreadGoes 0 AcceptClient, ThreadGoes 0 AcceptClient]
     (lc_start (server_main ChatKind True Listens n)) = Some (Inl (PureVirtualCall OnConnectionRequest))"
  by (simp add: lc_start_def lc_simps call_then_def call_fault_def is_virtual_def)

lemma destructor_under_threads:
  "lc_run [MainGoes, MainGoes, MainGoes, ThreadGoes 0 AcceptFails, QKey, MainGoes, MainGoes, ThreadGoes 0 AcceptFails]
     (lc_start (server_main ChatKind False r n)) = Some (Inl (DeadMembers CheckTimeOut_v))"
  by (simp add: lc_start_def lc_simps server_dtor_def ServerControll_Q_def call_then_def call_fault_def is_virtual_def uses_members_def)

text \<open>
  When \<open>bind\<close> or \<open>listen\<close> fails, the handle of the closed socket stays in \<open>mListenSock\<close>, so that \<open>Start\<close> of the
  group server does not notice: its accept thread runs on a socket that does not listen.
\<close>

lemma group_server_starts_unbound:
  assumes "r \<in> {NotBound, NotListening}"
  shows "\<exists>s. lc_reach (server_main (GroupKind k) True r n) s \<and> lc_main s = RunLoop # server_dtor n \<and> \<not> lc_listening s \<and>
    AcceptThread ATop \<in> set (lc_threads s)"
proof -
  have spawn: "lc_reach ops s \<Longrightarrow> lc_main s = map Spawn ts @ rest \<Longrightarrow>
      lc_reach ops (s\<lparr>lc_main := rest, lc_threads := lc_threads s @ ts\<rparr>)" for ops s ts rest
  proof (induction ts arbitrary: s)
    case Nil
    then show ?case by (cases s) simp
  next
    case (Cons t ts)
    have "lc_step MainGoes s = Some (Inr (s\<lparr>lc_main := map Spawn ts @ rest, lc_threads := lc_threads s @ [t]\<rparr>))"
      using Cons.prems(2) by simp
    from lc_reach.step [OF Cons.prems(1) this] have "lc_reach ops (s\<lparr>lc_main := map Spawn ts @ rest, lc_threads := lc_threads s @ [t]\<rparr>)" .
    from Cons.IH [OF this] show ?case by (cases s) simp
  qed
  let ?ts = "replicate k (ContentThread CStart) @ [TimeoutThread TTop] @ replicate n (WorkerThread WWait) @ [AcceptThread ATop]"
  let ?s = "\<lparr>lc_stage = Alive, lc_main = map Spawn ?ts @ RunLoop # server_dtor n, lc_threads = [], lc_port = Some [],
    lc_listening = False, lc_cs = True, lc_terminate = False\<rparr>"
  have "lc_run [MainGoes, MainGoes, MainGoes, MainGoes] (lc_start (server_main (GroupKind k) True r n)) = Some (Inr ?s)"
    using assms by (auto simp: lc_start_def server_main_def GroupServer_ctor_def group_base_init_def group_Start_def handle_left_def map_replicate)
  then have "lc_reach (server_main (GroupKind k) True r n) ?s" using lc_run_reach [OF lc_reach.start] by blast
  then have "lc_reach (server_main (GroupKind k) True r n) (?s\<lparr>lc_main := RunLoop # server_dtor n, lc_threads := lc_threads ?s @ ?ts\<rparr>)"
    by (rule spawn) simp
  then show ?thesis by (intro exI conjI, assumption) simp_all
qed

section \<open>Destruction\<close>

text \<open>
  What is left to do for threads that were told to end: for each place of a thread a bound on the steps to its
  end, and for each completion before the last null completion the steps of its handling.
\<close>

fun accept_work :: "accept_pc \<Rightarrow> nat" where
  "accept_work AEnd = 0" | "accept_work ATop = 1" | "accept_work ABlocked = 2" | "accept_work AJoin = 2"
| "accept_work ASession = 3" | "accept_work AAsk = 4"

fun thread_work :: "server_thread \<Rightarrow> nat" where
  "thread_work (AcceptThread p) = accept_work p"
| "thread_work (WorkerThread p) = (case p of WRun cs \<Rightarrow> length cs + 1 | _ \<Rightarrow> 0)"
| "thread_work (TimeoutThread p) = (case p of TEnd \<Rightarrow> 0 | TTop \<Rightarrow> 1 | TScan \<Rightarrow> 2)"
| "thread_work (ContentThread p) = (case p of CEnd \<Rightarrow> 0 | CFinal \<Rightarrow> 1 | CTop \<Rightarrow> 2 | CRun \<Rightarrow> 3 | CStart \<Rightarrow> 3)"

fun item_work :: "port_item \<Rightarrow> nat" where
  "item_work ExitItem = 1"
| "item_work (IoItem cs) = length cs + 2"

fun port_work :: "port_item list \<Rightarrow> nat" where
  "port_work [] = 0"
| "port_work (i # q) = (if ExitItem \<in> set (i # q) then item_work i + port_work q else 0)"

definition shutdown_work :: "server_life \<Rightarrow> nat" where
  "shutdown_work s = sum_list (map thread_work (lc_threads s)) + (case lc_port s of None \<Rightarrow> 0 | Some q \<Rightarrow> port_work q)"

lemma port_work_none: "ExitItem \<notin> set q \<Longrightarrow> port_work q = 0"
  by (cases q) auto

lemma port_work_arrives: "port_work (q @ [IoItem cs]) = port_work q"
  by (induction q) simp_all

lemma sum_list_update_work:
  "i < length xs \<Longrightarrow> sum_list (map f (xs[i := y])) + f (xs ! i) = sum_list (map f xs) + (f y :: nat)"
  by (induction xs arbitrary: i) (auto split: nat.splits)

lemma count_list_replicate: "count_list (replicate n x) y = (if x = y then n else 0)"
  by (induction n) auto

lemma count_ended_workers: "count_list ts (WorkerThread WEnd) \<le> count_list (map thread_kind ts) (WorkerThread WWait)"
  by (induction ts) auto

lemma count_alive_worker:
  "WorkerThread p \<in> set ts \<Longrightarrow> p \<noteq> WEnd \<Longrightarrow> count_list ts (WorkerThread WEnd) < count_list (map thread_kind ts) (WorkerThread WWait)"
  by (induction ts) (auto simp: less_Suc_eq_le count_ended_workers)

text \<open>Where the destructor waits: the threads were told, the socket is closed, and there is a null completion for each worker.\<close>

lemma join_state:
  assumes "lc_reach (server_main kind port r n) s" and "lc_main s = JoinAll # rest"
  shows "lc_terminate s" and "\<not> lc_listening s"
    and "\<exists>p. WorkerThread p \<in> set (lc_threads s) \<and> p \<noteq> WEnd \<Longrightarrow> \<exists>q. lc_port s = Some q \<and> ExitItem \<in> set q"
proof -
  let ?pre = "server_ctor kind port r n @ [RunLoop, SetStage Raw, SetStage Bare, SetTerminate] @ replicate n PostExit @ [CloseListen]"
  from lc_inv_reach [OF assms(1) server_main_ops_ok] obtain pre where pre: "server_main kind port r n = pre @ JoinAll # rest"
    "SetTerminate \<in> set pre \<longrightarrow> lc_terminate s" "CloseListen \<in> set pre \<longrightarrow> \<not> lc_listening s"
    "JoinAll \<notin> set pre \<longrightarrow> map thread_kind (lc_threads s) = spawned pre"
    "OpenPort \<in> set pre \<and> ClosePort \<notin> set pre \<longrightarrow> lc_port s \<noteq> None"
    "\<And>q. lc_port s = Some q \<Longrightarrow> (JoinAll \<notin> set pre \<longrightarrow>
      count_list q ExitItem + count_list (lc_threads s) (WorkerThread WEnd) = count_list pre PostExit)"
    unfolding lc_inv_def assms(2) by blast
  have no: "op \<notin> set (server_ctor kind port r n)" if "op \<in> {JoinAll, PostExit, ClosePort}" for op
    using server_ctor_ops [of op kind port r n] that by auto
  have main: "server_main kind port r n = ?pre @ JoinAll # [DeleteCs, ClosePort]"
    by (simp add: server_main_def server_dtor_def BaseServer_dtor_def)
  have once: "JoinAll \<notin> set ?pre" using no by auto
  have "?pre @ JoinAll # [DeleteCs, ClosePort] = pre @ JoinAll # rest" using pre(1) unfolding main .
  with append_Cons_eq_iff [OF once, of "[DeleteCs, ClosePort]" pre rest] have behind: "pre = ?pre" by force
  have posts: "count_list pre PostExit = n" and closed: "ClosePort \<notin> set pre" and told: "SetTerminate \<in> set pre" "CloseListen \<in> set pre"
    and waiting: "JoinAll \<notin> set pre"
    using no once unfolding behind by (auto simp: count_list_replicate)
  show "lc_terminate s" "\<not> lc_listening s" using pre(2,3) told by auto
  let ?w = "WorkerThread WWait"
  have kinds: "map thread_kind (lc_threads s) = spawned pre" using pre(4) waiting by simp
  have workers: "count_list (spawned pre) ?w \<le> n" "?w \<in> set (spawned pre) \<Longrightarrow> OpenPort \<in> set pre"
    unfolding behind by (cases kind; auto simp: ChatServer_ctor_def GroupServer_ctor_def BaseServer_init_def group_base_init_def
      group_Start_def count_list_replicate split: if_splits)+
  assume "\<exists>p. WorkerThread p \<in> set (lc_threads s) \<and> p \<noteq> WEnd"
  then obtain p where p: "WorkerThread p \<in> set (lc_threads s)" "p \<noteq> WEnd" by blast
  then have "?w \<in> set (spawned pre)" unfolding kinds [symmetric] by force
  then obtain q where q: "lc_port s = Some q" using workers(2) closed pre(5) by auto
  have "count_list (lc_threads s) (WorkerThread WEnd) < n"
    using count_alive_worker [OF p] workers(1) unfolding kinds by simp
  then have "count_list q ExitItem \<noteq> 0" using pre(6) [OF q] waiting posts by simp
  then show "\<exists>q. lc_port s = Some q \<and> ExitItem \<in> set q" using q count_list_0_iff by metis
qed

lemma port_unchanged: "s\<lparr>lc_port := x\<rparr> = s \<Longrightarrow> lc_port s = x"
  by (drule arg_cong [of _ _ lc_port]) simp

lemma shutdown_step:
  assumes "lc_reach (server_main kind port r n) s" and "lc_main s = JoinAll # rest"
    and "lc_step (ThreadGoes i ans) s = Some (Inr s')"
  shows "shutdown_work s' < shutdown_work s" and "lc_main s' = lc_main s"
proof -
  note told = join_state [OF assms(1,2)]
  let ?t = "lc_threads s ! i"
  from assms(3) obtain t s1 where i: "i < length (lc_threads s)" and go: "thread_step ans s ?t = Some (Inr (t, s1))"
    and s': "s' = s1\<lparr>lc_threads := (lc_threads s1)[i := t]\<rparr>"
    by (auto split: if_splits option.splits sum.splits)
  note frame = thread_step_frame [OF go]
  have same: "lc_main s1 = lc_main s" "lc_threads s1 = lc_threads s" using frame(3) by auto
  then show "lc_main s' = lc_main s" using s' by simp
  let ?pw = "\<lambda>s. case lc_port s of None \<Rightarrow> 0 | Some q \<Rightarrow> port_work q"
  have member: "?t \<in> set (lc_threads s)" using i by simp
  have decrease: "thread_work t + ?pw s1 < thread_work ?t + ?pw s"
    using frame(3)
  proof (elim disjE exE conjE)
    assume s1: "s1 = s" and "t \<noteq> WorkerThread WEnd"
    have "thread_work t < thread_work ?t"
    proof (cases ?t)
      case (AcceptThread p)
      with go told show ?thesis by (cases p; cases ans) (auto simp: call_then_def split: option.splits if_splits)
    next
      case (WorkerThread p)
      with go s1 \<open>t \<noteq> WorkerThread WEnd\<close> show ?thesis
        by (cases "(s, p)" rule: worker_step.cases) (auto simp: call_then_def dest!: port_unchanged split: option.splits list.splits port_item.splits)
    next
      case (TimeoutThread p)
      with go told show ?thesis by (cases p) (auto simp: call_then_def split: option.splits if_splits)
    next
      case (ContentThread p)
      with go told show ?thesis by (cases p) (auto simp: call_then_def split: option.splits if_splits server_stage.splits)
    qed
    with s1 show ?thesis by simp
  next
    fix cs q
    assume w: "?t = WorkerThread WWait" "t = WorkerThread (WRun cs)" "lc_port s = Some (IoItem cs # q)" "s1 = s\<lparr>lc_port := Some q\<rparr>"
    have "ExitItem \<in> set q" using told(3) member w(1,3) by force
    with w show ?thesis by simp
  next
    fix q
    assume "?t = WorkerThread WWait" "t = WorkerThread WEnd" "lc_port s = Some (ExitItem # q)" "s1 = s\<lparr>lc_port := Some q\<rparr>"
    then show ?thesis by (simp add: port_work_none)
  qed
  have "shutdown_work s' + thread_work ?t = sum_list (map thread_work (lc_threads s)) + thread_work t + ?pw s1"
    using sum_list_update_work [OF i, of thread_work t] s' same(2) by (simp add: shutdown_work_def)
  with decrease show "shutdown_work s' < shutdown_work s" by (simp add: shutdown_work_def)
qed

fun is_thread_event :: "lifecycle_event \<Rightarrow> bool" where
  "is_thread_event (ThreadGoes i ans) = True"
| "is_thread_event e = False"

text \<open>After \<open>join\<close> there are no threads.\<close>

lemma no_threads_no_steps:
  assumes "lc_threads s = []" and "\<forall>t. Spawn t \<notin> set (lc_main s)" and "lc_run es s = Some (Inr s')"
  shows "filter is_thread_event es = []"
  using assms
proof (induction es arbitrary: s)
  case (Cons e es)
  from Cons.prems(3) obtain s1 where e: "lc_step e s = Some (Inr s1)" "lc_run es s1 = Some (Inr s')"
    by (auto split: option.splits sum.splits if_splits)
  have "lc_threads s1 = [] \<and> (\<forall>t. Spawn t \<notin> set (lc_main s1)) \<and> \<not> is_thread_event e"
  proof (cases e)
    case MainGoes
    with e(1) obtain op rest s2 where m: "lc_main s = op # rest" "main_effect op s = Some s2" "s1 = s2\<lparr>lc_main := rest\<rparr>"
      by (auto split: list.splits)
    moreover have "\<forall>t. op \<noteq> Spawn t" using Cons.prems(2) m(1) by auto
    ultimately show ?thesis using Cons.prems(1,2) MainGoes by (cases op) (auto simp: enqueue_item_def split: if_splits)
  qed (use e(1) Cons.prems in \<open>auto simp: enqueue_item_def ServerControll_Q_def split: if_splits\<close>)
  with Cons.IH [OF _ _ e(2)] show ?case by simp
qed simp

lemma shutdown_bound:
  assumes "lc_reach (server_main kind port r n) s" and "lc_main s = JoinAll # rest" and "lc_run es s = Some (Inr s')"
  shows "length (filter is_thread_event es) \<le> shutdown_work s"
  using assms
proof (induction es arbitrary: s)
  case (Cons e es)
  from Cons.prems(3) obtain s1 where e: "lc_step e s = Some (Inr s1)" "lc_run es s1 = Some (Inr s')"
    by (auto split: option.splits sum.splits if_splits)
  note reach = lc_reach.step [OF Cons.prems(1) e(1)]
  show ?case
  proof (cases e)
    case MainGoes
    with e(1) Cons.prems(2) have s1: "lc_threads s1 = []" "lc_main s1 = rest" by (auto split: if_splits)
    have "Spawn t \<notin> set rest" for t
    proof
      assume "Spawn t \<in> set rest"
      then obtain a b where "rest = a @ Spawn t # b" by (blast dest: split_list)
      moreover from lc_inv_reach [OF Cons.prems(1) server_main_ops_ok]
      obtain pre where "server_main kind port r n = pre @ JoinAll # rest" unfolding lc_inv_def Cons.prems(2) by blast
      ultimately have "server_main kind port r n = (pre @ JoinAll # a) @ Spawn t # b" by simp
      then have "JoinAll \<notin> set (pre @ JoinAll # a)" using server_main_ops_ok [of kind port r n] unfolding ops_ok_def by blast
      then show False by simp
    qed
    with no_threads_no_steps [OF s1(1) _ e(2)] s1(2) MainGoes show ?thesis by simp
  next
    case (ThreadGoes i ans)
    note step = shutdown_step [OF Cons.prems(1,2) e(1) [unfolded ThreadGoes]]
    have "length (filter is_thread_event es) \<le> shutdown_work s1"
      using Cons.IH [OF reach _ e(2)] step(2) Cons.prems(2) by simp
    with step(1) ThreadGoes show ?thesis by simp
  next
    case (Arrives cs)
    with e(1) have s1: "s1 = enqueue_item (IoItem cs) s" by (auto split: if_splits)
    then have "shutdown_work s1 = shutdown_work s" "lc_main s1 = JoinAll # rest"
      using Cons.prems(2) by (auto simp: shutdown_work_def enqueue_item_def port_work_arrives split: option.splits)
    then show ?thesis using Cons.IH [OF reach _ e(2)] Arrives by simp
  next
    case QKey
    with e(1) Cons.prems(2) show ?thesis by (simp split: if_splits)
  qed
qed simp

lemma thread_can_go:
  assumes "\<not> has_ended t" and "t = WorkerThread WWait \<Longrightarrow> \<exists>i q. lc_port s = Some (i # q)"
  shows "thread_step AcceptFails s t \<noteq> None"
proof (cases t)
  case (AcceptThread p)
  with assms(1) show ?thesis by (cases p) auto
next
  case (WorkerThread p)
  with assms show ?thesis
    by (cases "(s, p)" rule: worker_step.cases) (auto split: option.splits list.splits port_item.splits)
next
  case (TimeoutThread p)
  with assms(1) show ?thesis by (cases p) auto
next
  case (ContentThread p)
  with assms(1) show ?thesis by (cases p) (auto split: server_stage.splits)
qed




end
