(* ===== verification/Send_Protocol.thy ===== *)
theory Send_Protocol
  imports Base_Server
begin

text \<open>
  The send side of one session under interleaving (\<open>SendPacket\<close>, \<open>postSend\<close> and the SEND branch of
  \<open>workerThread\<close> in NetLib/BaseServer.cpp). Any number of threads enqueue packets; \<open>sendFlag\<close>
  elects one of them to drain the ring and to hand the packets to \<open>WSASend\<close>; the completion
  resets the flag and drains again. Each atomic access and each critical section is one step.
  The reference counts are the subject of \<open>Session_Control\<close> and \<open>Base_Server\<close> and left out.
\<close>

section \<open>Steps\<close>

text \<open>
  Where a thread is: outside; before \<open>sendFlag.exchange(1)\<close>; elected and before the critical
  section; past it with the packets it took out.
\<close>

datatype send_pc = Outside_Send | Before_Flag | Elected | Drained "nat list"

record send_state =
  flag :: bool
  ring :: "nat list"
  in_flight :: "nat list option"    \<comment> \<open>the send the kernel holds\<close>
  at :: "nat \<Rightarrow> send_pc"
  accepted :: "nat list"            \<comment> \<open>all packets enqueued, in order\<close>
  handed :: "nat list"              \<comment> \<open>all packets given to the kernel, in order\<close>

definition send_start :: send_state where
  "send_start = \<lparr>flag = False, ring = [], in_flight = None, at = (\<lambda>_. Outside_Send), accepted = [], handed = []\<rparr>"

definition go :: "nat \<Rightarrow> send_pc \<Rightarrow> send_state \<Rightarrow> send_state" where
  "go t pc s = s\<lparr>at := (at s)(t := pc)\<rparr>"

inductive send_step :: "send_state \<Rightarrow> send_state \<Rightarrow> bool" where
  enqueue: "at s t = Outside_Send \<Longrightarrow>
     send_step s (go t Before_Flag (s\<lparr>ring := ring s @ [p], accepted := accepted s @ [p]\<rparr>))"
| flag_busy: "at s t = Before_Flag \<Longrightarrow> flag s \<Longrightarrow> send_step s (go t Outside_Send s)"
| flag_won: "at s t = Before_Flag \<Longrightarrow> \<not> flag s \<Longrightarrow> send_step s (go t Elected (s\<lparr>flag := True\<rparr>))"
| drain: "at s t = Elected \<Longrightarrow>
     send_step s (go t (Drained (take MAX_SEND_PACKET (ring s))) (s\<lparr>ring := drop MAX_SEND_PACKET (ring s)\<rparr>))"
| give_up: "at s t = Drained [] \<Longrightarrow> send_step s (go t Outside_Send (s\<lparr>flag := False\<rparr>))"
| send: "at s t = Drained ps \<Longrightarrow> ps \<noteq> [] \<Longrightarrow>
     send_step s (go t Outside_Send (s\<lparr>in_flight := Some ps, handed := handed s @ ps\<rparr>))"
| complete: "at s t = Outside_Send \<Longrightarrow> in_flight s = Some ps \<Longrightarrow>
     send_step s (go t Before_Flag (s\<lparr>in_flight := None, flag := False\<rparr>))"

inductive send_reachable :: "send_state \<Rightarrow> bool" where
  send_begin: "send_reachable send_start"
| send_next: "send_reachable s \<Longrightarrow> send_step s s' \<Longrightarrow> send_reachable s'"

section \<open>Exclusion and order\<close>

text \<open>\<open>holds pc\<close>: the thread is elected.\<close>

definition holds :: "send_pc \<Rightarrow> bool" where
  "holds pc \<longleftrightarrow> (pc = Elected \<or> (\<exists>ps. pc = Drained ps))"

definition taken :: "send_pc \<Rightarrow> nat list" where
  "taken pc = (case pc of Drained ps \<Rightarrow> ps | _ \<Rightarrow> [])"

text \<open>The flag is set by exactly one owner: an elected thread or the kernel's send.\<close>

definition send_inv :: "send_state \<Rightarrow> bool" where
  "send_inv s \<longleftrightarrow>
     (\<forall>t u. holds (at s t) \<longrightarrow> holds (at s u) \<longrightarrow> t = u) \<and>
     (\<forall>t. holds (at s t) \<longrightarrow> flag s \<and> in_flight s = None \<and> handed s @ taken (at s t) @ ring s = accepted s) \<and>
     ((\<forall>t. \<not> holds (at s t)) \<longrightarrow> (flag s \<longleftrightarrow> in_flight s \<noteq> None) \<and> handed s @ ring s = accepted s)"

lemma holds_simps [simp]:
  "\<not> holds Outside_Send" "\<not> holds Before_Flag" "holds Elected" "holds (Drained ps)"
  by (simp_all add: holds_def)

lemma taken_simps [simp]:
  "taken Outside_Send = []" "taken Before_Flag = []" "taken Elected = []" "taken (Drained ps) = ps"
  by (simp_all add: taken_def)

lemma go_simps [simp]:
  "flag (go t pc s) = flag s" "ring (go t pc s) = ring s" "in_flight (go t pc s) = in_flight s"
  "at (go t pc s) = (at s)(t := pc)" "accepted (go t pc s) = accepted s" "handed (go t pc s) = handed s"
  by (simp_all add: go_def)

lemma send_inv_owner:
  assumes "send_inv s" and "holds (at s t)"
  shows "flag s" "in_flight s = None" "handed s @ taken (at s t) @ ring s = accepted s"
    "u \<noteq> t \<Longrightarrow> \<not> holds (at s u)"
  using assms unfolding send_inv_def by blast+

lemma send_inv_free:
  assumes "send_inv s" and "\<And>t. \<not> holds (at s t)"
  shows "flag s \<longleftrightarrow> in_flight s \<noteq> None" "handed s @ ring s = accepted s"
  using assms unfolding send_inv_def by blast+

lemma send_invI_owner:
  assumes "flag s" and "holds (at s t)" and "\<And>u. u \<noteq> t \<Longrightarrow> \<not> holds (at s u)" and "in_flight s = None"
    and "handed s @ taken (at s t) @ ring s = accepted s"
  shows "send_inv s"
proof -
  have "u = t" if "holds (at s u)" for u using assms(3) that by blast
  then show ?thesis using assms unfolding send_inv_def by blast
qed

lemma send_invI_free:
  assumes "\<And>t. \<not> holds (at s t)" and "flag s \<longleftrightarrow> in_flight s \<noteq> None" and "handed s @ ring s = accepted s"
  shows "send_inv s"
  using assms unfolding send_inv_def by blast

text \<open>A thread that is not elected moves without an effect on the owner.\<close>

lemma send_inv_other:
  assumes "send_inv s" and "\<not> holds (at s t)" and "\<not> holds pc" and "flag s' = flag s" and "in_flight s' = in_flight s"
    and "at s' = (at s)(t := pc)" and "handed s' = handed s" and "ring s' = ring s @ ps" and "accepted s' = accepted s @ ps"
  shows "send_inv s'"
proof (cases "\<exists>v. holds (at s v)")
  case True
  then obtain v where v: "holds (at s v)" by blast
  note o = send_inv_owner [OF assms(1) v]
  have "v \<noteq> t" using v assms(2) by blast
  show ?thesis
  proof (rule send_invI_owner [where t = v])
    show "\<not> holds (at s' u)" if "u \<noteq> v" for u using o(4) [OF that] assms(3,6) by simp
    show "handed s' @ taken (at s' v) @ ring s' = accepted s'"
      using o(3) \<open>v \<noteq> t\<close> assms(6-9) by (metis append_assoc fun_upd_other)
  qed (use o v \<open>v \<noteq> t\<close> assms in simp_all)
next
  case False
  then have n: "\<And>v. \<not> holds (at s v)" by blast
  note f = send_inv_free [OF assms(1) n]
  show ?thesis
    by (rule send_invI_free) (use n f assms in \<open>simp_all flip: append_assoc\<close>)
qed

lemma send_step_inv:
  assumes "send_step s s'" and "send_inv s"
  shows "send_inv s'"
  using assms
proof (induction rule: send_step.induct)
  case (enqueue s t p)
  show ?case by (rule send_inv_other [OF enqueue.prems, of t Before_Flag _ "[p]"]) (simp_all add: enqueue.hyps)
next
  case (flag_busy s t)
  show ?case by (rule send_inv_other [OF flag_busy.prems, of t Outside_Send _ "[]"]) (simp_all add: flag_busy.hyps)
next
  case (flag_won s t)
  have n: "\<not> holds (at s v)" for v using send_inv_owner(1) [OF flag_won.prems] flag_won.hyps(2) by blast
  note f = send_inv_free [OF flag_won.prems n]
  show ?case by (rule send_invI_owner [where t = t]) (use n f flag_won.hyps in simp_all)
next
  case (drain s t)
  have h: "holds (at s t)" using drain.hyps by simp
  note o = send_inv_owner [OF drain.prems h]
  show ?case by (rule send_invI_owner [where t = t]) (use o drain.hyps in simp_all)
next
  case (give_up s t)
  have h: "holds (at s t)" using give_up.hyps by simp
  note o = send_inv_owner [OF give_up.prems h]
  show ?case by (rule send_invI_free) (use o give_up.hyps in simp_all)
next
  case (send s t ps)
  have h: "holds (at s t)" using send.hyps by simp
  note o = send_inv_owner [OF send.prems h]
  show ?case by (rule send_invI_free) (use o send.hyps in simp_all)
next
  case (complete s t ps)
  have n: "\<not> holds (at s v)" for v using send_inv_owner(2) [OF complete.prems] complete.hyps(2) by force
  note f = send_inv_free [OF complete.prems n]
  show ?case by (rule send_invI_free) (use n f complete.hyps in simp_all)
qed

lemma send_start_inv: "send_inv send_start"
  by (simp add: send_inv_def send_start_def)

lemma send_reachable_inv: "send_reachable s \<Longrightarrow> send_inv s"
  by (induction rule: send_reachable.induct) (use send_start_inv send_step_inv in blast)+

section \<open>Properties\<close>


lemma send_path:
  "send_reachable s \<Longrightarrow> send_step s s1 \<Longrightarrow> send_step s1 s2 \<Longrightarrow> send_step s2 s3 \<Longrightarrow> send_step s3 s4 \<Longrightarrow> send_reachable s4"
  by (blast intro: send_next)

text \<open>Thread 0 sends packet 7; the completion, run by thread 0, finds the ring empty.\<close>

definition completing :: send_state where
  "completing = send_start\<lparr>flag := True, accepted := [7], handed := [7], at := (\<lambda>_. Outside_Send)(0 := Drained [])\<rparr>"

lemma completing_reachable: "send_reachable completing"
proof -
  let ?s0 = send_start
  let ?s1 = "go 0 Before_Flag (?s0\<lparr>ring := ring ?s0 @ [7], accepted := accepted ?s0 @ [7]\<rparr>)"
  let ?s2 = "go 0 Elected (?s1\<lparr>flag := True\<rparr>)"
  let ?s3 = "go 0 (Drained (take MAX_SEND_PACKET (ring ?s2))) (?s2\<lparr>ring := drop MAX_SEND_PACKET (ring ?s2)\<rparr>)"
  let ?s4 = "go 0 Outside_Send (?s3\<lparr>in_flight := Some [7], handed := handed ?s3 @ [7]\<rparr>)"
  let ?s5 = "go 0 Before_Flag (?s4\<lparr>in_flight := None, flag := False\<rparr>)"
  let ?s6 = "go 0 Elected (?s5\<lparr>flag := True\<rparr>)"
  let ?s7 = "go 0 (Drained (take MAX_SEND_PACKET (ring ?s6))) (?s6\<lparr>ring := drop MAX_SEND_PACKET (ring ?s6)\<rparr>)"
  have a: "send_step ?s0 ?s1" by (rule send_step.enqueue) (simp add: send_start_def)
  have b: "send_step ?s1 ?s2" by (rule send_step.flag_won) (simp_all add: send_start_def)
  have c: "send_step ?s2 ?s3" by (rule send_step.drain) simp
  have d: "send_step ?s3 ?s4" by (rule send_step.send) (simp_all add: send_start_def MAX_SEND_PACKET_def)
  have e: "send_step ?s4 ?s5" by (rule send_step.complete) simp_all
  have f: "send_step ?s5 ?s6" by (rule send_step.flag_won) simp_all
  have g: "send_step ?s6 ?s7" by (rule send_step.drain) simp
  have "send_reachable ?s4" by (rule send_path [OF send_begin a b c d])
  then have "send_reachable ?s7" using e f g by (blast intro: send_next)
  moreover have "?s7 = completing"
    by (simp add: completing_def send_start_def go_def MAX_SEND_PACKET_def fun_eq_iff)
  ultimately show ?thesis by simp
qed


text \<open>
  A wake-up can be lost: the sender that found the ring empty resets sendFlag only after it
  left the critical section, so a packet enqueued in between, whose thread saw the flag set, stays
  in the ring of a connected session with no send under way and no thread that will start one.
\<close>
lemma send_wakeup_lost:
  "\<exists>s. send_reachable s \<and> ring s \<noteq> [] \<and> \<not> flag s \<and> in_flight s = None \<and> (\<forall>t. at s t = Outside_Send)"
proof -
  let ?s0 = completing
  let ?s1 = "go 1 Before_Flag (?s0\<lparr>ring := ring ?s0 @ [8], accepted := accepted ?s0 @ [8]\<rparr>)"
  let ?s2 = "go 1 Outside_Send ?s1"
  let ?s3 = "go 0 Outside_Send (?s2\<lparr>flag := False\<rparr>)"
  have "send_step ?s0 ?s1" by (rule send_step.enqueue) (simp add: completing_def)
  moreover have "send_step ?s1 ?s2" by (rule send_step.flag_busy) (simp_all add: completing_def)
  moreover have "send_step ?s2 ?s3" by (rule send_step.give_up) (simp add: completing_def)
  ultimately have "send_reachable ?s3" using completing_reachable by (blast intro: send_next)
  then show ?thesis by (intro exI [of _ ?s3]) (simp add: completing_def send_start_def)
qed

end
