(* ===== verification/Accept_Threads.thy ===== *)
theory Accept_Threads
  imports Server_Safety
begin

text \<open>
  The accept threads of the chat server's and of the login server's copy of NetLib/BaseServer.cpp,
  over the list of results of \<open>accept\<close>. The login server posts the first receive before it calls
  \<open>OnClientJoin\<close> and reads the session id for the call afterwards; the two halves of its loop body are
  separate definitions, since the worker threads run between them.
\<close>

record connection =
  c_socket :: nat
  c_request :: bool          \<comment> \<open>\<open>OnConnectionRequest\<close>\<close>
  c_linger :: bool           \<comment> \<open>\<open>setsockopt\<close> of \<open>SO_LINGER\<close> succeeds\<close>
  c_registered :: bool       \<comment> \<open>\<open>CreateIoCompletionPort\<close> succeeds\<close>
  c_recv :: io_result        \<comment> \<open>the first \<open>WSARecv\<close>\<close>

fun acceptThread :: "connection option list \<Rightarrow> server \<Rightarrow> server \<times> callback list" where
  "acceptThread [] srv = (srv, [])"
| "acceptThread (None # cs) srv = acceptThread cs srv"
| "acceptThread (Some c # cs) srv =
     (if \<not> c_request c then acceptThread cs srv
      else if \<not> c_linger c then acceptThread cs srv
      else
        (case accept_connection (c_socket c) (c_registered c) srv of
           (srv1, None, cbs) \<Rightarrow> (case acceptThread cs srv1 of (srv2, cbs2) \<Rightarrow> (srv2, cbs @ cbs2))
         | (srv1, Some i, cbs) \<Rightarrow> (case acceptThread cs (first_recv i (c_recv c) srv1) of (srv2, cbs2) \<Rightarrow> (srv2, cbs @ cbs2))))"

definition accept_login :: "connection \<Rightarrow> server \<Rightarrow> server \<times> nat option" where
  "accept_login c srv =
     (case createSession srv of
        (srv1, None) \<Rightarrow> (srv1, None)
      | (srv1, Some i) \<Rightarrow>
          (let s = (mSessionListHead srv1 ! i)\<lparr>s_socket := Some (c_socket c)\<rparr> in
           if \<not> c_registered c then (upd_session srv1 i (requestRelease GqcsFail (s, net srv1)), None)
           else (upd_session srv1 i (fst (postRecv (c_recv c) (s, net srv1))), Some i)))"

definition join_login :: "nat \<Rightarrow> server \<Rightarrow> callback list" where
  "join_login i srv = [OnClientJoin (s_id (mSessionListHead srv ! i))]"

fun acceptThread_login :: "connection option list \<Rightarrow> server \<Rightarrow> server \<times> callback list" where
  "acceptThread_login [] srv = (srv, [])"
| "acceptThread_login (None # cs) srv = acceptThread_login cs srv"
| "acceptThread_login (Some c # cs) srv =
     (if \<not> c_request c then acceptThread_login cs srv
      else if \<not> c_linger c then (srv, [])
      else
        (case accept_login c srv of
           (srv1, None) \<Rightarrow> acceptThread_login cs srv1
         | (srv1, Some i) \<Rightarrow> (case acceptThread_login cs srv1 of (srv2, cbs2) \<Rightarrow> (srv2, join_login i srv1 @ cbs2))))"

section \<open>Joins and leaves of a session\<close>

text \<open>The chat server goes on after a connection it could not set up; the login server stops accepting for good.\<close>

lemma accepted_first_recv:
  assumes "server_ok srv" and "accept_connection sock reg srv = (srv', Some i, cbs)"
  shows "step_ok srv' (first_recv i w srv')"
proof -
  have ok: "server_ok srv'" using accept_connection_step [OF assms] by simp
  obtain j rest where st: "mSessionEmptyIndexStack srv = j # rest"
    using assms(2) by (cases "mSessionEmptyIndexStack srv") (auto simp: accept_connection_def createSession_def)
  obtain srv0 where c: "createSession srv = (srv0, Some j)" "server_ok srv0" "j < DEFAULT_MAX_CONNECTION"
    "j \<notin> set (mSessionEmptyIndexStack srv0)" "\<not> k_recv (mSessionListHead srv0 ! j)"
    by (rule createSession_spec [OF assms(1) st]) auto
  have "length (mSessionListHead srv0) = DEFAULT_MAX_CONNECTION" using c(2) by (simp add: server_ok_def)
  then have "i = j" "i \<notin> set (mSessionEmptyIndexStack srv')" "\<not> k_recv (mSessionListHead srv' ! i)"
    using assms(2) c by (auto simp: accept_connection_def Let_def upd_session_def split: if_splits)
  then show ?thesis using first_recv_step [OF ok] c(3) by simp
qed

lemma acceptThread_ok:
  assumes "server_ok srv"
  shows "server_ok (fst (acceptThread cs srv))"
  using assms
proof (induction cs arbitrary: srv)
  case (Cons c cs)
  show ?case
  proof (cases "\<exists>c'. c = Some c' \<and> c_request c' \<and> c_linger c'")
    case False
    then show ?thesis using Cons by (cases c) auto
  next
    case True
    then obtain c' where c': "c = Some c'" "c_request c'" "c_linger c'" by auto
    obtain srv1 j cbs where a: "accept_connection (c_socket c') (c_registered c') srv = (srv1, j, cbs)" by (rule prod_cases3)
    have ok: "server_ok srv1" using accept_connection_step [OF Cons.prems a] by simp
    show ?thesis
    proof (cases j)
      case None
      then show ?thesis using c' a Cons.IH [OF ok] by (simp add: case_prod_unfold)
    next
      case (Some i)
      have "server_ok (first_recv i (c_recv c') srv1)"
        using accepted_first_recv [OF Cons.prems a [unfolded Some]] by (simp add: step_ok_def)
      then show ?thesis using c' a Some Cons.IH by (simp add: case_prod_unfold)
    qed
  qed
qed simp

lemma acceptThread_skips: "c_request c \<Longrightarrow> \<not> c_linger c \<Longrightarrow> acceptThread (Some c # cs) srv = acceptThread cs srv"
  by simp

lemma acceptThread_login_stops: "c_request c \<Longrightarrow> \<not> c_linger c \<Longrightarrow> acceptThread_login (Some c # cs) srv = (srv, [])"
  by simp

lemma released_k_release:
  assumes "counts 0 s" and "released s" and "\<not> k_recv s" and "\<not> k_send s"
  shows "k_release s = 1"
  using assms by (simp add: counts_def io_count_def)

lemma ids_nth:
  "length (mSessionListHead srv) = n \<Longrightarrow> i < n \<Longrightarrow> ids srv ! i = (s_id (mSessionListHead srv ! i), s_state (mSessionListHead srv ! i))"
  by (simp add: ids_def)

lemma postRecv_fresh:
  assumes "counts 0 s" and "\<not> released s" and "ring_ok (recvRing s)" and "contents (recvRing s) = []"
    and "GetBufferSize (recvRing s) = RECV_RINGBUFFER_SIZE" and "\<not> k_recv s" and "\<not> k_send s"
  obtains s' where "postRecv Started (s, g) = ((s', g), True)" "counts 0 s'" "ctl_upd s s'" "k_recv s'" "\<not> released s'"
proof -
  obtain s1 where s1: "IncreaseIoCount_s s = Some s1"
    using IncreaseIoCount_s_spec [OF assms(1)] assms(2) by simp
  have same: "recvRing s1 = recvRing s" using ctl_upd_keeps(4) [OF IncreaseIoCount_s_ctl [OF s1]] by simp
  have "GetFreeSize (recvRing s) > 0"
    using GetFreeSize_eq [OF assms(3)] assms(4,5) by (simp add: RECV_RINGBUFFER_SIZE_def)
  then have "fst (GetEnqueueSegments (recvRing s)) \<noteq> 0" by (simp add: GetEnqueueSegments_def Let_def)
  then have p: "postRecv Started (s, g) = ((s1\<lparr>k_recv := True\<rparr>, g), True)"
    using s1 same by (simp add: postRecv_def)
  have "\<not> released s1" using IncreaseIoCount_s_counts [OF assms(1) _ s1] by simp
  then have "\<not> released (s1\<lparr>k_recv := True\<rparr>)" by (simp add: released_def)
  then show ?thesis using postRecv_spec [OF assms(1) _ assms(6) p] by (intro that [OF p]) simp_all
qed

lemma createSession_fresh:
  assumes "server_ok srv" and "createSession srv = (srv1, Some i)" and "mSessionEmptyIndexStack srv = i # rest"
  shows "\<not> k_send (mSessionListHead srv1 ! i)" "contents (recvRing (mSessionListHead srv1 ! i)) = []"
    "s_id (mSessionListHead srv1 ! i) = session_id i (mSessionID srv)"
proof -
  have i: "i < length (mSessionListHead srv)" "idle (mSessionListHead srv ! i)" using assms(1,3) by (auto simp: server_ok_def)
  have "ring_ok (recvRing (mSessionListHead srv ! i))" using i(2) by (simp add: idle_def rings_ok_def)
  then show "\<not> k_send (mSessionListHead srv1 ! i)" "contents (recvRing (mSessionListHead srv1 ! i)) = []"
    "s_id (mSessionListHead srv1 ! i) = session_id i (mSessionID srv)"
    using assms(2,3) i ClearBuffer_ok(2) by (auto simp: createSession_def Let_def Session_Init_def idle_def)
qed

text \<open>The peer's close of an idle connection leads to the release of the session.\<close>

lemma worker_closed_release:
  assumes "server_ok srv" and "i < DEFAULT_MAX_CONNECTION" and "i \<notin> set (mSessionEmptyIndexStack srv)"
    and "k_recv (mSessionListHead srv ! i)" and "\<not> k_send (mSessionListHead srv ! i)"
  obtains srv' where "worker_release i (worker_closed i srv) = Some (srv', [OnClientLeave (s_id (mSessionListHead srv ! i))])"
    "server_ok srv'" "mSessionEmptyIndexStack srv' = i # mSessionEmptyIndexStack srv" "s_id (mSessionListHead srv' ! i) = 0"
proof -
  let ?s = "mSessionListHead srv ! i"
  obtain s1 g1 where rr: "requestRelease PeerClose (io_returned RECV ?s, net srv) = (s1, g1)" by (rule prod.exhaust)
  define s3 where "s3 = decreaseSessionIoCount_s s1"
  have wc: "worker_closed i srv = upd_session srv i (s3, g1)" by (simp add: worker_closed_def rr s3_def)
  have len: "length (mSessionListHead srv) = DEFAULT_MAX_CONNECTION" using assms(1) by (simp add: server_ok_def)
  have lv: "live i ?s" using assms(1-3) by (auto simp: server_ok_def)
  then have "counts 0 ?s" by (simp add: live_def)
  note io = io_returned_RECV [OF this assms(4)]
  note rd = release_and_decrease [OF io(1) rr, folded s3_def]
  have u: "ctl_upd ?s s3" by (rule ctl_upd_trans [OF io(3) rd(3)])
  have "step_ok srv (worker_closed i srv)"
    unfolding worker_closed_def rr prod.case Let_def using worker_closed_step [OF assms(1-4) _ rr] by simp
  then have ok: "server_ok (worker_closed i srv)" by (simp add: step_ok_def)
  have at: "mSessionListHead (worker_closed i srv) ! i = s3" using assms(2) len by (simp add: wc upd_session_def)
  have "\<not> k_recv s3" using release_and_decrease_recv [OF rr] io(4) by (simp add: s3_def)
  moreover have "\<not> k_send s3" "s_id s3 = s_id ?s" using ctl_upd_keeps(6,11) [OF u] assms(5) by simp_all
  ultimately have k: "0 < k_release (mSessionListHead (worker_closed i srv) ! i)"
    using released_k_release [OF rd(1,2)] at by simp
  obtain srv' where "worker_release i (worker_closed i srv) = Some (srv', [OnClientLeave (s_id (mSessionListHead (worker_closed i srv) ! i))])"
    "server_ok srv'" "mSessionEmptyIndexStack srv' = i # mSessionEmptyIndexStack (worker_closed i srv)"
    "ids srv' = (ids (worker_closed i srv))[i := (0, Free)]"
    by (rule worker_release_spec [OF ok assms(2) k]) auto
  moreover from this have "s_id (mSessionListHead srv' ! i) = 0"
    using ids_nth [of srv' DEFAULT_MAX_CONNECTION i] assms(2) ok by (simp add: server_ok_def ids_def)
  ultimately show ?thesis using that at \<open>s_id s3 = s_id ?s\<close> by (simp add: wc upd_session_def)
qed

text \<open>
  C20. In the login server a client can leave before it has joined. The accept thread has posted the first
  receive; the client closes the connection, a worker thread takes the completion and another releases the
  session, all before the accept thread reads the id for its call of OnClientJoin: the application sees
  OnClientLeave of the session first and then OnClientJoin of the session id zero, for which no leave follows.
\<close>
theorem login_join_after_leave:
  assumes "server_ok srv" and "mSessionEmptyIndexStack srv = i # rest" and "c_registered c" and "c_recv c = Started"
  shows "\<exists>srv1 srv3. accept_login c srv = (srv1, Some i) \<and>
     worker_release i (worker_closed i srv1) = Some (srv3, [OnClientLeave (session_id i (mSessionID srv))]) \<and>
     join_login i srv3 = [OnClientJoin 0] \<and> server_ok srv3 \<and> i \<in> set (mSessionEmptyIndexStack srv3)"
proof -
  obtain srv1 where c1: "createSession srv = (srv1, Some i)" "server_ok srv1" "i < DEFAULT_MAX_CONNECTION"
    "i \<notin> set (mSessionEmptyIndexStack srv1)"
    "\<not> k_recv (mSessionListHead srv1 ! i)" "\<not> released (mSessionListHead srv1 ! i)"
    by (rule createSession_spec [OF assms(1,2)]) auto
  note fr = createSession_fresh [OF assms(1) c1(1) assms(2)]
  let ?s = "(mSessionListHead srv1 ! i)\<lparr>s_socket := Some (c_socket c)\<rparr>"
  have lv: "live i (mSessionListHead srv1 ! i)" using c1(2-4) by (auto simp: server_ok_def)
  have ps: "counts 0 ?s" "\<not> released ?s" "ring_ok (recvRing ?s)" "contents (recvRing ?s) = []"
    "GetBufferSize (recvRing ?s) = RECV_RINGBUFFER_SIZE" "\<not> k_recv ?s" "\<not> k_send ?s"
    using lv fr c1(5,6) by (simp_all add: live_def counts_def rings_ok_def released_def io_count_def)
  obtain s2 where s2: "postRecv Started (?s, net srv1) = ((s2, net srv1), True)" "counts 0 s2" "ctl_upd ?s s2" "k_recv s2" "\<not> released s2"
    by (rule postRecv_fresh [OF ps])
  have "live i ?s" using lv by (simp add: live_def counts_def rings_ok_def released_def io_count_def send_ok_def send_pre_def)
  then have lv2: "live i s2" using live_ctl_upd [OF _ s2(3,2)] ps(2) by simp
  define srv2 where "srv2 = upd_session srv1 i (s2, net srv1)"
  have len: "length (mSessionListHead srv1) = DEFAULT_MAX_CONNECTION" using c1(2) by (simp add: server_ok_def)
  have a: "accept_login c srv = (srv2, Some i)"
    using c1(1) assms(3,4) s2(1) by (simp add: accept_login_def srv2_def Let_def)
  have h: "server_ok srv2" "i \<notin> set (mSessionEmptyIndexStack srv2)" "mSessionListHead srv2 ! i = s2"
    using server_ok_upd [OF c1(2-4) lv2, of "net srv1"] c1(3,4) len unfolding srv2_def by (simp_all add: upd_session_def)
  have kr: "k_recv (mSessionListHead srv2 ! i)" "\<not> k_send (mSessionListHead srv2 ! i)"
    using h(3) s2(4) ctl_upd_keeps(6) [OF s2(3)] ps(7) by simp_all
  have sid: "s_id (mSessionListHead srv2 ! i) = session_id i (mSessionID srv)"
    using h(3) ctl_upd_keeps(11) [OF s2(3)] fr(3) by simp
  obtain srv3 where "worker_release i (worker_closed i srv2) = Some (srv3, [OnClientLeave (s_id (mSessionListHead srv2 ! i))])"
    "server_ok srv3" "mSessionEmptyIndexStack srv3 = i # mSessionEmptyIndexStack srv2" "s_id (mSessionListHead srv3 ! i) = 0"
    by (rule worker_closed_release [OF h(1) c1(3) h(2) kr])
  then show ?thesis using a sid by (simp add: join_login_def)
qed

lemma login_join_after_leave_witness:
  "\<exists>srv1 srv3. accept_login \<lparr>c_socket = 5, c_request = True, c_linger = True, c_registered = True, c_recv = Started\<rparr> (server_init sample_net) = (srv1, Some 127) \<and>
     worker_release 127 (worker_closed 127 srv1) = Some (srv3, [OnClientLeave (session_id 127 0)]) \<and> join_login 127 srv3 = [OnClientJoin 0]"
proof -
  have ok: "server_ok (server_init sample_net)" by (rule server_init_ok)
  have st: "mSessionEmptyIndexStack (server_init sample_net) = 127 # rev [0..<127]"
  proof -
    have "[0..<Suc 127] = [0..<127] @ [127]" by (rule upt_Suc_append) simp
    then show ?thesis by (simp add: server_init_def DEFAULT_MAX_CONNECTION_def del: upt_Suc)
  qed
  have id: "mSessionID (server_init sample_net) = 0" by (simp add: server_init_def)
  show ?thesis
    using login_join_after_leave [OF ok st, where c = "\<lparr>c_socket = 5, c_request = True, c_linger = True, c_registered = True, c_recv = Started\<rparr>"] id
    by auto
qed

end
