(* ===== verification/Login_Net.thy ===== *)
theory Login_Net
  imports Server_Safety
begin

text \<open>
  Where the login server's copy Netlib/BaseServer.cpp differs from the chat server's: the parse loop has
  no checks of the length field, and a failed \<open>WSASend\<close> gives up the packets but not the session. The
  theorems compare the two copies.
\<close>

section \<open>The parse loop\<close>

definition parse_frame_login :: "u64 \<Rightarrow> packet option \<Rightarrow> u8 ring \<Rightarrow> (u8 ring \<times> frame_result) option" where
  "parse_frame_login sid alloc r =
     (if GetUseSize r < 3 then Some (r, Incomplete)
      else do {
        header \<leftarrow> Peek r 3;
        let dataCode = header ! 0;
        let dataLen = uint (le_word (take 2 (drop 1 header)) :: u16);
        let totalPacketSize = 3 + 1 + 1 + dataLen;
        if dataCode \<noteq> PACKET_CODE then Some (r, Rejected InvalidPacketCode)
        else if GetUseSize r < totalPacketSize then Some (r, Incomplete)
        else parse_body sid alloc r dataLen
      })"

fun parse_loop_login :: "nat \<Rightarrow> u64 \<Rightarrow> (nat \<Rightarrow> packet option) \<Rightarrow> nat \<Rightarrow> u8 ring
    \<Rightarrow> (u8 ring \<times> packet list \<times> parse_error option) outcome" where
  "parse_loop_login 0 sid alloc k r = OutOfFuel"
| "parse_loop_login (Suc fuel) sid alloc k r =
     (case parse_frame_login sid (alloc k) r of
        None \<Rightarrow> Fault
      | Some (r', Incomplete) \<Rightarrow> Done (r', [], None)
      | Some (r', Rejected e) \<Rightarrow> Done (r', [], Some e)
      | Some (r', Frame p) \<Rightarrow>
          (case parse_loop_login fuel sid alloc (Suc k) r' of
             Done (r'', ps, e) \<Rightarrow> Done (r'', p # ps, e)
           | other \<Rightarrow> other))"

text \<open>The rejections only the chat server's copy knows.\<close>

definition length_errors :: "parse_error set" where
  "length_errors = {ZeroLength, ExceedsPacket, Oversize}"

lemma parse_frame_login_same:
  assumes "parse_frame sid a r = Some (r', res)" and "\<forall>e \<in> length_errors. res \<noteq> Rejected e"
  shows "parse_frame_login sid a r = Some (r', res)"
  using assms
  by (auto simp: parse_frame_def parse_frame_login_def Let_def length_errors_def split: if_splits bind_splits)

lemma parse_loop_login_same:
  assumes "parse_loop fuel sid alloc k r = Done (r', ps, e)" and "\<forall>x \<in> length_errors. e \<noteq> Some x"
  shows "parse_loop_login fuel sid alloc k r = Done (r', ps, e)"
  using assms
proof (induction fuel arbitrary: k r r' ps)
  case (Suc fuel)
  obtain r1 res where f: "parse_frame sid (alloc k) r = Some (r1, res)"
    using Suc.prems(1) by (auto split: option.splits)
  have "\<forall>x \<in> length_errors. res \<noteq> Rejected x" using Suc.prems f by auto
  note same = parse_frame_login_same [OF f this]
  show ?case
  proof (cases res)
    case (Frame p)
    then obtain ps' where "parse_loop fuel sid alloc (Suc k) r1 = Done (r', ps', e)" "ps = p # ps'"
      using Suc.prems(1) f by (auto split: outcome.splits)
    then show ?thesis using Suc.IH [of "Suc k" r1 r' ps'] Suc.prems(2) same Frame by simp
  qed (use Suc.prems(1) f same in auto)
qed simp

lemma parse_frame_login_eq:
  assumes "ring_ok r" and "3 \<le> length (contents r)"
  shows "parse_frame_login sid a r =
    (if hd (contents r) \<noteq> PACKET_CODE then Some (r, Rejected InvalidPacketCode)
     else if length (contents r) < 5 + frame_len (contents r) then Some (r, Incomplete)
     else parse_body sid a r (int (frame_len (contents r))))"
proof -
  let ?bs = "contents r"
  have u: "GetUseSize r = int (length ?bs)" using length_contents [OF assms(1)] by simp
  have hd: "take 3 ?bs ! 0 = hd ?bs" using assms(2) by (cases ?bs) auto
  have len: "uint (le_word (take 2 (drop 1 (take 3 ?bs))) :: u16) = int (frame_len ?bs)"
    by (simp add: frame_len_def drop_take)
  have peek: "Peek r 3 = Some (take 3 ?bs)" by (simp add: Peek_spec [OF assms(1)])
  have "parse_frame_login sid a r =
    (if hd ?bs \<noteq> PACKET_CODE then Some (r, Rejected InvalidPacketCode)
     else if GetUseSize r < 3 + 1 + 1 + int (frame_len ?bs) then Some (r, Incomplete)
     else parse_body sid a r (int (frame_len ?bs)))"
    using assms(2) u unfolding parse_frame_login_def peek Let_def bind.simps len hd by simp
  then show ?thesis using u by auto
qed

text \<open>A frame of more payload than the packet buffer can take is copied beyond its end.\<close>

lemma parse_body_overflow:
  assumes "ring_ok r" and "pooled_ok a" and "2043 < n" and "5 + n \<le> length (contents r)"
  shows "parse_body sid a r (int n) = None"
proof -
  let ?bs = "contents r"
  obtain pooled where a: "a = Some pooled" and cap: "capacity pooled = BUFFER_DEFAULT"
    using assms(2) by (auto simp: pooled_ok_def)
  have l: "length (mStorage pooled) = 2048" using cap by (simp add: capacity_def BUFFER_DEFAULT_def)
  define r1 where "r1 = skip_front r 3"
  define r2 where "r2 = skip_front r1 1"
  have r1: "ring_ok r1" "contents r1 = drop 3 ?bs"
    using skip_front_ok [OF assms(1), of 3] assms(4) by (auto simp: r1_def)
  have r2: "ring_ok r2" "contents r2 = drop 4 ?bs"
    using skip_front_ok [OF r1(1), of 1] r1 assms(4) by (auto simp: r2_def)
  have mf: "fst (MoveFront r 3) = r1" using assms(4) by (simp add: MoveFront_spec [OF assms(1)] r1_def)
  have k: "\<exists>kb. Dequeue r1 1 = Some (r2, kb)"
    using r1(2) assms(4) by (simp add: Dequeue_spec [OF r1(1)] r2_def)
  have deq: "\<exists>r3. Dequeue r2 (1 + int n) = Some (r3, take (Suc n) (drop 4 ?bs))"
    using r2(2) assms(4) by (simp add: Dequeue_spec [OF r2(1)] nat_add_distrib)
  have "memcpy (mStorage pooled) 4 (take (Suc n) (drop 4 ?bs)) = None"
    using l assms(3,4) by (simp add: memcpy_def)
  then show ?thesis using k deq by (auto simp: parse_body_def Let_def mf a Packet_Init_fields)
qed

text \<open>
  C21. The two copies agree on well-sized traffic: whenever the chat server's parse loop ends without one of
  its length rejections, the login server's loop consumes the same bytes and hands over the same packets
  with the same outcome.
\<close>
theorem login_parser_equivalent:
  assumes "ring_ok r" and "\<And>i. pooled_ok (alloc i)" and "length (contents r) < fuel"
    and "stream_parse (GetBufferSize r) (contents r) = (payloads, rest, e)" and "\<forall>x \<in> length_errors. e \<noteq> Some x"
  shows "parse_loop_login fuel sid alloc k r = parse_loop fuel sid alloc k r \<and>
    (\<exists>r' ps. parse_loop_login fuel sid alloc k r = Done (r', ps, e) \<and> contents r' = rest \<and> list_all2 (carries sid) payloads ps)"
proof -
  obtain r' ps where "parse_loop fuel sid alloc k r = Done (r', ps, e)" "contents r' = rest" "list_all2 (carries sid) payloads ps"
    using parse_loop_spec [where alloc = alloc, OF assms(1-4), of sid k] by blast
  then show ?thesis using parse_loop_login_same [OF _ assms(5)] by auto
qed

lemma login_parser_equivalent_witness:
  "\<exists>r' ps. parse_loop_login 20 42 sample_alloc 0 sample_ring = Done (r', ps, None) \<and> contents r' = [PACKET_CODE, 9] \<and>
     list_all2 (carries 42) [[1, 2, 3]] ps"
proof -
  have "length (contents sample_ring) < 20" by (simp add: sample_ring_ok(2))
  from login_parser_equivalent [where alloc = sample_alloc, OF sample_ring_ok(1) sample_alloc_ok this sample_ring_parse, of 42 0]
  show ?thesis by blast
qed

text \<open>
  C22. Buffer overflow in the login server. A complete frame whose length field says between 2044 and 4091
  bytes, which any client can send before it has logged in, is copied beyond the end of the 2048-byte packet
  buffer, whatever its contents and key; the chat server's copy rejects the same bytes.
\<close>
theorem login_frame_overflow:
  assumes "ring_ok r" and "\<And>i. pooled_ok (alloc i)" and "3 \<le> length (contents r)" and "hd (contents r) = PACKET_CODE"
    and "2043 < frame_len (contents r)" and "5 + frame_len (contents r) \<le> length (contents r)"
  shows "parse_loop_login (Suc fuel) sid alloc k r = Fault \<and>
    parse_loop (Suc fuel) sid alloc k r = Done (r, [], Some ExceedsPacket)"
proof -
  have "parse_frame_login sid (alloc k) r = None"
    using parse_frame_login_eq [OF assms(1,3)] parse_body_overflow [OF assms(1,2,5,6)] assms(4,6) by simp
  moreover have "parse_frame sid (alloc k) r = Some (r, Rejected ExceedsPacket)"
    using parse_frame_eq [OF assms(1)] assms(3-6) by (simp add: header_error_def BUFFER_DEFAULT_def)
  ultimately show ?thesis by simp
qed

definition attack_bytes :: bytes where
  "attack_bytes = [PACKET_CODE, 0xFC, 0x07, 1] @ replicate 2045 0xAA"

lemma login_frame_overflow_witness:
  "parse_loop_login 1 42 sample_alloc 0 (store_rear (new_RingBuffer RECV_RINGBUFFER_SIZE 0) attack_bytes) = Fault"
proof -
  let ?r = "store_rear (new_RingBuffer RECV_RINGBUFFER_SIZE (0 :: u8)) attack_bytes"
  define tail :: bytes where "tail = replicate 2045 0xAA"
  have a: "attack_bytes = [PACKET_CODE, 0xFC, 0x07, 1] @ tail" "length tail = 2045"
    by (simp_all only: attack_bytes_def tail_def length_replicate)
  have l: "length attack_bytes = 2049" by (simp add: a)
  have r: "ring_ok ?r" "contents ?r = attack_bytes"
    using store_rear_ok [OF empty_recv_ring(1), of attack_bytes] empty_recv_ring l by simp_all
  have fl: "frame_len attack_bytes = 2044"
  proof -
    have "take 2 (drop 1 attack_bytes) = [0xFC, 0x07]" by (simp add: a(1))
    moreover have "unat (le_word [0xFC, 0x07 :: u8] :: u16) = 2044" by code_simp
    ultimately show ?thesis by (simp only: frame_len_def)
  qed
  have h: "hd attack_bytes = PACKET_CODE" by (simp add: a(1))
  show ?thesis
    using login_frame_overflow [where alloc = sample_alloc, OF r(1) sample_alloc_ok, of 0 42 0] l fl h by (simp add: r(2))
qed


section \<open>A failed send\<close>

definition postSend_login :: "io_result \<Rightarrow> session \<times> netstate \<Rightarrow> ((session \<times> netstate) \<times> bool) option" where
  "postSend_login wsasend = (\<lambda>(s, g).
     (if sendFlag s \<noteq> 0 then Some ((s, g), True)
      else do {
        (ring', packets) \<leftarrow> pop_upto DequeueItem MAX_SEND_PACKET (sendRing s);
        let s1 = s\<lparr>sendFlag := 1, sendRing := ring', sentPackets := packets\<rparr>;
        if packets = [] then Some ((s1\<lparr>sendFlag := 0\<rparr>, g), True)
        else
          (case IncreaseIoCount_s s1 of
             None \<Rightarrow> Some ((s1\<lparr>sentPackets := [], sendFlag := 0\<rparr>, SubRef_all packets g), False)
           | Some s2 \<Rightarrow>
               (case wsasend of
                  Failed \<Rightarrow>
                    (let s3 = decreaseSessionIoCount_s (s2\<lparr>sentPackets := []\<rparr>)
                     in Some ((s3\<lparr>sendFlag := 0\<rparr>, SubRef_all packets g), False))
                | Started \<Rightarrow>
                    Some ((s2\<lparr>k_send := True,
                              k_wire := k_wire s2 @ concat (map (\<lambda>p. written (heap g p)) packets)\<rparr>, g), True)))
      }))"

text \<open>
  When \<open>WSASend\<close> fails, the login server's copy gives the packets of the batch back to the pool and goes
  on: the session stays open, nothing is queued for its release, and the next packets are sent as if nothing
  was missing. The chat server's copy ends the session in the same situation.
\<close>
lemma login_failed_send_gap:
  assumes "counts e s" and "e < 2 ^ 30" and "rings_ok s" and "send_pre s" and "\<not> released s" and "sendFlag s = 0"
    and "contents (sendRing s) \<noteq> []"
  shows "\<exists>s'. postSend_login Failed (s, g) = Some ((s', SubRef_all (take MAX_SEND_PACKET (contents (sendRing s))) g), False) \<and>
      counts e s' \<and> \<not> released s' \<and> k_wire s' = k_wire s \<and> contents (sendRing s') = drop MAX_SEND_PACKET (contents (sendRing s)) \<and>
      sendFlag s' = 0 \<and> s_state s' = s_state s \<and> s_id s' = s_id s \<and>
      (\<exists>s2 g2. postSend Failed (s, g) = Some ((s2, g2), False) \<and> released s2)"
proof -
  let ?c = "contents (sendRing s)"
  from assms(3) have ro: "ring_ok (sendRing s)" by (simp add: rings_ok_def)
  obtain ring' where pop: "pop_upto DequeueItem MAX_SEND_PACKET (sendRing s) = Some (ring', take MAX_SEND_PACKET ?c)"
    "ring_ok ring'" "contents ring' = drop MAX_SEND_PACKET ?c"
    using send_ring.pop_upto_spec [OF ro] by blast
  define s1 where "s1 = s\<lparr>sendFlag := 1, sendRing := ring', sentPackets := take MAX_SEND_PACKET ?c\<rparr>"
  have ne: "take MAX_SEND_PACKET ?c \<noteq> []" using assms(7) by (simp add: MAX_SEND_PACKET_def)
  have c1: "counts e s1" "\<not> released s1" using assms(1,5) by (simp_all add: counts_def io_count_def released_def s1_def)
  obtain s2 where s2: "IncreaseIoCount_s s1 = Some s2" using IncreaseIoCount_s_spec [OF c1(1) assms(2)] c1(2) by simp
  note i = IncreaseIoCount_s_counts [OF c1(1) assms(2) s2]
  define t where "t = s2\<lparr>sentPackets := []\<rparr>"
  have ct: "counts (Suc e) t" "\<not> released t" using i by (simp_all add: t_def counts_def io_count_def released_def)
  note d = decrease_s_counts [OF ct(1)]
  define s' where "s' = (decreaseSessionIoCount_s t)\<lparr>sendFlag := 0\<rparr>"
  have run: "postSend_login Failed (s, g) = Some ((s', SubRef_all (take MAX_SEND_PACKET ?c) g), False)"
    using assms(6) pop(1) ne s2 by (simp add: postSend_login_def Let_def s'_def flip: s1_def t_def)
  have k: "k_wire (decreaseSessionIoCount_s t) = k_wire s" "contents (sendRing (decreaseSessionIoCount_s t)) = drop MAX_SEND_PACKET ?c"
    "s_state (decreaseSessionIoCount_s t) = s_state s" "s_id (decreaseSessionIoCount_s t) = s_id s"
    using d(3) i(4) pop(3) by (auto simp: t_def s1_def)
  have c': "counts e s'" "\<not> released s'" using d(1,2) ct(2) by (simp_all add: s'_def counts_def io_count_def released_def)
  obtain s3 g3 b where ps: "postSend Failed (s, g) = Some ((s3, g3), b)" "\<not> b \<longrightarrow> released s3"
    by (rule postSend_spec [OF assms(1-4), of Failed g]) auto
  have "\<not> b" using ps(1) assms(6) pop(1) ne s2
    by (auto simp: postSend_def Let_def split: prod.splits simp flip: s1_def)
  then show ?thesis using run c' k ps by (simp add: s'_def)
qed

end
