(* ===== verification/Lan_Client.thy ===== *)
theory Lan_Client
  imports Server_Safety
begin

text \<open>
  NetLib/LanClient.cpp: the client with one session that reports to the monitoring server over a
  header of two length bytes, without encryption. \<open>lan_client\<close> is the object: its session, the copy
  \<open>mSocket\<close> of the socket and the flag \<open>mIsConnected\<close>, with the packet heap as in \<open>Base_Server\<close>.
  \<open>k_stale\<close> is the kernel's: the operations of earlier sockets whose completions are still to come.
  The virtual callbacks are parameters, \<open>None\<close> and \<open>Fault\<close> an access outside an array.
\<close>

section \<open>State and references\<close>

record lan_client =
  mSession :: session
  mSocket :: "nat option"
  mIsConnected :: bool
  lan_net :: netstate
  k_stale :: "EOperation list"

definition new_LanClient :: "netstate \<Rightarrow> lan_client" where
  "new_LanClient g =
     \<lparr>mSession = new_Session, mSocket = None, mIsConnected = False, lan_net = g, k_stale = []\<rparr>"

definition LAN_HEADER_SIZE :: int where "LAN_HEADER_SIZE = 2"

text \<open>An underflow of the count is put right by a second addition.\<close>

definition lan_decreaseIoCount :: "session \<Rightarrow> session" where
  "lan_decreaseIoCount s =
     (let prev = s_control s; s1 = s\<lparr>s_control := s_control s - 1\<rparr> in
      if ctl_ioCount prev = 0 then s1\<lparr>s_control := s_control s1 + 1\<rparr>
      else if ctl_ioCount prev = 1 \<and> ctl_releaseFlag prev = 1 then s1\<lparr>k_release := k_release s1 + 1\<rparr>
      else s1)"

definition lan_requestRelease :: "session \<Rightarrow> session" where
  "lan_requestRelease s =
     (case TrySetReleaseFlag (s_control s) of
        None \<Rightarrow> s
      | Some (c, before) \<Rightarrow>
          s\<lparr>s_control := c, k_release := k_release s + (if before = 0 then 1 else 0)\<rparr>)"

section \<open>Posting I/O\<close>

definition lan_postRecvInitial :: "io_result \<Rightarrow> session \<Rightarrow> session \<times> bool" where
  "lan_postRecvInitial wsarecv s =
     (if fst (GetEnqueueSegments (recvRing s)) = 0 then (s, False)
      else (case wsarecv of Failed \<Rightarrow> (s, False) | Started \<Rightarrow> (s\<lparr>k_recv := True\<rparr>, True)))"

definition lan_postRecv :: "io_result \<Rightarrow> session \<Rightarrow> session \<times> bool" where
  "lan_postRecv wsarecv s =
     (case IncreaseIoCount_s s of
        None \<Rightarrow> (s, False)
      | Some s1 \<Rightarrow>
          if fst (GetEnqueueSegments (recvRing s1)) = 0
          then (lan_decreaseIoCount (lan_requestRelease s1), False)
          else (case wsarecv of
                  Failed \<Rightarrow> (lan_decreaseIoCount (lan_requestRelease s1), False)
                | Started \<Rightarrow> (s1\<lparr>k_recv := True\<rparr>, True)))"

definition lan_postSend :: "io_result \<Rightarrow> session \<times> netstate \<Rightarrow> ((session \<times> netstate) \<times> bool) option" where
  "lan_postSend wsasend = (\<lambda>(s, g).
     (if sendFlag s \<noteq> 0 then Some ((s, g), True)
      else do {
        (ring', packets) \<leftarrow> pop_upto DequeueItem MAX_SEND_PACKET (sendRing s);
        let s1 = s\<lparr>sendFlag := 1, sendRing := ring', sentPackets := packets\<rparr>;
        if packets = [] then Some ((s1\<lparr>sendFlag := 0\<rparr>, g), True)
        else
          (case IncreaseIoCount_s s1 of
             None \<Rightarrow> Some ((s1\<lparr>sentPackets := [], sendFlag := 0\<rparr>, SubRef_all packets g), False)
           | Some s2 \<Rightarrow>
               (case wsasend of
                  Failed \<Rightarrow>
                    (let s3 = lan_decreaseIoCount (s2\<lparr>sentPackets := []\<rparr>)
                     in Some ((s3\<lparr>sendFlag := 0\<rparr>, SubRef_all packets g), False))
                | Started \<Rightarrow>
                    Some ((s2\<lparr>k_send := True,
                              k_wire := k_wire s2 @ concat (map (\<lambda>p. written (heap g p)) packets)\<rparr>, g), True)))
      }))"

section \<open>Connecting and releasing\<close>

text \<open>
  The operations of the socket that was closed are still to complete: the session object forgets
  them, the kernel does not.
\<close>

definition lan_left_over :: "session \<Rightarrow> EOperation list" where
  "lan_left_over s = (if k_recv s then [RECV] else []) @ (if k_send s then [SEND] else [])"

text \<open>
  \<open>sock\<close> is the result of \<open>socket()\<close>, \<open>conn\<close> and \<open>registered\<close> those of \<open>connect\<close> and of the
  registration with the completion port, \<open>onConnect\<close> the virtual callback.
\<close>

definition lan_Connect :: "(lan_client \<Rightarrow> lan_client) \<Rightarrow> nat option \<Rightarrow> bool \<Rightarrow> bool \<Rightarrow> io_result \<Rightarrow> lan_client
    \<Rightarrow> lan_client \<times> bool" where
  "lan_Connect onConnect sock conn registered wsarecv lc =
     (if mIsConnected lc then (lc, False)
      else
        (let lc0 = lc\<lparr>mSocket := None\<rparr> in
         case sock of
           None \<Rightarrow> (lc0, False)
         | Some k \<Rightarrow>
             if \<not> conn then (lc0, False)
             else
               (let s = (Session_Init (mSession lc))\<lparr>s_socket := Some k, s_id := 1, s_state := Connected,
                          k_recv := False, k_send := False, k_wire := []\<rparr>;
                    lc1 = lc0\<lparr>mSession := s, mSocket := Some k, k_stale := k_stale lc @ lan_left_over (mSession lc)\<rparr> in
                if \<not> registered then (lc1\<lparr>mSocket := None\<rparr>, False)
                else
                  (let lc2 = onConnect (lc1\<lparr>mSession := s\<lparr>s_control := 1\<rparr>, mIsConnected := True\<rparr>) in
                   case lan_postRecvInitial wsarecv (mSession lc2) of
                     (s', True) \<Rightarrow> (lc2\<lparr>mSession := s'\<rparr>, True)
                   | (s', False) \<Rightarrow>
                       (lc2\<lparr>mSession := s'\<lparr>s_socket := None, s_control := 0\<rparr>, mSocket := None,
                            mIsConnected := False\<rparr>, False)))))"

definition lan_Disconnect :: "lan_client \<Rightarrow> lan_client" where
  "lan_Disconnect lc =
     (if \<not> mIsConnected lc then lc
      else lc\<lparr>mIsConnected := False, mSession := lan_requestRelease (mSession lc)\<rparr>)"

text \<open>\<open>releaseSession\<close> up to the call of \<open>OnDisconnect\<close>, and whether that call is made.\<close>

definition lan_releaseSession :: "lan_client \<Rightarrow> (lan_client \<times> bool) option" where
  "lan_releaseSession lc =
     (let s = mSession lc in
      case TryCleanup (s_control s) of
        None \<Rightarrow> Some (lc, False)
      | Some c \<Rightarrow> do {
          (ring', packets) \<leftarrow> pop_upto DequeueItem (nat (GetUseSize (sendRing s))) (sendRing s);
          let s' = s\<lparr>s_control := c, s_socket := None, recvRing := ClearBuffer (recvRing s),
                     sendRing := ClearBuffer ring', s_state := Free, sendFlag := 0\<rparr>;
          Some (lc\<lparr>mSession := s', mSocket := (if s_socket s \<noteq> None then None else mSocket lc),
                   lan_net := SubRef_all packets (lan_net lc), mIsConnected := False\<rparr>, True)
        })"

section \<open>Sending\<close>

text \<open>The length header; the subtraction is unsigned and its result cut to 16 bits.\<close>

definition lan_set_header :: "packet \<Rightarrow> packet option" where
  "lan_set_header pk = do {
     let payloadSize = mDataSize pk - LAN_HEADER_SIZE;
     st \<leftarrow> memcpy (mStorage pk) 0 (le_bytes 2 (word_of_int payloadSize :: u16));
     Some (pk\<lparr>mStorage := st\<rparr>)
   }"

definition lan_SendPacket :: "nat \<Rightarrow> io_result \<Rightarrow> lan_client \<Rightarrow> (lan_client \<times> bool \<times> callback list) option" where
  "lan_SendPacket p wsasend lc =
     (if \<not> mIsConnected lc then Some (lc, False, [])
      else
        (case IncreaseIoCount_s (mSession lc) of
           None \<Rightarrow> Some (lc, False, [])
         | Some s1 \<Rightarrow> do {
             pk \<leftarrow> lan_set_header (heap (lan_net lc) p);
             let g1 = AddRef_at p ((lan_net lc)\<lparr>heap := (heap (lan_net lc))(p := pk)\<rparr>);
             (ring', enqueued) \<leftarrow> EnqueueItem (sendRing s1) p;
             let g2 = (if enqueued then g1 else SubRef_at p g1);
             ((s3, g3), isSuccess) \<leftarrow> lan_postSend wsasend (s1\<lparr>sendRing := ring'\<rparr>, g2);
             Some (lc\<lparr>mSession := lan_decreaseIoCount s3, lan_net := g3\<rparr>, isSuccess,
                   if isSuccess then [OnSend (s_id s3) (mDataSize (heap g3 p))] else [])
           }))"

section \<open>The worker thread\<close>

text \<open>One round of the parse loop: no check of the length field.\<close>

definition lan_parse_frame :: "u64 \<Rightarrow> packet option \<Rightarrow> u8 ring \<Rightarrow> (u8 ring \<times> frame_result) option" where
  "lan_parse_frame sid alloc r =
     (if GetUseSize r < LAN_HEADER_SIZE then Some (r, Incomplete)
      else do {
        header \<leftarrow> Peek r LAN_HEADER_SIZE;
        let len = uint (le_word header :: u16);
        let totalPacketSize = LAN_HEADER_SIZE + len;
        if GetUseSize r < totalPacketSize then Some (r, Incomplete)
        else do {
          let r1 = fst (MoveFront r LAN_HEADER_SIZE);
          (case alloc of
             None \<Rightarrow> Some (r1, Rejected PacketMemoryPoolError)
           | Some pooled \<Rightarrow> do {
               let pPacket = packet.mSessionID_update (\<lambda>_. sid) (Packet_Init pooled);
               (r2, payload) \<leftarrow> Dequeue r1 len;
               st \<leftarrow> memcpy (mStorage pPacket) LAN_HEADER_SIZE payload;
               Some (r2, Frame (MoveReadPos (SetDataSize (pPacket\<lparr>mStorage := st\<rparr>) totalPacketSize) LAN_HEADER_SIZE))
             })
        }
      })"

text \<open>
  The loop, calling \<open>onRecv\<close> for each packet: the session and heap afterwards, the packets as they
  were handed over, and the flag \<open>parseError\<close>. \<open>ptr k\<close> is the \<open>k\<close>-th packet the pool hands out.
\<close>

fun lan_recv_loop :: "nat \<Rightarrow> (nat \<Rightarrow> netstate \<Rightarrow> netstate) \<Rightarrow> (nat \<Rightarrow> nat option) \<Rightarrow> nat \<Rightarrow> session \<times> netstate
    \<Rightarrow> ((session \<times> netstate) \<times> packet list \<times> bool) outcome" where
  "lan_recv_loop 0 onRecv ptr k sg = OutOfFuel"
| "lan_recv_loop (Suc fuel) onRecv ptr k (s, g) =
     (case lan_parse_frame (s_id s) (map_option (heap g) (ptr k)) (recvRing s) of
        None \<Rightarrow> Fault
      | Some (r', Incomplete) \<Rightarrow> Done ((s\<lparr>recvRing := r'\<rparr>, g), [], False)
      | Some (r', Rejected e) \<Rightarrow> Done ((s\<lparr>recvRing := r'\<rparr>, g), [], True)
      | Some (r', Frame pk) \<Rightarrow>
          (let p = the (ptr k) in
           case lan_recv_loop fuel onRecv ptr (Suc k)
                  (s\<lparr>recvRing := r'\<rparr>, onRecv p (g\<lparr>heap := (heap g)(p := pk)\<rparr>)) of
             Done (sg, ps, e) \<Rightarrow> Done (sg, pk # ps, e)
           | other \<Rightarrow> other))"

text \<open>A receive of \<open>cbTransferred > 0\<close> bytes, which the kernel stored in the array \<open>d\<close> of the ring.\<close>

definition lan_received :: "nat \<Rightarrow> (nat \<Rightarrow> netstate \<Rightarrow> netstate) \<Rightarrow> (nat \<Rightarrow> nat option) \<Rightarrow> io_result \<Rightarrow> u8 list \<Rightarrow> int
    \<Rightarrow> session \<times> netstate \<Rightarrow> ((session \<times> netstate) \<times> packet list) outcome" where
  "lan_received fuel onRecv ptr wsarecv d cbTransferred = (\<lambda>(s, g).
     (let s0 = (io_returned RECV s)\<lparr>recvRing := fst (MoveRear ((recvRing s)\<lparr>rb_data := d\<rparr>) cbTransferred)\<rparr> in
      case lan_recv_loop fuel onRecv ptr 0 (s0, g) of
        OutOfFuel \<Rightarrow> OutOfFuel
      | Fault \<Rightarrow> Fault
      | Done ((s1, g1), ps, parseError) \<Rightarrow>
          (let s2 = (if parseError then lan_requestRelease s1
                     else (case lan_postRecv wsarecv s1 of (s', True) \<Rightarrow> s' | (s', False) \<Rightarrow> lan_requestRelease s'))
           in Done ((lan_decreaseIoCount s2, g1), ps))))"

definition lan_sent :: "io_result \<Rightarrow> session \<times> netstate \<Rightarrow> (session \<times> netstate) option" where
  "lan_sent wsasend = (\<lambda>(s, g).
     (let s0 = io_returned SEND s; g0 = SubRef_all (sentPackets s0) g
      in do {
        ((s1, g1), ok) \<leftarrow> lan_postSend wsasend (s0\<lparr>sentPackets := [], sendFlag := 0\<rparr>, g0);
        Some (lan_decreaseIoCount s1, g1)
      }))"

text \<open>A completion that failed, and a receive of zero bytes.\<close>

definition lan_io_failed :: "EOperation \<Rightarrow> session \<Rightarrow> session" where
  "lan_io_failed oper s = lan_decreaseIoCount (lan_requestRelease (io_returned oper s))"

text \<open>The failed completion of an operation of an earlier socket runs the same lines.\<close>

definition lan_stale_failed :: "lan_client \<Rightarrow> lan_client" where
  "lan_stale_failed lc =
     lc\<lparr>mSession := lan_decreaseIoCount (lan_requestRelease (mSession lc)), k_stale := tl (k_stale lc)\<rparr>"

definition lan_release_completion :: "lan_client \<Rightarrow> (lan_client \<times> bool) option" where
  "lan_release_completion lc = lan_releaseSession (lc\<lparr>mSession := io_returned RELEASE (mSession lc)\<rparr>)"

end
