(* ===== verification/Lan_Framing.thy ===== *)
theory Lan_Framing
  imports Lan_Client
begin

text \<open>
  The wire format of the LAN client: \<open>lan_stream\<close> cuts a byte string into payloads as the receive
  loop should, and stops before a frame that the packet buffer cannot take. The theorems say that the
  loop computes it on any ring, that TCP segmentation does not matter, and what such a frame does.
\<close>

section \<open>The specification\<close>

definition lan_len :: "bytes \<Rightarrow> nat" where
  "lan_len bs = unat (le_word (take 2 bs) :: u16)"

definition LAN_MAX_PAYLOAD :: nat where "LAN_MAX_PAYLOAD = 2046"

text \<open>The payloads, the bytes left, and whether the loop runs into a complete frame that is too long.\<close>

function lan_stream :: "bytes \<Rightarrow> bytes list \<times> bytes \<times> bool" where
  "lan_stream bs =
     (if length bs < 2 \<or> length bs < 2 + lan_len bs then ([], bs, False)
      else if LAN_MAX_PAYLOAD < lan_len bs then ([], bs, True)
      else (case lan_stream (drop (2 + lan_len bs) bs) of
              (ps, rest, over) \<Rightarrow> (take (lan_len bs) (drop 2 bs) # ps, rest, over)))"
  by pat_completeness auto
termination by (relation "measure length") auto

declare lan_stream.simps [simp del]

lemma lan_stream_cases [case_names wait over frame]:
  assumes "length bs < 2 \<or> length bs < 2 + lan_len bs \<Longrightarrow> lan_stream bs = ([], bs, False) \<Longrightarrow> P"
    and "2 + lan_len bs \<le> length bs \<Longrightarrow> LAN_MAX_PAYLOAD < lan_len bs \<Longrightarrow> lan_stream bs = ([], bs, True) \<Longrightarrow> P"
    and "\<And>ps rest over. 2 + lan_len bs \<le> length bs \<Longrightarrow> lan_len bs \<le> LAN_MAX_PAYLOAD \<Longrightarrow>
      lan_stream (drop (2 + lan_len bs) bs) = (ps, rest, over) \<Longrightarrow>
      lan_stream bs = (take (lan_len bs) (drop 2 bs) # ps, rest, over) \<Longrightarrow> P"
  shows P
proof (cases "length bs < 2 + lan_len bs")
  case True
  then show ?thesis using assms(1) by (simp add: lan_stream.simps [of bs])
next
  case False
  obtain ps rest over where "lan_stream (drop (2 + lan_len bs) bs) = (ps, rest, over)"
    by (metis prod.exhaust)
  then show ?thesis using False assms(2,3) lan_stream.simps [of bs]
    by (cases "LAN_MAX_PAYLOAD < lan_len bs") auto
qed

lemma lan_len_append: "2 \<le> length bs \<Longrightarrow> lan_len (bs @ cs) = lan_len bs"
  by (simp add: lan_len_def)

text \<open>Cutting a prefix first and its rest later gives the same payloads.\<close>

lemma lan_stream_append:
  "lan_stream bs = (ps, rest, False) \<Longrightarrow>
   lan_stream (bs @ cs) = (case lan_stream (rest @ cs) of (qs, r, over) \<Rightarrow> (ps @ qs, r, over))"
proof (induction bs arbitrary: ps rest rule: lan_stream.induct)
  case (1 bs)
  show ?case
  proof (cases bs rule: lan_stream_cases)
    case wait
    then show ?thesis using "1.prems" by auto
  next
    case over
    then show ?thesis using "1.prems" by simp
  next
    case (frame ps1 rest1 over1)
    have l: "2 \<le> length bs" "\<not> (length bs < 2 \<or> length bs < 2 + lan_len bs)" "\<not> LAN_MAX_PAYLOAD < lan_len bs"
      using frame by auto
    have e: "ps = take (lan_len bs) (drop 2 bs) # ps1" "rest = rest1" "over1 = False"
      using frame(4) "1.prems" by auto
    have d: "drop (2 + lan_len bs) (bs @ cs) = drop (2 + lan_len bs) bs @ cs"
      "take (lan_len bs) (drop 2 (bs @ cs)) = take (lan_len bs) (drop 2 bs)" using frame(1) by auto
    have "lan_stream (bs @ cs) = (case lan_stream (drop (2 + lan_len bs) bs @ cs) of
        (qs, r, over) \<Rightarrow> (take (lan_len bs) (drop 2 bs) # qs, r, over))"
      using l by (subst lan_stream.simps) (simp only: lan_len_append [OF l(1)] d length_append, simp)
    also have "\<dots> = (case lan_stream (rest @ cs) of (qs, r, over) \<Rightarrow> (ps @ qs, r, over))"
      using "1.IH" [OF l(2,3), of ps1 rest1] frame(3) e by (auto split: prod.splits)
    finally show ?thesis .
  qed
qed

lemma lan_stream_append_over:
  "lan_stream bs = (ps, rest, True) \<Longrightarrow> lan_stream (bs @ cs) = (ps, rest @ cs, True)"
proof (induction bs arbitrary: ps rest rule: lan_stream.induct)
  case (1 bs)
  show ?case
  proof (cases bs rule: lan_stream_cases)
    case over
    then show ?thesis using "1.prems" by (subst lan_stream.simps) (simp add: lan_len_append)
  next
    case (frame ps1 rest1 over1)
    have l: "2 \<le> length bs" "\<not> (length bs < 2 \<or> length bs < 2 + lan_len bs)" "\<not> LAN_MAX_PAYLOAD < lan_len bs"
      using frame by auto
    have d: "drop (2 + lan_len bs) (bs @ cs) = drop (2 + lan_len bs) bs @ cs"
      "take (lan_len bs) (drop 2 (bs @ cs)) = take (lan_len bs) (drop 2 bs)" using frame(1) by auto
    have "lan_stream (drop (2 + lan_len bs) bs @ cs) = (ps1, rest @ cs, True)"
      using "1.IH" [OF l(2,3), of ps1 rest1] frame(3,4) "1.prems" by simp
    then show ?thesis using l frame(4) "1.prems"
      by (subst lan_stream.simps) (simp only: lan_len_append [OF l(1)] d length_append, simp)
  qed (use "1.prems" in simp)
qed

text \<open>The frame of a payload, as \<open>SendPacket\<close> makes it, and a stream of frames.\<close>

definition lan_frame :: "bytes \<Rightarrow> bytes" where
  "lan_frame payload = le_bytes 2 (of_nat (length payload) :: u16) @ payload"

lemma lan_len_frame:
  assumes "length payload \<le> LAN_MAX_PAYLOAD"
  shows "lan_len (lan_frame payload @ bs) = length payload"
proof -
  have "take 2 (lan_frame payload @ bs) = le_bytes 2 (of_nat (length payload) :: u16)"
    by (simp add: lan_frame_def)
  then show ?thesis using assms by (simp add: lan_len_def LAN_MAX_PAYLOAD_def unat_of_nat)
qed

lemma lan_stream_frame:
  assumes "length payload \<le> LAN_MAX_PAYLOAD"
  shows "lan_stream (lan_frame payload @ bs) = (case lan_stream bs of (ps, r, over) \<Rightarrow> (payload # ps, r, over))"
  using lan_len_frame [OF assms, of bs] assms
  by (subst lan_stream.simps) (simp add: lan_frame_def)

interpretation lan: framed_stream lan_stream False lan_frame id "\<lambda>p. length p \<le> LAN_MAX_PAYLOAD"
proof unfold_locales
  show "lan_stream (bs @ cs) = (case lan_stream (rest @ cs) of (qs, r, e) \<Rightarrow> (ps @ qs, r, e))"
    if "lan_stream bs = (ps, rest, False)" for bs ps rest cs
    by (rule lan_stream_append [OF that])
  show "\<exists>r. lan_stream (bs @ cs) = (ps, r, e)" if "lan_stream bs = (ps, rest, e)" "e \<noteq> False" for bs ps rest cs e
    using lan_stream_append_over that by (cases e) auto
  show "lan_stream [] = ([], [], False)" by (simp add: lan_stream.simps)
qed (auto simp: lan_stream_frame)

section \<open>One frame\<close>

definition lan_carries :: "u64 \<Rightarrow> bytes \<Rightarrow> packet \<Rightarrow> bool" where
  "lan_carries sid payload p \<longleftrightarrow>
     packet_ok p \<and> capacity p = BUFFER_DEFAULT \<and> packet.mSessionID p = sid \<and> mReadPos p = 2 \<and>
     unread p = payload \<and> mRefCnt p = 1 \<and> \<not> mIsEncoding p"

lemma lan_parse_frame_spec:
  assumes "ring_ok r"
  defines "bs \<equiv> contents r"
  shows "length bs < 2 \<or> length bs < 2 + lan_len bs \<Longrightarrow> lan_parse_frame sid a r = Some (r, Incomplete)"
    "2 + lan_len bs \<le> length bs \<Longrightarrow> a = None \<Longrightarrow>
       \<exists>r'. lan_parse_frame sid a r = Some (r', Rejected PacketMemoryPoolError) \<and> ring_ok r' \<and> GetBufferSize r' = GetBufferSize r"
    "2 + lan_len bs \<le> length bs \<Longrightarrow> pooled_ok a \<Longrightarrow> LAN_MAX_PAYLOAD < lan_len bs \<Longrightarrow> lan_parse_frame sid a r = None"
    "2 + lan_len bs \<le> length bs \<Longrightarrow> pooled_ok a \<Longrightarrow> lan_len bs \<le> LAN_MAX_PAYLOAD \<Longrightarrow>
       \<exists>r' p. lan_parse_frame sid a r = Some (r', Frame p) \<and> ring_ok r' \<and> GetBufferSize r' = GetBufferSize r \<and>
         contents r' = drop (2 + lan_len bs) bs \<and> lan_carries sid (take (lan_len bs) (drop 2 bs)) p"
proof -
  have u: "GetUseSize r = int (length bs)" using length_contents [OF assms(1)] by (simp add: bs_def)
  have peek: "Peek r 2 = Some (take 2 bs)" by (simp add: Peek_spec [OF assms(1)] bs_def)
  have len: "uint (le_word (take 2 bs) :: u16) = int (lan_len bs)" by (simp add: lan_len_def)
  define body where "body = do {
          let r1 = fst (MoveFront r 2);
          (case a of
             None \<Rightarrow> Some (r1, Rejected PacketMemoryPoolError)
           | Some pooled \<Rightarrow> do {
               let pPacket = packet.mSessionID_update (\<lambda>_. sid) (Packet_Init pooled);
               (r2, payload) \<leftarrow> Dequeue r1 (int (lan_len bs));
               st \<leftarrow> memcpy (mStorage pPacket) 2 payload;
               Some (r2, Frame (MoveReadPos (SetDataSize (pPacket\<lparr>mStorage := st\<rparr>) (2 + int (lan_len bs))) 2))
             })
        }"
  have eq: "lan_parse_frame sid a r =
      (if length bs < 2 \<or> length bs < 2 + lan_len bs then Some (r, Incomplete) else body)"
    unfolding lan_parse_frame_def LAN_HEADER_SIZE_def u peek bind.simps Let_def len body_def by auto
  show "lan_parse_frame sid a r = Some (r, Incomplete)" if "length bs < 2 \<or> length bs < 2 + lan_len bs"
    using that by (simp only: eq if_True)
  assume l: "2 + lan_len bs \<le> length bs"
  then have whole: "lan_parse_frame sid a r = body" by (simp add: eq)
  define r1 where "r1 = skip_front r 2"
  have r1: "ring_ok r1" "contents r1 = drop 2 bs" "GetBufferSize r1 = GetBufferSize r"
    using skip_front_ok [OF assms(1), of 2] l by (auto simp: r1_def bs_def)
  have mf: "fst (MoveFront r 2) = r1" using l by (simp add: MoveFront_spec [OF assms(1)] r1_def bs_def)
  show "\<exists>r'. lan_parse_frame sid a r = Some (r', Rejected PacketMemoryPoolError) \<and> ring_ok r' \<and> GetBufferSize r' = GetBufferSize r"
    if "a = None"
  proof -
    have "lan_parse_frame sid a r = Some (r1, Rejected PacketMemoryPoolError)"
      unfolding whole body_def mf by (simp add: that)
    then show ?thesis using r1 by blast
  qed
  assume "pooled_ok a"
  then obtain pooled where a: "a = Some pooled" and cap: "length (mStorage pooled) = 2048"
    by (auto simp: pooled_ok_def capacity_def BUFFER_DEFAULT_def)
  define payload where "payload = take (lan_len bs) (drop 2 bs)"
  define r2 where "r2 = (if lan_len bs = 0 then r1 else skip_front r1 (lan_len bs))"
  have pl: "length payload = lan_len bs" using l by (simp add: payload_def)
  have deq: "Dequeue r1 (int (lan_len bs)) = Some (r2, payload)"
    using l by (simp add: Dequeue_spec [OF r1(1)] r1(2) r2_def payload_def Let_def)
  have r2: "ring_ok r2" "contents r2 = drop (2 + lan_len bs) bs" "GetBufferSize r2 = GetBufferSize r"
    using skip_front_ok [OF r1(1), of "lan_len bs"] r1 l by (auto simp: r2_def add.commute numeral_2_eq_2)
  note body = whole [unfolded body_def mf a Let_def option.case deq bind.simps prod.case]
  show "lan_parse_frame sid a r = None" if "LAN_MAX_PAYLOAD < lan_len bs"
    using that pl cap by (simp add: a body Packet_Init_fields LAN_MAX_PAYLOAD_def memcpy_def)
  assume m: "lan_len bs \<le> LAN_MAX_PAYLOAD"
  define p where "p = MoveReadPos (SetDataSize ((packet.mSessionID_update (\<lambda>_. sid) (Packet_Init pooled))
      \<lparr>mStorage := overwrite (mStorage pooled) 2 payload\<rparr>) (2 + int (lan_len bs))) 2"
  have run: "lan_parse_frame sid a r = Some (r2, Frame p)"
    using m pl cap by (simp add: a body Packet_Init_fields LAN_MAX_PAYLOAD_def mem_simps p_def)
  have ow: "length (overwrite (mStorage pooled) 2 payload) = 2048" using m pl cap by (simp add: LAN_MAX_PAYLOAD_def)
  have "drop 2 (take (2 + lan_len bs) (overwrite (mStorage pooled) 2 payload)) = payload"
    using pl cap by (simp add: take_overwrite_end)
  then have "lan_carries sid payload p"
    using m ow by (simp add: p_def lan_carries_def MoveReadPos_def SetDataSize_def capacity_def LAN_MAX_PAYLOAD_def
        packet_ok_def BUFFER_DEFAULT_def Packet_Init_fields unread_def written_def nat_add_distrib)
  then show "\<exists>r' p. lan_parse_frame sid a r = Some (r', Frame p) \<and> ring_ok r' \<and> GetBufferSize r' = GetBufferSize r \<and>
         contents r' = drop (2 + lan_len bs) bs \<and> lan_carries sid (take (lan_len bs) (drop 2 bs)) p"
    using run r2 by (auto simp: payload_def)
qed

section \<open>The receive loop\<close>

text \<open>The client's pool: packets of the right size, which the callback keeps so.\<close>

definition keeps_capacity :: "(nat \<Rightarrow> netstate \<Rightarrow> netstate) \<Rightarrow> bool" where
  "keeps_capacity onRecv \<longleftrightarrow> (\<forall>p g q. capacity (heap (onRecv p g) q) = capacity (heap g q))"

lemma lan_recv_loop_spec:
  assumes "ring_ok (recvRing s)" and "pool_gives g ptr" and "keeps_capacity onRecv"
    and "length (contents (recvRing s)) < fuel"
    and "lan_stream (contents (recvRing s)) = (payloads, rest, over)"
  shows "if over then lan_recv_loop fuel onRecv ptr k (s, g) = Fault
    else \<exists>r' g' ps. lan_recv_loop fuel onRecv ptr k (s, g) = Done ((s\<lparr>recvRing := r'\<rparr>, g'), ps, False) \<and>
      ring_ok r' \<and> contents r' = rest \<and> GetBufferSize r' = GetBufferSize (recvRing s) \<and>
      list_all2 (lan_carries (s_id s)) payloads ps \<and> pool_gives g' ptr"
  using assms(1,2,4,5)
proof (induction fuel arbitrary: s g k payloads)
  case 0
  then show ?case by simp
next
  case (Suc fuel)
  let ?bs = "contents (recvRing s)"
  obtain p where p: "ptr k = Some p" "capacity (heap g p) = BUFFER_DEFAULT"
    using Suc.prems(2) by (auto simp: pool_gives_def)
  have a: "pooled_ok (map_option (heap g) (ptr k))" using p by (simp add: pooled_ok_def)
  note fr = lan_parse_frame_spec [OF Suc.prems(1), where sid = "s_id s" and a = "map_option (heap g) (ptr k)"]
  show ?case
  proof (cases ?bs rule: lan_stream_cases)
    case wait
    then show ?thesis using Suc.prems fr(1) by (cases s) auto
  next
    case over
    then show ?thesis using Suc.prems(4) fr(3) a by simp
  next
    case (frame ps1 rest1 over1)
    obtain r1 pk where r1: "lan_parse_frame (s_id s) (map_option (heap g) (ptr k)) (recvRing s) = Some (r1, Frame pk)"
      "ring_ok r1" "GetBufferSize r1 = GetBufferSize (recvRing s)" "contents r1 = drop (2 + lan_len ?bs) ?bs"
      "lan_carries (s_id s) (take (lan_len ?bs) (drop 2 ?bs)) pk"
      using fr(4) [OF frame(1) a frame(2)] by blast
    define g1 where "g1 = onRecv p (g\<lparr>heap := (heap g)(p := pk)\<rparr>)"
    have "capacity (heap g1 q) = capacity (heap g q)" for q
      using assms(3) r1(5) p(2) by (simp add: keeps_capacity_def g1_def lan_carries_def)
    then have pool: "pool_gives g1 ptr" using Suc.prems(2) by (simp add: pool_gives_def)
    have e: "payloads = take (lan_len ?bs) (drop 2 ?bs) # ps1" "rest = rest1" "over = over1"
      using frame(4) Suc.prems(4) by auto
    have l: "length (contents (recvRing (s\<lparr>recvRing := r1\<rparr>))) < fuel" using r1(4) frame(1) Suc.prems(3) by auto
    have run: "lan_recv_loop (Suc fuel) onRecv ptr k (s, g) =
        (case lan_recv_loop fuel onRecv ptr (Suc k) (s\<lparr>recvRing := r1\<rparr>, g1) of
           Done (sg, ps, e) \<Rightarrow> Done (sg, pk # ps, e) | other \<Rightarrow> other)"
      by (simp only: lan_recv_loop.simps r1(1)) (simp add: p(1) g1_def)
    have sp: "lan_stream (contents (recvRing (s\<lparr>recvRing := r1\<rparr>))) = (ps1, rest, over)"
      using frame(3) r1(4) e by simp
    show ?thesis
      using Suc.IH [where s = "s\<lparr>recvRing := r1\<rparr>", OF _ pool l sp, of "Suc k"] r1 e run by (cases over) auto
  qed
qed

text \<open>Without an oversized frame the loop ends also when the pool runs dry or when it reuses packets.\<close>

lemma lan_received_spec:
  assumes "kernel_stores ws" and "rings_ok s" and "c \<noteq> []" and "int (length c) \<le> GetFreeSize (recvRing s)"
    and "pool_gives g ptr" and "keeps_capacity onRecv" and "nat RECV_RINGBUFFER_SIZE < fuel"
    and "lan_stream (contents (recvRing s) @ c) = (payloads, rest, over)"
  shows "if over then lan_received fuel onRecv ptr w (ws (recvRing s) c) (int (length c)) (s, g) = Fault
    else \<exists>s' g' ps. lan_received fuel onRecv ptr w (ws (recvRing s) c) (int (length c)) (s, g) = Done ((s', g'), ps) \<and>
      contents (recvRing s') = rest \<and> rings_ok s' \<and> s_id s' = s_id s \<and> pool_gives g' ptr \<and>
      list_all2 (lan_carries (s_id s)) payloads ps"
proof -
  have ro: "ring_ok (recvRing s)" "GetBufferSize (recvRing s) = RECV_RINGBUFFER_SIZE"
    using assms(2) by (auto simp: rings_ok_def)
  from assms(1,3,4) ro(1) have sc: "scattered (recvRing s) c (ws (recvRing s) c)" by (auto simp: kernel_stores_def)
  note st = store_rear_ok [OF ro(1) assms(4)]
  define s0 where "s0 = (io_returned RECV s)\<lparr>recvRing := store_rear (recvRing s) c\<rparr>"
  have s0: "(io_returned RECV s)\<lparr>recvRing := fst (MoveRear ((recvRing s)\<lparr>rb_data := ws (recvRing s) c\<rparr>) (int (length c)))\<rparr> = s0"
    "ring_ok (recvRing s0)" "contents (recvRing s0) = contents (recvRing s) @ c" "s_id s0 = s_id s"
    "GetBufferSize (recvRing s0) = RECV_RINGBUFFER_SIZE" "sendRing s0 = sendRing s"
    using st ro by (simp_all add: s0_def scattered_MoveRear(1) [OF ro(1) sc] io_returned_def)
  have fu: "length (contents (recvRing s0)) < fuel"
    using contents_bound [OF s0(2)] s0(5) assms(7) by linarith
  have lp: "lan_stream (contents (recvRing s0)) = (payloads, rest, over)" using assms(8) s0(3) by simp
  have keep: "recvRing (lan_decreaseIoCount x) = recvRing x" "recvRing (lan_requestRelease x) = recvRing x"
    "sendRing (lan_decreaseIoCount x) = sendRing x" "sendRing (lan_requestRelease x) = sendRing x"
    "recvRing (fst (lan_postRecv w x)) = recvRing x" "sendRing (fst (lan_postRecv w x)) = sendRing x"
    "s_id (lan_decreaseIoCount x) = s_id x" "s_id (lan_requestRelease x) = s_id x" "s_id (fst (lan_postRecv w x)) = s_id x" for x
    by (auto simp: lan_decreaseIoCount_def lan_requestRelease_def lan_postRecv_def Let_def IncreaseIoCount_s_def
        split: option.splits io_result.splits)
  show ?thesis
  proof (cases over)
    case True
    then show ?thesis using lan_recv_loop_spec [OF s0(2) assms(5,6) fu lp, of 0] s0(1)
      by (simp add: lan_received_def)
  next
    case False
    then obtain r' g' ps where loop: "lan_recv_loop fuel onRecv ptr 0 (s0, g) = Done ((s0\<lparr>recvRing := r'\<rparr>, g'), ps, False)"
      "ring_ok r'" "contents r' = rest" "GetBufferSize r' = RECV_RINGBUFFER_SIZE" "list_all2 (lan_carries (s_id s)) payloads ps"
      "pool_gives g' ptr"
      using lan_recv_loop_spec [OF s0(2) assms(5,6) fu lp, of 0] s0(4,5) by auto
    define s1 where "s1 = s0\<lparr>recvRing := r'\<rparr>"
    obtain s2 b where pr: "lan_postRecv w s1 = (s2, b)" by fastforce
    define s3 where "s3 = lan_decreaseIoCount (if b then s2 else lan_requestRelease s2)"
    have run: "lan_received fuel onRecv ptr w (ws (recvRing s) c) (int (length c)) (s, g) = Done ((s3, g'), ps)"
      using loop(1) s0(1) pr by (auto simp: lan_received_def s3_def s1_def)
    have k: "recvRing s3 = r'" "sendRing s3 = sendRing s" "s_id s3 = s_id s"
      using keep [of s1] keep [of s2] keep [of "lan_requestRelease s2"] pr s0(4,6) by (auto simp: s3_def s1_def)
    show ?thesis using False run k loop assms(2) by (auto simp: rings_ok_def)
  qed
qed

section \<open>A stream of completions\<close>

text \<open>
  The peer's bytes arrive in pieces of the sizes \<open>ns\<close>, each cut to what the ring has room for: the
  session, the packets handed over and the bytes still to come.
\<close>

fun lan_recv_stream :: "(u8 ring \<Rightarrow> bytes \<Rightarrow> bytes) \<Rightarrow> nat \<Rightarrow> (nat \<Rightarrow> netstate \<Rightarrow> netstate) \<Rightarrow> (nat \<Rightarrow> nat option)
    \<Rightarrow> session \<times> netstate \<Rightarrow> bytes \<Rightarrow> nat list \<Rightarrow> ((session \<times> netstate) \<times> packet list \<times> bytes) outcome" where
  "lan_recv_stream ws fuel onRecv ptr sg stream [] = Done (sg, [], stream)"
| "lan_recv_stream ws fuel onRecv ptr (s, g) stream (n # ns) =
     (let c = take (min n (nat (GetFreeSize (recvRing s)))) stream in
      if c = [] then Done ((s, g), [], stream)
      else (case lan_received fuel onRecv ptr Started (ws (recvRing s) c) (int (length c)) (s, g) of
              OutOfFuel \<Rightarrow> OutOfFuel | Fault \<Rightarrow> Fault
            | Done (sg', ps) \<Rightarrow>
                (case lan_recv_stream ws fuel onRecv ptr sg' (drop (length c) stream) ns of
                   Done (sg'', qs, left) \<Rightarrow> Done (sg'', ps @ qs, left)
                 | other \<Rightarrow> other)))"

text \<open>As long as no oversized frame is in the stream, the loop keeps up with what arrived.\<close>

lemma lan_recv_stream_spec:
  assumes "kernel_stores ws" and "keeps_capacity onRecv" and "nat RECV_RINGBUFFER_SIZE < fuel"
    and "rings_ok s" and "pool_gives g ptr" and "lan_stream (contents (recvRing s)) = ([], contents (recvRing s), False)"
    and "lan_stream (contents (recvRing s) @ stream) = (payloads, r0, False)"
  shows "\<exists>s' g' ps left got n. lan_recv_stream ws fuel onRecv ptr (s, g) stream ns = Done ((s', g'), ps, left) \<and>
     stream = got @ left \<and> lan_stream (contents (recvRing s) @ got) = (take n payloads, contents (recvRing s'), False) \<and>
     list_all2 (lan_carries (s_id s)) (take n payloads) ps"
  using assms(4-7)
proof (induction ns arbitrary: s g stream payloads)
  case Nil
  then show ?case by (intro exI [of _ s] exI [of _ g] exI [of _ "[]"] exI [of _ stream] exI [of _ 0]) simp
next
  case (Cons n ns)
  define c where "c = take (min n (nat (GetFreeSize (recvRing s)))) stream"
  have step: "lan_recv_stream ws fuel onRecv ptr (s, g) stream (n # ns) =
     (if c = [] then Done ((s, g), [], stream)
      else (case lan_received fuel onRecv ptr Started (ws (recvRing s) c) (int (length c)) (s, g) of
              OutOfFuel \<Rightarrow> OutOfFuel | Fault \<Rightarrow> Fault
            | Done (sg', ps) \<Rightarrow>
                (case lan_recv_stream ws fuel onRecv ptr sg' (drop (length c) stream) ns of
                   Done (sg'', qs, left) \<Rightarrow> Done (sg'', ps @ qs, left)
                 | other \<Rightarrow> other)))"
    by (simp only: lan_recv_stream.simps Let_def c_def [symmetric])
  show ?case
  proof (cases "c = []")
    case True
    then show ?thesis using step Cons.prems
      by (intro exI [of _ s] exI [of _ g] exI [of _ "[]"] exI [of _ stream] exI [of _ "[]"] exI [of _ 0]) simp
  next
    case False
    have ro: "ring_ok (recvRing s)" using Cons.prems(1) by (simp add: rings_ok_def)
    have "0 \<le> GetFreeSize (recvRing s)"
      using GetUseSize_bounds [OF ro] by (simp add: GetFreeSize_def GetBufferSize_def)
    then have cl: "int (length c) \<le> GetFreeSize (recvRing s)" by (simp add: c_def)
    define more where "more = drop (length c) stream"
    have "take m stream @ drop (length (take m stream)) stream = stream" for m
      by (cases "m \<le> length stream") (simp_all add: min_def)
    then have st: "stream = c @ more" by (simp add: more_def c_def)
    obtain qs1 rest1 over1 where sp: "lan_stream (contents (recvRing s) @ c) = (qs1, rest1, over1)"
      by (metis prod.exhaust)
    have "\<not> over1"
      using lan_stream_append_over [of "contents (recvRing s) @ c" qs1 rest1 more] sp Cons.prems(4) st by (cases over1) auto
    then have sp1: "lan_stream (contents (recvRing s) @ c) = (qs1, rest1, False)" using sp by simp
    obtain payloads2 where p2: "lan_stream (rest1 @ more) = (payloads2, r0, False)" "payloads = qs1 @ payloads2"
      using lan_stream_append [OF sp1, of more] Cons.prems(4) st by (auto split: prod.splits)
    obtain s1 g1 ps1 where r: "lan_received fuel onRecv ptr Started (ws (recvRing s) c) (int (length c)) (s, g) = Done ((s1, g1), ps1)"
      "contents (recvRing s1) = rest1" "rings_ok s1" "s_id s1 = s_id s" "pool_gives g1 ptr"
      "list_all2 (lan_carries (s_id s)) qs1 ps1"
      using lan_received_spec [OF assms(1) Cons.prems(1) False cl Cons.prems(2) assms(2,3) sp1, of Started] by auto
    have idle: "lan_stream (contents (recvRing s1)) = ([], contents (recvRing s1), False)"
      using lan.cut_idem [OF sp1] r(2) by simp
    from Cons.IH [OF r(3,5) idle, of more payloads2] p2(1) r(2)
    obtain s2 g2 ps2 left got m where h: "lan_recv_stream ws fuel onRecv ptr (s1, g1) more ns = Done ((s2, g2), ps2, left)"
      "more = got @ left" "lan_stream (rest1 @ got) = (take m payloads2, contents (recvRing s2), False)"
      "list_all2 (lan_carries (s_id s1)) (take m payloads2) ps2" by auto
    have "lan_stream (contents (recvRing s) @ c @ got) = (qs1 @ take m payloads2, contents (recvRing s2), False)"
      using lan_stream_append [OF sp1, of got] h(3) by simp
    moreover have "take (length qs1 + m) payloads = qs1 @ take m payloads2" by (simp add: p2(2))
    moreover have "list_all2 (lan_carries (s_id s)) (qs1 @ take m payloads2) (ps1 @ ps2)"
      using r(4,6) h(4) by (simp add: list_all2_appendI)
    moreover have "lan_recv_stream ws fuel onRecv ptr (s, g) stream (n # ns) = Done ((s2, g2), ps1 @ ps2, left)"
      using step False r(1) h(1) by (simp add: more_def)
    ultimately show ?thesis using st h(2)
      by (intro exI [of _ s2] exI [of _ g2] exI [of _ "ps1 @ ps2"] exI [of _ left] exI [of _ "c @ got"]
          exI [of _ "length qs1 + m"]) simp
  qed
qed

section \<open>What the LAN client's wire layer promises\<close>

text \<open>
  C27. The LAN client's receive path is correct on frames the packet buffer can take: however TCP cuts
  the byte stream into completions, the packets handed to OnRecv carry the first payloads sent, in
  order and undamaged, and once every byte has arrived they carry all of them and the ring is empty.
\<close>
theorem lan_stream_delivered:
  assumes "kernel_stores ws" and "keeps_capacity onRecv" and "nat RECV_RINGBUFFER_SIZE < fuel"
    and "rings_ok s" and "contents (recvRing s) = []" and "pool_gives g ptr"
    and "\<forall>p \<in> set payloads. length p \<le> LAN_MAX_PAYLOAD"
  shows "\<exists>s' g' ps left n. lan_recv_stream ws fuel onRecv ptr (s, g) (concat (map lan_frame payloads)) ns = Done ((s', g'), ps, left) \<and>
     list_all2 (lan_carries (s_id s)) (take n payloads) ps \<and>
     (left = [] \<longrightarrow> list_all2 (lan_carries (s_id s)) payloads ps \<and> contents (recvRing s') = [])"
proof -
  have e: "lan_stream (contents (recvRing s)) = ([], contents (recvRing s), False)"
    by (simp add: assms(5) lan_stream.simps)
  have w: "lan_stream (contents (recvRing s) @ concat (map lan_frame payloads)) = (payloads, [], False)"
    using lan.cut_frames [of payloads] assms(5,7) by (simp add: list_all_iff)
  from lan_recv_stream_spec [OF assms(1-4,6) e w, of ns]
  obtain s' g' ps left got n where h:
    "lan_recv_stream ws fuel onRecv ptr (s, g) (concat (map lan_frame payloads)) ns = Done ((s', g'), ps, left)"
    "concat (map lan_frame payloads) = got @ left"
    "lan_stream (contents (recvRing s) @ got) = (take n payloads, contents (recvRing s'), False)"
    "list_all2 (lan_carries (s_id s)) (take n payloads) ps" by blast
  then have "take n payloads = payloads \<and> contents (recvRing s') = []" if "left = []"
    using that w by simp
  then show ?thesis using h by metis
qed

text \<open>The monitoring client's \<open>OnRecv\<close> and the pool of the examples.\<close>

lemma keeps_capacity_SubRef_at: "keeps_capacity SubRef_at"
  by (simp add: keeps_capacity_def SubRef_at_def SubRef_def Let_def capacity_def)

lemma sample_pool_gives: "pool_gives sample_net (\<lambda>_. Some 0)"
  by (simp add: pool_gives_def sample_net_def append_bytes_def SetDataSize_def Packet_Init_def Packet_Clear_def
      new_Packet_def capacity_def BUFFER_DEFAULT_def)

lemma new_Session_recv:
  "rings_ok new_Session" "contents (recvRing new_Session) = []" "GetFreeSize (recvRing new_Session) = 4096"
  "contents (sendRing new_Session) = []"
  using new_RingBuffer_ok [of SEND_RINGBUFFER_SIZE "0 :: nat"] empty_recv_ring
  by (simp_all add: rings_ok_def new_Session_def SEND_RINGBUFFER_SIZE_def RECV_RINGBUFFER_SIZE_def)

lemma lan_stream_delivered_witness:
  "\<exists>s' g' ps left n. lan_recv_stream store_segments 5000 SubRef_at (\<lambda>_. Some 0) (new_Session, sample_net)
       (concat (map lan_frame [[1, 2], [], [3]])) [3, 100] = Done ((s', g'), ps, left) \<and>
     list_all2 (lan_carries 0) (take n [[1, 2], [], [3]]) ps \<and>
     (left = [] \<longrightarrow> list_all2 (lan_carries 0) [[1, 2], [], [3]] ps \<and> contents (recvRing s') = [])"
proof -
  have z: "s_id new_Session = 0" by (simp add: new_Session_def)
  have "nat RECV_RINGBUFFER_SIZE < 5000" by (simp add: RECV_RINGBUFFER_SIZE_def)
  from lan_stream_delivered [OF kernel_stores_segments keeps_capacity_SubRef_at this new_Session_recv(1,2) sample_pool_gives,
      of "[[1, 2], [], [3]]" "[3, 100]"]
  show ?thesis unfolding z by (simp add: LAN_MAX_PAYLOAD_def)
qed

text \<open>
  C28. Where the LAN client's receive path leaves its buffers: handling a receive faults exactly when
  the bytes then in the ring contain a complete frame, after frames that fit, whose length field says
  more than 2046. Nothing bounds the field, so the peer decides; every other content is handled
  inside the ring and the packet buffer.
\<close>
theorem lan_receive_faults_iff_oversized:
  assumes "kernel_stores ws" and "rings_ok s" and "c \<noteq> []" and "int (length c) \<le> GetFreeSize (recvRing s)"
    and "pool_gives g ptr" and "keeps_capacity onRecv" and "nat RECV_RINGBUFFER_SIZE < fuel"
  shows "lan_received fuel onRecv ptr w (ws (recvRing s) c) (int (length c)) (s, g) = Fault \<longleftrightarrow>
     snd (snd (lan_stream (contents (recvRing s) @ c)))"
proof -
  obtain payloads rest over where sp: "lan_stream (contents (recvRing s) @ c) = (payloads, rest, over)"
    by (metis prod.exhaust)
  then show ?thesis using lan_received_spec [OF assms sp, of w] by (cases over) auto
qed

definition lan_attack_bytes :: bytes where
  "lan_attack_bytes = [0xFF, 0x07] @ replicate 2047 0xAA"

lemma lan_receive_faults_iff_oversized_witness:
  "lan_received 5000 SubRef_at (\<lambda>_. Some 0) Started (store_segments (recvRing new_Session) lan_attack_bytes)
     (int (length lan_attack_bytes)) (new_Session, sample_net) = Fault"
proof -
  define tail :: bytes where "tail = replicate 2047 0xAA"
  have a: "lan_attack_bytes = [0xFF, 0x07] @ tail" "length tail = 2047"
    by (simp_all only: lan_attack_bytes_def tail_def length_replicate)
  have n: "lan_len lan_attack_bytes = 2047"
  proof -
    have "take 2 lan_attack_bytes = [0xFF, 0x07]" by (simp add: a(1))
    moreover have "unat (le_word [0xFF, 0x07 :: u8] :: u16) = 2047" by code_simp
    ultimately show ?thesis by (simp only: lan_len_def)
  qed
  have l: "length lan_attack_bytes = 2049" by (simp add: a)
  then have ne: "lan_attack_bytes \<noteq> []" by auto
  have over: "snd (snd (lan_stream (contents (recvRing new_Session) @ lan_attack_bytes)))"
    using n l by (subst lan_stream.simps) (simp add: new_Session_recv(2) LAN_MAX_PAYLOAD_def)
  have fit: "int (length lan_attack_bytes) \<le> GetFreeSize (recvRing new_Session)" by (simp add: l new_Session_recv(3))
  have fuel: "nat RECV_RINGBUFFER_SIZE < 5000" by (simp add: RECV_RINGBUFFER_SIZE_def)
  show ?thesis
    using lan_receive_faults_iff_oversized [OF kernel_stores_segments new_Session_recv(1) ne fit sample_pool_gives
        keeps_capacity_SubRef_at fuel, of Started] over by blast
qed

end
