(* ===== verification/Lan_Safety.thy ===== *)
theory Lan_Safety
  imports Lan_Framing
begin

text \<open>
  What the operations of the LAN client do to its session: the reference count and the queued
  release, the send machinery, the packet references and the bytes on the wire. In the states the
  client reaches on its own the operations agree with those of the server core, from which most facts
  are taken over; the exceptions are a failed \<open>WSASend\<close>, which keeps the session, and a
  reconnection with operations of the old socket outstanding.
\<close>

section \<open>Agreement with the server core\<close>

lemma lan_decreaseIoCount_eq:
  assumes "counts (Suc e) s"
  shows "lan_decreaseIoCount s = decreaseSessionIoCount_s s"
proof -
  from assms obtain f where f: "s_control s = SessionControl (of_nat (io_count s + Suc e)) f"
    "io_count s + Suc e < 2 ^ 32" by (elim countsE)
  have "(of_nat (io_count s + Suc e) :: u32) \<noteq> 0" using of_nat_u32_eq_0 [OF f(2)] by simp
  then have "ctl_ioCount (s_control s) \<noteq> 0" by (simp only: f(1) ctl_SessionControl not_False_eq_True)
  then show ?thesis
    by (simp add: lan_decreaseIoCount_def decreaseSessionIoCount_s_def decreaseSessionIoCount_def Let_def)
qed

lemma lan_requestRelease_eq: "lan_requestRelease s = fst (requestRelease r (s, g))"
  by (simp add: lan_requestRelease_def requestRelease_def split: option.splits)

lemma lan_requestRelease_counts:
  assumes "counts e s"
  shows "counts e (lan_requestRelease s)" "released (lan_requestRelease s)" "ctl_upd s (lan_requestRelease s)"
    "k_recv (lan_requestRelease s) = k_recv s"
proof -
  define g :: netstate where "g = sample_net"
  obtain s' g' where rr: "requestRelease PeerClose (s, g) = (s', g')" by fastforce
  have eq: "lan_requestRelease s = s'" by (simp add: lan_requestRelease_eq [of s PeerClose g] rr)
  show "counts e (lan_requestRelease s)" "released (lan_requestRelease s)" "ctl_upd s (lan_requestRelease s)"
    using requestRelease_counts [OF assms rr] requestRelease_ctl [OF rr] eq by auto
  show "k_recv (lan_requestRelease s) = k_recv s"
    using requestRelease_counts(3) [OF assms rr] eq by auto
qed

lemma lan_decrease_counts:
  assumes "counts (Suc e) s"
  shows "counts e (lan_decreaseIoCount s)" "released (lan_decreaseIoCount s) \<longleftrightarrow> released s"
    "ctl_upd s (lan_decreaseIoCount s)" "k_recv (lan_decreaseIoCount s) = k_recv s"
  using decrease_s_counts [OF assms] decrease_s_ctl [of s] by (auto simp: lan_decreaseIoCount_eq [OF assms])

lemma lan_release_and_decrease:
  assumes "counts (Suc e) s"
  shows "counts e (lan_decreaseIoCount (lan_requestRelease s))" "released (lan_decreaseIoCount (lan_requestRelease s))"
    "ctl_upd s (lan_decreaseIoCount (lan_requestRelease s))" "k_recv (lan_decreaseIoCount (lan_requestRelease s)) = k_recv s"
  using lan_requestRelease_counts [OF assms] lan_decrease_counts [OF lan_requestRelease_counts(1) [OF assms]]
  by (auto intro: ctl_upd_trans)

lemma lan_postRecv_spec:
  assumes "counts e s" and "e < 2 ^ 30" and "\<not> k_recv s" and "lan_postRecv w s = (s', b)"
  shows "counts e s'" "released s \<longrightarrow> released s'" "ctl_upd s s'" "k_recv s' \<longleftrightarrow> b" "\<not> b \<longrightarrow> released s'"
proof -
  have "counts e s' \<and> (released s \<longrightarrow> released s') \<and> ctl_upd s s' \<and> (k_recv s' \<longleftrightarrow> b) \<and> (\<not> b \<longrightarrow> released s')"
  proof (cases "IncreaseIoCount_s s")
    case None
    then have "released s" using IncreaseIoCount_s_spec [OF assms(1,2)] by (auto split: if_splits)
    with None assms show ?thesis by (auto simp: lan_postRecv_def intro: ctl_updI)
  next
    case (Some s1)
    note i = IncreaseIoCount_s_counts [OF assms(1,2) Some] and ic = IncreaseIoCount_s_ctl [OF Some]
    have r1: "\<not> k_recv s1" using i(4) assms(3) by auto
    show ?thesis
    proof (cases "fst (GetEnqueueSegments (recvRing s1)) \<noteq> 0 \<and> w = Started")
      case True
      then have e: "s' = s1\<lparr>k_recv := True\<rparr>" "b" using Some assms(4) by (auto simp: lan_postRecv_def)
      have "io_count s' = Suc (io_count s1)" using r1 by (simp add: e io_count_def)
      then have "counts e s'" using i(1,3) e by (auto simp: counts_def released_def)
      then show ?thesis using e i ic by (auto intro: ctl_upd_trans ctl_updI)
    next
      case False
      then have "s' = lan_decreaseIoCount (lan_requestRelease s1)" "\<not> b"
        using Some assms(4) by (auto simp: lan_postRecv_def split: if_splits io_result.splits)
      with lan_release_and_decrease [OF i(1)] r1 ic show ?thesis by (auto intro: ctl_upd_trans)
    qed
  qed
  then show "counts e s'" "released s \<longrightarrow> released s'" "ctl_upd s s'" "k_recv s' \<longleftrightarrow> b" "\<not> b \<longrightarrow> released s'" by blast+
qed

section \<open>Sending\<close>

text \<open>
  Of the packets that wait, the first \<open>m\<close> leave the ring and the first \<open>n\<close> reach the wire.
\<close>

lemma lan_postSend_spec:
  assumes "counts e s" and "e < 2 ^ 30" and "rings_ok s" and "send_pre s"
  obtains s' g' b m n where "lan_postSend w (s, g) = Some ((s', g'), b)" "counts e s'" "rings_ok s'" "send_pre s'"
    "same_session s s'" "released s' \<longleftrightarrow> released s" "k_recv s' = k_recv s"
    "\<And>p. refcnt g' p - owned s' p = refcnt g p - owned s p" "same_bytes g g'"
    "contents (sendRing s') = drop m (contents (sendRing s))"
    "k_wire s' = k_wire s @ concat (map (\<lambda>p. written (heap g p)) (take n (contents (sendRing s))))"
    "sendFlag s = 0 \<longrightarrow> m = MAX_SEND_PACKET" "sendFlag s = 0 \<and> b \<longrightarrow> n = MAX_SEND_PACKET"
    "\<not> b \<longrightarrow> n = 0 \<and> sendFlag s' = 0 \<and> \<not> k_send s'" "w = Started \<and> \<not> released s \<longrightarrow> b"
proof (cases "sendFlag s = 0")
  case False
  then have "lan_postSend w (s, g) = Some ((s, g), True)" by (simp add: lan_postSend_def)
  then show ?thesis using assms False by (intro that [of s g True 0 0]) simp_all
next
  case True
  let ?c = "contents (sendRing s)"
  from assms(3) have ro: "ring_ok (sendRing s)" by (simp add: rings_ok_def)
  obtain ring' where pop: "pop_upto DequeueItem MAX_SEND_PACKET (sendRing s) = Some (ring', take MAX_SEND_PACKET ?c)"
    "ring_ok ring'" "contents ring' = drop MAX_SEND_PACKET ?c"
    using send_ring.pop_upto_spec [OF ro] by blast
  have cap: "GetBufferSize ring' = GetBufferSize (sendRing s)" using pop_upto_size [OF pop(1)] .
  define s1 where "s1 = s\<lparr>sendFlag := 1, sendRing := ring', sentPackets := take MAX_SEND_PACKET ?c\<rparr>"
  have io: "io_count s1 = io_count s" "released s1 \<longleftrightarrow> released s" "\<not> k_send s"
    using assms(4) True by (auto simp: s1_def io_count_def released_def send_pre_def)
  have c1: "counts e s1" using assms(1) by (simp add: counts_def io_count_def released_def s1_def)
  have r1: "rings_ok s1" using assms(3) pop cap by (simp add: s1_def rings_ok_def)
  have o1: "int (count_list (drop MAX_SEND_PACKET ?c) p) + int (count_list (take MAX_SEND_PACKET ?c) p) = owned s p" for p
    using io(3) count_list_take_drop [of MAX_SEND_PACKET ?c p] by (simp add: owned_def)
  have given: "refcnt (SubRef_all (take MAX_SEND_PACKET ?c) g) p - int (count_list (drop MAX_SEND_PACKET ?c) p) = refcnt g p - owned s p" for p
    using o1 [of p] by (simp add: refcnt_SubRef_all)
  have def_: "lan_postSend w (s, g) =
      (if take MAX_SEND_PACKET ?c = [] then Some ((s1\<lparr>sendFlag := 0\<rparr>, g), True)
       else (case IncreaseIoCount_s s1 of
             None \<Rightarrow> Some ((s1\<lparr>sentPackets := [], sendFlag := 0\<rparr>, SubRef_all (take MAX_SEND_PACKET ?c) g), False)
           | Some s2 \<Rightarrow>
               (case w of
                  Failed \<Rightarrow>
                    (let s3 = lan_decreaseIoCount (s2\<lparr>sentPackets := []\<rparr>)
                     in Some ((s3\<lparr>sendFlag := 0\<rparr>, SubRef_all (take MAX_SEND_PACKET ?c) g), False))
                | Started \<Rightarrow>
                    Some ((s2\<lparr>k_send := True,
                        k_wire := k_wire s2 @ concat (map (\<lambda>p. written (heap g p)) (take MAX_SEND_PACKET ?c))\<rparr>, g), True))))"
    using True by (simp only: lan_postSend_def s1_def Let_def prod.case pop(1) bind.simps refl simp_thms if_False)
  show ?thesis
  proof (cases "?c = []")
    case c0: True
    have "send_pre (s1\<lparr>sendFlag := 0\<rparr>)" using c0 io by (simp add: send_pre_def s1_def)
    then show ?thesis using c0 c1 r1 o1 def_ pop(3) io by (intro that [of "s1\<lparr>sendFlag := 0\<rparr>" g True MAX_SEND_PACKET MAX_SEND_PACKET])
        (auto simp: counts_def io_count_def released_def s1_def same_session_def owned_def MAX_SEND_PACKET_def rings_ok_def)
  next
    case False
    then have ne: "take MAX_SEND_PACKET ?c \<noteq> []" by (simp add: MAX_SEND_PACKET_def)
    show ?thesis
    proof (cases "released s")
      case rel: True
      have "IncreaseIoCount_s s1 = None" using IncreaseIoCount_s_spec [OF c1 assms(2)] rel io by simp
      then have eq: "lan_postSend w (s, g) =
          Some ((s1\<lparr>sentPackets := [], sendFlag := 0\<rparr>, SubRef_all (take MAX_SEND_PACKET ?c) g), False)"
        using def_ ne by simp
      let ?s' = "s1\<lparr>sentPackets := [], sendFlag := 0\<rparr>"
      have "counts e ?s'" using c1 by (simp add: counts_def io_count_def released_def)
      moreover have "send_pre ?s'" "released ?s' \<longleftrightarrow> released s" "k_recv ?s' = k_recv s" "same_session s ?s'"
        using rel io by (simp_all add: send_pre_def s1_def released_def same_session_def)
      moreover have "refcnt (SubRef_all (take MAX_SEND_PACKET ?c) g) p - owned ?s' p = refcnt g p - owned s p" for p
        using given [of p] pop(3) io(3) by (simp add: owned_def s1_def)
      moreover have "contents (sendRing ?s') = drop MAX_SEND_PACKET ?c" "k_wire ?s' = k_wire s" "\<not> k_send ?s'"
        using pop(3) io(3) by (simp_all add: s1_def)
      ultimately show ?thesis using eq r1
        by (intro that [of ?s' "SubRef_all (take MAX_SEND_PACKET ?c) g" False MAX_SEND_PACKET 0])
          (simp_all add: same_bytes_SubRef_all rel)
    next
      case nrel: False
      define s2 where "s2 = s1\<lparr>s_control := SessionControl (of_nat (io_count s1 + e + 1)) 0\<rparr>"
      have inc: "IncreaseIoCount_s s1 = Some s2"
        using IncreaseIoCount_s_spec [OF c1 assms(2)] nrel io by (simp add: s2_def)
      note c2 = IncreaseIoCount_s_counts [OF c1 assms(2) inc]
      show ?thesis
      proof (cases w)
        case Started
        let ?s' = "s2\<lparr>k_send := True, k_wire := k_wire s2 @ concat (map (\<lambda>p. written (heap g p)) (take MAX_SEND_PACKET ?c))\<rparr>"
        have "io_count ?s' = Suc (io_count s)" using io by (simp add: io_count_def s2_def s1_def)
        then have "counts e ?s'" using c2(1,3) io assms(2)
          by (auto simp: counts_def released_def s2_def s1_def io_count_def)
        moreover have "send_pre ?s'" using ne nrel io by (simp add: send_pre_def s2_def s1_def)
        moreover have "owned ?s' p = owned s p" for p
          using o1 [of p] pop(3) by (simp add: owned_def s2_def s1_def)
        ultimately show ?thesis using def_ ne inc Started r1 c2(3) nrel pop(3)
          by (intro that [of ?s' g True MAX_SEND_PACKET MAX_SEND_PACKET]) (simp_all add: s2_def s1_def same_session_def released_def)
      next
        case Failed
        have c2': "counts (Suc e) (s2\<lparr>sentPackets := []\<rparr>)"
          using c2(1) by (simp add: counts_def released_def io_count_def)
        define s3 where "s3 = lan_decreaseIoCount (s2\<lparr>sentPackets := []\<rparr>)"
        note d = lan_decrease_counts [OF c2', folded s3_def]
        note k = ctl_upd_keeps [OF d(3)]
        let ?s' = "s3\<lparr>sendFlag := 0\<rparr>"
        have eq: "lan_postSend w (s, g) = Some ((?s', SubRef_all (take MAX_SEND_PACKET ?c) g), False)"
          using def_ ne inc Failed by (simp add: s3_def)
        have "counts e ?s'" using d(1) by (simp add: counts_def released_def io_count_def)
        moreover have "released ?s' \<longleftrightarrow> released s" using d(2) c2(3) nrel by (simp add: released_def)
        moreover have "\<not> k_send ?s'" using k(6) io(3) by (simp add: s2_def s1_def)
        moreover have "send_pre ?s'" using k io(3) by (simp add: send_pre_def s2_def s1_def)
        moreover have "rings_ok ?s'" using k(1) r1 by (simp add: s2_def rings_ok_upd)
        moreover have "same_session s ?s'" using k(3) by (simp add: same_session_def s2_def s1_def)
        moreover have "k_recv ?s' = k_recv s" using d(4) by (simp add: s2_def s1_def)
        moreover have "contents (sendRing ?s') = drop MAX_SEND_PACKET ?c" "k_wire ?s' = k_wire s"
          using k(5,8) pop(3) by (simp_all add: s2_def s1_def)
        moreover have "refcnt (SubRef_all (take MAX_SEND_PACKET ?c) g) p - owned ?s' p = refcnt g p - owned s p" for p
          using given [of p] k(5,6) pop(3) io(3) by (simp add: owned_def s2_def s1_def)
        ultimately show ?thesis using eq Failed
          by (intro that [of ?s' "SubRef_all (take MAX_SEND_PACKET ?c) g" False MAX_SEND_PACKET 0])
            (simp_all add: same_bytes_SubRef_all)
      qed
    qed
  qed
qed

section \<open>The invariant of the client\<close>

text \<open>
  Connected: the session is in order, and listens unless it is being shut down. Otherwise nothing is
  under way and nothing waits, so that the next \<open>Connect\<close> starts afresh. \<open>leak lc p\<close>: the references on
  \<open>p\<close> that the session does not account for.
\<close>

definition lan_ok :: "lan_client \<Rightarrow> bool" where
  "lan_ok lc \<longleftrightarrow> rings_ok (mSession lc) \<and> k_stale lc = [] \<and>
     (if mIsConnected lc
      then s_socket (mSession lc) \<noteq> None \<and> mSocket lc = s_socket (mSession lc) \<and> s_state (mSession lc) = Connected \<and> counts 0 (mSession lc) \<and>
        send_pre (mSession lc) \<and> (\<not> released (mSession lc) \<longrightarrow> k_recv (mSession lc))
      else \<not> k_recv (mSession lc) \<and> \<not> k_send (mSession lc) \<and> k_release (mSession lc) = 0 \<and>
        contents (sendRing (mSession lc)) = [])"

definition leak :: "lan_client \<Rightarrow> nat \<Rightarrow> int" where
  "leak lc p = refcnt (lan_net lc) p - owned (mSession lc) p"

lemma lan_ok_ctl_upd:
  assumes "lan_ok lc" and "mIsConnected lc" and "ctl_upd (mSession lc) s" and "counts 0 s"
    and "released (mSession lc) \<longrightarrow> released s" and "\<not> released s \<longrightarrow> k_recv s"
  shows "lan_ok (lc\<lparr>mSession := s\<rparr>)"
  using assms ctl_upd_keeps [OF assms(3)] ctl_upd_send(2) [OF assms(3,5)]
  by (simp add: lan_ok_def same_session_def)

lemma lan_set_header_spec:
  assumes "packet_ok pk" and "capacity pk = BUFFER_DEFAULT" and "2 \<le> mDataSize pk"
  obtains pk' where "lan_set_header pk = Some pk'" "written pk' = lan_frame (drop 2 (written pk))"
    "packet_ok pk'" "capacity pk' = BUFFER_DEFAULT" "mRefCnt pk' = mRefCnt pk" "mDataSize pk' = mDataSize pk"
proof -
  have l: "length (mStorage pk) = 2048" "mDataSize pk \<le> 2048" using assms(1,2) by (auto simp: capacity_def BUFFER_DEFAULT_def)
  define pk' where "pk' = pk\<lparr>mStorage := overwrite (mStorage pk) 0 (le_bytes 2 (word_of_int (mDataSize pk - 2) :: u16))\<rparr>"
  have run: "lan_set_header pk = Some pk'"
    using l by (simp add: lan_set_header_def LAN_HEADER_SIZE_def Let_def mem_simps pk'_def)
  define n where "n = nat (mDataSize pk)"
  have n: "2 \<le> n" "n \<le> 2048" "mDataSize pk = int n" using assms(3) l by (auto simp: n_def)
  have len: "length (drop 2 (written pk)) = n - 2" using n l by (simp add: written_def)
  have w: "(word_of_int (int n - 2) :: u16) = of_nat (n - 2)"
    using n(1) by (simp add: of_nat_diff)
  have "written pk' = le_bytes 2 (of_nat (n - 2) :: u16) @ drop 2 (take n (mStorage pk))"
    using n l by (simp add: written_def pk'_def overwrite_def w drop_take numeral_2_eq_2)
  also have "\<dots> = lan_frame (drop 2 (written pk))"
    unfolding lan_frame_def len by (simp add: written_def n(3))
  finally have wr: "written pk' = lan_frame (drop 2 (written pk))" .
  have "length (mStorage pk') = 2048" using l by (simp add: pk'_def)
  then show ?thesis using run wr assms l by (intro that [of pk']) (auto simp: pk'_def packet_ok_def capacity_def)
qed

lemma SubRef_AddRef: "SubRef_at p (AddRef_at p g) = g\<lparr>freed := (if mRefCnt (heap g p) = 0 then freed g @ [p] else freed g)\<rparr>"
  by (simp add: SubRef_at_def AddRef_at_def SubRef_def AddRef_def Let_def fun_eq_iff)

text \<open>
  Sending: \<open>xs\<close> are the packets that wait when \<open>postSend\<close> runs; \<open>m\<close> of them leave the ring and \<open>n\<close>
  reach the wire.
\<close>

lemma lan_SendPacket_spec:
  assumes "lan_ok lc" and "packet_ok (heap (lan_net lc) p)" and "capacity (heap (lan_net lc) p) = BUFFER_DEFAULT"
    and "2 \<le> mDataSize (heap (lan_net lc) p)"
  defines "s \<equiv> mSession lc" and "h \<equiv> heap (lan_net lc)"
  obtains "lan_SendPacket p w lc = Some (lc, False, [])" "\<not> mIsConnected lc \<or> released s"
  | lc' b cbs pk xs m n where "lan_SendPacket p w lc = Some (lc', b, cbs)" "lan_ok lc'" "mIsConnected lc" "mIsConnected lc'"
    "\<not> released s" "leak lc' = leak lc" "s_id (mSession lc') = s_id s"
    "lan_set_header (h p) = Some pk" "same_bytes ((lan_net lc)\<lparr>heap := h(p := pk)\<rparr>) (lan_net lc')"
    "xs = contents (sendRing s) @ [p] \<or> xs = contents (sendRing s) \<and> SEND_RINGBUFFER_SIZE \<le> int (length xs)"
    "contents (sendRing (mSession lc')) = drop m xs"
    "k_wire (mSession lc') = k_wire s @ concat (map (\<lambda>q. written ((h(p := pk)) q)) (take n xs))"
    "sendFlag s = 0 \<longrightarrow> m = MAX_SEND_PACKET" "sendFlag s = 0 \<and> b \<longrightarrow> n = MAX_SEND_PACKET"
    "\<not> b \<longrightarrow> n = 0 \<and> sendFlag (mSession lc') = 0 \<and> \<not> k_send (mSession lc')" "w = Started \<longrightarrow> b"
proof (cases "mIsConnected lc \<and> \<not> released s")
  case False
  have "lan_SendPacket p w lc = Some (lc, False, [])"
  proof (cases "mIsConnected lc")
    case True
    then have "counts 0 s" "released s" using assms(1) False by (auto simp: lan_ok_def s_def)
    then have "IncreaseIoCount_s s = None" using IncreaseIoCount_s_spec [of 0 s] by simp
    then show ?thesis using True by (simp add: lan_SendPacket_def s_def)
  qed (simp add: lan_SendPacket_def)
  then show ?thesis using that(1) False by blast
next
  case True
  have lv: "counts 0 s" "rings_ok s" "send_pre s" "k_recv s" using assms(1) True by (auto simp: lan_ok_def s_def)
  obtain s1 where inc: "IncreaseIoCount_s s = Some s1" using IncreaseIoCount_s_spec [OF lv(1)] True by simp
  note i1 = IncreaseIoCount_s_counts [OF lv(1) _ inc] and ic = IncreaseIoCount_s_ctl [OF inc]
  note k1 = ctl_upd_keeps [OF ic]
  have c1: "counts (Suc 0) s1" "\<not> released s1" using i1 by auto
  obtain pk where pk: "lan_set_header (h p) = Some pk" "mRefCnt pk = mRefCnt (h p)"
    using lan_set_header_spec [OF assms(2-4)] by (auto simp: h_def)
  define g0 where "g0 = (lan_net lc)\<lparr>heap := h(p := pk)\<rparr>"
  have rc0: "refcnt g0 q = refcnt (lan_net lc) q" for q using pk(2) by (simp add: g0_def refcnt_def h_def)
  have ro: "ring_ok (sendRing s1)" "GetBufferSize (sendRing s1) = SEND_RINGBUFFER_SIZE" using lv(2) k1 by (simp_all add: rings_ok_def)
  define room where "room \<longleftrightarrow> int (length (contents (sendRing s1))) < GetBufferSize (sendRing s1)"
  define r' where "r' = (if room then store_rear (sendRing s1) [p] else sendRing s1)"
  define g2 where "g2 = (if room then AddRef_at p g0 else SubRef_at p (AddRef_at p g0))"
  define xs where "xs = contents r'"
  define s2 where "s2 = s1\<lparr>sendRing := r'\<rparr>"
  have enq: "EnqueueItem (sendRing s1) p = Some (r', room)"
    using EnqueueItem_spec [OF ro(1)] by (simp add: r'_def room_def)
  have r': "ring_ok r'" "GetBufferSize r' = SEND_RINGBUFFER_SIZE"
    "xs = contents (sendRing s) @ [p] \<and> room \<or> xs = contents (sendRing s) \<and> \<not> room"
  proof -
    show "ring_ok r'" "GetBufferSize r' = SEND_RINGBUFFER_SIZE"
      "xs = contents (sendRing s) @ [p] \<and> room \<or> xs = contents (sendRing s) \<and> \<not> room"
      using store_rear_ok [OF ro(1), of "[p]"] ro k1(5) GetFreeSize_eq [OF ro(1)] by (auto simp: r'_def xs_def room_def)
  qed
  have o2: "refcnt g2 q - owned s2 q = leak lc q" for q
    using r'(3) rc0 [of q] k1(5,6,9) by (auto simp: leak_def s_def [symmetric] owned_def s2_def g2_def xs_def
        refcnt_AddRef_at refcnt_SubRef_at)
  have sb: "same_bytes g0 g2" using same_bytes_trans [OF same_bytes_AddRef_at same_bytes_SubRef_at] same_bytes_AddRef_at
    by (simp add: g2_def)
  have c2: "counts (Suc 0) s2" "\<not> released s2" using c1 by (simp_all add: s2_def counts_def io_count_def released_def)
  have r2: "rings_ok s2" using lv(2) k1 r' by (simp add: rings_ok_def s2_def)
  have "send_pre s1" using ctl_upd_send(2) [OF ic] lv(3) True by blast
  then have p2: "send_pre s2" by (simp add: send_pre_def released_def s2_def)
  obtain s3 g3 b m n where ps: "lan_postSend w (s2, g2) = Some ((s3, g3), b)" "counts (Suc 0) s3" "rings_ok s3" "send_pre s3"
    "same_session s2 s3" "released s3 \<longleftrightarrow> released s2" "k_recv s3 = k_recv s2"
    "\<And>q. refcnt g3 q - owned s3 q = refcnt g2 q - owned s2 q" "same_bytes g2 g3"
    "contents (sendRing s3) = drop m (contents (sendRing s2))"
    "k_wire s3 = k_wire s2 @ concat (map (\<lambda>p. written (heap g2 p)) (take n (contents (sendRing s2))))"
    "sendFlag s2 = 0 \<longrightarrow> m = MAX_SEND_PACKET" "sendFlag s2 = 0 \<and> b \<longrightarrow> n = MAX_SEND_PACKET"
    "\<not> b \<longrightarrow> n = 0 \<and> sendFlag s3 = 0 \<and> \<not> k_send s3" "w = Started \<and> \<not> released s2 \<longrightarrow> b"
    by (rule lan_postSend_spec [OF c2(1) _ r2 p2, of w g2]) (simp, blast)
  define s4 where "s4 = lan_decreaseIoCount s3"
  note d = lan_decrease_counts [OF ps(2), folded s4_def]
  note k4 = ctl_upd_keeps [OF d(3)]
  define lc' where "lc' = lc\<lparr>mSession := s4, lan_net := g3\<rparr>"
  define cbs where "cbs = (if b then [OnSend (s_id s3) (mDataSize (heap g3 p))] else [])"
  have run: "lan_SendPacket p w lc = Some (lc', b, cbs)"
    using True inc pk(1) enq ps(1)
    by (cases room) (simp_all add: lan_SendPacket_def s_def [symmetric] h_def [symmetric] g0_def [symmetric] g2_def
        s2_def [symmetric] lc'_def s4_def cbs_def Let_def)
  have rec: "k_recv s4" using d(4) ps(7) lv(4) i1(4) by (auto simp: s2_def)
  have ss: "same_session s s4" using k1(3) ps(5) k4(3) by (simp add: same_session_def s2_def)
  have send4: "send_pre s4" using ctl_upd_send(2) [OF d(3) _ ps(4)] d(2) by blast
  have ok: "lan_ok lc'"
    using assms(1) True ss d(1) send4 rec k4(1) ps(3) by (simp add: lan_ok_def lc'_def same_session_def s_def)
  have lk: "leak lc' = leak lc"
    using ps(8) o2 k4(2) by (auto simp: leak_def lc'_def fun_eq_iff)
  have wr: "written (heap g2 q) = written ((h(p := pk)) q)" for q
    using sb by (simp add: same_bytes_def g0_def)
  show ?thesis
  proof (rule that(2) [of lc' b cbs pk xs m n])
    show "lan_SendPacket p w lc = Some (lc', b, cbs)" "lan_ok lc'" "leak lc' = leak lc" "lan_set_header (h p) = Some pk"
      by (rule run, rule ok, rule lk, rule pk(1))
    show "mIsConnected lc" "mIsConnected lc'" "\<not> released s" using True by (simp_all add: lc'_def)
    show "s_id (mSession lc') = s_id s" using ss by (simp add: lc'_def same_session_def)
    show "same_bytes ((lan_net lc)\<lparr>heap := h(p := pk)\<rparr>) (lan_net lc')"
      using same_bytes_trans [OF sb ps(9)] by (simp add: lc'_def g0_def)
    show "xs = contents (sendRing s) @ [p] \<or> xs = contents (sendRing s) \<and> SEND_RINGBUFFER_SIZE \<le> int (length xs)"
      using r'(3) ro(2) k1(5) by (auto simp: room_def)
    show "contents (sendRing (mSession lc')) = drop m xs" using ps(10) k4(5) by (simp add: lc'_def s2_def xs_def)
    show "k_wire (mSession lc') = k_wire s @ concat (map (\<lambda>q. written ((h(p := pk)) q)) (take n xs))"
      using ps(11) k4(8) k1(8) by (simp add: lc'_def s2_def xs_def wr)
    show "sendFlag s = 0 \<longrightarrow> m = MAX_SEND_PACKET" "sendFlag s = 0 \<and> b \<longrightarrow> n = MAX_SEND_PACKET"
      using ps(12,13) k1(7) by (simp_all add: s2_def)
    show "\<not> b \<longrightarrow> n = 0 \<and> sendFlag (mSession lc') = 0 \<and> \<not> k_send (mSession lc')"
      using ps(14) k4(6,7) by (simp add: lc'_def)
    show "w = Started \<longrightarrow> b" using ps(15) c2(2) by simp
  qed
qed

section \<open>Connecting, receiving and releasing\<close>

text \<open>Nothing was sent on the connection yet.\<close>

definition lan_fresh :: "session \<Rightarrow> bool" where
  "lan_fresh s \<longleftrightarrow> k_wire s = [] \<and> contents (sendRing s) = [] \<and> sendFlag s = 0 \<and> \<not> k_send s"

lemma lan_Connect_ok:
  assumes "lan_ok lc" and "lan_Connect (\<lambda>x. x) sock conn registered w lc = (lc', b)"
  shows "lan_ok lc'" "leak lc' = leak lc" "lan_net lc' = lan_net lc" "mIsConnected lc' \<longleftrightarrow> mIsConnected lc \<or> b"
    "mIsConnected lc \<Longrightarrow> lc' = lc \<and> \<not> b"
    "b \<Longrightarrow> lan_fresh (mSession lc') \<and> s_id (mSession lc') = 1"
    "mSession lc' = mSession lc \<or> lan_fresh (mSession lc')"
proof -
  define P where "P lc' b \<longleftrightarrow> lan_ok lc' \<and> leak lc' = leak lc \<and> lan_net lc' = lan_net lc \<and>
    (mIsConnected lc' \<longleftrightarrow> mIsConnected lc \<or> b) \<and> (mIsConnected lc \<longrightarrow> lc' = lc \<and> \<not> b) \<and>
    (b \<longrightarrow> lan_fresh (mSession lc') \<and> s_id (mSession lc') = 1) \<and>
    (mSession lc' = mSession lc \<or> lan_fresh (mSession lc'))" for lc' b
  have "P lc' b"
  proof (cases "mIsConnected lc")
    case True
    then show ?thesis using assms by (simp add: lan_Connect_def P_def)
  next
    case False
    note nc = this
    let ?s = "mSession lc"
    have q: "rings_ok ?s" "k_stale lc = []" "\<not> k_recv ?s" "\<not> k_send ?s" "k_release ?s = 0" "contents (sendRing ?s) = []"
      using assms(1) False by (auto simp: lan_ok_def)
    have P0: "P (lc\<lparr>mSocket := x\<rparr>) False" for x
      using assms(1) nc by (simp add: P_def lan_ok_def leak_def fun_eq_iff)
    show ?thesis
    proof (cases "sock = None \<or> \<not> conn")
      case True
      then show ?thesis using assms(2) nc P0 by (auto simp: lan_Connect_def Let_def split: option.splits)
    next
      case False
      then obtain k where k: "sock = Some k" and c: conn by auto
      define s where "s = (Session_Init ?s)\<lparr>s_socket := Some k, s_id := 1, s_state := Connected,
                          k_recv := False, k_send := False, k_wire := []\<rparr>"
      have lo: "lan_left_over ?s = []" using q by (simp add: lan_left_over_def)
      have cb: "ring_ok (ClearBuffer (recvRing ?s))" "ring_ok (ClearBuffer (sendRing ?s))"
        "contents (ClearBuffer (sendRing ?s)) = []" "GetBufferSize (ClearBuffer (recvRing ?s)) = RECV_RINGBUFFER_SIZE"
        "GetBufferSize (ClearBuffer (sendRing ?s)) = SEND_RINGBUFFER_SIZE"
        using ClearBuffer_ok [of "recvRing ?s"] ClearBuffer_ok [of "sendRing ?s"] q(1) by (auto simp: rings_ok_def)
      have r: "rings_ok s" "contents (sendRing s) = []" "\<not> k_recv s" "\<not> k_send s" "k_release s = 0" "k_wire s = []"
        "sendFlag s = 0" "sentPackets s = []" "s_id s = 1" "s_state s = Connected" "s_socket s = Some k"
        using cb q by (simp_all add: s_def rings_ok_def Session_Init_def)
      have o: "owned ?s p = 0" "owned (s\<lparr>s_control := c', k_recv := x, s_socket := y\<rparr>) p = 0"
        "owned (s\<lparr>s_control := c', k_recv := x\<rparr>) p = 0" "owned s p = 0" "owned (s\<lparr>s_control := c'\<rparr>) p = 0"
        "owned (s\<lparr>s_socket := y, s_control := c'\<rparr>) p = 0" for p c' x y
        using q r by (simp_all add: owned_def)
      define t where "t = s\<lparr>s_control := 1\<rparr>"
      have one: "(1 :: u64) = SessionControl 1 0" by (simp add: SessionControl_def)
      have ct: "counts 0 (t\<lparr>k_recv := True\<rparr>)" "\<not> released (t\<lparr>k_recv := True\<rparr>)"
        using r(4,5) by (simp_all add: counts_def released_def io_count_def t_def one)
      have run: "(lc', b) =
        (if \<not> registered then (lc\<lparr>mSession := s, mSocket := None, k_stale := []\<rparr>, False)
         else (case lan_postRecvInitial w t of
                 (s', True) \<Rightarrow> (lc\<lparr>mSession := s', mSocket := Some k, mIsConnected := True, k_stale := []\<rparr>, True)
               | (s', False) \<Rightarrow> (lc\<lparr>mSession := s'\<lparr>s_socket := None, s_control := 0\<rparr>, mSocket := None,
                     mIsConnected := False, k_stale := []\<rparr>, False)))"
      proof -
        have "mSession (lc\<lparr>mSocket := None, mSession := s, mSocket := Some k, k_stale := [], mSession := t, mIsConnected := True\<rparr>) = t"
          by simp
        then have "lan_Connect (\<lambda>x. x) sock conn registered w lc = (if \<not> registered then (lc\<lparr>mSession := s, mSocket := None, k_stale := []\<rparr>, False)
         else (case lan_postRecvInitial w t of
                 (s', True) \<Rightarrow> (lc\<lparr>mSession := s', mSocket := Some k, mIsConnected := True, k_stale := []\<rparr>, True)
               | (s', False) \<Rightarrow> (lc\<lparr>mSession := s'\<lparr>s_socket := None, s_control := 0\<rparr>, mSocket := None,
                     mIsConnected := False, k_stale := []\<rparr>, False)))"
          unfolding lan_Connect_def Let_def s_def [symmetric] k option.case lo q(2)
          using nc c by (cases "lan_postRecvInitial w t"; cases "snd (lan_postRecvInitial w t)") (simp_all add: t_def [symmetric])
        then show ?thesis using assms(2) by simp
      qed
      have pr: "lan_postRecvInitial w t = (if fst (GetEnqueueSegments (recvRing t)) \<noteq> 0 \<and> w = Started then (t\<lparr>k_recv := True\<rparr>, True) else (t, False))"
        by (cases w) (auto simp: lan_postRecvInitial_def)
      show ?thesis
      proof (cases "registered \<and> fst (GetEnqueueSegments (recvRing t)) \<noteq> 0 \<and> w = Started")
        case True
        then have e: "lc' = lc\<lparr>mSession := t\<lparr>k_recv := True\<rparr>, mSocket := Some k, mIsConnected := True, k_stale := []\<rparr>" "b"
          using run pr by auto
        show ?thesis using nc r o ct by (simp add: P_def e lan_ok_def leak_def fun_eq_iff)
          (simp add: t_def send_pre_def released_def rings_ok_def lan_fresh_def)
      next
        case False
        then have e: "\<not> b" "lc' = lc\<lparr>mSession := s, mSocket := None, k_stale := []\<rparr> \<or>
            lc' = lc\<lparr>mSession := t\<lparr>s_socket := None, s_control := 0\<rparr>, mSocket := None, mIsConnected := False, k_stale := []\<rparr>"
          using run pr by (auto split: if_splits)
        from e(2) show ?thesis using nc r o e(1) by (elim disjE) (simp_all add: P_def lan_ok_def leak_def fun_eq_iff t_def lan_fresh_def)
      qed
    qed
  qed
  then show "lan_ok lc'" "leak lc' = leak lc" "lan_net lc' = lan_net lc" "mIsConnected lc' \<longleftrightarrow> mIsConnected lc \<or> b"
    "mIsConnected lc \<Longrightarrow> lc' = lc \<and> \<not> b"
    "b \<Longrightarrow> lan_fresh (mSession lc') \<and> s_id (mSession lc') = 1"
    "mSession lc' = mSession lc \<or> lan_fresh (mSession lc')"
    by (auto simp: P_def)
qed

text \<open>The pool hands out packets of the right size that nobody refers to, or none.\<close>

definition pool_ready :: "netstate \<Rightarrow> (nat \<Rightarrow> nat option) \<Rightarrow> bool" where
  "pool_ready g ptr \<longleftrightarrow> (\<forall>k p. ptr k = Some p \<longrightarrow> capacity (heap g p) = BUFFER_DEFAULT \<and> refcnt g p = 0)"

lemma lan_recv_loop_SubRef:
  assumes "lan_recv_loop fuel SubRef_at ptr k (s, g) = Done ((s', g'), ps, e)" and "ring_ok (recvRing s)"
    and "pool_ready g ptr"
  shows "\<exists>r'. s' = s\<lparr>recvRing := r'\<rparr> \<and> ring_ok r' \<and> GetBufferSize r' = GetBufferSize (recvRing s) \<and>
     (\<forall>q. refcnt g' q = refcnt g q \<and> (refcnt g q \<noteq> 0 \<longrightarrow> heap g' q = heap g q))"
  using assms
proof (induction fuel arbitrary: k s g ps)
  case 0
  then show ?case by simp
next
  case (Suc fuel)
  let ?a = "map_option (heap g) (ptr k)" let ?bs = "contents (recvRing s)"
  note fr = lan_parse_frame_spec [OF Suc.prems(2), where sid = "s_id s" and a = ?a]
  consider "length ?bs < 2 \<or> length ?bs < 2 + lan_len ?bs" | "2 + lan_len ?bs \<le> length ?bs" "?a = None"
    | p where "2 + lan_len ?bs \<le> length ?bs" "ptr k = Some p" by fastforce
  then show ?case
  proof cases
    case 1
    then show ?thesis using fr(1) Suc.prems by (intro exI [of _ "recvRing s"]) simp
  next
    case 2
    then show ?thesis using fr(2) Suc.prems by auto
  next
    case 3
    have a: "pooled_ok ?a" "refcnt g p = 0" using 3(2) Suc.prems(3) by (auto simp: pooled_ok_def pool_ready_def)
    have "lan_len ?bs \<le> LAN_MAX_PAYLOAD"
      using fr(3) [OF 3(1) a(1)] Suc.prems(1) by (cases "LAN_MAX_PAYLOAD < lan_len ?bs") auto
    from fr(4) [OF 3(1) a(1) this] obtain r1 pk where r1: "lan_parse_frame (s_id s) ?a (recvRing s) = Some (r1, Frame pk)"
      "ring_ok r1" "GetBufferSize r1 = GetBufferSize (recvRing s)" "lan_carries (s_id s) (take (lan_len ?bs) (drop 2 ?bs)) pk" by blast
    define g1 where "g1 = SubRef_at p (g\<lparr>heap := (heap g)(p := pk)\<rparr>)"
    have g1: "refcnt g1 q = refcnt g q" "q \<noteq> p \<Longrightarrow> heap g1 q = heap g q" "capacity (heap g1 q) = (if q = p then BUFFER_DEFAULT else capacity (heap g q))" for q
      using r1(4) a(2) by (auto simp: g1_def refcnt_def SubRef_at_def SubRef_def Let_def lan_carries_def capacity_def)
    have pool: "pool_ready g1 ptr" using Suc.prems(3) g1(1,3) by (simp add: pool_ready_def)
    obtain ps' where rec: "lan_recv_loop fuel SubRef_at ptr (Suc k) (s\<lparr>recvRing := r1\<rparr>, g1) = Done ((s', g'), ps', e)"
    proof -
      have "lan_recv_loop (Suc fuel) SubRef_at ptr k (s, g) =
        (case lan_recv_loop fuel SubRef_at ptr (Suc k) (s\<lparr>recvRing := r1\<rparr>, g1) of
           Done (sg, ps, e) \<Rightarrow> Done (sg, pk # ps, e) | other \<Rightarrow> other)"
        by (simp only: lan_recv_loop.simps r1(1)) (simp add: 3(2) g1_def)
      then show ?thesis using Suc.prems(1) that by (auto split: outcome.splits)
    qed
    from Suc.IH [OF rec _ pool] r1(2) obtain r' where h: "s' = s\<lparr>recvRing := r'\<rparr>" "ring_ok r'"
      "GetBufferSize r' = GetBufferSize r1" "\<forall>q. refcnt g' q = refcnt g1 q \<and> (refcnt g1 q \<noteq> 0 \<longrightarrow> heap g' q = heap g1 q)"
      by auto
    then show ?thesis using r1(3) g1(1,2) a(2) by (intro exI [of _ r']) (metis (no_types))
  qed
qed

lemma lan_ok_connected:
  assumes "lan_ok lc" and "k_recv (mSession lc) \<or> k_send (mSession lc) \<or> 0 < k_release (mSession lc)"
  shows "mIsConnected lc" "counts 0 (mSession lc)" "rings_ok (mSession lc)" "send_pre (mSession lc)"
    "s_state (mSession lc) = Connected" "s_socket (mSession lc) \<noteq> None"
  using assms by (auto simp: lan_ok_def split: if_splits)

text \<open>\<open>quiet lc lc'\<close>: the connection and its outgoing side are as they were.\<close>

definition quiet :: "lan_client \<Rightarrow> lan_client \<Rightarrow> bool" where
  "quiet lc lc' \<longleftrightarrow> mIsConnected lc' = mIsConnected lc \<and> sendRing (mSession lc') = sendRing (mSession lc) \<and>
     k_wire (mSession lc') = k_wire (mSession lc) \<and> sendFlag (mSession lc') = sendFlag (mSession lc) \<and>
     (k_send (mSession lc') \<longrightarrow> k_send (mSession lc))"

lemma quiet_ctl_upd: "ctl_upd (mSession lc) s \<Longrightarrow> quiet lc (lc\<lparr>mSession := s, lan_net := g\<rparr>)"
  using ctl_upd_keeps [of "mSession lc" s] by (simp add: quiet_def)

lemma lan_received_ok:
  assumes "lan_ok lc" and "k_recv (mSession lc)" and "kernel_stores ws" and "c \<noteq> []"
    and "int (length c) \<le> GetFreeSize (recvRing (mSession lc))" and "pool_ready (lan_net lc) ptr"
    and "lan_received fuel SubRef_at ptr w (ws (recvRing (mSession lc)) c) (int (length c)) (mSession lc, lan_net lc) =
      Done ((s', g'), ps)"
  defines "lc' \<equiv> lc\<lparr>mSession := s', lan_net := g'\<rparr>"
  shows "lan_ok lc'" "quiet lc lc'" "leak lc' = leak lc"
    "refcnt (lan_net lc) q \<noteq> 0 \<Longrightarrow> heap (lan_net lc') q = heap (lan_net lc) q"
proof -
  let ?s = "mSession lc"
  note con = lan_ok_connected [OF assms(1) disjI1 [OF assms(2)]]
  have ro: "ring_ok (recvRing ?s)" using con(3) by (simp add: rings_ok_def)
  from assms(3-5) ro have sc: "scattered (recvRing ?s) c (ws (recvRing ?s) c)" by (auto simp: kernel_stores_def)
  note st = store_rear_ok [OF ro assms(5)]
  note io = io_returned_RECV [OF con(2) assms(2)]
  define s0 where "s0 = (io_returned RECV ?s)\<lparr>recvRing := store_rear (recvRing ?s) c\<rparr>"
  have s0: "(io_returned RECV ?s)\<lparr>recvRing := fst (MoveRear ((recvRing ?s)\<lparr>rb_data := ws (recvRing ?s) c\<rparr>) (int (length c)))\<rparr> = s0"
    by (simp add: s0_def scattered_MoveRear(1) [OF ro sc])
  obtain s1 parseError where loop: "lan_recv_loop fuel SubRef_at ptr 0 (s0, lan_net lc) = Done ((s1, g'), ps, parseError)"
    and s': "s' = lan_decreaseIoCount (if parseError then lan_requestRelease s1
       else (case lan_postRecv w s1 of (t, True) \<Rightarrow> t | (t, False) \<Rightarrow> lan_requestRelease t))"
    using assms(7) s0 by (auto simp: lan_received_def Let_def split: outcome.splits)
  from lan_recv_loop_SubRef [OF loop _ assms(6)] st(1) obtain r' where r': "s1 = s0\<lparr>recvRing := r'\<rparr>" "ring_ok r'"
    "GetBufferSize r' = GetBufferSize (recvRing ?s)"
    "\<forall>q. refcnt g' q = refcnt (lan_net lc) q \<and> (refcnt (lan_net lc) q \<noteq> 0 \<longrightarrow> heap g' q = heap (lan_net lc) q)"
    using st(3) by (auto simp: s0_def)
  define t where "t = io_returned RECV ?s"
  have s1: "s1 = t\<lparr>recvRing := r'\<rparr>" by (simp add: r'(1) s0_def t_def)
  have c1: "counts (Suc 0) s1" "\<not> k_recv s1" "released s1 \<longleftrightarrow> released ?s"
    using io by (simp_all add: s1 t_def [symmetric] counts_def io_count_def released_def)
  note kt = ctl_upd_keeps [OF io(3), folded t_def]
  have "\<exists>s2. s' = lan_decreaseIoCount s2 \<and> counts (Suc 0) s2 \<and> ctl_upd s1 s2 \<and> (released s1 \<longrightarrow> released s2) \<and> (\<not> released s2 \<longrightarrow> k_recv s2)"
  proof (cases parseError)
    case True
    then show ?thesis using lan_requestRelease_counts [OF c1(1)] s' by auto
  next
    case False
    obtain u b where pr: "lan_postRecv w s1 = (u, b)" by fastforce
    note p = lan_postRecv_spec [OF c1(1) _ c1(2) pr, simplified]
    show ?thesis
    proof (cases b)
      case True
      then show ?thesis using False s' pr p by auto
    next
      case nb: False
      then show ?thesis using False s' pr p lan_requestRelease_counts [OF p(1)] by (auto intro: ctl_upd_trans)
    qed
  qed
  then obtain s2 where s2: "s' = lan_decreaseIoCount s2" "counts (Suc 0) s2" "ctl_upd s1 s2" "released s1 \<longrightarrow> released s2"
    "\<not> released s2 \<longrightarrow> k_recv s2" by blast
  note d = lan_decrease_counts [OF s2(2), folded s2(1)]
  note k = ctl_upd_keeps [OF ctl_upd_trans [OF s2(3) d(3)]]
  have fields: "sendRing s' = sendRing ?s" "k_wire s' = k_wire ?s" "sendFlag s' = sendFlag ?s" "k_send s' = k_send ?s"
    "sentPackets s' = sentPackets ?s" "s_state s' = s_state ?s" "s_id s' = s_id ?s" "s_socket s' = s_socket ?s" "recvRing s' = r'"
    using k kt by (simp_all add: s1 same_session_def)
  have rel: "released ?s \<longrightarrow> released s'" "\<not> released s' \<longrightarrow> k_recv s'" using c1(3) s2(4,5) d(2,4) by auto
  show "lan_ok lc'"
  proof -
    have "rings_ok s'" using con(3) fields r'(2,3) by (simp add: rings_ok_def)
    moreover have "send_pre s'" using con(4) fields rel(1) by (auto simp: send_pre_def)
    ultimately show ?thesis using assms(1) con d(1) rel fields by (simp add: lan_ok_def lc'_def)
  qed
  show "quiet lc lc'" using fields by (simp add: quiet_def lc'_def)
  show "leak lc' = leak lc" using fields r'(4) by (simp add: leak_def lc'_def owned_def refcnt_def fun_eq_iff)
  show "heap (lan_net lc') q = heap (lan_net lc) q" if "refcnt (lan_net lc) q \<noteq> 0"
    using that r'(4) by (simp add: lc'_def)
qed

lemma lan_sent_ok:
  assumes "lan_ok lc" and "k_send (mSession lc)"
  obtains s' g' m n where "lan_sent w (mSession lc, lan_net lc) = Some (s', g')"
    "lan_ok (lc\<lparr>mSession := s', lan_net := g'\<rparr>)" "leak (lc\<lparr>mSession := s', lan_net := g'\<rparr>) = leak lc"
    "same_bytes (lan_net lc) g'" "contents (sendRing s') = drop m (contents (sendRing (mSession lc)))"
    "k_wire s' = k_wire (mSession lc) @ concat (map (\<lambda>p. written (heap (lan_net lc) p)) (take n (contents (sendRing (mSession lc)))))"
proof -
  let ?s = "mSession lc" and ?g = "lan_net lc"
  note con = lan_ok_connected [OF assms(1) disjI2 [OF disjI1 [OF assms(2)]]]
  note io = io_returned_SEND [OF con(2) assms(2)]
  define g0 where "g0 = SubRef_all (sentPackets ?s) ?g"
  define s0 where "s0 = (io_returned SEND ?s)\<lparr>sentPackets := [], sendFlag := 0\<rparr>"
  have c0: "counts (Suc 0) s0" "released s0 \<longleftrightarrow> released ?s"
    using io by (simp_all add: s0_def counts_def io_count_def released_def)
  have f0: "sendRing s0 = sendRing ?s" "k_wire s0 = k_wire ?s" "k_recv s0 = k_recv ?s" "\<not> k_send s0" "same_session ?s s0"
    "sendFlag s0 = 0" "sentPackets s0 = []" "recvRing s0 = recvRing ?s"
    by (simp_all add: s0_def io_returned_def same_session_def)
  have r0: "rings_ok s0" using con(3) f0 by (simp add: rings_ok_def)
  have p0: "send_pre s0" using f0 by (simp add: send_pre_def)
  obtain s1 g1 b m n where ps: "lan_postSend w (s0, g0) = Some ((s1, g1), b)" "counts (Suc 0) s1" "rings_ok s1" "send_pre s1"
    "same_session s0 s1" "released s1 \<longleftrightarrow> released s0" "k_recv s1 = k_recv s0"
    "\<And>p. refcnt g1 p - owned s1 p = refcnt g0 p - owned s0 p" "same_bytes g0 g1"
    "contents (sendRing s1) = drop m (contents (sendRing s0))"
    "k_wire s1 = k_wire s0 @ concat (map (\<lambda>p. written (heap g0 p)) (take n (contents (sendRing s0))))"
    by (rule lan_postSend_spec [OF c0(1) _ r0 p0, of w g0]) (simp, blast)
  define s' where "s' = lan_decreaseIoCount s1"
  note d = lan_decrease_counts [OF ps(2), folded s'_def]
  note k = ctl_upd_keeps [OF d(3)]
  have run: "lan_sent w (?s, ?g) = Some (s', g1)"
    using ps(1) by (simp add: lan_sent_def s'_def s0_def g0_def io_returned_def)
  have "send_pre s'" using ctl_upd_send(2) [OF d(3) _ ps(4)] d(2) by blast
  moreover have "\<not> released s' \<longrightarrow> k_recv s'" using assms(1) con(1) d(2,4) ps(6,7) c0(2) f0(3) by (simp add: lan_ok_def)
  ultimately have "lan_ok (lc\<lparr>mSession := s', lan_net := g1\<rparr>)"
    using assms(1) con(1) d(1) k(1,3) ps(3,5) f0(5) by (simp add: lan_ok_def same_session_def)
  moreover have "leak (lc\<lparr>mSession := s', lan_net := g1\<rparr>) = leak lc"
    using k(2) ps(8) f0 assms(2) by (simp add: leak_def fun_eq_iff refcnt_SubRef_all g0_def owned_def)
  moreover have "same_bytes ?g g1" using same_bytes_trans [OF same_bytes_SubRef_all ps(9) [unfolded g0_def]] .
  moreover have "written (heap g0 p) = written (heap ?g p)" for p
    using same_bytes_SubRef_all [of ?g] by (simp add: same_bytes_def g0_def)
  ultimately show ?thesis using run k(5,8) ps(10,11) f0(1,2) by (intro that [of s' g1 m n]) simp_all
qed

lemma lan_io_failed_ok:
  assumes "lan_ok lc" and "if oper = RECV then k_recv (mSession lc) else oper = SEND \<and> k_send (mSession lc)"
  defines "lc' \<equiv> lc\<lparr>mSession := lan_io_failed oper (mSession lc)\<rparr>"
  shows "lan_ok lc'" "quiet lc lc'" "lan_net lc' = lan_net lc"
    "oper = RECV \<Longrightarrow> leak lc' = leak lc" "leak lc p \<le> leak lc' p"
proof -
  let ?s = "mSession lc"
  have con: "mIsConnected lc" "counts 0 ?s" "rings_ok ?s" "send_pre ?s" "s_state ?s = Connected" "s_socket ?s \<noteq> None"
    using lan_ok_connected [OF assms(1)] assms(2) by (auto split: if_splits)
  define s0 where "s0 = io_returned oper ?s"
  have c0: "counts (Suc 0) s0"
    using io_returned_RECV(1) [OF con(2)] io_returned_SEND(1) [OF con(2)] assms(2) by (auto simp: s0_def split: if_splits)
  note r = lan_release_and_decrease [OF c0]
  define s' where "s' = lan_decreaseIoCount (lan_requestRelease s0)"
  note k = ctl_upd_keeps [OF r(3), folded s'_def]
  have lc': "lc' = lc\<lparr>mSession := s'\<rparr>" by (simp add: lc'_def lan_io_failed_def s'_def s0_def)
  have f: "sendRing s0 = sendRing ?s" "k_wire s0 = k_wire ?s" "sendFlag s0 = sendFlag ?s" "sentPackets s0 = sentPackets ?s"
    "rings_ok s0" "same_session ?s s0" "k_send s0 \<longrightarrow> k_send ?s" "oper = RECV \<longrightarrow> k_send s0 = k_send ?s"
    using assms(2) con(3) by (auto simp: s0_def io_returned_def same_session_def rings_ok_def split: if_splits)
  have "released s'" using r(2) by (simp add: s'_def)
  then show "lan_ok lc'"
    using assms(1) con r(1) k f by (auto simp: lc' lan_ok_def s'_def [symmetric] same_session_def send_pre_def)
  show "quiet lc lc'" using k f by (simp add: lc' quiet_def)
  show "lan_net lc' = lan_net lc" by (simp add: lc')
  show "leak lc' = leak lc" if "oper = RECV"
    using that k f by (simp add: lc' leak_def owned_def fun_eq_iff)
  show "leak lc p \<le> leak lc' p" using k f by (simp add: lc' leak_def owned_def)
qed

lemma lan_release_ok:
  assumes "lan_ok lc" and "0 < k_release (mSession lc)"
  obtains lc' where "lan_release_completion lc = Some (lc', True)" "lan_ok lc'" "leak lc' = leak lc" "\<not> mIsConnected lc'"
    "k_wire (mSession lc') = k_wire (mSession lc)" "sendFlag (mSession lc') = 0" "contents (sendRing (mSession lc')) = []"
    "\<not> k_send (mSession lc')"
proof -
  let ?s = "mSession lc"
  note con = lan_ok_connected [OF assms(1) disjI2 [OF disjI2 [OF assms(2)]]]
  from con(2) obtain f where f: "s_control ?s = SessionControl (of_nat (io_count ?s + 0)) f" "f \<in> {0, 1}"
    "k_release ?s = (if f = 1 \<and> io_count ?s + 0 = 0 then 1 else 0)" by (elim countsE)
  then have ctl: "s_control ?s = SessionControl 0 1" and nio: "\<not> k_recv ?s" "\<not> k_send ?s" and kr: "k_release ?s = 1"
    using assms(2) by (auto simp: io_count_def split: if_splits)
  define t where "t = ?s\<lparr>k_release := 0\<rparr>"
  have io: "io_returned RELEASE ?s = t" using kr by (simp add: io_returned_def t_def)
  have ro: "ring_ok (recvRing ?s)" "ring_ok (sendRing ?s)" using con(3) by (auto simp: rings_ok_def)
  let ?c = "contents (sendRing ?s)"
  have u: "nat (GetUseSize (sendRing t)) = length ?c" using length_contents_nat [OF ro(2)] by (simp add: t_def)
  obtain ring' where pop: "pop_upto DequeueItem (nat (GetUseSize (sendRing t))) (sendRing t) = Some (ring', ?c)"
    "ring_ok ring'" "contents ring' = []" "GetBufferSize ring' = GetBufferSize (sendRing ?s)"
    using send_ring.pop_upto_spec [OF ro(2), of "length ?c"] pop_upto_size [of "length ?c" "sendRing ?s"] u
    by (auto simp: t_def)
  define t' where "t' = t\<lparr>s_control := SessionControl 0 3, s_socket := None, recvRing := ClearBuffer (recvRing t),
      sendRing := ClearBuffer ring', s_state := Free, sendFlag := 0\<rparr>"
  define lc' where "lc' = lc\<lparr>mSession := t', mSocket := None, lan_net := SubRef_all ?c (lan_net lc), mIsConnected := False\<rparr>"
  have tc: "TryCleanup (s_control t) = Some (SessionControl 0 3)"
    by (simp add: t_def ctl TryCleanup_packed flag_bits)
  have sk: "s_socket t \<noteq> None" using con(6) by (simp add: t_def)
  have "lan_release_completion lc = Some (lc', True)"
    using pop(1) sk tc by (simp add: lan_release_completion_def lan_releaseSession_def Let_def io lc'_def t'_def)
  moreover have "lan_ok lc'"
    using assms(1) nio ro ClearBuffer_ok [OF ro(1)] ClearBuffer_ok [OF pop(2)] pop(4) con(3)
    by (simp add: lan_ok_def lc'_def t'_def t_def rings_ok_def)
  moreover have "leak lc' = leak lc"
    using nio ClearBuffer_ok [OF pop(2)]
    by (simp add: leak_def fun_eq_iff lc'_def t'_def t_def owned_def refcnt_SubRef_all)
  ultimately show ?thesis
    using nio ClearBuffer_ok [OF pop(2)] by (intro that [of lc']) (simp_all add: lc'_def t'_def t_def)
qed

end
