(* ===== verification/Monitor_Client.thy ===== *)
theory Monitor_Client
  imports Lan_Safety
begin

text \<open>
  ChatingServer/MonitorClient.cpp: the LAN client that logs in to the monitoring server and reports
  eight values a second. The monitoring thread runs \<open>SendMonitorData\<close> call by call (\<open>mon_pc\<close> is where it
  is), between the completions that the worker thread handles; \<open>late\<close> counts the calls of
  \<open>OnDisconnect\<close> that \<open>releaseSession\<close> has still to make after it cleared \<open>mIsConnected\<close>.
\<close>

section \<open>The client\<close>

definition en_PACKET_SS_MONITOR_LOGIN :: u16 where "en_PACKET_SS_MONITOR_LOGIN = 20001"
definition en_PACKET_SS_MONITOR_DATA_UPDATE :: u16 where "en_PACKET_SS_MONITOR_DATA_UPDATE = 20002"

record monitor_client =
  mc_lan :: lan_client
  mLoginSent :: bool
  mSendCount :: u32
  mSendTPS :: u32

definition new_MonitorClient :: "netstate \<Rightarrow> monitor_client" where
  "new_MonitorClient g = \<lparr>mc_lan = new_LanClient g, mLoginSent = False, mSendCount = 0, mSendTPS = 0\<rparr>"

text \<open>The two packets, written behind the two bytes kept free for the header.\<close>

definition monitor_login_packet :: "packet \<Rightarrow> u32 \<Rightarrow> packet option" where
  "monitor_login_packet pooled serverNo = do {
     (p1, n) \<leftarrow> PutData (Packet_Init pooled) [0, 0];
     p2 \<leftarrow> shl_bytes p1 (le_bytes 2 en_PACKET_SS_MONITOR_LOGIN);
     shl_bytes p2 (le_bytes 4 serverNo)
   }"

definition monitor_data_packet :: "packet \<Rightarrow> u8 \<Rightarrow> u32 \<Rightarrow> u32 \<Rightarrow> packet option" where
  "monitor_data_packet pooled dataType value timeStamp = do {
     (p1, n) \<leftarrow> PutData (Packet_Init pooled) [0, 0];
     p2 \<leftarrow> shl_bytes p1 (le_bytes 2 en_PACKET_SS_MONITOR_DATA_UPDATE);
     p3 \<leftarrow> shl_bytes p2 [dataType];
     p4 \<leftarrow> shl_bytes p3 (le_bytes 4 value);
     shl_bytes p4 (le_bytes 4 timeStamp)
   }"

text \<open>\<open>SendPacket\<close> and the \<open>SubRef\<close> of the creator; the count of sent packets on success.\<close>

definition monitor_send :: "nat \<Rightarrow> packet \<Rightarrow> io_result \<Rightarrow> monitor_client \<Rightarrow> (monitor_client \<times> bool) option" where
  "monitor_send p pk wsasend mc =
     (let lc = mc_lan mc; g = lan_net lc in do {
        (lc1, result, cbs) \<leftarrow> lan_SendPacket p wsasend (lc\<lparr>lan_net := g\<lparr>heap := (heap g)(p := pk)\<rparr>\<rparr>);
        Some (mc\<lparr>mc_lan := lc1\<lparr>lan_net := SubRef_at p (lan_net lc1)\<rparr>,
                 mSendCount := (if result then mSendCount mc + 1 else mSendCount mc)\<rparr>, result)
      })"

definition sendLogin :: "nat option \<Rightarrow> u32 \<Rightarrow> io_result \<Rightarrow> monitor_client \<Rightarrow> (monitor_client \<times> bool) option" where
  "sendLogin alloc serverNo wsasend mc =
     (case alloc of
        None \<Rightarrow> Some (mc, False)
      | Some p \<Rightarrow> do {
          pk \<leftarrow> monitor_login_packet (heap (lan_net (mc_lan mc)) p) serverNo;
          monitor_send p pk wsasend mc
        })"

definition sendData :: "nat option \<Rightarrow> u8 \<Rightarrow> u32 \<Rightarrow> u32 \<Rightarrow> io_result \<Rightarrow> monitor_client \<Rightarrow> monitor_client option" where
  "sendData alloc dataType value timeStamp wsasend mc =
     (let mc1 = mc\<lparr>mSendTPS := mSendTPS mc + 1\<rparr> in
      case alloc of
        None \<Rightarrow> Some mc1
      | Some p \<Rightarrow> do {
          pk \<leftarrow> monitor_data_packet (heap (lan_net (mc_lan mc1)) p) dataType value timeStamp;
          (mc2, result) \<leftarrow> monitor_send p pk wsasend mc1;
          Some mc2
        })"

definition UpdateTPS :: "monitor_client \<Rightarrow> monitor_client" where
  "UpdateTPS mc = mc\<lparr>mSendTPS := mSendCount mc, mSendCount := 0\<rparr>"

definition OnDisconnect_monitor :: "monitor_client \<Rightarrow> monitor_client" where
  "OnDisconnect_monitor mc = mc\<lparr>mLoginSent := False\<rparr>"

text \<open>The types of the eight values, in the order of the calls.\<close>

definition monitor_data_types :: "u8 list" where
  "monitor_data_types = [30, 31, 32, 33, 34, 35, 36, 37]"

section \<open>The two threads\<close>

datatype mon_pc = AtStart | AtCheck | AtLoginSent | AtData nat

record monitor_state =
  mon :: monitor_client
  mpc :: mon_pc
  late :: nat

datatype mon_label =
  Began | Connecting | LoggedIn | LoginSent | DataSent u8 | Finished | CountsRead | RecvDone | RecvGone | SendDone | SendGone
  | Released | LeftLate

definition upd_lan :: "monitor_client \<Rightarrow> session \<times> netstate \<Rightarrow> monitor_client" where
  "upd_lan mc = (\<lambda>(s, g). mc\<lparr>mc_lan := (mc_lan mc)\<lparr>mSession := s, lan_net := g\<rparr>\<rparr>)"

text \<open>
  A packet the pool hands out is of the right size and referred to by nobody. The callback
  \<open>OnConnect\<close> only logs.
\<close>

definition alloc_ok :: "netstate \<Rightarrow> nat option \<Rightarrow> bool" where
  "alloc_ok g alloc \<longleftrightarrow> pool_ready g (\<lambda>_. alloc)"

inductive mon_step :: "u32 \<Rightarrow> mon_label \<Rightarrow> monitor_state \<Rightarrow> monitor_state \<Rightarrow> bool" for serverNo where
  already_connected: "mpc st = AtStart \<Longrightarrow> mIsConnected (mc_lan (mon st)) \<Longrightarrow>
     st' = st\<lparr>mpc := AtCheck\<rparr> \<Longrightarrow> mon_step serverNo Began st st'"
| connect: "mpc st = AtStart \<Longrightarrow> \<not> mIsConnected (mc_lan (mon st)) \<Longrightarrow>
     lan_Connect (\<lambda>lc. lc) sock conn registered w (mc_lan (mon st)) = (lc', ok) \<Longrightarrow>
     st' = st\<lparr>mon := (mon st)\<lparr>mLoginSent := False, mc_lan := lc'\<rparr>, mpc := (if ok then AtCheck else AtStart)\<rparr> \<Longrightarrow>
     mon_step serverNo Connecting st st'"
| logged_in: "mpc st = AtCheck \<Longrightarrow> mLoginSent (mon st) \<Longrightarrow> st' = st\<lparr>mpc := AtData 0\<rparr> \<Longrightarrow>
     mon_step serverNo LoggedIn st st'"
| login: "mpc st = AtCheck \<Longrightarrow> \<not> mLoginSent (mon st) \<Longrightarrow> alloc_ok (lan_net (mc_lan (mon st))) alloc \<Longrightarrow>
     sendLogin alloc serverNo w (mon st) = Some (mc', ok) \<Longrightarrow>
     st' = st\<lparr>mon := mc', mpc := (if ok then AtLoginSent else AtStart)\<rparr> \<Longrightarrow> mon_step serverNo LoginSent st st'"
| login_sent: "mpc st = AtLoginSent \<Longrightarrow> st' = st\<lparr>mon := (mon st)\<lparr>mLoginSent := True\<rparr>, mpc := AtData 0\<rparr> \<Longrightarrow>
     mon_step serverNo LoggedIn st st'"
| data: "mpc st = AtData n \<Longrightarrow> n < length monitor_data_types \<Longrightarrow> alloc_ok (lan_net (mc_lan (mon st))) alloc \<Longrightarrow>
     sendData alloc (monitor_data_types ! n) value timeStamp w (mon st) = Some mc' \<Longrightarrow>
     st' = st\<lparr>mon := mc', mpc := AtData (Suc n)\<rparr> \<Longrightarrow> mon_step serverNo (DataSent (monitor_data_types ! n)) st st'"
| finished: "mpc st = AtData n \<Longrightarrow> length monitor_data_types \<le> n \<Longrightarrow> st' = st\<lparr>mpc := AtStart\<rparr> \<Longrightarrow>
     mon_step serverNo Finished st st'"
| counts_read: "st' = st\<lparr>mon := UpdateTPS (mon st)\<rparr> \<Longrightarrow> mon_step serverNo CountsRead st st'"
| received: "k_recv (mSession (mc_lan (mon st))) \<Longrightarrow> kernel_stores ws \<Longrightarrow> c \<noteq> [] \<Longrightarrow>
     int (length c) \<le> GetFreeSize (recvRing (mSession (mc_lan (mon st)))) \<Longrightarrow> pool_ready (lan_net (mc_lan (mon st))) ptr \<Longrightarrow>
     lan_received fuel SubRef_at ptr w (ws (recvRing (mSession (mc_lan (mon st)))) c) (int (length c))
       (mSession (mc_lan (mon st)), lan_net (mc_lan (mon st))) = Done (sg, ps) \<Longrightarrow>
     st' = st\<lparr>mon := upd_lan (mon st) sg\<rparr> \<Longrightarrow> mon_step serverNo RecvDone st st'"
| recv_gone: "k_recv (mSession (mc_lan (mon st))) \<Longrightarrow>
     st' = st\<lparr>mon := upd_lan (mon st) (lan_io_failed RECV (mSession (mc_lan (mon st))), lan_net (mc_lan (mon st)))\<rparr> \<Longrightarrow>
     mon_step serverNo RecvGone st st'"
| sent: "k_send (mSession (mc_lan (mon st))) \<Longrightarrow>
     lan_sent w (mSession (mc_lan (mon st)), lan_net (mc_lan (mon st))) = Some sg \<Longrightarrow>
     st' = st\<lparr>mon := upd_lan (mon st) sg\<rparr> \<Longrightarrow> mon_step serverNo SendDone st st'"
| send_gone: "k_send (mSession (mc_lan (mon st))) \<Longrightarrow>
     st' = st\<lparr>mon := upd_lan (mon st) (lan_io_failed SEND (mSession (mc_lan (mon st))), lan_net (mc_lan (mon st)))\<rparr> \<Longrightarrow>
     mon_step serverNo SendGone st st'"
| release: "0 < k_release (mSession (mc_lan (mon st))) \<Longrightarrow> lan_release_completion (mc_lan (mon st)) = Some (lc', ok) \<Longrightarrow>
     st' = st\<lparr>mon := (mon st)\<lparr>mc_lan := lc'\<rparr>, late := (if ok then Suc (late st) else late st)\<rparr> \<Longrightarrow>
     mon_step serverNo Released st st'"
| left_late: "0 < late st \<Longrightarrow> st' = st\<lparr>mon := OnDisconnect_monitor (mon st), late := late st - 1\<rparr> \<Longrightarrow>
     mon_step serverNo LeftLate st st'"

inductive mon_run :: "u32 \<Rightarrow> mon_label list \<Rightarrow> monitor_state \<Rightarrow> monitor_state \<Rightarrow> bool" for serverNo where
  none: "mon_run serverNo [] st st"
| more: "mon_run serverNo ls st st1 \<Longrightarrow> mon_step serverNo l st1 st2 \<Longrightarrow> mon_run serverNo (ls @ [l]) st st2"

definition monitor_init :: "netstate \<Rightarrow> monitor_state" where
  "monitor_init g = \<lparr>mon = new_MonitorClient g, mpc = AtStart, late = 0\<rparr>"

section \<open>The messages\<close>

definition monitor_login_message :: "u32 \<Rightarrow> bytes" where
  "monitor_login_message serverNo = le_bytes 2 en_PACKET_SS_MONITOR_LOGIN @ le_bytes 4 serverNo"

definition monitor_data_message :: "u8 \<Rightarrow> u32 \<Rightarrow> u32 \<Rightarrow> bytes" where
  "monitor_data_message t value timeStamp =
     le_bytes 2 en_PACKET_SS_MONITOR_DATA_UPDATE @ [t] @ le_bytes 4 value @ le_bytes 4 timeStamp"

inductive monitor_message :: "u32 \<Rightarrow> bytes \<Rightarrow> bool" for serverNo where
  login: "monitor_message serverNo (monitor_login_message serverNo)"
| data: "t \<in> set monitor_data_types \<Longrightarrow> monitor_message serverNo (monitor_data_message t value timeStamp)"

text \<open>A packet behind the two bytes of the header.\<close>

definition framed :: "packet \<Rightarrow> bytes \<Rightarrow> bool" where
  "framed pk m \<longleftrightarrow> packet_ok pk \<and> capacity pk = BUFFER_DEFAULT \<and> mRefCnt pk = 1 \<and> 2 \<le> mDataSize pk \<and> drop 2 (written pk) = m"

lemma framed_start:
  assumes "capacity pooled = BUFFER_DEFAULT"
  obtains p1 n where "PutData (Packet_Init pooled) [0, 0] = Some (p1, n)" "framed p1 []" "mDataSize p1 = 2"
proof -
  let ?p = "Packet_Init pooled"
  have ok: "packet_ok ?p" "fits ?p 2" "capacity ?p = BUFFER_DEFAULT"
    using assms Packet_Init_ok [of pooled] by (auto simp: BUFFER_DEFAULT_def fits_def Packet_Init_fields capacity_def)
  then have f: "fits ?p (length [0 :: u8, 0])" by (simp add: numeral_2_eq_2)
  show ?thesis
    by (rule that [OF PutData_fits [OF ok(1) f]])
      (use append_bytes_ok [OF ok(1) f] ok(3) in \<open>simp_all add: framed_def Packet_Init_fields\<close>)
qed

lemma framed_append:
  assumes "framed p m" and "mDataSize p = int k" and "k + length bs \<le> 2048"
  shows "shl_bytes p bs = Some (append_bytes p bs)" "framed (append_bytes p bs) (m @ bs)"
    "mDataSize (append_bytes p bs) = int (k + length bs)"
proof -
  have p: "packet_ok p" "fits p (length bs)" "2 \<le> length (written p)"
    using assms by (auto simp: framed_def fits_def BUFFER_DEFAULT_def dest: length_written)
  show "shl_bytes p bs = Some (append_bytes p bs)" by (rule shl_bytes_fits [OF p(1,2)])
  show "framed (append_bytes p bs) (m @ bs)" "mDataSize (append_bytes p bs) = int (k + length bs)"
    using append_bytes_ok [OF p(1,2)] assms p(3) by (simp_all add: framed_def)
qed

lemma monitor_login_packet_spec:
  assumes "capacity pooled = BUFFER_DEFAULT"
  obtains pk where "monitor_login_packet pooled serverNo = Some pk" "framed pk (monitor_login_message serverNo)"
proof -
  obtain p1 n where p1: "PutData (Packet_Init pooled) [0, 0] = Some (p1, n)" "framed p1 []" "mDataSize p1 = int 2"
    by (rule framed_start [OF assms]) simp
  note p2 = framed_append [OF p1(2,3), of "le_bytes 2 en_PACKET_SS_MONITOR_LOGIN"]
  have "mDataSize (append_bytes p1 (le_bytes 2 en_PACKET_SS_MONITOR_LOGIN)) = int 4" using p2(3) by simp
  note p3 = framed_append [OF p2(2) this, of "le_bytes 4 serverNo"]
  show ?thesis
    by (rule that [of "append_bytes (append_bytes p1 (le_bytes 2 en_PACKET_SS_MONITOR_LOGIN)) (le_bytes 4 serverNo)"])
      (use p1(1) p2 p3 in \<open>simp_all add: monitor_login_packet_def monitor_login_message_def\<close>)
qed

lemma monitor_data_packet_spec:
  assumes "capacity pooled = BUFFER_DEFAULT"
  obtains pk where "monitor_data_packet pooled t value timeStamp = Some pk" "framed pk (monitor_data_message t value timeStamp)"
proof -
  obtain p1 n where p1: "PutData (Packet_Init pooled) [0, 0] = Some (p1, n)" "framed p1 []" "mDataSize p1 = int 2"
    by (rule framed_start [OF assms]) simp
  define p2 where "p2 = append_bytes p1 (le_bytes 2 en_PACKET_SS_MONITOR_DATA_UPDATE)"
  note s2 = framed_append [OF p1(2,3), of "le_bytes 2 en_PACKET_SS_MONITOR_DATA_UPDATE", folded p2_def]
  have "mDataSize p2 = int 4" using s2(3) by simp
  note s3 = framed_append [OF s2(2) this, of "[t]"]
  define p3 where "p3 = append_bytes p2 [t]"
  have "mDataSize p3 = int 5" using s3(3) by (simp add: p3_def)
  note s4 = framed_append [OF s3(2) [folded p3_def] this, of "le_bytes 4 value"]
  define p4 where "p4 = append_bytes p3 (le_bytes 4 value)"
  have "mDataSize p4 = int 9" using s4(3) by (simp add: p4_def)
  note s5 = framed_append [OF s4(2) [folded p4_def] this, of "le_bytes 4 timeStamp"]
  show ?thesis
    by (rule that [of "append_bytes p4 (le_bytes 4 timeStamp)"])
      (use p1(1) s2 s3 [folded p3_def] s4 [folded p4_def] s5 in \<open>simp_all add: monitor_data_packet_def monitor_data_message_def\<close>)
qed

section \<open>The invariant\<close>

text \<open>
  Whole messages wait in the ring and went out; \<open>begun\<close>: the first one on this connection was the
  login.
\<close>

definition waiting_ok :: "u32 \<Rightarrow> lan_client \<Rightarrow> bool" where
  "waiting_ok serverNo lc \<longleftrightarrow>
     (\<forall>q \<in> set (contents (sendRing (mSession lc))). \<exists>m. monitor_message serverNo m \<and> written (heap (lan_net lc) q) = lan_frame m)"

definition begun :: "u32 \<Rightarrow> session \<Rightarrow> bool" where
  "begun serverNo s \<longleftrightarrow>
     (\<exists>ms. (\<forall>m \<in> set ms. monitor_message serverNo m) \<and> k_wire s = concat (map lan_frame (monitor_login_message serverNo # ms)))"

definition reporting :: "u32 \<Rightarrow> lan_client \<Rightarrow> bool" where
  "reporting serverNo lc \<longleftrightarrow>
     lan_ok lc \<and> (\<forall>p. 0 \<le> leak lc p) \<and> waiting_ok serverNo lc \<and> (lan_fresh (mSession lc) \<or> begun serverNo (mSession lc))"

definition mon_ok :: "u32 \<Rightarrow> monitor_state \<Rightarrow> bool" where
  "mon_ok serverNo st \<longleftrightarrow>
     reporting serverNo (mc_lan (mon st)) \<and>
     (mIsConnected (mc_lan (mon st)) \<and> (mLoginSent (mon st) \<or> mpc st \<noteq> AtStart \<and> mpc st \<noteq> AtCheck) \<longrightarrow>
        begun serverNo (mSession (mc_lan (mon st))))"

lemma frames_of:
  assumes "\<forall>q \<in> set xs. \<exists>m. P m \<and> f q = lan_frame m"
  shows "\<exists>ms. (\<forall>m \<in> set ms. P m) \<and> concat (map f xs) = concat (map lan_frame ms)"
  using assms
proof (induction xs)
  case Nil
  show ?case by (intro exI [of _ "[]"]) simp
next
  case (Cons x xs)
  then obtain m ms where "P m" "f x = lan_frame m" "\<forall>m \<in> set ms. P m" "concat (map f xs) = concat (map lan_frame ms)" by auto
  then show ?case by (intro exI [of _ "m # ms"]) simp
qed

lemma begun_more:
  assumes "begun serverNo s" and "k_wire s' = k_wire s @ concat (map f xs)"
    and "\<forall>q \<in> set xs. \<exists>m. monitor_message serverNo m \<and> f q = lan_frame m"
  shows "begun serverNo s'"
proof -
  obtain ms where "\<forall>m \<in> set ms. monitor_message serverNo m" "k_wire s = concat (map lan_frame (monitor_login_message serverNo # ms))"
    using assms(1) by (auto simp: begun_def)
  moreover obtain ns where "\<forall>m \<in> set ns. monitor_message serverNo m" "concat (map f xs) = concat (map lan_frame ns)"
    using frames_of [OF assms(3)] by blast
  ultimately show ?thesis unfolding begun_def assms(2) by (intro exI [of _ "ms @ ns"]) auto
qed

text \<open>A packet that waits is referred to.\<close>

lemma waiting_referenced:
  assumes "\<forall>p. 0 \<le> leak lc p" and "q \<in> set (contents (sendRing (mSession lc)))"
  shows "refcnt (lan_net lc) q \<noteq> 0"
proof -
  have "0 < count_list (contents (sendRing (mSession lc))) q" using assms(2) by (metis count_list_0_iff gr0I)
  then have "0 < owned (mSession lc) q" by (simp add: owned_def)
  moreover have "owned (mSession lc) q \<le> refcnt (lan_net lc) q" using assms(1) by (simp add: leak_def)
  ultimately show ?thesis by linarith
qed

text \<open>A step that leaves the outgoing side alone.\<close>

lemma reporting_quiet:
  assumes "reporting serverNo lc" and "lan_ok lc'" and "quiet lc lc'" and "\<forall>p. leak lc p \<le> leak lc' p"
    and "\<And>q. refcnt (lan_net lc) q \<noteq> 0 \<Longrightarrow> heap (lan_net lc') q = heap (lan_net lc) q"
  shows "reporting serverNo lc'" "begun serverNo (mSession lc) \<Longrightarrow> begun serverNo (mSession lc')" "mIsConnected lc' = mIsConnected lc"
proof -
  have w: "waiting_ok serverNo lc'"
    using assms waiting_referenced [of lc] by (auto simp: waiting_ok_def quiet_def reporting_def)
  have "\<forall>p. 0 \<le> leak lc' p" using assms(1,4) by (auto simp: reporting_def intro: order_trans)
  then show "reporting serverNo lc'" using assms(1-3) w by (auto simp: reporting_def quiet_def lan_fresh_def begun_def)
  show "begun serverNo (mSession lc')" if "begun serverNo (mSession lc)" using that assms(3) by (simp add: begun_def quiet_def)
  show "mIsConnected lc' = mIsConnected lc" using assms(3) by (simp add: quiet_def)
qed

section \<open>Every step keeps it\<close>

lemma monitor_send_spec:
  assumes "reporting serverNo (mc_lan mc)" and "alloc_ok (lan_net (mc_lan mc)) (Some p)" and "framed pk m"
    and "m = monitor_login_message serverNo \<or>
      monitor_message serverNo m \<and> (mIsConnected (mc_lan mc) \<longrightarrow> begun serverNo (mSession (mc_lan mc)))"
  obtains mc' b where "monitor_send p pk w mc = Some (mc', b)" "reporting serverNo (mc_lan mc')"
    "leak (mc_lan mc') = leak (mc_lan mc)" "mIsConnected (mc_lan mc') = mIsConnected (mc_lan mc)"
    "b \<or> begun serverNo (mSession (mc_lan mc)) \<longrightarrow> begun serverNo (mSession (mc_lan mc'))"
    "mLoginSent mc' = mLoginSent mc" "b \<longrightarrow> mIsConnected (mc_lan mc)"
    "w = Started \<and> mIsConnected (mc_lan mc) \<and> \<not> released (mSession (mc_lan mc)) \<longrightarrow> b"
proof -
  let ?lc = "mc_lan mc" and ?g = "lan_net (mc_lan mc)"
  let ?s = "mSession ?lc"
  define lc0 where "lc0 = ?lc\<lparr>lan_net := ?g\<lparr>heap := (heap ?g)(p := pk)\<rparr>\<rparr>"
  have rep: "lan_ok ?lc" "\<forall>q. 0 \<le> leak ?lc q" "waiting_ok serverNo ?lc" "lan_fresh ?s \<or> begun serverNo ?s"
    using assms(1) by (auto simp: reporting_def)
  have free: "refcnt ?g p = 0" using assms(2) by (simp add: alloc_ok_def pool_ready_def)
  then have np: "p \<notin> set (contents (sendRing ?s))" using waiting_referenced [OF rep(2)] by blast
  have ok0: "lan_ok lc0" using rep(1) by (simp add: lan_ok_def lc0_def)
  have fr: "packet_ok pk" "capacity pk = BUFFER_DEFAULT" "mRefCnt pk = 1" "2 \<le> mDataSize pk" "drop 2 (written pk) = m"
    using assms(3) by (auto simp: framed_def)
  have h0: "heap (lan_net lc0) p = pk" "mSession lc0 = ?s" by (simp_all add: lc0_def)
  have lk0: "leak lc0 q = leak ?lc q + (if q = p then 1 else 0)" for q
    using free fr(3) by (auto simp: leak_def refcnt_def lc0_def)
  have msg: "monitor_message serverNo m" using assms(4) by (auto intro: monitor_message.intros)
  have run: "monitor_send p pk w mc = map_option (\<lambda>(lc1, b, cbs). (mc\<lparr>mc_lan := lc1\<lparr>lan_net := SubRef_at p (lan_net lc1)\<rparr>,
      mSendCount := (if b then mSendCount mc + 1 else mSendCount mc)\<rparr>, b)) (lan_SendPacket p w lc0)"
    by (cases "lan_SendPacket p w lc0") (simp_all add: monitor_send_def lc0_def Let_def split: prod.splits)
  have back_: "leak (lc1\<lparr>lan_net := SubRef_at p (lan_net lc1)\<rparr>) = leak ?lc" if "leak lc1 = leak lc0" for lc1
  proof (rule ext)
    fix q
    have "leak lc1 q = leak ?lc q + (if q = p then 1 else 0)" by (simp add: that lk0)
    then show "leak (lc1\<lparr>lan_net := SubRef_at p (lan_net lc1)\<rparr>) q = leak ?lc q"
      by (auto simp: leak_def refcnt_SubRef_at split: if_splits)
  qed
  have keeps: "written (heap (SubRef_at p g) q) = written (heap g q)" for g q
    using same_bytes_SubRef_at [of g p] by (simp add: same_bytes_def)
  note spec = lan_SendPacket_spec [OF ok0, of p w, unfolded h0, OF fr(1,2,4)]
  show ?thesis
  proof (rule spec, goal_cases)
    case 1
    let ?lc' = "lc0\<lparr>lan_net := SubRef_at p (lan_net lc0)\<rparr>"
    have "waiting_ok serverNo ?lc'" using rep(3) np keeps [of "lan_net lc0"] by (auto simp: waiting_ok_def lc0_def)
    then have "reporting serverNo ?lc'" using rep ok0 back_ [of lc0] by (simp add: reporting_def lan_ok_def lc0_def)
    then show ?thesis using 1 run back_ [of lc0]
      by (intro that [of "mc\<lparr>mc_lan := ?lc'\<rparr>" False]) (simp_all add: lc0_def)
  next
    case (2 lc1 b cbs pk' xs k n)
    let ?lc' = "lc1\<lparr>lan_net := SubRef_at p (lan_net lc1)\<rparr>"
    have pk': "written pk' = lan_frame m" using lan_set_header_spec [OF fr(1,2,4)] 2(8) fr(5) by auto
    let ?h = "(heap (lan_net lc0))(p := pk')"
    have xs: "\<forall>q \<in> set xs. \<exists>m. monitor_message serverNo m \<and> written (?h q) = lan_frame m"
      using 2(10) rep(3) np msg pk' by (auto simp: waiting_ok_def lc0_def)
    have wr: "written (heap (lan_net ?lc') q) = written (?h q)" for q
      using 2(9) keeps [of "lan_net lc1"] by (simp add: same_bytes_def)
    have "set (contents (sendRing (mSession ?lc'))) \<subseteq> set xs" using 2(11) by (simp add: set_drop_subset)
    then have w: "waiting_ok serverNo ?lc'" using xs wr unfolding waiting_ok_def by (metis subsetD)
    have tk: "\<forall>q \<in> set (take n xs). \<exists>m. monitor_message serverNo m \<and> written (?h q) = lan_frame m"
      using xs set_take_subset [of n xs] by blast
    have con: "mIsConnected ?lc" using 2(3) by (simp add: lc0_def)
    have bg: "begun serverNo (mSession lc1)" if "begun serverNo ?s" by (rule begun_more [OF that 2(12) tk])
    have fresh: "if b then begun serverNo (mSession lc1) else lan_fresh (mSession lc1)" if "lan_fresh ?s" "\<not> begun serverNo ?s"
    proof -
      have m: "m = monitor_login_message serverNo" using assms(4) con that(2) by blast
      have x: "xs = [p]" "k = MAX_SEND_PACKET" "b \<longrightarrow> n = MAX_SEND_PACKET"
        using 2(10,13,14) that(1) by (auto simp: lan_fresh_def SEND_RINGBUFFER_SIZE_def)
      show ?thesis
      proof (cases b)
        case True
        then have "k_wire (mSession lc1) = lan_frame (monitor_login_message serverNo)"
          using 2(12) x that(1) pk' m by (simp add: lan_fresh_def MAX_SEND_PACKET_def)
        then show ?thesis using True by (simp add: begun_def) (intro exI [of _ "[]"], simp)
      next
        case False
        then show ?thesis using 2(11,12,15) x that(1) by (simp add: lan_fresh_def MAX_SEND_PACKET_def)
      qed
    qed
    have "\<forall>q. 0 \<le> leak ?lc' q" using back_ [OF 2(6)] rep(2) by simp
    moreover have "lan_ok ?lc'" using 2(2) by (simp add: lan_ok_def)
    moreover have "lan_fresh (mSession lc1) \<or> begun serverNo (mSession lc1)" using rep(4) bg fresh by (cases b) auto
    ultimately have "reporting serverNo ?lc'" using w by (simp add: reporting_def)
    moreover have "b \<or> begun serverNo ?s \<longrightarrow> begun serverNo (mSession lc1)" using bg fresh rep(4) by (cases b) auto
    ultimately show ?thesis using run 2(1,4,16) con back_ [OF 2(6)]
      by (intro that [of "mc\<lparr>mc_lan := ?lc', mSendCount := (if b then mSendCount mc + 1 else mSendCount mc)\<rparr>" b]) simp_all
  qed
qed

lemma same_place:
  assumes "mon_ok serverNo st" and "reporting serverNo (mc_lan (mon st'))"
    and "begun serverNo (mSession (mc_lan (mon st))) \<Longrightarrow> begun serverNo (mSession (mc_lan (mon st')))"
    and "mIsConnected (mc_lan (mon st')) \<Longrightarrow> mIsConnected (mc_lan (mon st))"
    and "mLoginSent (mon st') \<Longrightarrow> mLoginSent (mon st)" and "mpc st' = mpc st"
  shows "mon_ok serverNo st'"
  using assms by (auto simp: mon_ok_def)

lemma mon_step_ok:
  assumes "mon_step serverNo l st st'" and "mon_ok serverNo st"
  shows "mon_ok serverNo st' \<and> (l \<noteq> SendGone \<longrightarrow> leak (mc_lan (mon st')) = leak (mc_lan (mon st)))"
  using assms
proof (induction rule: mon_step.induct)
  case (already_connected st st')
  then show ?case by (simp add: mon_ok_def)
next
  case (connect st sock conn registered w lc' ok st')
  let ?lc = "mc_lan (mon st)"
  have rep: "reporting serverNo ?lc" using connect.prems by (simp add: mon_ok_def)
  then have lok: "lan_ok ?lc" by (simp add: reporting_def)
  note c = lan_Connect_ok [OF lok connect.hyps(3)]
  have "waiting_ok serverNo lc'" using rep c(3,7) by (auto simp: waiting_ok_def reporting_def lan_fresh_def)
  then have "reporting serverNo lc'" using rep c(1,2,7) by (auto simp: reporting_def)
  then show ?case using connect.hyps(2,4) c(2,4) by (simp add: mon_ok_def)
next
  case (logged_in st st')
  then show ?case by (simp add: mon_ok_def)
next
  case (login st alloc w mc' ok st')
  let ?mc = "mon st"
  have rep: "reporting serverNo (mc_lan ?mc)" using login.prems by (simp add: mon_ok_def)
  show ?case
  proof (cases alloc)
    case None
    then show ?thesis using login by (simp add: sendLogin_def mon_ok_def)
  next
    case (Some p)
    have "capacity (heap (lan_net (mc_lan ?mc)) p) = BUFFER_DEFAULT" using login.hyps(3) Some by (simp add: alloc_ok_def pool_ready_def)
    then obtain pk where pk: "monitor_login_packet (heap (lan_net (mc_lan ?mc)) p) serverNo = Some pk" "framed pk (monitor_login_message serverNo)"
      by (rule monitor_login_packet_spec)
    obtain mc1 b where r: "monitor_send p pk w ?mc = Some (mc1, b)" "reporting serverNo (mc_lan mc1)"
      "leak (mc_lan mc1) = leak (mc_lan ?mc)" "mIsConnected (mc_lan mc1) = mIsConnected (mc_lan ?mc)"
      "b \<or> begun serverNo (mSession (mc_lan ?mc)) \<longrightarrow> begun serverNo (mSession (mc_lan mc1))" "mLoginSent mc1 = mLoginSent ?mc"
      by (rule monitor_send_spec [OF rep login.hyps(3) [unfolded Some] pk(2), of w]) auto
    have e: "mc' = mc1" "ok = b" using login.hyps(4) Some pk(1) r(1) by (simp_all add: sendLogin_def)
    show ?thesis using login.hyps(2,5) r e by (simp add: mon_ok_def)
  qed
next
  case (login_sent st st')
  then show ?case by (simp add: mon_ok_def)
next
  case (data st n alloc v timeStamp w mc' st')
  define t where "t = monitor_data_types ! n"
  have tm: "monitor_message serverNo (monitor_data_message t v timeStamp)"
    using data.hyps(2) by (intro monitor_message.data) (simp add: t_def)
  let ?mc = "(mon st)\<lparr>mSendTPS := mSendTPS (mon st) + 1\<rparr>"
  have rep: "reporting serverNo (mc_lan ?mc)" using data.prems by (simp add: mon_ok_def)
  have bg: "mIsConnected (mc_lan ?mc) \<longrightarrow> begun serverNo (mSession (mc_lan ?mc))"
    using data.prems data.hyps(1) by (simp add: mon_ok_def)
  show ?case
  proof (cases alloc)
    case None
    then show ?thesis using data.hyps(1,4,5) data.prems by (auto simp: sendData_def mon_ok_def)
  next
    case (Some p)
    have "capacity (heap (lan_net (mc_lan ?mc)) p) = BUFFER_DEFAULT" using data.hyps(3) Some by (simp add: alloc_ok_def pool_ready_def)
    then obtain pk where pk: "monitor_data_packet (heap (lan_net (mc_lan ?mc)) p) t v timeStamp = Some pk"
      "framed pk (monitor_data_message t v timeStamp)" by (rule monitor_data_packet_spec)
    have al: "alloc_ok (lan_net (mc_lan ?mc)) (Some p)" using data.hyps(3) Some by simp
    obtain mc1 b where r: "monitor_send p pk w ?mc = Some (mc1, b)" "reporting serverNo (mc_lan mc1)"
      "leak (mc_lan mc1) = leak (mc_lan ?mc)" "mIsConnected (mc_lan mc1) = mIsConnected (mc_lan ?mc)"
      "b \<or> begun serverNo (mSession (mc_lan ?mc)) \<longrightarrow> begun serverNo (mSession (mc_lan mc1))" "mLoginSent mc1 = mLoginSent ?mc"
      by (rule monitor_send_spec [OF rep al pk(2) disjI2 [OF conjI [OF tm bg]], of w]) blast
    have e: "mc' = mc1" using data.hyps(4) Some pk(1) r(1) by (simp add: sendData_def Let_def t_def)
    show ?thesis using data.hyps(5) r e bg by (simp add: mon_ok_def)
  qed
next
  case (finished st n st')
  then show ?case by (simp add: mon_ok_def)
next
  case (counts_read st' st)
  then show ?case by (simp add: mon_ok_def UpdateTPS_def)
next
  case (received st ws c ptr fuel w sg ps st')
  let ?lc = "mc_lan (mon st)"
  obtain s' g' where sg: "sg = (s', g')" by fastforce
  have rep: "reporting serverNo ?lc" using received.prems by (simp add: mon_ok_def)
  then have lok: "lan_ok ?lc" by (simp add: reporting_def)
  note r = lan_received_ok [OF lok received.hyps(1-5) received.hyps(6) [unfolded sg]]
  note q = reporting_quiet [OF rep r(1,2) _ r(4)]
  have "mc_lan (mon st') = ?lc\<lparr>mSession := s', lan_net := g'\<rparr>" "mLoginSent (mon st') = mLoginSent (mon st)" "mpc st' = mpc st"
    by (simp_all add: received.hyps(7) sg upd_lan_def)
  then show ?case using same_place [OF received.prems, of st'] q r(3) by simp
next
  case (recv_gone st st')
  let ?lc = "mc_lan (mon st)"
  have rep: "reporting serverNo ?lc" using recv_gone.prems by (simp add: mon_ok_def)
  then have lok: "lan_ok ?lc" by (simp add: reporting_def)
  have "if RECV = RECV then k_recv (mSession ?lc) else RECV = SEND \<and> k_send (mSession ?lc)" using recv_gone.hyps(1) by simp
  note r = lan_io_failed_ok [OF lok this]
  note q = reporting_quiet [OF rep r(1,2)]
  have "mc_lan (mon st') = ?lc\<lparr>mSession := lan_io_failed RECV (mSession ?lc)\<rparr>" "mLoginSent (mon st') = mLoginSent (mon st)" "mpc st' = mpc st"
    by (simp_all add: recv_gone.hyps(2) upd_lan_def)
  then show ?case using same_place [OF recv_gone.prems, of st'] q r(3,4) by simp
next
  case (sent st w sg st')
  let ?lc = "mc_lan (mon st)"
  have rep: "reporting serverNo ?lc" using sent.prems by (simp add: mon_ok_def)
  then have lok: "lan_ok ?lc" by (simp add: reporting_def)
  obtain s' g' m n where r: "lan_sent w (mSession ?lc, lan_net ?lc) = Some (s', g')"
    "lan_ok (?lc\<lparr>mSession := s', lan_net := g'\<rparr>)" "leak (?lc\<lparr>mSession := s', lan_net := g'\<rparr>) = leak ?lc"
    "same_bytes (lan_net ?lc) g'" "contents (sendRing s') = drop m (contents (sendRing (mSession ?lc)))"
    "k_wire s' = k_wire (mSession ?lc) @ concat (map (\<lambda>p. written (heap (lan_net ?lc) p)) (take n (contents (sendRing (mSession ?lc)))))"
    by (rule lan_sent_ok [OF lok sent.hyps(1), of w])
  let ?lc' = "?lc\<lparr>mSession := s', lan_net := g'\<rparr>"
  have w: "\<forall>q \<in> set (contents (sendRing (mSession ?lc))). \<exists>m. monitor_message serverNo m \<and> written (heap (lan_net ?lc) q) = lan_frame m"
    using rep by (simp add: reporting_def waiting_ok_def)
  have "set (contents (sendRing s')) \<subseteq> set (contents (sendRing (mSession ?lc)))" using r(5) by (simp add: set_drop_subset)
  then have w': "waiting_ok serverNo ?lc'" using w r(4) by (auto simp: waiting_ok_def same_bytes_def)
  have "\<not> lan_fresh (mSession ?lc)" using sent.hyps(1) by (simp add: lan_fresh_def)
  then have "begun serverNo (mSession ?lc)" using rep by (simp add: reporting_def)
  then have bg: "begun serverNo s'" using begun_more [OF _ r(6)] w set_take_subset [of n "contents (sendRing (mSession ?lc))"] by blast
  then have "reporting serverNo ?lc'" using rep r(2,3) w' by (simp add: reporting_def)
  moreover have sg: "sg = (s', g')" using sent.hyps(2) r(1) by simp
  moreover have "mc_lan (mon st') = ?lc'" "mLoginSent (mon st') = mLoginSent (mon st)" "mpc st' = mpc st"
    by (simp_all add: sent.hyps(3) sg upd_lan_def)
  ultimately show ?case using same_place [OF sent.prems, of st'] bg r(3) by simp
next
  case (send_gone st st')
  let ?lc = "mc_lan (mon st)"
  have rep: "reporting serverNo ?lc" using send_gone.prems by (simp add: mon_ok_def)
  then have lok: "lan_ok ?lc" by (simp add: reporting_def)
  have "if SEND = RECV then k_recv (mSession ?lc) else SEND = SEND \<and> k_send (mSession ?lc)" using send_gone.hyps(1) by simp
  note r = lan_io_failed_ok [OF lok this]
  note q = reporting_quiet [OF rep r(1,2)]
  have "mc_lan (mon st') = ?lc\<lparr>mSession := lan_io_failed SEND (mSession ?lc)\<rparr>" "mLoginSent (mon st') = mLoginSent (mon st)" "mpc st' = mpc st"
    by (simp_all add: send_gone.hyps(2) upd_lan_def)
  then show ?case using same_place [OF send_gone.prems, of st'] q r(3,5) by simp
next
  case (release st lc' ok st')
  let ?lc = "mc_lan (mon st)"
  have rep: "reporting serverNo ?lc" using release.prems by (simp add: mon_ok_def)
  then have lok: "lan_ok ?lc" by (simp add: reporting_def)
  obtain lc1 where r: "lan_release_completion ?lc = Some (lc1, True)" "lan_ok lc1" "leak lc1 = leak ?lc" "\<not> mIsConnected lc1"
    "k_wire (mSession lc1) = k_wire (mSession ?lc)" "sendFlag (mSession lc1) = 0" "contents (sendRing (mSession lc1)) = []"
    "\<not> k_send (mSession lc1)" by (rule lan_release_ok [OF lok release.hyps(1)])
  have e: "mc_lan (mon st') = lc1" using release.hyps(2,3) r(1) by simp
  have "reporting serverNo lc1" using rep r by (auto simp: reporting_def waiting_ok_def lan_fresh_def begun_def)
  then show ?case using e r(3,4) by (simp add: mon_ok_def)
next
  case (left_late st st')
  then show ?case by (auto simp: mon_ok_def OnDisconnect_monitor_def)
qed

lemma mon_run_ok:
  "mon_run serverNo ls st st' \<Longrightarrow> mon_ok serverNo st \<Longrightarrow>
   mon_ok serverNo st' \<and> (SendGone \<notin> set ls \<longrightarrow> leak (mc_lan (mon st')) = leak (mc_lan (mon st)))"
proof (induction rule: mon_run.induct)
  case (more ls st st1 l st2)
  then show ?case using mon_step_ok [OF more.hyps(2)] by auto
qed simp

lemma monitor_init_ok:
  assumes "\<And>p. refcnt g p = 0"
  shows "mon_ok serverNo (monitor_init g)" "leak (mc_lan (mon (monitor_init g))) = (\<lambda>_. 0)"
proof -
  have n: "mSession (new_LanClient g) = new_Session" "lan_net (new_LanClient g) = g" by (simp_all add: new_LanClient_def)
  have f: "\<not> k_recv new_Session" "\<not> k_send new_Session" "k_release new_Session = 0" "k_wire new_Session = []"
    "sendFlag new_Session = 0" by (simp_all add: new_Session_def)
  have o: "owned new_Session p = 0" for p using f new_Session_recv(4) by (simp add: owned_def)
  have l: "lan_ok (new_LanClient g)" using f new_Session_recv by (simp add: lan_ok_def n) (simp add: new_LanClient_def)
  have "reporting serverNo (new_LanClient g)"
    using l f new_Session_recv(4) assms o by (simp add: reporting_def leak_def n waiting_ok_def lan_fresh_def)
  then show "mon_ok serverNo (monitor_init g)"
    by (simp add: mon_ok_def monitor_init_def new_MonitorClient_def)
  show "leak (mc_lan (mon (monitor_init g))) = (\<lambda>_. 0)"
    using assms o by (simp add: monitor_init_def new_MonitorClient_def leak_def n fun_eq_iff)
qed

end
