(* ===== verification/Monitor_Behaviour.thy ===== *)
theory Monitor_Behaviour
  imports Monitor_Client
begin

text \<open>
  What the monitoring client promises in every run of its two threads, and what becomes of a LAN
  client that reconnects while operations of its old socket are outstanding.
\<close>

section \<open>The monitoring client\<close>

text \<open>The packets fit the receiver's buffer.\<close>

lemma length_monitor_message: "monitor_message serverNo m \<Longrightarrow> length m \<le> LAN_MAX_PAYLOAD"
  by (auto simp: monitor_message.simps monitor_login_message_def monitor_data_message_def LAN_MAX_PAYLOAD_def)

lemma reporting_total:
  assumes "reporting serverNo (mc_lan mc)" and "alloc_ok (lan_net (mc_lan mc)) alloc"
  shows "\<exists>r. sendLogin alloc serverNo w mc = Some r"
    "t \<in> set monitor_data_types \<Longrightarrow> mIsConnected (mc_lan mc) \<longrightarrow> begun serverNo (mSession (mc_lan mc)) \<Longrightarrow>
       \<exists>r. sendData alloc t v timeStamp w mc = Some r"
proof -
  show "\<exists>r. sendLogin alloc serverNo w mc = Some r"
  proof (cases alloc)
    case None
    then show ?thesis by (auto simp: sendLogin_def)
  next
    case (Some p)
    then have "capacity (heap (lan_net (mc_lan mc)) p) = BUFFER_DEFAULT" using assms(2) by (simp add: alloc_ok_def pool_ready_def)
    then obtain pk where pk: "monitor_login_packet (heap (lan_net (mc_lan mc)) p) serverNo = Some pk"
      "framed pk (monitor_login_message serverNo)" by (rule monitor_login_packet_spec)
    obtain mc' b where "monitor_send p pk w mc = Some (mc', b)"
      by (rule monitor_send_spec [OF assms(1) assms(2) [unfolded Some] pk(2), of w]) blast+
    then show ?thesis using Some pk(1) by (simp add: sendLogin_def)
  qed
  assume t: "t \<in> set monitor_data_types" and bg: "mIsConnected (mc_lan mc) \<longrightarrow> begun serverNo (mSession (mc_lan mc))"
  show "\<exists>r. sendData alloc t v timeStamp w mc = Some r"
  proof (cases alloc)
    case None
    then show ?thesis by (simp add: sendData_def Let_def)
  next
    case (Some p)
    let ?mc = "mc\<lparr>mSendTPS := mSendTPS mc + 1\<rparr>"
    have a: "alloc_ok (lan_net (mc_lan ?mc)) (Some p)" "reporting serverNo (mc_lan ?mc)"
      "mIsConnected (mc_lan ?mc) \<longrightarrow> begun serverNo (mSession (mc_lan ?mc))" using assms Some bg by simp_all
    then have "capacity (heap (lan_net (mc_lan ?mc)) p) = BUFFER_DEFAULT" by (simp add: alloc_ok_def pool_ready_def)
    then obtain pk where pk: "monitor_data_packet (heap (lan_net (mc_lan ?mc)) p) t v timeStamp = Some pk"
      "framed pk (monitor_data_message t v timeStamp)" by (rule monitor_data_packet_spec)
    obtain mc' b where "monitor_send p pk w ?mc = Some (mc', b)"
      by (rule monitor_send_spec [OF a(2,1) pk(2), of w]) (use monitor_message.data [OF t] a(3) in blast)+
    then show ?thesis using Some pk(1) by (simp add: sendData_def Let_def)
  qed
qed


text \<open>
  C30. In every run the monitoring server gets, on each connection, a stream of whole messages of which
  the first is the login with the server's number and every other is a login or one of the eight
  reports; and unless the completion of a send failed, every reference on a packet belongs to a
  packet that waits in the ring or is being sent.
\<close>
theorem monitor_login_first:
  assumes "\<And>p. refcnt g p = 0" and "mon_run serverNo ls (monitor_init g) st"
  shows "(k_wire (mSession (mc_lan (mon st))) = [] \<or>
      (\<exists>ms. lan_stream (k_wire (mSession (mc_lan (mon st)))) = (monitor_login_message serverNo # ms, [], False) \<and>
         (\<forall>m \<in> set ms. monitor_message serverNo m))) \<and>
     (SendGone \<notin> set ls \<longrightarrow> (\<forall>p. refcnt (lan_net (mc_lan (mon st))) p = owned (mSession (mc_lan (mon st))) p))"
proof -
  define s where "s = mSession (mc_lan (mon st))"
  have ok: "mon_ok serverNo st" "SendGone \<notin> set ls \<longrightarrow> leak (mc_lan (mon st)) = (\<lambda>_. 0)"
    using mon_run_ok [OF assms(2) monitor_init_ok(1) [OF assms(1)]] monitor_init_ok(2) [OF assms(1)] by auto
  from ok(1) consider "k_wire s = []" | "begun serverNo s" by (auto simp: mon_ok_def reporting_def lan_fresh_def s_def)
  then have "k_wire s = [] \<or>
      (\<exists>ms. lan_stream (k_wire s) = (monitor_login_message serverNo # ms, [], False) \<and> (\<forall>m \<in> set ms. monitor_message serverNo m))"
  proof cases
    case 2
    then obtain ms where ms: "\<forall>m \<in> set ms. monitor_message serverNo m"
      "k_wire s = concat (map lan_frame (monitor_login_message serverNo # ms))" by (auto simp: begun_def)
    have "\<forall>m \<in> set (monitor_login_message serverNo # ms). length m \<le> LAN_MAX_PAYLOAD"
      using ms(1) length_monitor_message monitor_message.login by auto
    then have "lan_stream (k_wire s) = (monitor_login_message serverNo # ms, [], False)"
      using lan.cut_frames [of "monitor_login_message serverNo # ms"] ms(2) by (simp add: list_all_iff)
    then show ?thesis using ms(1) by blast
  qed simp
  moreover have "SendGone \<notin> set ls \<longrightarrow> (\<forall>p. refcnt (lan_net (mc_lan (mon st))) p = owned s p)"
    using ok(2) by (auto simp: leak_def s_def fun_eq_iff)
  ultimately show ?thesis by (simp add: s_def)
qed

section \<open>Connecting\<close>

definition connected_session :: "nat \<Rightarrow> session \<Rightarrow> session" where
  "connected_session k s = (Session_Init s)\<lparr>s_socket := Some k, s_id := 1, s_state := Connected,
     k_recv := True, k_send := False, k_wire := [], s_control := 1\<rparr>"

lemma lan_Connect_succeeds:
  assumes "rings_ok (mSession lc)" and "\<not> mIsConnected lc"
  shows "lan_Connect (\<lambda>lc. lc) (Some k) True True Started lc =
    (lc\<lparr>mSession := connected_session k (mSession lc), mSocket := Some k, mIsConnected := True,
        k_stale := k_stale lc @ lan_left_over (mSession lc)\<rparr>, True)"
proof -
  let ?s = "mSession lc"
  have r: "ring_ok (recvRing ?s)" "GetBufferSize (recvRing ?s) = RECV_RINGBUFFER_SIZE" using assms(1) by (auto simp: rings_ok_def)
  note c = ClearBuffer_ok [OF r(1)]
  have "RECV_RINGBUFFER_SIZE < 2 * GetFreeSize (ClearBuffer (recvRing ?s))"
    using GetFreeSize_eq [OF c(1)] c r(2) by (simp add: RECV_RINGBUFFER_SIZE_def)
  then have "fst (GetEnqueueSegments (ClearBuffer (recvRing ?s))) \<noteq> 0"
    by (auto simp: GetEnqueueSegments_def Let_def RECV_RINGBUFFER_SIZE_def)
  then show ?thesis
    using assms(2) by (simp add: lan_Connect_def Let_def lan_postRecvInitial_def connected_session_def Session_Init_def)
qed

lemma connected_session_fields:
  "\<not> released (connected_session k s)" "k_recv (connected_session k s)" "s_socket (connected_session k s) = Some k"
  "s_control (connected_session k s) = SessionControl 1 0"
proof -
  have one: "(1 :: u64) = SessionControl 1 0" by (simp add: SessionControl_def)
  show "s_control (connected_session k s) = SessionControl 1 0" by (simp add: connected_session_def one)
  then show "\<not> released (connected_session k s)" by (simp add: released_def)
  show "k_recv (connected_session k s)" "s_socket (connected_session k s) = Some k" by (simp_all add: connected_session_def)
qed

definition idle_pool :: netstate where
  "idle_pool = \<lparr>heap = \<lambda>_. new_Packet 2048, freed = [], mDisconnectCount = \<lambda>_. 0\<rparr>"

text \<open>A run that connects and logs in.\<close>

lemma login_run:
  "\<exists>st. mon_run 2 [Connecting, LoginSent] (monitor_init idle_pool) st \<and> k_wire (mSession (mc_lan (mon st))) \<noteq> []"
proof -
  let ?st = "monitor_init idle_pool" and ?lc = "new_LanClient idle_pool"
  have g: "refcnt idle_pool p = 0" "capacity (heap idle_pool p) = BUFFER_DEFAULT" for p
    by (simp_all add: idle_pool_def refcnt_def new_Packet_def capacity_def BUFFER_DEFAULT_def)
  note init = monitor_init_ok(1) [where serverNo = 2, OF g(1)]
  have i: "mon ?st = new_MonitorClient idle_pool" "mpc ?st = AtStart" "mc_lan (new_MonitorClient idle_pool) = ?lc"
    "mSession ?lc = new_Session" "\<not> mIsConnected ?lc"
    by (simp_all add: monitor_init_def new_MonitorClient_def new_LanClient_def)
  have "rings_ok (mSession ?lc)" using new_Session_recv(1) by (simp add: i(4))
  note c = lan_Connect_succeeds [OF this i(5), of 7]
  define lc1 where "lc1 = ?lc\<lparr>mSession := connected_session 7 (mSession ?lc), mSocket := Some 7, mIsConnected := True,
        k_stale := k_stale ?lc @ lan_left_over (mSession ?lc)\<rparr>"
  define st1 where "st1 = ?st\<lparr>mon := (mon ?st)\<lparr>mLoginSent := False, mc_lan := lc1\<rparr>, mpc := AtCheck\<rparr>"
  have s1: "mon_step 2 Connecting ?st st1"
    by (rule mon_step.connect [where sock = "Some 7" and conn = True and registered = True and w = Started and lc' = lc1 and ok = True])
      (use i c in \<open>simp_all add: st1_def lc1_def\<close>)
  have ok1: "mon_ok 2 st1" using mon_step_ok [OF s1 init] by blast
  then have rep: "reporting 2 (mc_lan (mon st1))" by (simp add: mon_ok_def)
  have l1: "mc_lan (mon st1) = lc1" "\<not> mLoginSent (mon st1)" "mpc st1 = AtCheck" "lan_net lc1 = idle_pool" "mIsConnected lc1"
    "\<not> released (mSession lc1)"
    using connected_session_fields(1) by (simp_all add: st1_def lc1_def new_LanClient_def)
  have al: "alloc_ok (lan_net (mc_lan (mon st1))) (Some 5)" using g l1 by (simp add: alloc_ok_def pool_ready_def)
  have cap: "capacity (heap (lan_net (mc_lan (mon st1))) 5) = BUFFER_DEFAULT" using g(2) l1 by simp
  obtain pk where pk: "monitor_login_packet (heap (lan_net (mc_lan (mon st1))) 5) 2 = Some pk" "framed pk (monitor_login_message 2)"
    by (rule monitor_login_packet_spec [OF cap])
  obtain mc' b where r: "monitor_send 5 pk Started (mon st1) = Some (mc', b)"
    "b \<or> begun 2 (mSession (mc_lan (mon st1))) \<longrightarrow> begun 2 (mSession (mc_lan mc'))"
    "Started = Started \<and> mIsConnected (mc_lan (mon st1)) \<and> \<not> released (mSession (mc_lan (mon st1))) \<longrightarrow> b"
    by (rule monitor_send_spec [OF rep al pk(2) disjI1 [OF refl], of Started]) blast
  have b: "b" "begun 2 (mSession (mc_lan mc'))" using r(2,3) l1 by simp_all
  define st2 where "st2 = st1\<lparr>mon := mc', mpc := AtLoginSent\<rparr>"
  have s2: "mon_step 2 LoginSent st1 st2"
    by (rule mon_step.login [where alloc = "Some 5" and w = Started and mc' = mc' and ok = b])
      (use l1 al pk(1) r(1) b(1) in \<open>simp_all add: sendLogin_def st2_def\<close>)
  have "mon_run 2 (([] @ [Connecting]) @ [LoginSent]) ?st st2"
    by (intro mon_run.more [OF _ s2] mon_run.more [OF _ s1] mon_run.none)
  moreover have "k_wire (mSession (mc_lan (mon st2))) \<noteq> []"
  proof -
    have "length (lan_frame m) = 2 + length m" for m by (simp add: lan_frame_def)
    then have "lan_frame m \<noteq> []" for m by (metis add_is_0 list.size(3) zero_neq_numeral)
    then show ?thesis using b(2) by (auto simp: begun_def st2_def)
  qed
  ultimately show ?thesis by auto
qed

lemma idle_pool_free: "refcnt idle_pool p = 0"
  by (simp add: idle_pool_def refcnt_def new_Packet_def)


lemma monitor_login_first_witness:
  "\<exists>st ms. mon_run 2 [Connecting, LoginSent] (monitor_init idle_pool) st \<and>
     lan_stream (k_wire (mSession (mc_lan (mon st)))) = (monitor_login_message 2 # ms, [], False) \<and>
     (\<forall>p. refcnt (lan_net (mc_lan (mon st))) p = owned (mSession (mc_lan (mon st))) p)"
proof -
  obtain st where st: "mon_run 2 [Connecting, LoginSent] (monitor_init idle_pool) st" "k_wire (mSession (mc_lan (mon st))) \<noteq> []"
    using login_run by blast
  have "SendGone \<notin> set [Connecting, LoginSent]" by simp
  with monitor_login_first [OF idle_pool_free st(1)] st show ?thesis by blast
qed

section \<open>Reconnecting too early\<close>

text \<open>
  A LAN client that is disconnected and connected again while its receive is outstanding takes over the
  session object with the old operations still in the kernel. The completion of the old receive asks
  for the release of the new connection, takes the reference of its receive and so posts the release:
  the new socket is closed, although its peer did nothing and its receive is still under way.
\<close>

lemma lan_reconnect_closes_new_socket:
  assumes "lan_ok lc" and "mIsConnected lc" and "\<not> released (mSession lc)"
  shows "\<exists>lc1 lc2. lan_Connect (\<lambda>lc. lc) (Some k) True True Started (lan_Disconnect lc) = (lc1, True) \<and>
     mIsConnected lc1 \<and> s_socket (mSession lc1) = Some k \<and> \<not> released (mSession lc1) \<and> hd (k_stale lc1) = RECV \<and>
     lan_release_completion (lan_stale_failed lc1) = Some (lc2, True) \<and> \<not> mIsConnected lc2 \<and>
     s_socket (mSession lc2) = None \<and> k_recv (mSession lc2)"
proof -
  let ?s = "mSession lc"
  have h: "counts 0 ?s" "rings_ok ?s" "k_recv ?s" using assms by (auto simp: lan_ok_def)
  note q = lan_requestRelease_counts [OF h(1)]
  define lc0 where "lc0 = lan_Disconnect lc"
  have d: "mSession lc0 = lan_requestRelease ?s" "\<not> mIsConnected lc0" "k_stale lc0 = []"
    using assms(1,2) by (simp_all add: lc0_def lan_Disconnect_def lan_ok_def)
  have "rings_ok (mSession lc0)" using h(2) ctl_upd_keeps(1) [OF q(3)] by (simp add: d(1))
  note c = lan_Connect_succeeds [OF this d(2), of k]
  define t where "t = connected_session k (mSession lc0)"
  define lc1 where "lc1 = lc0\<lparr>mSession := t, mSocket := Some k, mIsConnected := True, k_stale := lan_left_over (mSession lc0)\<rparr>"
  note cf = connected_session_fields [of k "mSession lc0", folded t_def]
  have stale: "hd (lan_left_over (mSession lc0)) = RECV" using q(4) h(3) by (simp add: lan_left_over_def d(1))
  define u where "u = t\<lparr>s_control := SessionControl 0 1, k_release := Suc (k_release t)\<rparr>"
  have tr: "TrySetReleaseFlag (SessionControl 1 0) = Some (SessionControl 1 1, 1)"
    by (simp add: TrySetReleaseFlag_packed)
  have req: "lan_requestRelease t = t\<lparr>s_control := SessionControl 1 1\<rparr>"
    by (simp add: lan_requestRelease_def cf(4) tr)
  have dec: "lan_decreaseIoCount (t\<lparr>s_control := SessionControl 1 1\<rparr>) = u"
    using SessionControl_minus_1 [of 1 1] by (simp add: lan_decreaseIoCount_def u_def)
  have sf: "mSession (lan_stale_failed lc1) = u" "mIsConnected (lan_stale_failed lc1)"
    by (simp_all add: lan_stale_failed_def lc1_def req dec)
  have rt: "rings_ok t" using h(2) ctl_upd_keeps(1) [OF q(3)] ClearBuffer_ok [of "recvRing (mSession lc0)"]
      ClearBuffer_ok [of "sendRing (mSession lc0)"]
    by (auto simp: t_def connected_session_def Session_Init_def rings_ok_def d(1))
  then have ro: "ring_ok (sendRing t)" by (simp add: rings_ok_def)
  obtain ring' xs where pop: "pop_upto DequeueItem (nat (GetUseSize (sendRing t))) (sendRing t) = Some (ring', xs)"
    using send_ring.pop_upto_spec [OF ro] by blast
  have tc: "TryCleanup (SessionControl 0 1) = Some (SessionControl 0 3)" by (simp add: TryCleanup_packed)
  obtain lc2 where lc2: "lan_release_completion (lan_stale_failed lc1) = Some (lc2, True)" "\<not> mIsConnected lc2"
    "s_socket (mSession lc2) = None" "k_recv (mSession lc2)"
    using pop tc cf(2) by (simp add: lan_release_completion_def lan_releaseSession_def sf io_returned_def u_def Let_def)
  show ?thesis
    using c d(3) stale lc2 cf(1,3) by (intro exI [of _ lc1] exI [of _ lc2]) (simp add: lc1_def t_def lc0_def)
qed

end
