(* ===== verification/Login_Behaviour.thy ===== *)
theory Login_Behaviour
  imports Login_Server
begin

text \<open>
  Properties of the login server: its runs, the independence of its content threads, the life of a session's
  player object, and the handover of a login to the chat server through Redis.
\<close>

section \<open>Runs and independence\<close>

text \<open>
  C23. In every run of the login server, whatever the clients send and in whatever order the content threads
  take their jobs, no handler leaves a buffer or overruns its query text, and the state stays well formed:
  the map of a thread holds exactly sessions of its residue class, each entry under the id its player
  carries, no player object belongs to two threads or is free while in use, and every queued job lies with
  the thread of its session.
\<close>
theorem login_server_invariant:
  fixes pl :: "nat \<Rightarrow> player" and r :: 'r
  assumes "\<And>p. arrays_ok (pl p)" and "events_ok es (login_init r pl)"
  shows "\<exists>st acts. login_run es (login_init r pl) = Some (st, acts) \<and> login_ok st"
  by (rule login_run_ok [OF login_init_ok [OF assms(1)] assms(2)])

definition sample_login_env :: "(string \<Rightarrow> bytes option) login_env" where
  "sample_login_env = \<lparr>l_alloc = Some (new_Packet 2048), l_tick = 1000, l_indeterminate = 0, l_connected = (\<lambda>_. True),
     l_query = (\<lambda>_. Some [(Some [104], None)]), l_wide = (\<lambda>_. replicate 20 0), l_setex = (\<lambda>k t v r. Some (r(k := Some v))),
     l_iterOrder = (\<lambda>m. m)\<rparr>"

lemma sample_login_env_ok: "login_env_ok sample_login_env"
  by (simp add: login_env_ok_def sample_login_env_def new_Packet_def capacity_def)

lemma login_server_invariant_witness:
  "\<exists>st acts. login_run [NetJoin 6, NetRecv 6 (sample_packet [101, 0]), Content sample_login_env 2 0, HeartBeatTimer]
       (login_init (\<lambda>_. None) (\<lambda>_. blank_player)) = Some (st, acts) \<and> login_ok st"
proof (rule login_server_invariant)
  show "arrays_ok blank_player" by (rule blank_player_ok)
  have "packet_ok (sample_packet [101, 0])" using sample_received [of "[101, 0]"] by (simp add: received_def)
  then show "events_ok [NetJoin 6, NetRecv 6 (sample_packet [101, 0]), Content sample_login_env 2 0, HeartBeatTimer]
       (login_init (\<lambda>_. None) (\<lambda>_. blank_player))"
    by (simp add: sample_login_env_ok unowned_def thread_players_def login_init_def OnClientJoin_login_def OnRecv_login_def
        post_job_def split: option.splits prod.splits)
qed

text \<open>Everything but the order of the pool's free list and the state of Redis.\<close>

definition threads_view :: "'r loginsrv \<Rightarrow> (nat \<Rightarrow> player) \<times> (nat \<Rightarrow> (u64 \<times> nat) list) \<times> (nat \<Rightarrow> job list) \<times> int \<times> int \<times> int \<times> int" where
  "threads_view st = (loginPlayers st, playerMaps st, contentQueues st, loginJobCount st, loginRecvCount st, loginHeartCount st, loginTimeouts st)"

lemma slice_same_slice:
  assumes "i \<noteq> j" and "\<And>q. q \<notin> thread_players st i \<Longrightarrow> q \<noteq> p \<Longrightarrow> U q = (\<lambda>pl. pl)" and "login_ok st" and "unowned p st"
  shows "same_slice j st (slice i U M Q d Fr R st)"
proof -
  have "U q = (\<lambda>pl. pl)" if "q \<in> thread_players st j" for q
    using that threads_disjoint [OF assms(3) that, of i] assms(1,2,4) by (auto simp: unowned_def)
  then show ?thesis using assms(1) by (cases d) (simp add: same_slice_def slice_def)
qed

text \<open>
  C24. The content threads need no lock: steps of two different threads commute. In either order both succeed
  with the same actions and end with the same player objects, maps, queues and counters; only the order of
  the pool's free list and of the commands at the Redis server can differ.
\<close>
theorem content_threads_independent:
  assumes "login_ok st" and "i \<noteq> j" and "login_env_ok e1" and "login_env_ok e2" and "unowned p st" and "unowned q st" and "p \<noteq> q"
  shows "\<exists>s1 s2 t1 t2 a b. contentThread e1 i p st = Some (s1, a) \<and> contentThread e2 j q s1 = Some (s2, b) \<and>
    contentThread e2 j q st = Some (t1, b) \<and> contentThread e1 i p t1 = Some (t2, a) \<and> threads_view s2 = threads_view t2"
proof -
  obtain U M Q d Fr R a where 1: "\<And>s. same_slice i st s \<Longrightarrow> contentThread e1 i p s = Some (slice i U M Q d Fr R s, a)"
    "\<And>x. x \<notin> thread_players st i \<Longrightarrow> x \<noteq> p \<Longrightarrow> U x = (\<lambda>pl. pl)" by (rule content_slice [OF assms(1,3,5), where i = i]) blast
  obtain V N O' c Gr S b where 2: "\<And>s. same_slice j st s \<Longrightarrow> contentThread e2 j q s = Some (slice j V N O' c Gr S s, b)"
    "\<And>x. x \<notin> thread_players st j \<Longrightarrow> x \<noteq> q \<Longrightarrow> V x = (\<lambda>pl. pl)" by (rule content_slice [OF assms(1,4,6), where i = j]) blast
  have "same_slice j st (slice i U M Q d Fr R st)" by (rule slice_same_slice [OF assms(2) 1(2) assms(1,5)])
  moreover have "same_slice i st (slice j V N O' c Gr S st)"
    using assms(2) by (intro slice_same_slice [OF _ 2(2) assms(1,6)]) auto
  moreover have "U x (V x pl) = V x (U x pl)" for x pl
  proof -
    have "x \<notin> thread_players st i \<or> x \<notin> thread_players st j" using threads_disjoint [OF assms(1)] assms(2) by blast
    moreover have "p \<notin> thread_players st j" "q \<notin> thread_players st i" using assms(5,6) by (simp_all add: unowned_def)
    ultimately have "U x = (\<lambda>pl. pl) \<or> V x = (\<lambda>pl. pl)" using 1(2) [of x] 2(2) [of x] assms(7) by metis
    then show ?thesis by auto
  qed
  ultimately show ?thesis
    using 1(1) [of st] 1(1) [of "slice j V N O' c Gr S st"] 2(1) [of st] 2(1) [of "slice i U M Q d Fr R st"] assms(2)
    by (cases c; cases d) (auto simp: threads_view_def slice_def fun_eq_iff)
qed

definition two_joins :: "(string \<Rightarrow> bytes option) loginsrv" where
  "two_joins = OnClientJoin_login 6 (OnClientJoin_login 5 (login_init (\<lambda>_. None) (\<lambda>_. blank_player)))"

lemma two_joins_ok: "login_ok two_joins" "unowned p two_joins"
proof -
  show "login_ok two_joins"
    by (simp add: two_joins_def OnClientJoin_login_def post_job_ok login_init_ok blank_player_ok)
  show "unowned p two_joins"
    by (simp add: unowned_def thread_players_def two_joins_def OnClientJoin_login_def post_job_def login_init_def)
qed

lemma content_threads_independent_witness:
  "\<exists>s1 s2 t1 t2 a b. contentThread sample_login_env 1 0 two_joins = Some (s1, a) \<and> contentThread sample_login_env 2 1 s1 = Some (s2, b) \<and>
    contentThread sample_login_env 2 1 two_joins = Some (t1, b) \<and> contentThread sample_login_env 1 0 t1 = Some (t2, a) \<and>
    threads_view s2 = threads_view t2"
  by (rule content_threads_independent [OF two_joins_ok(1) _ sample_login_env_ok sample_login_env_ok two_joins_ok(2) two_joins_ok(2)]) simp_all

section \<open>The life of a session\<close>

lemma login_run_append:
  "login_run (es @ fs) st = do { (s1, a) \<leftarrow> login_run es st; (s2, b) \<leftarrow> login_run fs s1; Some (s2, a @ b) }"
  by (induction es arbitrary: st) (simp_all split: bind_splits prod.splits)

text \<open>A packet of a known session: answered or not, handled once, and nobody else is touched.\<close>

definition own_actions :: "u64 \<Rightarrow> nat \<Rightarrow> action list \<Rightarrow> bool" where
  "own_actions sid n acts \<longleftrightarrow> count_list acts AFreeRequest = n \<and> sends acts \<subseteq> {sid} \<and> disconnects acts \<subseteq> {sid} \<and> balanced acts"

lemma own_actions_append: "own_actions sid m a \<Longrightarrow> own_actions sid n b \<Longrightarrow> own_actions sid (m + n) (a @ b)"
  by (auto simp: own_actions_def balanced_def)

lemma packet_step:
  assumes "login_env_ok env" and "packet_ok packet" and "GetTargetThread sid = i" and "findPlayer_login sid s = Some p"
    and "contentQueues s i = PACKET_JOB sid packet # rest" and "mSessionID_p (loginPlayers s p) = sid"
  shows "\<exists>s' acts. contentThread env i b s = Some (s', acts) \<and> playerMaps s' = playerMaps s \<and>
    contentQueues s' = (contentQueues s)(i := rest) \<and> loginFreed s' = loginFreed s \<and>
    (\<forall>q. q \<noteq> p \<longrightarrow> loginPlayers s' q = loginPlayers s q) \<and> mSessionID_p (loginPlayers s' p) = sid \<and> own_actions sid 1 acts"
proof -
  obtain F R ok A where eff: "packet_effect env i packet F R ok A" by (rule packetProc_login_effect [OF assms(1,2)])
  have pp: "packetProc_login env i p packet s' =
      Some (upd_login p F (s'\<lparr>loginRedis := R (loginRedis s')\<rparr>), ok, A (mSessionID_p (loginPlayers s' p)))" for s'
    using eff by (simp add: packet_effect_def)
  have F: "mSessionID_p (F pl) = mSessionID_p pl" for pl using eff by (simp add: packet_effect_def)
  have A: "A sid = [] \<or> (\<exists>res. A sid = [AAlloc, ASend sid res, AFreeResponse])" using eff by (simp add: packet_effect_def)
  show ?thesis
    unfolding contentThread_def assms(5) list.case content_job.simps Let_def
    using assms(3,4,6) F A
    by (auto simp: findPlayer_login_def pp reserveDeletePlayer_login_def upd_login_def own_actions_def balanced_def)
qed

lemma packets_run:
  assumes "login_env_ok env" and "\<forall>packet \<in> set ps. packet_ok packet" and "GetTargetThread sid = i" and "findPlayer_login sid s = Some p"
    and "contentQueues s i = map (PACKET_JOB sid) ps @ rest" and "mSessionID_p (loginPlayers s p) = sid"
  shows "\<exists>s' acts. login_run (replicate (length ps) (Content env i b)) s = Some (s', acts) \<and> playerMaps s' = playerMaps s \<and>
    contentQueues s' = (contentQueues s)(i := rest) \<and> loginFreed s' = loginFreed s \<and>
    (\<forall>q. q \<noteq> p \<longrightarrow> loginPlayers s' q = loginPlayers s q) \<and> mSessionID_p (loginPlayers s' p) = sid \<and> own_actions sid (length ps) acts"
  using assms
proof (induction ps arbitrary: s)
  case Nil
  then show ?case by (auto simp: own_actions_def balanced_def)
next
  case (Cons packet ps)
  then have "packet_ok packet" "contentQueues s i = PACKET_JOB sid packet # (map (PACKET_JOB sid) ps @ rest)" by simp_all
  from packet_step [OF assms(1) this(1) assms(3) Cons.prems(4) this(2) Cons.prems(6)]
  obtain s1 a where 1: "contentThread env i b s = Some (s1, a)" "playerMaps s1 = playerMaps s"
    "contentQueues s1 = (contentQueues s)(i := map (PACKET_JOB sid) ps @ rest)" "loginFreed s1 = loginFreed s"
    "\<forall>q. q \<noteq> p \<longrightarrow> loginPlayers s1 q = loginPlayers s q" "mSessionID_p (loginPlayers s1 p) = sid" "own_actions sid 1 a" by blast
  have "findPlayer_login sid s1 = Some p" using Cons.prems(4) 1(2) by (simp add: findPlayer_login_def)
  moreover have "contentQueues s1 i = map (PACKET_JOB sid) ps @ rest" using 1(3) by simp
  moreover have "\<forall>packet \<in> set ps. packet_ok packet" using Cons.prems(2) by simp
  ultimately
  obtain s2 c where "login_run (replicate (length ps) (Content env i b)) s1 = Some (s2, c)" "playerMaps s2 = playerMaps s1"
    "contentQueues s2 = (contentQueues s1)(i := rest)" "loginFreed s2 = loginFreed s1"
    "\<forall>q. q \<noteq> p \<longrightarrow> loginPlayers s2 q = loginPlayers s1 q" "mSessionID_p (loginPlayers s2 p) = sid" "own_actions sid (length ps) c"
    using Cons.IH [OF assms(1) _ assms(3) _ _ 1(6)] by blast
  then show ?case using 1 own_actions_append [of sid 1 a "length ps" c] by auto
qed

lemma posts_run:
  "login_run (map (NetRecv sid) ps) st = Some (st', acts) \<Longrightarrow> acts = [] \<and> loginPlayers st' = loginPlayers st \<and> playerMaps st' = playerMaps st \<and>
     loginFreed st' = loginFreed st \<and>
     contentQueues st' = (contentQueues st)(GetTargetThread sid := contentQueues st (GetTargetThread sid) @ map (PACKET_JOB sid) ps)"
  "\<exists>st'. login_run (map (NetRecv sid) ps) st = Some (st', [])"
proof (induction ps arbitrary: st st' acts)
  case (Cons packet ps)
  {
    case 1
    define s1 where "s1 = OnRecv_login sid packet st"
    obtain acts' where "login_run (map (NetRecv sid) ps) s1 = Some (st', acts')" "acts' = acts"
      using 1 by (auto simp: s1_def split: bind_splits)
    with Cons(1) [of s1 st' acts'] show ?case by (auto simp: s1_def OnRecv_login_def post_job_def)
  next
    case 2
    show ?case using Cons(2) [of "OnRecv_login sid packet st"] by auto
  }
qed simp_all



text \<open>In the other order, as the accept thread of this copy can produce it, the object stays behind.\<close>

lemma leave_before_join_leaks:
  assumes "unowned p st" and "GetTargetThread sid = i" and "contentQueues st i = []" and "findPlayer_login sid st = None"
  shows "\<exists>st'. login_run [NetLeave sid, NetJoin sid, Content env i p, Content env i p] st = Some (st', []) \<and>
    findPlayer_login sid st' = Some p \<and> contentQueues st' = contentQueues st"
proof -
  have "map_of (playerMaps st i) sid = None" using assms(2,4) by (simp add: findPlayer_login_def)
  then show ?thesis
    using assms(2,3)
    by (simp add: OnClientLeave_login_def OnClientJoin_login_def post_job_def contentThread_def findPlayer_login_def Let_def
        upd_login_def map_add_def fun_upd_idem)
qed

section \<open>The handover to the chat server\<close>

definition login_request :: "u64 \<Rightarrow> bytes \<Rightarrow> bytes" where
  "login_request acc key = le_bytes 2 en_PACKET_CS_LOGIN_REQ_LOGIN @ le_bytes 8 acc @ key"

lemma login_request_effect:
  assumes "login_env_ok env" and "received packet (login_request acc key)" and "length key = 64"
    and "l_connected env i" and "account_query acc = Some query" and "l_query env query = Some ((row1, row2) # rows)"
    and "l_setex env = (\<lambda>k t v r. Some (r(k := Some v)))"
  obtains F res where "\<And>q s. packetProc_login env i q packet s = Some (upd_login q F
        (s\<lparr>loginRedis := (loginRedis s)(to_string (unat acc) := Some (takeWhile (\<lambda>b. b \<noteq> 0) key))\<rparr>), True,
        [AAlloc, ASend (mSessionID_p (loginPlayers s q)) res, AFreeResponse])"
    "\<And>pl. mSessionID_p (F pl) = mSessionID_p pl \<and> mIsLoggedIn (F pl) \<and> mAccountNo (F pl) = acc"
    "written res = replicate 5 0 @ le_bytes 2 en_PACKET_CS_LOGIN_RES_LOGIN @ le_bytes 8 acc @ [dfLOGIN_STATUS_OK] @ wbytes (l_wide env row1) @
       wbytes (l_wide env row2) @ wbytes server_ip @ le_bytes 2 GAME_SERVER_PORT @ wbytes server_ip @ le_bytes 2 CHAT_SERVER_PORT"
proof -
  have p: "packet_ok packet" "unread packet = le_bytes 2 en_PACKET_CS_LOGIN_REQ_LOGIN @ (le_bytes 8 acc @ key)"
    using assms(2) by (simp_all add: received_def login_request_def)
  have r1: "read_word 2 g packet = Some (advance packet 2, en_PACKET_CS_LOGIN_REQ_LOGIN)" "packet_ok (advance packet 2)"
    "unread (advance packet 2) = le_bytes 8 acc @ key" for g
    using read_word_prefix [OF p] by simp_all
  define p1 where "p1 = advance packet 2"
  have r2: "read_word 8 g p1 = Some (advance p1 8, acc)" "packet_ok (advance p1 8)" "unread (advance p1 8) = key" for g
    using read_word_prefix [OF r1(2,3)] by (simp_all add: p1_def)
  define p2 where "p2 = advance p1 8"
  have r3: "read_array 64 p2 = Some (advance p2 64, key)"
    using read_array_prefix [of p2 key "[]" 64] r2(2,3) assms(3) by (simp add: p2_def)
  obtain pooled where pooled: "l_alloc env = Some pooled" "capacity pooled = 2048" using assms(1) by (auto simp: login_env_ok_def)
  have wl: "length (l_wide env x) = 20" for x using assms(1) by (simp add: login_env_ok_def)
  have sl: "length server_ip = 16" by (simp add: server_ip_def)
  obtain res where res: "MakeLoginResLogin (Packet_Init pooled) acc dfLOGIN_STATUS_OK (l_wide env row1) (l_wide env row2)
      server_ip GAME_SERVER_PORT server_ip CHAT_SERVER_PORT = Some res"
    "written res = replicate 5 0 @ le_bytes 2 en_PACKET_CS_LOGIN_RES_LOGIN @ le_bytes 8 acc @ le_bytes 1 dfLOGIN_STATUS_OK @ wbytes (l_wide env row1) @
       wbytes (l_wide env row2) @ wbytes server_ip @ le_bytes 2 GAME_SERVER_PORT @ wbytes server_ip @ le_bytes 2 CHAT_SERVER_PORT"
    using MakeLoginResLogin_wrote [OF fresh_Packet_Init [OF pooled(2)] wl wl sl sl] by blast
  let ?F = "\<lambda>pl. OnLogin (l_tick env) (SetNickName (l_wide env row2) (SetID (l_wide env row1) (pl\<lparr>mAccountNo := acc\<rparr>)))"
  have row: "login_row env i acc = Some (Some (row1, row2))" using assms(4-6) by (simp add: login_row_def Query_def)
  have st: "le_bytes 1 dfLOGIN_STATUS_OK = [dfLOGIN_STATUS_OK]" by (simp add: le_bytes_def)
  show ?thesis
  proof (rule that [of ?F res])
    show "packetProc_login env i q packet s = Some (upd_login q ?F
        (s\<lparr>loginRedis := (loginRedis s)(to_string (unat acc) := Some (takeWhile (\<lambda>b. b \<noteq> 0) key))\<rparr>), True,
        [AAlloc, ASend (mSessionID_p (loginPlayers s q)) res, AFreeResponse])" for q s
      unfolding packetProc_login_def login_login_def r1(1) bind.simps prod.case p1_def [symmetric] r2(1) p2_def [symmetric] r3 row
      using pooled(1) res(1) assms(7)
      by (simp add: Let_def Redis_Set_def upd_login_def OnLogin_def SetNickName_def SetID_def)
    show "mSessionID_p (?F pl) = mSessionID_p pl \<and> mIsLoggedIn (?F pl) \<and> mAccountNo (?F pl) = acc" for pl
      by (simp add: OnLogin_def SetNickName_def SetID_def)
  qed (simp only: res(2) st)
qed

text \<open>A login the chat server's Redis check refuses.\<close>

lemma OnRecv_login_denied:
  assumes "env_ok env" and "packetAlloc env = Some pooled" and "findPlayer sid st = Some p" and "\<not> mIsLoggedIn (players st p)"
    and "received packet (login_message acc pid nick key)"
    and "length pid = 20" "0 \<in> set pid" "length nick = 20" "0 \<in> set nick" "length key = 64"
    and "CompareAndDel env (to_string (unat acc)) key (redis st) = (r', False)"
  shows "\<exists>st' acts. OnRecv_chat env sid packet st = Some (st', acts) \<and> \<not> mIsLoggedIn (players st' p)"
proof -
  let ?st = "st\<lparr>mRecvCount := mRecvCount st + 1, mJobCount := mJobCount st + 1\<rparr>"
  have p: "packet_ok packet" "unread packet = le_bytes 2 en_PACKET_CS_CHAT_REQ_LOGIN @ (le_bytes 8 acc @ wbytes pid @ wbytes nick @ key)"
    using assms(5) by (simp_all add: received_def login_message_def)
  have sz: "mDataSize packet = 159" using received_size [OF assms(5)] assms(6,8,10) by (simp add: login_message_def)
  have r: "read_word 2 (ucast (indeterminate env)) packet = Some (advance packet 2, en_PACKET_CS_CHAT_REQ_LOGIN)"
    "packet_ok (advance packet 2)" "unread (advance packet 2) = le_bytes 8 acc @ (wbytes pid @ wbytes nick @ key)"
    using read_word_prefix [OF p] by simp_all
  have ds: "mDataSize (advance packet 2) = 159" using sz by (simp add: advance_def)
  define p1 where "p1 = advance packet 2"
  have r1: "read_word 8 (indeterminate env) p1 = Some (advance p1 8, acc)" "packet_ok (advance p1 8)"
      "unread (advance p1 8) = wbytes pid @ wbytes nick @ key"
    using read_word_prefix [OF r(2,3)] by (simp_all add: p1_def)
  define p2 where "p2 = advance p1 8"
  have r2: "read_array 40 p2 = Some (advance p2 40, wbytes pid)" "packet_ok (advance p2 40)" "unread (advance p2 40) = wbytes nick @ key"
    using read_array_prefix [OF r1(2,3), of 40] assms(6) by (simp_all add: p2_def)
  define p3 where "p3 = advance p2 40"
  have r3: "read_array 40 p3 = Some (advance p3 40, wbytes nick)" "packet_ok (advance p3 40)" "unread (advance p3 40) = key"
    using read_array_prefix [OF r2(2,3), of 40] assms(8) by (simp_all add: p3_def)
  define p4 where "p4 = advance p3 40"
  have r4: "read_array 64 p4 = Some (advance p4 64, key)"
    using read_array_prefix [of p4 key "[]" 64] r3(2,3) assms(10) by (simp add: p4_def)
  have l: "login env p p1 ?st = Some (?st\<lparr>redis := r'\<rparr>, False, [AAlloc, AFreeResponse])"
    using assms(2,4,7,9,11) by (simp add: login_def r1(1) r2(1) r3(1) r4 Let_def flip: p2_def p3_def p4_def)
  have "packetProc env p packet ?st = login env p p1 ?st"
    using assms(4) ds by (simp add: packetProc_def r(1) Let_def p1_def)
  moreover have "findPlayer sid ?st = Some p" using assms(3) by (simp add: findPlayer_def)
  ultimately show ?thesis using l assms(4)
    by (simp add: OnRecv_chat_def Let_def reserveDeletePlayer_def upd_player_def)
qed


definition waiting_login :: "(string \<Rightarrow> bytes option) loginsrv" where
  "waiting_login = (login_init (\<lambda>_. None) (\<lambda>_. blank_player\<lparr>mSessionID_p := 6\<rparr>))
     \<lparr>playerMaps := (\<lambda>_. [])(2 := [(6, 0)]),
      contentQueues := (\<lambda>_. [])(2 := [PACKET_JOB 6 (sample_packet (login_request 42 sample_key))])\<rparr>"


end
