(* ===== verification/Group_Server.thy ===== *)
theory Group_Server
  imports Chat_Behaviour "HOL-Library.AList"
begin

text \<open>
  group-echo-server, GroupServer/: players move from the login group to one of the echo groups. Each group
  has a mailbox, which any thread fills, and a content thread, which drains it and handles the jobs; a
  \<open>Player*\<close> is a natural number and the pool may hand out a block again once it is free. Group 0 is the
  login group, group \<open>1 + k\<close> is echo shard \<open>k\<close>. A callback's part under the map lock and the handling of
  one job are atomic; what \<open>OnClientJoin\<close> and \<open>OnClientLeave\<close> do outside the lock is a step of its own.
\<close>

section \<open>Players, jobs and state\<close>

definition ECHO_SHARD_COUNT :: nat where "ECHO_SHARD_COUNT = 4"

record gplayer =
  g_sid :: u64
  g_account :: u64
  g_key :: bytes
  g_willDelete :: bool
  g_loggedIn :: bool
  g_connectTime :: u64
  g_lastActive :: u64
  g_timeoutLogged :: bool
  mGroup :: "nat option"

datatype gjob = JOIN nat | LEAVE nat | PACKET nat packet | GROUP_ENTER nat

record group_server =
  objs :: "nat \<Rightarrow> gplayer"
  playerMap :: "(u64 \<times> nat) list"                  \<comment> \<open>\<open>GroupServer::mPlayerMap\<close>\<close>
  mailbox :: "nat \<Rightarrow> gjob list"
  localJobs :: "nat \<Rightarrow> gjob list"                   \<comment> \<open>what \<open>Update\<close> has drained and not handled\<close>
  members :: "nat \<Rightarrow> (u64 \<times> nat) list"            \<comment> \<open>\<open>Group::mPlayers\<close>\<close>
  memberCount :: "nat \<Rightarrow> int"                       \<comment> \<open>\<open>Group::mPlayerCount\<close>\<close>
  freeBlocks :: "nat list"

record group_env =
  g_alloc :: "packet option"
  g_tick :: u64
  g_send :: "u64 \<Rightarrow> bool"
  g_indeterminate :: u64

definition Clear_g :: "gplayer \<Rightarrow> gplayer" where
  "Clear_g pl = pl\<lparr>g_sid := 0, g_account := 0, g_key := replicate (length (g_key pl)) 0, g_willDelete := False, g_loggedIn := False,
     g_connectTime := 0, g_lastActive := 0, g_timeoutLogged := False, mGroup := None\<rparr>"

definition upd_obj :: "nat \<Rightarrow> (gplayer \<Rightarrow> gplayer) \<Rightarrow> group_server \<Rightarrow> group_server" where
  "upd_obj p f st = st\<lparr>objs := (objs st)(p := f (objs st p))\<rparr>"

definition Enqueue_g :: "nat \<Rightarrow> gjob \<Rightarrow> group_server \<Rightarrow> group_server" where
  "Enqueue_g g j st = st\<lparr>mailbox := (mailbox st)(g := mailbox st g @ [j])\<rparr>"

definition Free_g :: "nat \<Rightarrow> group_server \<Rightarrow> group_server" where
  "Free_g p st = st\<lparr>freeBlocks := freeBlocks st @ [p]\<rparr>"

definition GetEchoGroupFor :: "u64 \<Rightarrow> nat" where
  "GetEchoGroupFor sessionID = 1 + unat sessionID mod ECHO_SHARD_COUNT"

section \<open>Messages\<close>

definition en_PACKET_CS_GAME_REQ_LOGIN :: u16 where "en_PACKET_CS_GAME_REQ_LOGIN = 1001"
definition en_PACKET_CS_GAME_RES_LOGIN :: u16 where "en_PACKET_CS_GAME_RES_LOGIN = 1002"
definition en_PACKET_CS_GAME_REQ_ECHO :: u16 where "en_PACKET_CS_GAME_REQ_ECHO = 5000"
definition en_PACKET_CS_GAME_RES_ECHO :: u16 where "en_PACKET_CS_GAME_RES_ECHO = 5001"
definition en_PACKET_CS_GAME_REQ_HEARTBEAT :: u16 where "en_PACKET_CS_GAME_REQ_HEARTBEAT = 5002"

definition MakeGameResLogin :: "packet \<Rightarrow> u8 \<Rightarrow> u64 \<Rightarrow> packet option" where
  "MakeGameResLogin pPacket status accountNo = do {
     p1 \<leftarrow> InitPacket pPacket en_PACKET_CS_GAME_RES_LOGIN;
     p2 \<leftarrow> shl_bytes p1 (le_bytes 1 status);
     shl_bytes p2 (le_bytes 8 accountNo)
   }"

definition MakeGameResEcho :: "packet \<Rightarrow> u64 \<Rightarrow> u64 \<Rightarrow> packet option" where
  "MakeGameResEcho pPacket accountNo sendTick = do {
     p1 \<leftarrow> InitPacket pPacket en_PACKET_CS_GAME_RES_ECHO;
     p2 \<leftarrow> shl_bytes p1 (le_bytes 8 accountNo);
     shl_bytes p2 (le_bytes 8 sendTick)
   }"

section \<open>The callbacks of the network library\<close>

definition ReserveDisconnect :: "nat \<Rightarrow> group_server \<Rightarrow> group_server \<times> action list" where
  "ReserveDisconnect p st =
     (if g_willDelete (objs st p) then (st, [])
      else (upd_obj p (\<lambda>pl. pl\<lparr>g_willDelete := True\<rparr>) st, [ADisconnect (g_sid (objs st p)) Logic]))"

text \<open>\<open>OnClientJoin\<close> before the lock, with the block the pool returns, and from there on.\<close>

definition join_prepare :: "group_env \<Rightarrow> nat \<Rightarrow> u64 \<Rightarrow> group_server \<Rightarrow> group_server" where
  "join_prepare env p sessionID st =
     upd_obj p (\<lambda>pl. (Clear_g pl)\<lparr>g_sid := sessionID, g_connectTime := g_tick env, g_timeoutLogged := False\<rparr>)
       (st\<lparr>freeBlocks := removeAll p (freeBlocks st)\<rparr>)"

definition join_publish :: "nat \<Rightarrow> u64 \<Rightarrow> group_server \<Rightarrow> group_server" where
  "join_publish p sessionID st =
     (let st1 = upd_obj p (\<lambda>pl. pl\<lparr>mGroup := Some 0\<rparr>) st in
      if map_of (playerMap st1) sessionID \<noteq> None then Free_g p st1
      else Enqueue_g 0 (JOIN p) (st1\<lparr>playerMap := playerMap st1 @ [(sessionID, p)]\<rparr>))"

definition OnClientJoin_group :: "group_env \<Rightarrow> nat \<Rightarrow> u64 \<Rightarrow> group_server \<Rightarrow> group_server" where
  "OnClientJoin_group env p sessionID st = join_publish p sessionID (join_prepare env p sessionID st)"

text \<open>\<open>OnClientLeave\<close> under the lock, and the second look at \<open>mGroup\<close> after it.\<close>

definition leave_locked :: "u64 \<Rightarrow> group_server \<Rightarrow> group_server \<times> nat option" where
  "leave_locked sessionID st =
     (case map_of (playerMap st) sessionID of
        None \<Rightarrow> (st, None)
      | Some p \<Rightarrow>
          (let st1 = st\<lparr>playerMap := filter (\<lambda>(sid, q). sid \<noteq> sessionID) (playerMap st)\<rparr>
           in (case mGroup (objs st1 p) of None \<Rightarrow> st1 | Some g \<Rightarrow> Enqueue_g g (LEAVE p) st1, Some p)))"

definition leave_check :: "nat option \<Rightarrow> group_server \<Rightarrow> group_server" where
  "leave_check player st =
     (case player of None \<Rightarrow> st | Some p \<Rightarrow> if mGroup (objs st p) = None then Free_g p st else st)"

definition OnClientLeave_group :: "u64 \<Rightarrow> group_server \<Rightarrow> group_server" where
  "OnClientLeave_group sessionID st = (case leave_locked sessionID st of (st1, player) \<Rightarrow> leave_check player st1)"

definition OnRecv_group :: "u64 \<Rightarrow> packet \<Rightarrow> group_server \<Rightarrow> (group_server \<times> action list) option" where
  "OnRecv_group sessionID packet st =
     (case map_of (playerMap st) sessionID of
        Some p \<Rightarrow>
          (case mGroup (objs st p) of
             Some g \<Rightarrow> Some (Enqueue_g g (PACKET p packet) st, [])
           | None \<Rightarrow> Some (st, [AFreeRequest]))
      | None \<Rightarrow> do {
          (p1, headerType) \<leftarrow> read_word 2 (0 :: u16) packet;
          Some (st, [AFreeRequest])
        })"

section \<open>The groups\<close>

definition member_erase :: "nat \<Rightarrow> u64 \<Rightarrow> group_server \<Rightarrow> group_server" where
  "member_erase g sid st =
     (if map_of (members st g) sid = None then st
      else st\<lparr>members := (members st)(g := filter (\<lambda>(s, q). s \<noteq> sid) (members st g)),
              memberCount := (memberCount st)(g := memberCount st g - 1)\<rparr>)"

definition onEnter :: "nat \<Rightarrow> nat \<Rightarrow> group_server \<Rightarrow> group_server" where
  "onEnter g p st =
     st\<lparr>members := (members st)(g := AList.update (g_sid (objs st p)) p (members st g)),
        memberCount := (memberCount st)(g := memberCount st g + 1)\<rparr>"

definition onLeave :: "nat \<Rightarrow> nat \<Rightarrow> group_server \<Rightarrow> group_server" where
  "onLeave g p st =
     (if mGroup (objs st p) \<noteq> Some g then
        (case mGroup (objs st p) of Some cur \<Rightarrow> Enqueue_g cur (LEAVE p) st | None \<Rightarrow> Free_g p st)
      else Free_g p (member_erase g (g_sid (objs st p)) st))"

definition handleLogin :: "group_env \<Rightarrow> nat \<Rightarrow> packet \<Rightarrow> group_server \<Rightarrow> (group_server \<times> bool \<times> action list) option" where
  "handleLogin env p packet st = do {
     (p1, accountNo) \<leftarrow> read_word 8 (g_indeterminate env) packet;
     (p2, sessionKey) \<leftarrow> read_array 64 p1;
     (case g_alloc env of
        None \<Rightarrow> Some (st, False, [AError])
      | Some pooled \<Rightarrow> do {
          let st1 = upd_obj p (\<lambda>pl. pl\<lparr>g_account := accountNo, g_key := copy_truncate (g_key pl) sessionKey,
                g_lastActive := g_tick env, g_loggedIn := True\<rparr>) st;
          resPacket \<leftarrow> MakeGameResLogin (Packet_Init pooled) 1 (g_account (objs st1 p));
          let sid = g_sid (objs st1 p);
          let target = GetEchoGroupFor sid;
          let st2 = Enqueue_g target (GROUP_ENTER p) st1;
          let st3 = upd_obj p (\<lambda>pl. pl\<lparr>mGroup := Some target\<rparr>) st2;
          let st4 = member_erase 0 sid st3;
          Some (st4, True, [AAlloc, ASend sid resPacket, AFreeResponse])
        })
   }"

definition refuse :: "nat \<Rightarrow> (group_server \<times> bool \<times> action list) \<Rightarrow> group_server \<times> action list" where
  "refuse p = (\<lambda>(st, ok, acts). if ok then (st, acts) else (case ReserveDisconnect p st of (st', a) \<Rightarrow> (st', acts @ a)))"

definition LoginGroup_OnRecv :: "group_env \<Rightarrow> nat \<Rightarrow> packet \<Rightarrow> group_server \<Rightarrow> (group_server \<times> action list) option" where
  "LoginGroup_OnRecv env p packet st =
     (if mGroup (objs st p) \<noteq> Some 0 then Some (st, [])
      else do {
        (p1, type) \<leftarrow> read_word 2 (ucast (g_indeterminate env) :: u16) packet;
        if type \<noteq> en_PACKET_CS_GAME_REQ_LOGIN then Some (ReserveDisconnect p st)
        else if mDataSize p1 - 5 - 2 \<noteq> 72 then Some (ReserveDisconnect p st)
        else do {
          r \<leftarrow> handleLogin env p p1 st;
          Some (refuse p r)
        }
      })"

definition handleEcho :: "group_env \<Rightarrow> nat \<Rightarrow> packet \<Rightarrow> group_server \<Rightarrow> (group_server \<times> bool \<times> action list) option" where
  "handleEcho env p packet st = do {
     (p1, accountNo) \<leftarrow> read_word 8 (g_indeterminate env) packet;
     (p2, sendTick) \<leftarrow> read_word 8 (g_indeterminate env) p1;
     (case g_alloc env of
        None \<Rightarrow> Some (st, False, [AError])
      | Some pooled \<Rightarrow> do {
          resPacket \<leftarrow> MakeGameResEcho (Packet_Init pooled) accountNo sendTick;
          let sid = g_sid (objs st p);
          Some (st, g_send env sid, [AAlloc, ASend sid resPacket, AFreeResponse])
        })
   }"

definition handleHeartbeat :: "group_server \<Rightarrow> (group_server \<times> bool \<times> action list) option" where
  "handleHeartbeat st = Some (st, True, [])"

definition EchoGroup_OnRecv :: "group_env \<Rightarrow> nat \<Rightarrow> packet \<Rightarrow> group_server \<Rightarrow> (group_server \<times> action list) option" where
  "EchoGroup_OnRecv env p packet st = do {
     (p1, type) \<leftarrow> read_word 2 (ucast (g_indeterminate env) :: u16) packet;
     let st1 = upd_obj p (\<lambda>pl. pl\<lparr>g_lastActive := g_tick env\<rparr>) st;
     if type = en_PACKET_CS_GAME_REQ_ECHO then do {
       r \<leftarrow> handleEcho env p p1 st1;
       Some (refuse p r)
     }
     else if type = en_PACKET_CS_GAME_REQ_HEARTBEAT then do {
       r \<leftarrow> handleHeartbeat st1;
       Some (refuse p r)
     }
     else Some (ReserveDisconnect p st1)
   }"

fun run_job :: "group_env \<Rightarrow> nat \<Rightarrow> gjob \<Rightarrow> group_server \<Rightarrow> (group_server \<times> action list) option" where
  "run_job env g (JOIN p) st = Some (onEnter g p st, [])"
| "run_job env g (GROUP_ENTER p) st = Some (onEnter g p st, [])"
| "run_job env g (LEAVE p) st = Some (onLeave g p st, [])"
| "run_job env g (PACKET p packet) st = do {
     (st1, acts) \<leftarrow> (if g = 0 then LoginGroup_OnRecv env p packet st else EchoGroup_OnRecv env p packet st);
     Some (st1, acts @ [AFreeRequest])
   }"

text \<open>\<open>Update\<close> of a group: the drain, then job by job.\<close>

definition DrainTo :: "nat \<Rightarrow> group_server \<Rightarrow> group_server" where
  "DrainTo g st = (if localJobs st g = [] then st\<lparr>localJobs := (localJobs st)(g := mailbox st g), mailbox := (mailbox st)(g := [])\<rparr> else st)"

definition Update_job :: "group_env \<Rightarrow> nat \<Rightarrow> group_server \<Rightarrow> (group_server \<times> action list) option" where
  "Update_job env g st =
     (case localJobs st g of
        [] \<Rightarrow> Some (st, [])
      | j # rest \<Rightarrow> run_job env g j (st\<lparr>localJobs := (localJobs st)(g := rest)\<rparr>))"

text \<open>The timeout thread only reports.\<close>

definition expired_g :: "u64 \<Rightarrow> gplayer \<Rightarrow> bool" where
  "expired_g now pl = (now - (if g_loggedIn pl then g_lastActive pl else g_connectTime pl) > (if g_loggedIn pl then 40000 else 60000))"

definition checkTimeOut_g :: "u64 \<Rightarrow> group_server \<Rightarrow> group_server" where
  "checkTimeOut_g now st =
     fold (\<lambda>(sid, p) s. if g_willDelete (objs s p) then s
         else upd_obj p (\<lambda>pl. pl\<lparr>g_timeoutLogged := g_timeoutLogged pl \<or> expired_g now pl\<rparr>) s) (playerMap st) st"

end
