(* ===== verification/Group_Safety.thy ===== *)
theory Group_Safety
  imports Group_Server
begin

text \<open>
  The life of a player object of the group server: which jobs about it can be queued where, which group
  holds it and when it is free. The invariant is kept by every step except the release of an object about
  which another group still has packets queued; the last section shows what such a release leads to.
\<close>

section \<open>Messages fit\<close>

definition game_fresh :: "packet \<Rightarrow> bool" where
  "game_fresh p \<longleftrightarrow> packet_ok p \<and> capacity p = 512 \<and> written p = [] \<and> mDataSize p = 0"

lemma game_fresh_Init: "capacity p = 512 \<Longrightarrow> game_fresh (Packet_Init p)"
  by (simp add: game_fresh_def Packet_Init_ok Packet_Init_fields)

lemma game_init_wrote:
  assumes "game_fresh p"
  obtains p' where "InitPacket p type = Some p'" "wrote p (replicate 5 0 @ le_bytes 2 type) p'"
proof -
  have ok: "packet_ok p" "fits p (length [0, 0, 0, 0, 0 :: u8])" using assms by (auto simp: game_fresh_def fits_def)
  obtain p1 where p1: "PutData p [0, 0, 0, 0, 0] = Some (p1, 5)" "wrote p [0, 0, 0, 0, 0] p1"
    using PutData_wrote [OF ok] by auto
  have "packet_ok p1" "fits p1 (length (le_bytes 2 type))" using p1(2) assms by (auto simp: wrote_def game_fresh_def fits_def)
  then obtain p2 where "shl_bytes p1 (le_bytes 2 type) = Some p2" "wrote p1 (le_bytes 2 type) p2" by (rule shl_wrote)
  with p1 wrote_trans [OF p1(2)] that show ?thesis by (auto simp: InitPacket_def numeral_eq_Suc)
qed

lemma game_two_wrote:
  assumes "game_fresh p" and "InitPacket p type = Some p1" and "wrote p (replicate 5 0 @ le_bytes 2 type) p1"
    and "length a + length b \<le> 400"
  obtains p2 p3 where "shl_bytes p1 a = Some p2" "shl_bytes p2 b = Some p3" "written p3 = replicate 5 0 @ le_bytes 2 type @ a @ b"
proof -
  have "packet_ok p1" "fits p1 (length a)" using assms by (auto simp: wrote_def game_fresh_def fits_def)
  then obtain p2 where p2: "shl_bytes p1 a = Some p2" "wrote p1 a p2" by (rule shl_wrote)
  note w2 = wrote_trans [OF assms(3) p2(2)]
  have "packet_ok p2" "fits p2 (length b)" using w2 assms(1,4) by (auto simp: wrote_def game_fresh_def fits_def)
  then obtain p3 where p3: "shl_bytes p2 b = Some p3" "wrote p2 b p3" by (rule shl_wrote)
  show ?thesis using that [OF p2(1) p3(1)] wrote_trans [OF w2 p3(2)] assms(1) by (simp add: wrote_def game_fresh_def)
qed

lemma MakeGameResLogin_wrote:
  assumes "game_fresh p"
  obtains p' where "MakeGameResLogin p status acc = Some p'"
    "written p' = replicate 5 0 @ le_bytes 2 en_PACKET_CS_GAME_RES_LOGIN @ le_bytes 1 status @ le_bytes 8 acc"
proof -
  obtain p1 where p1: "InitPacket p en_PACKET_CS_GAME_RES_LOGIN = Some p1"
    "wrote p (replicate 5 0 @ le_bytes 2 en_PACKET_CS_GAME_RES_LOGIN) p1" by (rule game_init_wrote [OF assms])
  obtain p2 p3 where "shl_bytes p1 (le_bytes 1 status) = Some p2" "shl_bytes p2 (le_bytes 8 acc) = Some p3"
    "written p3 = replicate 5 0 @ le_bytes 2 en_PACKET_CS_GAME_RES_LOGIN @ le_bytes 1 status @ le_bytes 8 acc"
    by (rule game_two_wrote [OF assms p1, of "le_bytes 1 status" "le_bytes 8 acc"]) auto
  then show ?thesis using that [of p3] p1(1) by (simp add: MakeGameResLogin_def)
qed

lemma MakeGameResEcho_wrote:
  assumes "game_fresh p"
  obtains p' where "MakeGameResEcho p acc t = Some p'"
    "written p' = replicate 5 0 @ le_bytes 2 en_PACKET_CS_GAME_RES_ECHO @ le_bytes 8 acc @ le_bytes 8 t"
proof -
  obtain p1 where p1: "InitPacket p en_PACKET_CS_GAME_RES_ECHO = Some p1"
    "wrote p (replicate 5 0 @ le_bytes 2 en_PACKET_CS_GAME_RES_ECHO) p1" by (rule game_init_wrote [OF assms])
  obtain p2 p3 where "shl_bytes p1 (le_bytes 8 acc) = Some p2" "shl_bytes p2 (le_bytes 8 t) = Some p3"
    "written p3 = replicate 5 0 @ le_bytes 2 en_PACKET_CS_GAME_RES_ECHO @ le_bytes 8 acc @ le_bytes 8 t"
    by (rule game_two_wrote [OF assms p1, of "le_bytes 8 acc" "le_bytes 8 t"]) auto
  then show ?thesis using that [of p3] p1(1) by (simp add: MakeGameResEcho_def)
qed

section \<open>What is queued about a player\<close>

datatype token = TE | TL | TP

fun tok :: "nat \<Rightarrow> gjob \<Rightarrow> token list" where
  "tok p (JOIN q) = (if q = p then [TE] else [])"
| "tok p (GROUP_ENTER q) = (if q = p then [TE] else [])"
| "tok p (LEAVE q) = (if q = p then [TL] else [])"
| "tok p (PACKET q packet) = (if q = p then [TP] else [])"

definition word :: "group_server \<Rightarrow> nat \<Rightarrow> nat \<Rightarrow> token list" where
  "word st g p = concat (map (tok p) (localJobs st g @ mailbox st g))"

definition is_member :: "group_server \<Rightarrow> nat \<Rightarrow> nat \<Rightarrow> bool" where
  "is_member st g p \<longleftrightarrow> p \<in> snd ` set (members st g)"

definition inmap :: "group_server \<Rightarrow> nat \<Rightarrow> bool" where
  "inmap st p \<longleftrightarrow> p \<in> snd ` set (playerMap st)"

definition idle :: "group_server \<Rightarrow> nat \<Rightarrow> bool" where
  "idle st p \<longleftrightarrow> (\<forall>g. word st g p = []) \<and> (\<forall>g. \<not> is_member st g p) \<and> \<not> inmap st p"

text \<open>
  A player in use belongs to group \<open>G\<close>: either its entry is queued there (\<open>e\<close>) or it is a member, and of
  no other group. Its packets and its leave (\<open>l\<close>) follow; the login group may still have packets of a player
  that has moved on, and the leave (\<open>m\<close>) that will be forwarded. A leave is queued exactly once the
  session has left the map.
\<close>

definition stage :: "group_server \<Rightarrow> nat \<Rightarrow> nat \<Rightarrow> bool \<Rightarrow> nat \<Rightarrow> bool \<Rightarrow> nat \<Rightarrow> bool \<Rightarrow> bool" where
  "stage st p G e n l k m \<longleftrightarrow>
     mGroup (objs st p) = Some G \<and> (G = 0 \<or> G = GetEchoGroupFor (g_sid (objs st p))) \<and>
     word st G p = (if e then [TE] else []) @ replicate n TP @ (if l then [TL] else []) \<and>
     (\<forall>g. is_member st g p \<longleftrightarrow> g = G \<and> \<not> e) \<and> (\<forall>g. g \<noteq> G \<longrightarrow> g \<noteq> 0 \<longrightarrow> word st g p = []) \<and>
     (if G = 0 then \<not> m else word st 0 p = replicate k TP @ (if m then [TL] else [])) \<and>
     (inmap st p \<longleftrightarrow> \<not> l \<and> \<not> m) \<and> \<not> (l \<and> m)"

definition in_use :: "group_server \<Rightarrow> nat \<Rightarrow> bool" where
  "in_use st p \<longleftrightarrow> (\<exists>G e n l k m. stage st p G e n l k m)"

definition tables_ok :: "group_server \<Rightarrow> bool" where
  "tables_ok st \<longleftrightarrow>
     (\<forall>(sid, p) \<in> set (playerMap st). g_sid (objs st p) = sid) \<and> distinct (map fst (playerMap st)) \<and>
     (\<forall>g. (\<forall>(sid, p) \<in> set (members st g). g_sid (objs st p) = sid) \<and> distinct (map fst (members st g)) \<and>
        memberCount st g = int (length (members st g))) \<and>
     (\<forall>g. \<forall>p packet. PACKET p packet \<in> set (localJobs st g @ mailbox st g) \<longrightarrow> packet_ok packet)"

definition group_ok :: "group_server \<Rightarrow> bool" where
  "group_ok st \<longleftrightarrow> tables_ok st \<and> (\<forall>p. idle st p \<or> in_use st p) \<and>
     (\<forall>p q. \<not> idle st p \<longrightarrow> \<not> idle st q \<longrightarrow> g_sid (objs st p) = g_sid (objs st q) \<longrightarrow> p = q) \<and>
     distinct (freeBlocks st) \<and> (\<forall>p \<in> set (freeBlocks st). idle st p)"

lemma GetEchoGroupFor_pos [simp]: "GetEchoGroupFor sid \<noteq> 0" "0 < GetEchoGroupFor sid"
  by (simp_all add: GetEchoGroupFor_def)

lemma idle_not_in_use: "idle st p \<Longrightarrow> \<not> in_use st p"
  by (auto simp: idle_def in_use_def stage_def)

lemma word_Enqueue [simp]: "word (Enqueue_g g j st) g' p = (if g' = g then word st g p @ tok p j else word st g' p)"
  by (simp add: word_def Enqueue_g_def)

lemma word_upd [simp]: "word (upd_obj p f st) g q = word st g q" "word (Free_g p st) g q = word st g q"
  "word (member_erase h sid st) g q = word st g q" "word (onEnter h p st) g q = word st g q"
  "word (st\<lparr>playerMap := M\<rparr>) g q = word st g q" "word (st\<lparr>freeBlocks := F\<rparr>) g q = word st g q"
  by (simp_all add: word_def upd_obj_def Free_g_def member_erase_def onEnter_def)

lemma fields_upd [simp]:
  "members (upd_obj p f st) = members st" "playerMap (upd_obj p f st) = playerMap st" "freeBlocks (upd_obj p f st) = freeBlocks st"
  "memberCount (upd_obj p f st) = memberCount st" "localJobs (upd_obj p f st) = localJobs st" "mailbox (upd_obj p f st) = mailbox st"
  "objs (upd_obj p f st) q = (if q = p then f (objs st p) else objs st q)"
  "members (Enqueue_g g j st) = members st" "playerMap (Enqueue_g g j st) = playerMap st" "objs (Enqueue_g g j st) = objs st"
  "freeBlocks (Enqueue_g g j st) = freeBlocks st" "memberCount (Enqueue_g g j st) = memberCount st" "localJobs (Enqueue_g g j st) = localJobs st"
  "members (Free_g p st) = members st" "playerMap (Free_g p st) = playerMap st" "objs (Free_g p st) = objs st"
  "memberCount (Free_g p st) = memberCount st" "localJobs (Free_g p st) = localJobs st" "mailbox (Free_g p st) = mailbox st"
  "freeBlocks (Free_g p st) = freeBlocks st @ [p]"
  "playerMap (member_erase g sid st) = playerMap st" "objs (member_erase g sid st) = objs st" "freeBlocks (member_erase g sid st) = freeBlocks st"
  "localJobs (member_erase g sid st) = localJobs st" "mailbox (member_erase g sid st) = mailbox st"
  "playerMap (onEnter g p st) = playerMap st" "objs (onEnter g p st) = objs st" "freeBlocks (onEnter g p st) = freeBlocks st"
  "localJobs (onEnter g p st) = localJobs st" "mailbox (onEnter g p st) = mailbox st"
  by (simp_all add: upd_obj_def Enqueue_g_def Free_g_def member_erase_def onEnter_def)

lemma in_useI: "stage st p G e n l k m \<Longrightarrow> in_use st p"
  unfolding in_use_def by blast

lemma inmap_iff: "inmap st p \<longleftrightarrow> (\<exists>s. (s, p) \<in> set (playerMap st))"
  by (force simp: inmap_def)

lemma is_member_iff: "is_member st g p \<longleftrightarrow> (\<exists>s. (s, p) \<in> set (members st g))"
  by (force simp: is_member_def)

lemma stageD:
  assumes "stage st p G e n l k m"
  shows "mGroup (objs st p) = Some G" "G = 0 \<or> G = GetEchoGroupFor (g_sid (objs st p))"
    "word st G p = (if e then [TE] else []) @ replicate n TP @ (if l then [TL] else [])"
    "is_member st g p \<longleftrightarrow> g = G \<and> \<not> e" "g \<noteq> G \<Longrightarrow> g \<noteq> 0 \<Longrightarrow> word st g p = []" "G = 0 \<Longrightarrow> \<not> m"
    "G \<noteq> 0 \<Longrightarrow> word st 0 p = replicate k TP @ (if m then [TL] else [])" "inmap st p \<longleftrightarrow> \<not> l \<and> \<not> m" "\<not> (l \<and> m)"
  using assms unfolding stage_def by (auto split: if_splits)

lemma stageI:
  assumes "mGroup (objs st p) = Some G" and "G = 0 \<or> G = GetEchoGroupFor (g_sid (objs st p))"
    and "word st G p = (if e then [TE] else []) @ replicate n TP @ (if l then [TL] else [])"
    and "\<And>g. is_member st g p \<longleftrightarrow> g = G \<and> \<not> e" and "\<And>g. g \<noteq> G \<Longrightarrow> g \<noteq> 0 \<Longrightarrow> word st g p = []" and "G = 0 \<Longrightarrow> \<not> m"
    and "G \<noteq> 0 \<Longrightarrow> word st 0 p = replicate k TP @ (if m then [TL] else [])" and "inmap st p \<longleftrightarrow> \<not> l \<and> \<not> m" and "\<not> (l \<and> m)"
  shows "stage st p G e n l k m"
  unfolding stage_def using assms by presburger

text \<open>A step about \<open>p\<close> keeps the invariant if it leaves the others alone.\<close>

lemma group_ok_step:
  assumes "group_ok st" and "tables_ok st'"
    and "\<And>q. q \<noteq> p \<Longrightarrow> objs st' q = objs st q \<and> inmap st' q = inmap st q \<and> (\<forall>g. word st' g q = word st g q \<and> is_member st' g q = is_member st g q)"
    and "idle st' p \<or> in_use st' p"
    and "\<not> idle st' p \<Longrightarrow> \<forall>q. q \<noteq> p \<longrightarrow> \<not> idle st q \<longrightarrow> g_sid (objs st q) \<noteq> g_sid (objs st' p)"
    and "distinct (freeBlocks st')" and "\<And>q. q \<in> set (freeBlocks st') \<Longrightarrow> q \<noteq> p \<Longrightarrow> q \<in> set (freeBlocks st)"
    and "p \<in> set (freeBlocks st') \<Longrightarrow> idle st' p"
  shows "group_ok st'"
proof -
  have i: "idle st' q = idle st q" "in_use st' q = in_use st q" if "q \<noteq> p" for q
    using assms(3) [OF that] by (simp_all add: idle_def in_use_def stage_def)
  show ?thesis unfolding group_ok_def
  proof (intro conjI allI impI ballI)
    show "idle st' q \<or> in_use st' q" for q using i [of q] assms(1,4) by (cases "q = p") (auto simp: group_ok_def)
    show "a = b" if "\<not> idle st' a" "\<not> idle st' b" "g_sid (objs st' a) = g_sid (objs st' b)" for a b
    proof (rule ccontr)
      assume ne: "a \<noteq> b"
      consider "a = p" | "b = p" | "a \<noteq> p" "b \<noteq> p" by blast
      then show False
      proof cases
        case 3
        then show False using that ne i assms(1,3) by (auto simp: group_ok_def)
      qed (use that ne i assms(3,5) in metis)+
    qed
    show "idle st' q" if "q \<in> set (freeBlocks st')" for q
      using that i [of q] assms(1,7,8) by (cases "q = p") (auto simp: group_ok_def)
  qed (rule assms(2,6))+
qed

section \<open>Callbacks keep the invariant\<close>

lemma group_okD:
  assumes "group_ok st"
  shows "tables_ok st" "idle st p \<or> in_use st p"
    "\<not> idle st p \<Longrightarrow> \<not> idle st q \<Longrightarrow> g_sid (objs st p) = g_sid (objs st q) \<Longrightarrow> p = q"
    "distinct (freeBlocks st)" "p \<in> set (freeBlocks st) \<Longrightarrow> idle st p"
  using assms by (auto simp: group_ok_def)

lemma tables_okD:
  assumes "tables_ok st"
  shows "(sid, p) \<in> set (playerMap st) \<Longrightarrow> g_sid (objs st p) = sid" "distinct (map fst (playerMap st))"
    "(sid, p) \<in> set (members st g) \<Longrightarrow> g_sid (objs st p) = sid" "distinct (map fst (members st g))"
    "memberCount st g = int (length (members st g))"
    "PACKET p packet \<in> set (localJobs st g @ mailbox st g) \<Longrightarrow> packet_ok packet"
  using assms unfolding tables_ok_def by blast+

lemma not_idle: "(sid, p) \<in> set (playerMap st) \<Longrightarrow> \<not> idle st p" "(sid, p) \<in> set (members st g) \<Longrightarrow> \<not> idle st p"
  by (force simp: idle_def inmap_def is_member_def)+

definition new_session :: "u64 \<Rightarrow> group_server \<Rightarrow> bool" where
  "new_session sid st \<longleftrightarrow> (\<forall>q. \<not> idle st q \<longrightarrow> g_sid (objs st q) \<noteq> sid)"

lemma new_session_map: "group_ok st \<Longrightarrow> new_session sid st \<Longrightarrow> map_of (playerMap st) sid = None"
  using tables_okD(1) [OF group_okD(1)] not_idle(1) by (fastforce simp: new_session_def map_of_eq_None_iff)

lemma join_group_ok:
  assumes "group_ok st" and "idle st p" and "new_session sid st"
  shows "group_ok (OnClientJoin_group env p sid st)"
proof -
  let ?pl = "(Clear_g (objs st p))\<lparr>g_sid := sid, g_connectTime := g_tick env, g_timeoutLogged := False, mGroup := Some 0\<rparr>"
  define st' where "st' = st\<lparr>objs := (objs st)(p := ?pl), playerMap := playerMap st @ [(sid, p)],
    mailbox := (mailbox st)(0 := mailbox st 0 @ [JOIN p]), freeBlocks := removeAll p (freeBlocks st)\<rparr>"
  have new: "map_of (playerMap st) sid = None" by (rule new_session_map [OF assms(1,3)])
  then have st': "OnClientJoin_group env p sid st = st'"
    by (simp add: OnClientJoin_group_def join_prepare_def join_publish_def Let_def st'_def upd_obj_def Enqueue_g_def)
  note t = tables_okD [OF group_okD(1) [OF assms(1)]]
  have other: "g_sid (objs st' q) = g_sid (objs st q)" if "\<not> idle st q" for q using that assms(2) by (auto simp: st'_def)
  have jobs: "set (localJobs st' g @ mailbox st' g) \<subseteq> set (localJobs st g @ mailbox st g) \<union> {JOIN p}" for g by (auto simp: st'_def)
  have tab: "tables_ok st'" unfolding tables_ok_def
  proof (intro conjI allI ballI impI)
    have old: "g_sid (objs st' q) = s" if "(s, q) \<in> set (playerMap st) \<or> (s, q) \<in> set (members st g)" for s q g
      using that t(1,3) not_idle other by metis
    have "set (playerMap st') = insert (sid, p) (set (playerMap st))" "g_sid (objs st' p) = sid" by (simp_all add: st'_def)
    then show "case x of (s, q) \<Rightarrow> g_sid (objs st' q) = s" if "x \<in> set (playerMap st')" for x
      using that old by (cases x) auto
    have "members st' = members st" by (simp add: st'_def)
    then show "case x of (s, q) \<Rightarrow> g_sid (objs st' q) = s" if "x \<in> set (members st' g)" for x g
      using that old by (cases x) auto
    show "distinct (map fst (playerMap st'))" using t(2) new by (auto simp: st'_def map_of_eq_None_iff)
    show "distinct (map fst (members st' g))" "memberCount st' g = int (length (members st' g))" for g using t(4,5) by (simp_all add: st'_def)
    show "packet_ok packet" if "PACKET q packet \<in> set (localJobs st' g @ mailbox st' g)" for q packet g
      using t(6) [of q packet g] that jobs [of g] by blast
  qed
  have w: "word st' g q = word st g q @ (if g = 0 then tok q (JOIN p) else [])" for g q
    by (simp add: word_def st'_def)
  have same: "members st' = members st" "inmap st' q \<longleftrightarrow> q = p \<or> inmap st q" "freeBlocks st' = removeAll p (freeBlocks st)"
    "mGroup (objs st' p) = Some 0" "g_sid (objs st' p) = sid" for q by (auto simp: st'_def inmap_def)
  have "stage st' p 0 True 0 False 0 False"
    using assms(2) by (simp add: stage_def w idle_def is_member_def same)
  then have use: "in_use st' p" by (rule in_useI)
  show ?thesis unfolding st'
  proof (rule group_ok_step [OF assms(1) tab, of p])
    show "objs st' q = objs st q \<and> inmap st' q = inmap st q \<and> (\<forall>g. word st' g q = word st g q \<and> is_member st' g q = is_member st g q)"
      if "q \<noteq> p" for q using that by (simp add: w same is_member_def, simp add: st'_def)
    show "\<forall>q. q \<noteq> p \<longrightarrow> \<not> idle st q \<longrightarrow> g_sid (objs st q) \<noteq> g_sid (objs st' p)" using assms(3) by (simp add: same new_session_def)
    show "distinct (freeBlocks st')" using group_okD(4) [OF assms(1)] by (simp add: same distinct_removeAll)
  qed (use use in \<open>auto simp: same\<close>)
qed

lemma in_map_stage:
  assumes "group_ok st" and "map_of (playerMap st) sid = Some p"
  obtains G e n k where "stage st p G e n False k False" "g_sid (objs st p) = sid" "\<not> idle st p"
proof -
  have m: "(sid, p) \<in> set (playerMap st)" using assms(2) by (rule map_of_SomeD)
  have im: "inmap st p" using m by (auto simp: inmap_iff)
  have "in_use st p" using not_idle(1) [OF m] group_okD(2) [OF assms(1), of p] by blast
  then obtain G e n l k m' where s: "stage st p G e n l k m'" unfolding in_use_def by blast
  then have "\<not> l" "\<not> m'" using im unfolding stage_def by blast+
  with s have "stage st p G e n False k False" by simp
  then show ?thesis using that tables_okD(1) [OF group_okD(1) [OF assms(1)] m] not_idle(1) [OF m] by blast
qed

lemma leave_group_ok:
  assumes "group_ok st"
  shows "group_ok (OnClientLeave_group sid st)"
proof (cases "map_of (playerMap st) sid")
  case None
  then show ?thesis using assms by (simp add: OnClientLeave_group_def leave_locked_def leave_check_def)
next
  case (Some p)
  obtain G e n k where s: "stage st p G e n False k False" and sid: "g_sid (objs st p) = sid" and ni: "\<not> idle st p"
    by (rule in_map_stage [OF assms Some])
  then have mg: "mGroup (objs st p) = Some G" by (simp add: stage_def)
  define st' where "st' = st\<lparr>playerMap := filter (\<lambda>(s, q). s \<noteq> sid) (playerMap st), mailbox := (mailbox st)(G := mailbox st G @ [LEAVE p])\<rparr>"
  have st': "OnClientLeave_group sid st = st'"
    using Some mg by (simp add: OnClientLeave_group_def leave_locked_def leave_check_def Let_def Enqueue_g_def st'_def)
  note t = tables_okD [OF group_okD(1) [OF assms]]
  have gone: "\<not> inmap st' p" using t(1) sid by (auto simp: inmap_def st'_def)
  have kept: "inmap st' q = inmap st q" if "q \<noteq> p" for q
  proof -
    have "s \<noteq> sid" if "(s, q) \<in> set (playerMap st)" for s
      using that \<open>q \<noteq> p\<close> map_of_is_SomeI [OF t(2) that] Some by auto
    then show ?thesis by (auto simp: inmap_iff st'_def)
  qed
  have w: "word st' g q = word st g q @ (if g = G then tok q (LEAVE p) else [])" for g q by (simp add: word_def st'_def)
  have jobs: "set (localJobs st' g @ mailbox st' g) \<subseteq> set (localJobs st g @ mailbox st g) \<union> {LEAVE p}" for g by (auto simp: st'_def)
  have tab: "tables_ok st'" unfolding tables_ok_def
  proof (intro conjI allI ballI impI)
    show "packet_ok packet" if "PACKET q packet \<in> set (localJobs st' g @ mailbox st' g)" for q packet g
      using t(6) [of q packet g] that jobs [of g] by blast
  qed (use t(1-5) in \<open>auto simp: st'_def distinct_map_filter\<close>)
  have same: "objs st' = objs st" "members st' = members st" "freeBlocks st' = freeBlocks st" by (simp_all add: st'_def)
  have "stage st' p G e n True k False"
    using s gone unfolding stage_def w is_member_def same by simp
  then have use: "in_use st' p" by (rule in_useI)
  have sids: "\<forall>q. q \<noteq> p \<longrightarrow> \<not> idle st q \<longrightarrow> g_sid (objs st q) \<noteq> sid" using group_okD(3) [OF assms ni] sid by metis
  have fr: "q \<in> set (freeBlocks st) \<Longrightarrow> q \<noteq> p" for q using group_okD(5) [OF assms] ni by blast
  show ?thesis unfolding st'
  proof (rule group_ok_step [OF assms tab, of p])
    show "objs st' q = objs st q \<and> inmap st' q = inmap st q \<and> (\<forall>g. word st' g q = word st g q \<and> is_member st' g q = is_member st g q)"
      if "q \<noteq> p" for q using that kept by (simp add: w same is_member_def)
    show "\<forall>q. q \<noteq> p \<longrightarrow> \<not> idle st q \<longrightarrow> g_sid (objs st q) \<noteq> g_sid (objs st' p)" using sids sid by (simp add: same)
  qed (use use fr group_okD(4) [OF assms] in \<open>auto simp: same\<close>)
qed

lemma recv_group_ok:
  assumes "group_ok st" and "packet_ok packet"
  obtains st' acts where "OnRecv_group sid packet st = Some (st', acts)" "group_ok st'"
proof (cases "map_of (playerMap st) sid")
  case None
  obtain p1 t where "read_word 2 (0 :: u16) packet = Some (p1, t)" by (rule read_word_total [OF assms(2), of 2]) auto
  then show ?thesis using that None assms(1) by (simp add: OnRecv_group_def)
next
  case (Some p)
  obtain G e n k where s: "stage st p G e n False k False" and sid: "g_sid (objs st p) = sid" and ni: "\<not> idle st p"
    by (rule in_map_stage [OF assms(1) Some])
  then have mg: "mGroup (objs st p) = Some G" by (simp add: stage_def)
  define st' where "st' = Enqueue_g G (PACKET p packet) st"
  note t = tables_okD [OF group_okD(1) [OF assms(1)]]
  have jobs: "set (localJobs st' g @ mailbox st' g) \<subseteq> set (localJobs st g @ mailbox st g) \<union> {PACKET p packet}" for g
    by (auto simp: st'_def Enqueue_g_def)
  have tab: "tables_ok st'" unfolding tables_ok_def
  proof (intro conjI allI ballI impI)
    show "packet_ok pk" if "PACKET q pk \<in> set (localJobs st' g @ mailbox st' g)" for q pk g
      using t(6) [of q pk g] that jobs [of g] assms(2) by blast
  qed (use t(1-5) in \<open>auto simp: st'_def\<close>)
  have "stage st' p G e (Suc n) False k False"
    using s by (auto simp: stage_def st'_def is_member_def inmap_def replicate_append_same)
  then have use: "in_use st' p" by (rule in_useI)
  have sids: "\<forall>q. q \<noteq> p \<longrightarrow> \<not> idle st q \<longrightarrow> g_sid (objs st q) \<noteq> sid" using group_okD(3) [OF assms(1) ni] sid by metis
  have fr: "q \<in> set (freeBlocks st) \<Longrightarrow> q \<noteq> p" for q using group_okD(5) [OF assms(1)] ni by blast
  have same: "objs st' = objs st" "members st' = members st" "freeBlocks st' = freeBlocks st" "inmap st' q = inmap st q"
    "word st' g q = word st g q @ (if g = G then tok q (PACKET p packet) else [])" for g q by (simp_all add: st'_def inmap_def)
  have "group_ok st'"
  proof (rule group_ok_step [OF assms(1) tab, of p])
    show "\<forall>q. q \<noteq> p \<longrightarrow> \<not> idle st q \<longrightarrow> g_sid (objs st q) \<noteq> g_sid (objs st' p)" using sids sid by (simp add: same)
  qed (use use fr group_okD(4) [OF assms(1)] in \<open>auto simp: same is_member_def\<close>)
  then show ?thesis using that Some mg by (simp add: OnRecv_group_def st'_def)
qed

lemma drain_ok:
  assumes "group_ok st"
  shows "group_ok (DrainTo g st)"
proof -
  have w: "word (DrainTo g st) h q = word st h q" for h q by (simp add: DrainTo_def word_def)
  have same: "objs (DrainTo g st) = objs st" "members (DrainTo g st) = members st" "freeBlocks (DrainTo g st) = freeBlocks st"
    "playerMap (DrainTo g st) = playerMap st" "memberCount (DrainTo g st) = memberCount st"
    "set (localJobs (DrainTo g st) h @ mailbox (DrainTo g st) h) = set (localJobs st h @ mailbox st h)" for h
    by (simp_all add: DrainTo_def)
  have "tables_ok (DrainTo g st)" using group_okD(1) [OF assms] unfolding tables_ok_def same .
  moreover have "idle (DrainTo g st) p = idle st p" "in_use (DrainTo g st) p = in_use st p" for p
    by (simp_all add: idle_def in_use_def stage_def w is_member_def inmap_def same)
  ultimately show ?thesis using assms by (simp add: group_ok_def same)
qed

section \<open>Jobs keep the invariant\<close>

definition group_env_ok :: "group_env \<Rightarrow> bool" where
  "group_env_ok env \<longleftrightarrow> (\<forall>p. g_alloc env = Some p \<longrightarrow> capacity p = 512)"

definition keeps :: "(gplayer \<Rightarrow> gplayer) \<Rightarrow> bool" where
  "keeps F \<longleftrightarrow> (\<forall>pl. g_sid (F pl) = g_sid pl \<and> mGroup (F pl) = mGroup pl)"

text \<open>The move of a player to its echo group, as \<open>handleLogin\<close> makes it.\<close>

definition moved :: "nat \<Rightarrow> (gplayer \<Rightarrow> gplayer) \<Rightarrow> group_server \<Rightarrow> group_server" where
  "moved p F st =
     (let sid = g_sid (objs st p); target = GetEchoGroupFor sid in
      member_erase 0 sid (upd_obj p (\<lambda>pl. pl\<lparr>mGroup := Some target\<rparr>) (Enqueue_g target (GROUP_ENTER p) (upd_obj p F st))))"

lemma upd_obj_upd_obj: "upd_obj p F (upd_obj p H st) = upd_obj p (F \<circ> H) st"
  by (simp add: upd_obj_def)

lemma upd_obj_self: "upd_obj p (\<lambda>pl. pl) st = st"
  by (simp add: upd_obj_def)

lemma ReserveDisconnect_upd: "keeps F \<Longrightarrow> \<exists>F'. keeps F' \<and> fst (ReserveDisconnect p (upd_obj p F st)) = upd_obj p F' st"
proof (cases "g_willDelete (objs (upd_obj p F st) p)")
  case False
  assume "keeps F"
  then have "keeps ((\<lambda>pl. pl\<lparr>g_willDelete := True\<rparr>) \<circ> F)" by (simp add: keeps_def)
  then show ?thesis using False by (auto simp: ReserveDisconnect_def upd_obj_upd_obj)
qed (auto simp: ReserveDisconnect_def)

lemma ReserveDisconnect_self: "\<exists>F'. keeps F' \<and> fst (ReserveDisconnect p st) = upd_obj p F' st"
  using ReserveDisconnect_upd [of "\<lambda>pl. pl" p st] by (simp add: upd_obj_self keeps_def)

lemma handleLogin_result:
  assumes "group_env_ok env" and "packet_ok packet"
  obtains F ok acts where "keeps F" "handleLogin env p packet st = Some (if ok then moved p F st else st, ok, acts)"
proof -
  obtain p1 acc where r1: "read_word 8 (g_indeterminate env) packet = Some (p1, acc)" "packet_ok p1"
    by (rule read_word_total [OF assms(2), of 8]) auto
  obtain p2 key where r2: "read_array 64 p1 = Some (p2, key)" by (rule read_array_total [OF r1(2)])
  show ?thesis
  proof (cases "g_alloc env")
    case None
    then show ?thesis using that [of "\<lambda>pl. pl" False "[AError]"] by (simp add: handleLogin_def r1(1) r2 keeps_def)
  next
    case (Some pooled)
    then have fr: "game_fresh (Packet_Init pooled)" using assms(1) by (simp add: group_env_ok_def game_fresh_Init)
    obtain res where res: "MakeGameResLogin (Packet_Init pooled) 1 acc = Some res" by (rule MakeGameResLogin_wrote [OF fr])
    let ?F = "\<lambda>pl. pl\<lparr>g_account := acc, g_key := copy_truncate (g_key pl) key, g_lastActive := g_tick env, g_loggedIn := True\<rparr>"
    have "handleLogin env p packet st = Some (moved p ?F st, True, [AAlloc, ASend (g_sid (objs st p)) res, AFreeResponse])"
      by (simp add: handleLogin_def r1(1) r2 Some Let_def res moved_def)
    then show ?thesis using that [of ?F True] by (simp add: keeps_def)
  qed
qed

lemma LoginGroup_result:
  assumes "group_env_ok env" and "packet_ok packet"
  obtains F st' acts where "LoginGroup_OnRecv env p packet st = Some (st', acts)" "keeps F"
    "st' = upd_obj p F st \<or> mGroup (objs st p) = Some 0 \<and> st' = moved p F st"
proof (cases "mGroup (objs st p) = Some 0")
  case False
  then show ?thesis using that [of st "[]" "\<lambda>pl. pl"] by (simp add: LoginGroup_OnRecv_def keeps_def upd_obj_self)
next
  case True
  obtain p1 t where r: "read_word 2 (ucast (g_indeterminate env) :: u16) packet = Some (p1, t)" "packet_ok p1"
    by (rule read_word_total [OF assms(2), of 2]) auto
  obtain F' where F': "keeps F'" "fst (ReserveDisconnect p st) = upd_obj p F' st" using ReserveDisconnect_self by blast
  show ?thesis
  proof (cases "t = en_PACKET_CS_GAME_REQ_LOGIN \<and> mDataSize p1 - 5 - 2 = 72")
    case False
    then have "LoginGroup_OnRecv env p packet st = Some (ReserveDisconnect p st)" using True by (auto simp: LoginGroup_OnRecv_def r(1))
    moreover obtain st' a where "ReserveDisconnect p st = (st', a)" by fastforce
    ultimately show ?thesis using that [of st' a F'] F' by simp
  next
    case login: True
    obtain F ok acts where h: "keeps F" "handleLogin env p p1 st = Some (if ok then moved p F st else st, ok, acts)"
      by (rule handleLogin_result [OF assms(1) r(2)])
    have l: "LoginGroup_OnRecv env p packet st = Some (refuse p (if ok then moved p F st else st, ok, acts))"
      using True login by (simp add: LoginGroup_OnRecv_def r(1) h(2))
    show ?thesis
    proof (cases ok)
      case True
      then show ?thesis using that [of "moved p F st" acts F] l h(1) \<open>mGroup (objs st p) = Some 0\<close> by (simp add: refuse_def)
    next
      case False
      then show ?thesis using that [of "upd_obj p F' st" "acts @ snd (ReserveDisconnect p st)" F'] l F'
        by (auto simp: refuse_def split: prod.splits)
    qed
  qed
qed

lemma EchoGroup_result:
  assumes "group_env_ok env" and "packet_ok packet"
  obtains F acts where "EchoGroup_OnRecv env p packet st = Some (upd_obj p F st, acts)" "keeps F"
proof -
  obtain p1 t where r: "read_word 2 (ucast (g_indeterminate env) :: u16) packet = Some (p1, t)" "packet_ok p1"
    by (rule read_word_total [OF assms(2), of 2]) auto
  define H where "H = (\<lambda>pl :: gplayer. pl\<lparr>g_lastActive := g_tick env\<rparr>)"
  have H: "keeps H" by (simp add: H_def keeps_def)
  obtain F' where F': "keeps F'" "fst (ReserveDisconnect p (upd_obj p H st)) = upd_obj p F' st" using ReserveDisconnect_upd [OF H] by blast
  define r0 where "r0 = ReserveDisconnect p (upd_obj p H st)"
  have r0: "fst r0 = upd_obj p F' st" using F'(2) by (simp add: r0_def)
  have refused: "\<exists>F acts'. keeps F \<and> refuse p (upd_obj p H st, ok, acts) = (upd_obj p F st, acts')" for ok acts
  proof (cases ok)
    case False
    then have "refuse p (upd_obj p H st, ok, acts) = (upd_obj p F' st, acts @ snd r0)"
      using r0 by (auto simp: refuse_def simp flip: r0_def split: prod.splits)
    then show ?thesis using F'(1) by blast
  qed (use H in \<open>auto simp: refuse_def\<close>)
  obtain p2 acc where r2: "read_word 8 (g_indeterminate env) p1 = Some (p2, acc)" "packet_ok p2"
    by (rule read_word_total [OF r(2), of 8]) auto
  obtain p3 tk where r3: "read_word 8 (g_indeterminate env) p2 = Some (p3, tk)" by (rule read_word_total [OF r2(2), of 8]) auto
  have echo: "\<exists>ok acts. handleEcho env p p1 (upd_obj p H st) = Some (upd_obj p H st, ok, acts)"
  proof (cases "g_alloc env")
    case (Some pooled)
    then have "game_fresh (Packet_Init pooled)" using assms(1) by (simp add: group_env_ok_def game_fresh_Init)
    then obtain res where "MakeGameResEcho (Packet_Init pooled) acc tk = Some res" by (rule MakeGameResEcho_wrote)
    then show ?thesis using Some by (simp add: handleEcho_def r2(1) r3 Let_def)
  qed (auto simp: handleEcho_def r2(1) r3)
  have "\<exists>F acts. EchoGroup_OnRecv env p packet st = Some (upd_obj p F st, acts) \<and> keeps F"
  proof -
    consider (e) "t = en_PACKET_CS_GAME_REQ_ECHO" | (h) "t \<noteq> en_PACKET_CS_GAME_REQ_ECHO" "t = en_PACKET_CS_GAME_REQ_HEARTBEAT"
      | (x) "t \<noteq> en_PACKET_CS_GAME_REQ_ECHO" "t \<noteq> en_PACKET_CS_GAME_REQ_HEARTBEAT" by blast
    then show ?thesis
    proof cases
      case e
      then obtain ok acts where "EchoGroup_OnRecv env p packet st = Some (refuse p (upd_obj p H st, ok, acts))"
        using echo by (auto simp: EchoGroup_OnRecv_def r(1) Let_def simp flip: H_def)
      then show ?thesis using refused [of ok acts] by auto
    next
      case h
      then have "EchoGroup_OnRecv env p packet st = Some (refuse p (upd_obj p H st, True, []))"
        by (simp add: EchoGroup_OnRecv_def r(1) Let_def handleHeartbeat_def flip: H_def)
      then show ?thesis using refused [of True "[]"] by auto
    next
      case x
      then have "EchoGroup_OnRecv env p packet st = Some (upd_obj p F' st, snd r0)"
        using r0 by (simp add: EchoGroup_OnRecv_def r(1) Let_def flip: H_def r0_def) (metis prod.collapse)
      then show ?thesis using F'(1) by blast
    qed
  qed
  then show ?thesis using that by blast
qed

text \<open>The tables under the elementary updates.\<close>

definition pop :: "nat \<Rightarrow> group_server \<Rightarrow> group_server" where
  "pop g st = st\<lparr>localJobs := (localJobs st)(g := tl (localJobs st g))\<rparr>"

lemma pop_simps [simp]:
  "objs (pop g st) = objs st" "members (pop g st) = members st" "playerMap (pop g st) = playerMap st" "freeBlocks (pop g st) = freeBlocks st"
  "memberCount (pop g st) = memberCount st"
  by (simp_all add: pop_def)

lemma word_pop: "localJobs st g = j # rest \<Longrightarrow> word st h q = (if h = g then tok q j else []) @ word (pop g st) h q"
  by (simp add: word_def pop_def)

lemma tables_pop:
  assumes "tables_ok st"
  shows "tables_ok (pop g st)"
proof -
  have "set (localJobs (pop g st) h @ mailbox (pop g st) h) \<subseteq> set (localJobs st h @ mailbox st h)" for h
    by (cases "localJobs st g") (auto simp: pop_def)
  then show ?thesis using assms unfolding tables_ok_def pop_simps by blast
qed

lemma tables_upd: "tables_ok st \<Longrightarrow> keeps F \<Longrightarrow> tables_ok (upd_obj p F st)"
  unfolding tables_ok_def by (auto simp: keeps_def)

lemma tables_group: "tables_ok st \<Longrightarrow> tables_ok (upd_obj p (\<lambda>pl. pl\<lparr>mGroup := G\<rparr>) st)"
  unfolding tables_ok_def by auto

lemma tables_Free: "tables_ok st \<Longrightarrow> tables_ok (Free_g p st)"
  unfolding tables_ok_def by simp

lemma tables_Enqueue: "tables_ok st \<Longrightarrow> (\<And>q pk. j \<noteq> PACKET q pk) \<Longrightarrow> tables_ok (Enqueue_g g j st)"
  unfolding tables_ok_def by (auto simp: Enqueue_g_def)

lemma length_filter_key:
  "distinct (map fst xs) \<Longrightarrow> map_of xs k = Some v \<Longrightarrow> Suc (length (filter (\<lambda>(s, q). s \<noteq> k) xs)) = length xs"
proof (induction xs)
  case (Cons x xs)
  obtain a b where x: "x = (a, b)" by fastforce
  show ?case
  proof (cases "a = k")
    case True
    then have "filter (\<lambda>(s, q). s \<noteq> k) xs = xs" using Cons.prems(1) x by (force simp: filter_id_conv)
    then show ?thesis using True x by simp
  qed (use Cons x in simp)
qed simp

lemma tables_erase:
  assumes "tables_ok st"
  shows "tables_ok (member_erase g sid st)"
proof (cases "map_of (members st g) sid")
  case None
  then show ?thesis using assms by (simp add: member_erase_def)
next
  case (Some v)
  note t = tables_okD [OF assms]
  have "int (length (filter (\<lambda>(s, q). s \<noteq> sid) (members st g))) = memberCount st g - 1"
    using length_filter_key [OF t(4) Some] t(5) [of g] by simp
  then show ?thesis using Some t unfolding tables_ok_def by (auto simp: member_erase_def distinct_map_filter)
qed

lemma member_erase_member:
  assumes "tables_ok st"
  shows "is_member (member_erase g sid st) h q \<longleftrightarrow> is_member st h q \<and> \<not> (h = g \<and> g_sid (objs st q) = sid)"
proof (cases "map_of (members st g) sid")
  case None
  then show ?thesis using tables_okD(3) [OF assms] by (auto simp: member_erase_def is_member_iff map_of_eq_None_iff image_iff)
next
  case (Some v)
  then show ?thesis using tables_okD(3) [OF assms] by (auto simp: member_erase_def is_member_iff)
qed

lemma update_new: "map_of xs k = None \<Longrightarrow> AList.update k v xs = xs @ [(k, v)]"
  by (induction xs) (auto split: if_splits)

lemma tables_onEnter:
  assumes "tables_ok st" and "map_of (members st g) (g_sid (objs st p)) = None"
  shows "tables_ok (onEnter g p st)" "is_member (onEnter g p st) h q \<longleftrightarrow> is_member st h q \<or> h = g \<and> q = p"
proof -
  note t = tables_okD [OF assms(1)]
  have u: "onEnter g p st = st\<lparr>members := (members st)(g := members st g @ [(g_sid (objs st p), p)]), memberCount := (memberCount st)(g := memberCount st g + 1)\<rparr>"
    using update_new [OF assms(2)] by (simp add: onEnter_def)
  show "tables_ok (onEnter g p st)" using t assms(2) unfolding u tables_ok_def by (auto simp: map_of_eq_None_iff)
  show "is_member (onEnter g p st) h q \<longleftrightarrow> is_member st h q \<or> h = g \<and> q = p" by (auto simp: u is_member_def)
qed

lemma inmap_upd [simp]:
  "inmap (upd_obj p f st) q = inmap st q" "inmap (Enqueue_g g j st) q = inmap st q" "inmap (Free_g p st) q = inmap st q"
  "inmap (member_erase g sid st) q = inmap st q" "inmap (onEnter g p st) q = inmap st q" "inmap (pop g st) q = inmap st q"
  by (simp_all add: inmap_def)

lemma member_upd [simp]:
  "is_member (upd_obj p f st) h q = is_member st h q" "is_member (Enqueue_g g j st) h q = is_member st h q"
  "is_member (Free_g p st) h q = is_member st h q" "is_member (pop g st) h q = is_member st h q"
  by (simp_all add: is_member_def)

lemma job_step_ok:
  assumes "group_ok st" and "localJobs st g = j # rest" and "tok p j \<noteq> []" and "\<And>q. q \<noteq> p \<Longrightarrow> tok q j = []" and "tables_ok st'"
    and "\<And>q. q \<noteq> p \<Longrightarrow> objs st' q = objs st q \<and> inmap st' q = inmap st q \<and>
      (\<forall>h. word st' h q = word (pop g st) h q \<and> is_member st' h q = is_member st h q)"
    and "idle st' p \<or> in_use st' p" and "g_sid (objs st' p) = g_sid (objs st p)"
    and "freeBlocks st' = freeBlocks st \<or> freeBlocks st' = freeBlocks st @ [p] \<and> idle st' p"
  shows "group_ok st'"
proof -
  have ni: "\<not> idle st p" using word_pop [OF assms(2), of g p] assms(3) by (auto simp: idle_def)
  then have fr: "p \<notin> set (freeBlocks st)" using group_okD(5) [OF assms(1)] by blast
  show ?thesis
  proof (rule group_ok_step [OF assms(1,5), of p])
    show "objs st' q = objs st q \<and> inmap st' q = inmap st q \<and> (\<forall>h. word st' h q = word st h q \<and> is_member st' h q = is_member st h q)"
      if "q \<noteq> p" for q using assms(6) [OF that] word_pop [OF assms(2), of _ q] assms(4) [OF that] by simp
    show "\<forall>q. q \<noteq> p \<longrightarrow> \<not> idle st q \<longrightarrow> g_sid (objs st q) \<noteq> g_sid (objs st' p)" using group_okD(3) [OF assms(1) ni] assms(8) by metis
  qed (use assms(7,9) group_okD(4) [OF assms(1)] fr in auto)
qed

text \<open>The stage of the player a job is about.\<close>

lemma job_stage:
  assumes "group_ok st" and "localJobs st g = j # rest" and "tok p j \<noteq> []"
  obtains G e n l k m where "stage st p G e n l k m" "g = G \<or> g = 0" "g = 0 \<and> G \<noteq> 0 \<longrightarrow> tok p j \<noteq> [TE]"
proof -
  have ne: "word st g p \<noteq> []" using word_pop [OF assms(2), of g p] assms(3) by simp
  then have "in_use st p" using group_okD(2) [OF assms(1), of p] by (auto simp: idle_def)
  then obtain G e n l k m where s: "stage st p G e n l k m" unfolding in_use_def by blast
  moreover have "g = G \<or> g = 0" using s ne unfolding stage_def by metis
  moreover have "g = 0 \<and> G \<noteq> 0 \<longrightarrow> tok p j \<noteq> [TE]"
  proof (intro impI notI)
    assume that: "g = 0 \<and> G \<noteq> 0" "tok p j = [TE]"
    have "word st 0 p = replicate k TP @ (if m then [TL] else [])" using s that(1) by (simp add: stage_def)
    moreover have "word st 0 p = TE # word (pop g st) 0 p" using word_pop [OF assms(2), of 0 p] that by simp
    ultimately show False by (cases k) (auto split: if_splits)
  qed
  ultimately show ?thesis by (rule that)
qed

lemma enter_ok:
  assumes "group_ok st" and "localJobs st g = j # rest" and "j = JOIN p \<or> j = GROUP_ENTER p"
  shows "group_ok (onEnter g p (pop g st))"
proof -
  have tj: "tok p j = [TE]" "\<And>q. q \<noteq> p \<Longrightarrow> tok q j = []" using assms(3) by auto
  have "tok p j \<noteq> []" using tj(1) by simp
  then obtain G e n l k m where s: "stage st p G e n l k m" and g: "g = G \<or> g = 0" "g = 0 \<and> G \<noteq> 0 \<longrightarrow> tok p j \<noteq> [TE]"
    by (rule job_stage [OF assms(1,2)])
  then have gG: "g = G" using tj(1) by auto
  note w = word_pop [OF assms(2), of _ p]
  have "word st g p = TE # word (pop g st) g p" using w [of g] tj(1) by simp
  then have e: "e" "word (pop g st) g p = replicate n TP @ (if l then [TL] else [])"
    using s gG by (cases e; cases n; auto simp: stage_def split: if_splits)+
  have t: "tables_ok (pop g st)" by (rule tables_pop [OF group_okD(1) [OF assms(1)]])
  have ni: "\<not> idle st p" using w [of g] tj(1) by (auto simp: idle_def)
  have new: "map_of (members (pop g st) g) (g_sid (objs (pop g st) p)) = None"
  proof (rule ccontr)
    assume "map_of (members (pop g st) g) (g_sid (objs (pop g st) p)) \<noteq> None"
    then obtain q where q: "(g_sid (objs st p), q) \<in> set (members st g)" by (auto dest: map_of_SomeD)
    then have "g_sid (objs st q) = g_sid (objs st p)" using tables_okD(3) [OF group_okD(1) [OF assms(1)]] by blast
    then have "q = p" using group_okD(3) [OF assms(1) not_idle(2) [OF q] ni] by blast
    then have "is_member st g p" using q by (auto simp: is_member_iff)
    then show False using s e gG by (simp add: stage_def)
  qed
  note en = tables_onEnter [OF t new]
  let ?st' = "onEnter g p (pop g st)"
  note d = stageD [OF s]
  have wo: "word (pop g st) h p = word st h p" if "h \<noteq> G" for h using w [of h] gG that by simp
  have "stage ?st' p G False n l k m"
  proof (rule stageI)
    show "is_member ?st' h p \<longleftrightarrow> h = G \<and> \<not> False" for h using en(2) [of h p] d(4) [of h] e(1) gG by simp
    show "word ?st' h p = []" if "h \<noteq> G" "h \<noteq> 0" for h using wo [OF that(1)] d(5) [OF that] by simp
    show "word ?st' 0 p = replicate k TP @ (if m then [TL] else [])" if "G \<noteq> 0" using wo [of 0] d(7) that by simp
  qed (use d e gG in simp_all)
  then have use: "in_use ?st' p" by (rule in_useI)
  show ?thesis by (rule job_step_ok [OF assms(1,2) _ tj(2) en(1)]) (use use tj(1) en(2) in auto)
qed

lemma leave_g_ok:
  assumes "group_ok st" and "localJobs st g = LEAVE p # rest"
    and "mGroup (objs st p) = Some g \<Longrightarrow> \<forall>h. h \<noteq> g \<longrightarrow> TP \<notin> set (word st h p)"
  shows "group_ok (onLeave g p (pop g st))"
proof -
  have tj: "tok p (LEAVE p) = [TL]" "\<And>q. q \<noteq> p \<Longrightarrow> tok q (LEAVE p) = []" by auto
  obtain G e n l k m where s: "stage st p G e n l k m" and g: "g = G \<or> g = 0"
    by (rule job_stage [OF assms(1,2), of p]) (use tj(1) in auto)
  note w = word_pop [OF assms(2), of _ p]
  have wg: "word st g p = TL # word (pop g st) g p" using w [of g] by simp
  have t: "tables_ok (pop g st)" by (rule tables_pop [OF group_okD(1) [OF assms(1)]])
  have mg: "mGroup (objs st p) = Some G" using s by (simp add: stage_def)
  show ?thesis
  proof (cases "g = G")
    case True
    note a = stageD(3) [OF s] stageD(7) [OF s] stageD(6) [OF s] stageD(9) [OF s] stageD(8) [OF s] stageD(4) [OF s] stageD(5) [OF s]
    have b: "\<not> e" "n = 0" "l" "word (pop g st) g p = []" using a(1) wg True by (cases e; cases n; auto split: if_splits)+
    have k: "word st 0 p = []" if "G \<noteq> 0"
    proof -
      have "TP \<notin> set (word st 0 p)" using assms(3) mg True that by simp
      then show ?thesis using a(2) [OF that] a(4) b(3) by (cases k) auto
    qed
    let ?st' = "Free_g p (member_erase g (g_sid (objs st p)) (pop g st))"
    have st': "onLeave g p (pop g st) = ?st'" using True mg by (simp add: onLeave_def)
    have mem: "is_member ?st' h q \<longleftrightarrow> is_member st h q \<and> \<not> (h = g \<and> g_sid (objs st q) = g_sid (objs st p))" for h q
      using member_erase_member [OF t] by simp
    have id: "idle ?st' p" unfolding idle_def
    proof (intro conjI allI)
      show "word ?st' h p = []" for h using b(4) k a(7) [of h] w [of h] True by (cases "h = g"; cases "h = 0") auto
      show "\<not> is_member ?st' h p" for h using mem a(6) True by simp
      show "\<not> inmap ?st' p" using a(5) b(3) by simp
    qed
    have other: "is_member ?st' h q = is_member st h q" if "q \<noteq> p" for h q
    proof -
      have "g_sid (objs st q) \<noteq> g_sid (objs st p)" if "is_member st h q"
      proof -
        have "\<not> idle st q" "\<not> idle st p" using that a(6) [of G] b(1) by (auto simp: idle_def)
        then show ?thesis using group_okD(3) [OF assms(1)] \<open>q \<noteq> p\<close> by blast
      qed
      then show ?thesis using mem by blast
    qed
    show ?thesis unfolding st'
      by (rule job_step_ok [OF assms(1,2) _ tj(2) tables_Free [OF tables_erase [OF t]]]) (use id other in auto)
  next
    case False
    then have G: "g = 0" "G \<noteq> 0" using g by auto
    have a: "word st 0 p = replicate k TP @ (if m then [TL] else [])" using s G by (simp add: stage_def)
    then have b: "m" "word (pop g st) 0 p = []" using wg G by (cases k; auto split: if_splits)+
    let ?st' = "Enqueue_g G (LEAVE p) (pop g st)"
    have st': "onLeave g p (pop g st) = ?st'" using False mg by (simp add: onLeave_def)
    note d = stageD [OF s]
    have wo: "word (pop g st) h p = word st h p" if "h \<noteq> 0" for h using w [of h] G that by simp
    have "stage ?st' p G e n True 0 False"
    proof (rule stageI)
      show "word ?st' G p = (if e then [TE] else []) @ replicate n TP @ (if True then [TL] else [])" using wo [OF G(2)] d(3,9) b(1) by simp
      show "word ?st' h p = []" if "h \<noteq> G" "h \<noteq> 0" for h using wo [OF that(2)] d(5) [OF that] that by simp
      show "word ?st' 0 p = replicate 0 TP @ (if False then [TL] else [])" if "G \<noteq> 0" using b(2) that by simp
      show "inmap ?st' p \<longleftrightarrow> \<not> True \<and> \<not> False" using d(8) b(1) by simp
    qed (use d(1,2,4) in simp_all)
    then have use: "in_use ?st' p" by (rule in_useI)
    show ?thesis unfolding st'
      by (rule job_step_ok [OF assms(1,2) _ tj(2) tables_Enqueue [OF t]]) (use use in auto)
  qed
qed

lemma packet_stage:
  assumes "group_ok st" and "localJobs st g = PACKET p packet # rest"
  obtains G e n l k m where "stage (pop g st) p G e n l k m" "g = G \<longrightarrow> \<not> e"
proof -
  have "tok p (PACKET p packet) \<noteq> []" by simp
  then obtain G e n l k m where s: "stage st p G e n l k m" and g: "g = G \<or> g = 0"
    by (rule job_stage [OF assms(1,2)])
  note d = stageD [OF s]
  note w = word_pop [OF assms(2), of _ p]
  have wg: "word st g p = TP # word (pop g st) g p" using w [of g] by simp
  have wo: "word (pop g st) h p = word st h p" if "h \<noteq> g" for h using w [of h] that by simp
  show ?thesis
  proof (cases "g = G")
    case True
    have a: "\<not> e" "word (pop g st) G p = replicate (n - 1) TP @ (if l then [TL] else [])"
      using d(3) wg True by (cases e; cases n; auto split: if_splits)+
    have "stage (pop g st) p G e (n - 1) l k m"
    proof (rule stageI)
      show "word (pop g st) h p = []" if "h \<noteq> G" "h \<noteq> 0" for h using wo [of h] d(5) [OF that] True that by simp
      show "word (pop g st) 0 p = replicate k TP @ (if m then [TL] else [])" if "G \<noteq> 0" using wo [of 0] d(7) True that by simp
    qed (use d a in simp_all)
    then show ?thesis using that a(1) by blast
  next
    case False
    then have G: "g = 0" "G \<noteq> 0" using g by auto
    have a: "word (pop g st) 0 p = replicate (k - 1) TP @ (if m then [TL] else [])"
      using d(7) wg G by (cases k; auto split: if_splits)
    have "stage (pop g st) p G e n l (k - 1) m"
    proof (rule stageI)
      show "word (pop g st) G p = (if e then [TE] else []) @ replicate n TP @ (if l then [TL] else [])" using wo [of G] d(3) False by simp
      show "word (pop g st) h p = []" if "h \<noteq> G" "h \<noteq> 0" for h using wo [of h] d(5) [OF that] G that by simp
    qed (use d a in simp_all)
    then show ?thesis using that False by blast
  qed
qed

lemma stage_upd: "keeps F \<Longrightarrow> stage (upd_obj p F st) p G e n l k m = stage st p G e n l k m"
  by (simp add: stage_def keeps_def)

lemma moved_stage:
  assumes "stage st p 0 False n l k m" and "tables_ok st" and "keeps F"
  shows "stage (moved p F st) p (GetEchoGroupFor (g_sid (objs st p))) True 0 False n l"
proof -
  let ?sid = "g_sid (objs st p)"
  let ?t = "GetEchoGroupFor ?sid"
  note d = stageD [OF assms(1)]
  have t: "tables_ok (upd_obj p (\<lambda>pl. pl\<lparr>mGroup := Some ?t\<rparr>) (Enqueue_g ?t (GROUP_ENTER p) (upd_obj p F st)))"
    by (intro tables_group tables_Enqueue tables_upd assms(2,3)) simp
  have sid: "g_sid (F (objs st p)) = ?sid" using assms(3) by (simp add: keeps_def)
  have mem: "is_member (moved p F st) h q \<longleftrightarrow> is_member st h q \<and> \<not> (h = 0 \<and> g_sid (objs st q) = ?sid)" for h q
    using member_erase_member [OF t, of 0 ?sid h q] sid by (auto simp: moved_def Let_def)
  have wt: "word st ?t p = []" using d(5) [of ?t] by simp
  show ?thesis
  proof (rule stageI)
    show "is_member (moved p F st) h p \<longleftrightarrow> h = ?t \<and> \<not> True" for h using mem d(4) by auto
    show "word (moved p F st) ?t p = (if True then [TE] else []) @ replicate 0 TP @ (if False then [TL] else [])"
      using wt by (simp add: moved_def Let_def)
    show "word (moved p F st) h p = []" if "h \<noteq> ?t" "h \<noteq> 0" for h using d(5) [of h] that by (simp add: moved_def Let_def)
    show "word (moved p F st) 0 p = replicate n TP @ (if l then [TL] else [])" using d(3) by (simp add: moved_def Let_def)
  qed (use d(6,8) sid in \<open>simp_all add: moved_def Let_def\<close>)
qed

lemma moved_other:
  assumes "group_ok st" and "\<not> idle st p" and "tables_ok st'" and "keeps F" and "objs st' = objs st" and "members st' = members st" and "q \<noteq> p"
  shows "objs (moved p F st') q = objs st q" "inmap (moved p F st') q = inmap st' q" "word (moved p F st') h q = word st' h q"
    "is_member (moved p F st') h q = is_member st h q"
proof -
  let ?sid = "g_sid (objs st p)"
  let ?t = "GetEchoGroupFor ?sid"
  show "objs (moved p F st') q = objs st q" "inmap (moved p F st') q = inmap st' q" "word (moved p F st') h q = word st' h q"
    using assms(5,7) by (simp_all add: moved_def Let_def)
  have t: "tables_ok (upd_obj p (\<lambda>pl. pl\<lparr>mGroup := Some ?t\<rparr>) (Enqueue_g ?t (GROUP_ENTER p) (upd_obj p F st')))"
    by (intro tables_group tables_Enqueue tables_upd assms(3,4)) simp
  have "g_sid (objs st q) \<noteq> ?sid" if "is_member st h q"
  proof -
    have "\<not> idle st q" using that by (auto simp: idle_def)
    then show ?thesis using group_okD(3) [OF assms(1) _ assms(2)] assms(7) by blast
  qed
  moreover have "is_member st' h q = is_member st h q" by (simp add: is_member_def assms(6))
  ultimately show "is_member (moved p F st') h q = is_member st h q"
    using member_erase_member [OF t, of 0 ?sid h q] assms(5,7) by (auto simp: moved_def Let_def)
qed

lemma packet_job_ok:
  assumes "group_ok st" and "localJobs st g = PACKET p packet # rest" and "group_env_ok env"
  shows "\<exists>st' acts. run_job env g (PACKET p packet) (pop g st) = Some (st', acts) \<and> group_ok st'"
proof -
  have tj: "tok p (PACKET p packet) \<noteq> []" "\<And>q. q \<noteq> p \<Longrightarrow> tok q (PACKET p packet) = []" by auto
  have pk: "packet_ok packet" using tables_okD(6) [OF group_okD(1) [OF assms(1)], of p packet g] assms(2) by simp
  have t: "tables_ok (pop g st)" by (rule tables_pop [OF group_okD(1) [OF assms(1)]])
  have ni: "\<not> idle st p" using word_pop [OF assms(2), of g p] by (auto simp: idle_def)
  obtain G e n l k m where s: "stage (pop g st) p G e n l k m" and ge: "g = G \<longrightarrow> \<not> e" by (rule packet_stage [OF assms(1,2)])
  have upd: "group_ok (upd_obj p F (pop g st))" if "keeps F" for F
  proof (rule job_step_ok [OF assms(1,2) tj(1,2) tables_upd [OF t that]])
    have "in_use (upd_obj p F (pop g st)) p" using s stage_upd [OF that] by (auto intro: in_useI)
    then show "idle (upd_obj p F (pop g st)) p \<or> in_use (upd_obj p F (pop g st)) p" by simp
  qed (use that in \<open>auto simp: keeps_def\<close>)
  show ?thesis
  proof (cases "g = 0")
    case True
    obtain F st' acts where r: "LoginGroup_OnRecv env p packet (pop g st) = Some (st', acts)" "keeps F"
      "st' = upd_obj p F (pop g st) \<or> mGroup (objs (pop g st) p) = Some 0 \<and> st' = moved p F (pop g st)"
      by (rule LoginGroup_result [OF assms(3) pk])
    have "group_ok st'"
    proof (cases "st' = upd_obj p F (pop g st)")
      case False
      then have mv: "mGroup (objs (pop g st) p) = Some 0" "st' = moved p F (pop g st)" using r(3) by auto
      then have G: "G = 0" "\<not> e" using stageD(1) [OF s] ge True by auto
      have s0: "stage (pop g st) p 0 False n l k m" using s G by simp
      have use: "in_use st' p" unfolding mv(2) by (rule in_useI [OF moved_stage [OF s0 t r(2)]])
      have sid: "g_sid (objs st' p) = g_sid (objs st p)" using r(2) by (simp add: mv(2) moved_def Let_def keeps_def)
      have tab: "tables_ok st'" unfolding mv(2) moved_def Let_def
        by (intro tables_erase tables_group tables_Enqueue tables_upd t r(2)) simp
      show ?thesis
      proof (rule job_step_ok [OF assms(1,2) tj(1,2) tab])
        show "objs st' q = objs st q \<and> inmap st' q = inmap st q \<and> (\<forall>h. word st' h q = word (pop g st) h q \<and> is_member st' h q = is_member st h q)"
          if "q \<noteq> p" for q
          using moved_other [OF assms(1) ni t r(2) _ _ that] unfolding mv(2) by simp
        show "freeBlocks st' = freeBlocks st \<or> freeBlocks st' = freeBlocks st @ [p] \<and> idle st' p" by (simp add: mv(2) moved_def Let_def)
      qed (use use sid in auto)
    qed (use upd r(2) in simp)
    then show ?thesis using r(1) True by simp
  next
    case False
    obtain F acts where "EchoGroup_OnRecv env p packet (pop g st) = Some (upd_obj p F (pop g st), acts)" "keeps F"
      by (rule EchoGroup_result [OF assms(3) pk])
    then show ?thesis using upd False by simp
  qed
qed

section \<open>Runs\<close>

lemma group_ok_upd:
  assumes "group_ok st" and "keeps F"
  shows "group_ok (upd_obj p F st)"
proof -
  have "idle (upd_obj p F st) q = idle st q" for q by (simp add: idle_def)
  moreover have "in_use (upd_obj p F st) q = in_use st q" for q
    using assms(2) by (simp add: in_use_def stage_def keeps_def)
  moreover have "g_sid (objs (upd_obj p F st) q) = g_sid (objs st q)" for q using assms(2) by (simp add: keeps_def)
  ultimately show ?thesis using assms(1) tables_upd [OF _ assms(2), of st p] by (simp add: group_ok_def)
qed

lemma checkTimeOut_ok: "group_ok st \<Longrightarrow> group_ok (checkTimeOut_g now st)"
proof -
  have k: "keeps (\<lambda>pl. pl\<lparr>g_timeoutLogged := g_timeoutLogged pl \<or> expired_g now pl\<rparr>)" by (simp add: keeps_def)
  have "group_ok s \<Longrightarrow> group_ok (fold (\<lambda>(sid, p) s. if g_willDelete (objs s p) then s
         else upd_obj p (\<lambda>pl. pl\<lparr>g_timeoutLogged := g_timeoutLogged pl \<or> expired_g now pl\<rparr>) s) xs s)" for xs s
    by (induction xs arbitrary: s) (auto simp: group_ok_upd [OF _ k])
  then show "group_ok st \<Longrightarrow> group_ok (checkTimeOut_g now st)" by (simp add: checkTimeOut_g_def)
qed

datatype group_event =
  GJoin group_env nat u64 | GLeave u64 | GRecv u64 packet | GDrain nat | GJob group_env nat | GTimeOut u64

fun group_step :: "group_event \<Rightarrow> group_server \<Rightarrow> (group_server \<times> action list) option" where
  "group_step (GJoin env p sid) st = Some (OnClientJoin_group env p sid st, [])"
| "group_step (GLeave sid) st = Some (OnClientLeave_group sid st, [])"
| "group_step (GRecv sid packet) st = OnRecv_group sid packet st"
| "group_step (GDrain g) st = Some (DrainTo g st, [])"
| "group_step (GJob env g) st = Update_job env g st"
| "group_step (GTimeOut now) st = Some (checkTimeOut_g now st, [])"

fun group_run :: "group_event list \<Rightarrow> group_server \<Rightarrow> (group_server \<times> action list) option" where
  "group_run [] st = Some (st, [])"
| "group_run (e # es) st = do {
     (st1, a1) \<leftarrow> group_step e st;
     (st2, a2) \<leftarrow> group_run es st1;
     Some (st2, a1 @ a2)
   }"

text \<open>
  What a run must satisfy: the pool hands out blocks that are not in use, session ids are new, packets come
  from the parser, and no player is released while another group has packets of his queued.
\<close>

definition released_cleanly :: "nat \<Rightarrow> group_server \<Rightarrow> bool" where
  "released_cleanly g st \<longleftrightarrow>
     (case localJobs st g of LEAVE p # rest \<Rightarrow> mGroup (objs st p) = Some g \<longrightarrow> (\<forall>h. h \<noteq> g \<longrightarrow> TP \<notin> set (word st h p)) | _ \<Rightarrow> True)"

fun group_event_ok :: "group_event \<Rightarrow> group_server \<Rightarrow> bool" where
  "group_event_ok (GJoin env p sid) st \<longleftrightarrow> idle st p \<and> new_session sid st"
| "group_event_ok (GRecv sid packet) st \<longleftrightarrow> packet_ok packet"
| "group_event_ok (GJob env g) st \<longleftrightarrow> group_env_ok env \<and> released_cleanly g st"
| "group_event_ok e st \<longleftrightarrow> True"

fun group_events_ok :: "group_event list \<Rightarrow> group_server \<Rightarrow> bool" where
  "group_events_ok [] st \<longleftrightarrow> True"
| "group_events_ok (e # es) st \<longleftrightarrow> group_event_ok e st \<and> (case group_step e st of None \<Rightarrow> True | Some (st1, a) \<Rightarrow> group_events_ok es st1)"

lemma Update_job_ok:
  assumes "group_ok st" and "group_env_ok env" and "released_cleanly g st"
  shows "\<exists>st' acts. Update_job env g st = Some (st', acts) \<and> group_ok st'"
proof (cases "localJobs st g")
  case Nil
  then show ?thesis using assms(1) by (simp add: Update_job_def)
next
  case (Cons j rest)
  have u: "Update_job env g st = run_job env g j (pop g st)" by (simp add: Update_job_def Cons pop_def)
  show ?thesis
  proof (cases j)
    case (JOIN p)
    then show ?thesis using u enter_ok [OF assms(1) Cons] by simp
  next
    case (GROUP_ENTER p)
    then show ?thesis using u enter_ok [OF assms(1) Cons] by simp
  next
    case (LEAVE p)
    have "\<forall>h. h \<noteq> g \<longrightarrow> TP \<notin> set (word st h p)" if "mGroup (objs st p) = Some g"
      using assms(3) that by (simp add: released_cleanly_def Cons LEAVE)
    then show ?thesis using u leave_g_ok [OF assms(1), of g p rest] Cons LEAVE by simp
  next
    case (PACKET p packet)
    then show ?thesis using u packet_job_ok [OF assms(1) _ assms(2), of g p packet rest] Cons by simp
  qed
qed

lemma group_step_ok:
  assumes "group_ok st" and "group_event_ok e st"
  shows "\<exists>st' acts. group_step e st = Some (st', acts) \<and> group_ok st'"
proof (cases e)
  case (GRecv sid packet)
  then obtain st' acts where "OnRecv_group sid packet st = Some (st', acts)" "group_ok st'"
    using recv_group_ok [OF assms(1), of packet sid] assms(2) by auto
  then show ?thesis using GRecv by simp
next
  case (GJob env g)
  then show ?thesis using Update_job_ok [OF assms(1)] assms(2) by simp
qed (use assms in \<open>simp_all add: join_group_ok leave_group_ok drain_ok checkTimeOut_ok\<close>)

lemma group_run_ok:
  assumes "group_ok st" and "group_events_ok es st"
  shows "\<exists>st' acts. group_run es st = Some (st', acts) \<and> group_ok st'"
  using assms
proof (induction es arbitrary: st)
  case (Cons e es)
  obtain st1 a where s: "group_step e st = Some (st1, a)" "group_ok st1"
    using group_step_ok [OF Cons.prems(1), of e] Cons.prems(2) by auto
  then obtain st2 b where "group_run es st1 = Some (st2, b)" "group_ok st2" using Cons.IH [OF s(2)] Cons.prems(2) by auto
  then show ?case using s by simp
qed simp

definition group_init :: "(nat \<Rightarrow> gplayer) \<Rightarrow> group_server" where
  "group_init pl = \<lparr>objs = pl, playerMap = [], mailbox = (\<lambda>_. []), localJobs = (\<lambda>_. []), members = (\<lambda>_. []), memberCount = (\<lambda>_. 0), freeBlocks = []\<rparr>"

lemma group_init_ok: "group_ok (group_init pl)"
  by (simp add: group_ok_def tables_ok_def group_init_def idle_def word_def is_member_def inmap_def)

end
