(* ===== verification/Group_Behaviour.thy ===== *)
theory Group_Behaviour
  imports Group_Safety
begin

text \<open>Properties of the group server: the life of its players, the echo, and the two races on a player object.\<close>

section \<open>The life of a player\<close>


definition sample_group_env :: group_env where
  "sample_group_env = \<lparr>g_alloc = Some (new_Packet 512), g_tick = 1000, g_send = (\<lambda>_. True), g_indeterminate = 0\<rparr>"

definition blank_gplayer :: gplayer where
  "blank_gplayer = \<lparr>g_sid = 0, g_account = 0, g_key = replicate 64 0, g_willDelete = False, g_loggedIn = False, g_connectTime = 0,
     g_lastActive = 0, g_timeoutLogged = False, mGroup = None\<rparr>"


section \<open>The echo\<close>

definition echo_request :: "u64 \<Rightarrow> u64 \<Rightarrow> bytes" where
  "echo_request acc t = le_bytes 2 en_PACKET_CS_GAME_REQ_ECHO @ le_bytes 8 acc @ le_bytes 8 t"

lemma echo_answered:
  assumes "g_alloc env = Some pooled" and "capacity pooled = 512" and "received packet (echo_request acc t)" and "g_send env (g_sid (objs st p))"
  obtains res where "EchoGroup_OnRecv env p packet st = Some (upd_obj p (\<lambda>pl. pl\<lparr>g_lastActive := g_tick env\<rparr>) st,
      [AAlloc, ASend (g_sid (objs st p)) res, AFreeResponse])"
    "drop 5 (written res) = le_bytes 2 en_PACKET_CS_GAME_RES_ECHO @ le_bytes 8 acc @ le_bytes 8 t"
proof -
  have p: "packet_ok packet" "unread packet = le_bytes 2 en_PACKET_CS_GAME_REQ_ECHO @ (le_bytes 8 acc @ le_bytes 8 t)"
    using assms(3) by (simp_all add: received_def echo_request_def)
  have r: "read_word 2 g packet = Some (advance packet 2, en_PACKET_CS_GAME_REQ_ECHO)" "packet_ok (advance packet 2)"
    "unread (advance packet 2) = le_bytes 8 acc @ le_bytes 8 t" for g
    using read_word_prefix [OF p] by simp_all
  define p1 where "p1 = advance packet 2"
  have r1: "read_word 8 g p1 = Some (advance p1 8, acc)" "packet_ok (advance p1 8)" "unread (advance p1 8) = le_bytes 8 t @ []" for g
    using read_word_prefix [OF r(2,3)] by (simp_all add: p1_def)
  define p2 where "p2 = advance p1 8"
  have r2: "read_word 8 g p2 = Some (advance p2 8, t)" for g
    using read_word_prefix(1) [of p2 8 t "[]"] r1(2,3) by (simp add: p2_def)
  obtain res where res: "MakeGameResEcho (Packet_Init pooled) acc t = Some res"
    "written res = replicate 5 0 @ le_bytes 2 en_PACKET_CS_GAME_RES_ECHO @ le_bytes 8 acc @ le_bytes 8 t"
    by (rule MakeGameResEcho_wrote [OF game_fresh_Init [OF assms(2)]])
  have "EchoGroup_OnRecv env p packet st = Some (upd_obj p (\<lambda>pl. pl\<lparr>g_lastActive := g_tick env\<rparr>) st,
      [AAlloc, ASend (g_sid (objs st p)) res, AFreeResponse])"
    using assms(4) by (simp add: EchoGroup_OnRecv_def r(1) Let_def handleEcho_def r1(1) r2 assms(1) res(1) refuse_def flip: p1_def p2_def)
  then show ?thesis by (rule that) (simp add: res(2))
qed

section \<open>Two races on a player object\<close>

definition game_login :: "u64 \<Rightarrow> bytes \<Rightarrow> bytes" where
  "game_login acc key = le_bytes 2 en_PACKET_CS_GAME_REQ_LOGIN @ le_bytes 8 acc @ key"

lemma game_login_handled:
  assumes "g_alloc env = Some pooled" and "capacity pooled = 512" and "received packet (game_login acc key)" and "length key = 64"
  obtains res F where "keeps F" "\<And>pl. g_account (F pl) = acc \<and> g_loggedIn (F pl)"
    "\<And>st p. mGroup (objs st p) = Some 0 \<Longrightarrow> LoginGroup_OnRecv env p packet st = Some (moved p F st, [AAlloc, ASend (g_sid (objs st p)) res, AFreeResponse])"
proof -
  have p: "packet_ok packet" "unread packet = le_bytes 2 en_PACKET_CS_GAME_REQ_LOGIN @ (le_bytes 8 acc @ key)"
    using assms(3) by (simp_all add: received_def game_login_def)
  have r: "read_word 2 g packet = Some (advance packet 2, en_PACKET_CS_GAME_REQ_LOGIN)" "packet_ok (advance packet 2)"
    "unread (advance packet 2) = le_bytes 8 acc @ key" for g
    using read_word_prefix [OF p] by simp_all
  have ds: "mDataSize (advance packet 2) = 79"
    using received_size [OF assms(3)] assms(4) by (simp add: advance_def game_login_def)
  define p1 where "p1 = advance packet 2"
  have r1: "read_word 8 g p1 = Some (advance p1 8, acc)" "packet_ok (advance p1 8)" "unread (advance p1 8) = key @ []" for g
    using read_word_prefix [OF r(2,3)] by (simp_all add: p1_def)
  define p2 where "p2 = advance p1 8"
  have r2: "read_array 64 p2 = Some (advance p2 64, key)"
    using read_array_prefix(1) [of p2 key "[]" 64] r1(2,3) assms(4) by (simp add: p2_def)
  obtain res where res: "MakeGameResLogin (Packet_Init pooled) 1 acc = Some res" by (rule MakeGameResLogin_wrote [OF game_fresh_Init [OF assms(2)]])
  let ?F = "\<lambda>pl. pl\<lparr>g_account := acc, g_key := copy_truncate (g_key pl) key, g_lastActive := g_tick env, g_loggedIn := True\<rparr>"
  have "LoginGroup_OnRecv env p packet st = Some (moved p ?F st, [AAlloc, ASend (g_sid (objs st p)) res, AFreeResponse])"
    if "mGroup (objs st p) = Some 0" for st p
    using that ds by (simp add: LoginGroup_OnRecv_def r(1) handleLogin_def r1(1) r2 assms(1) Let_def res moved_def refuse_def flip: p1_def p2_def)
  then show ?thesis by (rule that [of ?F, rotated 2]) (simp_all add: keeps_def)
qed

lemmas group_run_simps =
  DrainTo_def OnClientJoin_group_def join_prepare_def join_publish_def OnClientLeave_group_def leave_locked_def leave_check_def
  OnRecv_group_def Update_job_def onEnter_def onLeave_def member_erase_def moved_def Let_def Enqueue_g_def Free_g_def upd_obj_def

text \<open>
  A packet of one session can be handled as another session's. A client sends two login requests at once
  and disconnects; after the first the player has moved to an echo group, which handles the leave and frees
  the player object while the second request is still in the login group's drained queue. The pool gives the
  block to the next connection, and the login group then logs that connection in, under the account of the
  request, although it has sent nothing.
\<close>
lemma stale_packet_logs_in_stranger:
  assumes "g_alloc env = Some pooled" and "capacity pooled = 512" and "received r1 (game_login acc1 key1)" and "received r2 (game_login acc2 key2)"
    and "length key1 = 64" and "length key2 = 64" and "s1 \<noteq> s2"
  shows "\<exists>st st' acts res. group_run [GJoin env p s1, GRecv s1 r1, GRecv s1 r2, GDrain 0, GJob env 0, GJob env 0, GLeave s1,
       GDrain (GetEchoGroupFor s1), GJob env (GetEchoGroupFor s1), GJob env (GetEchoGroupFor s1), GJoin env p s2] (group_init pl) = Some (st, acts) \<and>
     playerMap st = [(s2, p)] \<and> \<not> g_loggedIn (objs st p) \<and>
     group_step (GJob env 0) st = Some (st', [AAlloc, ASend s2 res, AFreeResponse, AFreeRequest]) \<and>
     playerMap st' = [(s2, p)] \<and> g_sid (objs st' p) = s2 \<and> g_loggedIn (objs st' p) \<and> g_account (objs st' p) = acc2"
proof -
  obtain res1 F where F: "keeps F" "\<And>st p. mGroup (objs st p) = Some 0 \<Longrightarrow>
      LoginGroup_OnRecv env p r1 st = Some (moved p F st, [AAlloc, ASend (g_sid (objs st p)) res1, AFreeResponse])"
    by (rule game_login_handled [OF assms(1,2,3,5)]) blast
  obtain res2 H where H: "keeps H" "\<And>pl. g_account (H pl) = acc2 \<and> g_loggedIn (H pl)" "\<And>st p. mGroup (objs st p) = Some 0 \<Longrightarrow>
      LoginGroup_OnRecv env p r2 st = Some (moved p H st, [AAlloc, ASend (g_sid (objs st p)) res2, AFreeResponse])"
    by (rule game_login_handled [OF assms(1,2,4,6)]) blast
  have k: "g_sid (F pl) = g_sid pl" "g_sid (H pl) = g_sid pl" for pl using F(1) H(1) by (simp_all add: keeps_def)
  show ?thesis
    using assms(7) H(2) by (simp add: group_init_def F(2) H(3) group_run_simps k Clear_g_def)
qed

lemma stale_packet_logs_in_stranger_witness:
  "\<exists>st st' acts res. group_run [GJoin sample_group_env 0 5, GRecv 5 (sample_packet (game_login 1 sample_key)), GRecv 5 (sample_packet (game_login 2 sample_key)),
       GDrain 0, GJob sample_group_env 0, GJob sample_group_env 0, GLeave 5, GDrain 2, GJob sample_group_env 2, GJob sample_group_env 2,
       GJoin sample_group_env 0 6] (group_init (\<lambda>_. blank_gplayer)) = Some (st, acts) \<and> \<not> g_loggedIn (objs st 0) \<and>
     group_step (GJob sample_group_env 0) st = Some (st', [AAlloc, ASend 6 res, AFreeResponse, AFreeRequest]) \<and>
     playerMap st' = [(6, 0)] \<and> g_loggedIn (objs st' 0) \<and> g_account (objs st' 0) = 2"
proof -
  have a: "g_alloc sample_group_env = Some (new_Packet 512)" by (simp add: sample_group_env_def)
  have c: "capacity (new_Packet 512) = 512" by (simp add: new_Packet_def capacity_def)
  have k: "length sample_key = 64" by (simp add: sample_key_def)
  have r: "received (sample_packet (game_login acc sample_key)) (game_login acc sample_key)" for acc
    by (rule sample_received) (simp add: game_login_def k)
  have g: "GetEchoGroupFor 5 = 2" by (simp add: GetEchoGroupFor_def ECHO_SHARD_COUNT_def)
  show ?thesis
    using stale_packet_logs_in_stranger [OF a c r r k k, of 5 6 0 1 2 "\<lambda>_. blank_gplayer", unfolded g] by fastforce
qed

text \<open>
  OnClientLeave looks at the player's group once more after it has queued the leave and released the map
  lock. The login group may have handled the leave and freed the object by then, and a new connection may
  have taken the block and not yet set its group: the leaving thread then frees the block under the new
  session, which stays in the map with its block in the pool's free list.
\<close>
lemma leave_check_frees_live_player:
  "\<exists>st1 st2 st3. group_run [GJoin env p s1, GDrain 0, GJob env 0] (group_init pl) = Some (st1, []) \<and>
    leave_locked s1 st1 = (st2, Some p) \<and> group_run [GDrain 0, GJob env 0] st2 = Some (st3, []) \<and> p \<in> set (freeBlocks st3) \<and>
    (let st = join_publish p s2 (leave_check (Some p) (join_prepare env p s2 st3)) in
       playerMap st = [(s2, p)] \<and> g_sid (objs st p) = s2 \<and> freeBlocks st = [p])"
  by (simp add: group_init_def group_run_simps Clear_g_def)

end
