(* ===== verification/DB_Writer.thy ===== *)
theory DB_Writer
  imports DB_Behaviour
begin

text \<open>
  The threads of the database server over the shared queue: two update threads that push their messages and
  signal the event, the last of which waits for an empty queue and asks for the end, and the writer thread.
  Each step is one access to the shared state (one critical section, one event operation, one atomic); the
  monitor thread only reads and prints. The connection is the state of \<open>handle_message\<close>.
\<close>

section \<open>The threads\<close>

datatype updater =
  Pushing "db_message list"        \<comment> \<open>what the loop still has to enqueue\<close>
| Signalling "db_message list"     \<comment> \<open>pushed, before \<open>SetEvent\<close>\<close>
| Polling                          \<comment> \<open>the last thread, waiting for the queue to be empty\<close>
| SetTerm
| SignalTerm
| PDone

datatype writer = WWait | WDrain | WHandle "nat \<times> db_message" | WCheck | WStopped

text \<open>A message carries the number of the thread that made it, which the code does not store; \<open>written\<close> is the log of handled messages.\<close>

record 'c db =
  updaters :: "updater list"
  DBQueue :: "(nat \<times> db_message) list"
  g_hEvent :: bool                       \<comment> \<open>auto-reset\<close>
  mFinishedUpdateThreads :: nat
  bTerminate :: bool
  db_writer :: writer
  db_state :: "'c \<times> nat"
  lDBWriteTotal :: nat
  written :: "(nat \<times> db_message) list"

definition db_start :: "db_message list \<Rightarrow> db_message list \<Rightarrow> 'c \<times> nat \<Rightarrow> 'c db" where
  "db_start ms0 ms1 c = \<lparr>updaters = [Pushing ms0, Pushing ms1], DBQueue = [], g_hEvent = False, mFinishedUpdateThreads = 0,
     bTerminate = False, db_writer = WWait, db_state = c, lDBWriteTotal = 0, written = []\<rparr>"

text \<open>One step of an update thread; a poll that finds messages sleeps and leaves the state as it is.\<close>

definition update_step :: "nat \<Rightarrow> 'c db \<Rightarrow> 'c db option" where
  "update_step i s = (case updaters s ! i of
       Pushing (m # ms) \<Rightarrow> Some (s\<lparr>DBQueue := DBQueue s @ [(i, m)], updaters := (updaters s)[i := Signalling ms]\<rparr>)
     | Signalling ms \<Rightarrow> Some (s\<lparr>g_hEvent := True, updaters := (updaters s)[i := Pushing ms]\<rparr>)
     | Pushing [] \<Rightarrow>
         Some (s\<lparr>mFinishedUpdateThreads := mFinishedUpdateThreads s + 1,
                 updaters := (updaters s)[i := if mFinishedUpdateThreads s + 1 = 2 then Polling else PDone]\<rparr>)
     | Polling \<Rightarrow> Some (if DBQueue s = [] then s\<lparr>updaters := (updaters s)[i := SetTerm]\<rparr> else s)
     | SetTerm \<Rightarrow> Some (s\<lparr>bTerminate := True, updaters := (updaters s)[i := SignalTerm]\<rparr>)
     | SignalTerm \<Rightarrow> Some (s\<lparr>g_hEvent := True, updaters := (updaters s)[i := PDone]\<rparr>)
     | PDone \<Rightarrow> None)"

text \<open>One step of the writer: \<open>None\<close> while it waits for the event and once it has returned.\<close>

definition writer_step :: "'c exec \<Rightarrow> bool \<Rightarrow> 'c db \<Rightarrow> 'c db option" where
  "writer_step exec useTransaction s = (case db_writer s of
       WWait \<Rightarrow> if g_hEvent s then Some (s\<lparr>g_hEvent := False, db_writer := WDrain\<rparr>) else None
     | WDrain \<Rightarrow> (case DBQueue s of
           [] \<Rightarrow> Some (s\<lparr>db_writer := WCheck\<rparr>)
         | m # q \<Rightarrow> Some (s\<lparr>DBQueue := q, db_writer := WHandle m\<rparr>))
     | WHandle m \<Rightarrow> do {
         c \<leftarrow> handle_message exec useTransaction (snd m) (db_state s);
         Some (s\<lparr>db_state := c, lDBWriteTotal := lDBWriteTotal s + 1, written := written s @ [m], db_writer := WDrain\<rparr>)
       }
     | WCheck \<Rightarrow> Some (s\<lparr>db_writer := if bTerminate s then WStopped else WWait\<rparr>)
     | WStopped \<Rightarrow> None)"

definition db_step :: "'c exec \<Rightarrow> bool \<Rightarrow> 'c db \<Rightarrow> 'c db \<Rightarrow> bool" where
  "db_step exec tx s s' \<longleftrightarrow> update_step 0 s = Some s' \<or> update_step 1 s = Some s' \<or> writer_step exec tx s = Some s'"

text \<open>The messages one after the other.\<close>

fun handle_messages :: "'c exec \<Rightarrow> bool \<Rightarrow> db_message list \<Rightarrow> 'c \<times> nat \<Rightarrow> ('c \<times> nat) option" where
  "handle_messages exec tx [] c = Some c"
| "handle_messages exec tx (m # ms) c = do { c' \<leftarrow> handle_message exec tx m c; handle_messages exec tx ms c' }"

lemma handle_messages_append:
  "handle_messages exec tx (ms @ ns) c = do { c' \<leftarrow> handle_messages exec tx ms c; handle_messages exec tx ns c' }"
  by (induction ms arbitrary: c) (simp_all split: Option.bind_split)

lemma handle_message_total: "\<exists>c'. handle_message exec tx m c = Some c'"
proof (cases m)
  case (ItemTrade data)
  obtain q1 q2 q3 q4 where q: "trade_queries data = Some [q1, q2, q3, q4]"
    "money_sub_query 512 (tradeMoney data) (toAccountNo data) = Some q1" "money_add_query 512 (tradeMoney data) (fromAccountNo data) = Some q2"
    "inventory_query 512 (toAccountNo data) 1 (lld (toItemSlot data)) (tradeMoney data) = Some q3"
    "delete_query (fromAccountNo data) (fromItemSlot data) = Some q4" by (rule trade_queries_split)
  show ?thesis
  proof (cases tx)
    case False
    then show ?thesis using q(2-5) by (simp add: ItemTrade HandleItemTradeNoTransaction_def Let_def)
  qed (simp add: ItemTrade HandleItemTradeTransaction_eq [OF q(1)])
next
  case (LevelUp a l)
  then show ?thesis using queries_total(1) [of a l] by (cases "level_query a l") (simp_all add: HandleLevelUp_def)
next
  case (MoneyAdd a mo w)
  then show ?thesis using queries_total(2) [of mo a] by (cases "money_add_query 256 mo a") (simp_all add: HandleMoneyAdd_def)
next
  case (QuestComplete a q)
  then show ?thesis using queries_total(5) [of a q] by (cases "quest_query a q") (simp_all add: HandleQuestComplete_def)
next
  case (ItemBuy a it p sl)
  then show ?thesis using queries_total(6) [of a it sl p]
    by (cases "inventory_query 256 a it (d32 sl) p") (simp_all add: HandleItemBuy_def)
qed

section \<open>The invariant\<close>

fun unsent :: "updater \<Rightarrow> db_message list" where
  "unsent (Pushing ms) = ms"
| "unsent (Signalling ms) = ms"
| "unsent _ = []"

fun past_loop :: "updater \<Rightarrow> bool" where
  "past_loop (Pushing ms) = False"
| "past_loop (Signalling ms) = False"
| "past_loop _ = True"

fun closing :: "updater \<Rightarrow> bool" where
  "closing Polling = True"
| "closing SetTerm = True"
| "closing SignalTerm = True"
| "closing _ = False"

fun signalling :: "updater \<Rightarrow> bool" where
  "signalling (Signalling ms) = True"
| "signalling _ = False"

fun in_hand :: "writer \<Rightarrow> (nat \<times> db_message) list" where
  "in_hand (WHandle m) = [m]"
| "in_hand _ = []"

definition of_thread :: "nat \<Rightarrow> (nat \<times> db_message) list \<Rightarrow> db_message list" where
  "of_thread i ms = map snd (filter (\<lambda>m. fst m = i) ms)"

lemma two_threads:
  "\<forall>m \<in> set ms. fst m < 2 \<Longrightarrow> length ms = length (of_thread 0 ms) + length (of_thread 1 ms)"
  by (induction ms) (auto simp: of_thread_def)

lemma of_thread_simps [simp]:
  "of_thread i [] = []" "of_thread i (m # ms) = (if fst m = i then snd m # of_thread i ms else of_thread i ms)"
  "of_thread i (ms @ ns) = of_thread i ms @ of_thread i ns"
  by (simp_all add: of_thread_def)

definition flow_ok :: "db_message list \<Rightarrow> db_message list \<Rightarrow> 'c db \<Rightarrow> bool" where
  "flow_ok ms0 ms1 s \<longleftrightarrow>
     ms0 = of_thread 0 (written s @ in_hand (db_writer s) @ DBQueue s) @ unsent (updaters s ! 0) \<and>
     ms1 = of_thread 1 (written s @ in_hand (db_writer s) @ DBQueue s) @ unsent (updaters s ! 1) \<and>
     (\<forall>m \<in> set (written s @ in_hand (db_writer s) @ DBQueue s). fst m < 2)"

definition end_ok :: "'c db \<Rightarrow> bool" where
  "end_ok s \<longleftrightarrow>
     mFinishedUpdateThreads s = length (filter past_loop (updaters s)) \<and>
     (bTerminate s \<or> list_ex closing (updaters s) \<longrightarrow> list_all past_loop (updaters s)) \<and>
     (bTerminate s \<or> list_ex (\<lambda>u. u = SetTerm) (updaters s) \<longrightarrow> DBQueue s = []) \<and>
     (list_ex (\<lambda>u. u = SignalTerm) (updaters s) \<longrightarrow> bTerminate s) \<and>
     (list_all past_loop (updaters s) \<longrightarrow> bTerminate s \<or> list_ex (\<lambda>u. u = Polling \<or> u = SetTerm) (updaters s))"

definition wake_ok :: "'c db \<Rightarrow> bool" where
  "wake_ok s \<longleftrightarrow>
     (db_writer s \<in> {WWait, WCheck} \<and> DBQueue s \<noteq> [] \<longrightarrow> g_hEvent s \<or> list_ex signalling (updaters s)) \<and>
     (db_writer s = WWait \<and> bTerminate s \<longrightarrow> g_hEvent s \<or> list_ex (\<lambda>u. u = SignalTerm) (updaters s)) \<and>
     (db_writer s = WStopped \<longrightarrow> bTerminate s)"

definition log_ok :: "'c exec \<Rightarrow> bool \<Rightarrow> 'c \<times> nat \<Rightarrow> 'c db \<Rightarrow> bool" where
  "log_ok exec tx c s \<longleftrightarrow>
     handle_messages exec tx (map snd (written s)) c = Some (db_state s) \<and> lDBWriteTotal s = length (written s)"

lemma two_updaters:
  assumes "length (updaters s) = 2"
  obtains u v where "updaters s = [u, v]"
proof -
  from assms have "\<exists>u v. updaters s = [u, v]" by (auto simp: numeral_2_eq_2 length_Suc_conv)
  then show ?thesis using that by blast
qed

text \<open>The steps of an update thread, one by one.\<close>

lemma update_step_cases:
  assumes "update_step i s = Some s'"
  shows "(\<exists>m ms. updaters s ! i = Pushing (m # ms) \<and>
        s' = s\<lparr>DBQueue := DBQueue s @ [(i, m)], updaters := (updaters s)[i := Signalling ms]\<rparr>) \<or>
      (\<exists>ms. updaters s ! i = Signalling ms \<and> s' = s\<lparr>g_hEvent := True, updaters := (updaters s)[i := Pushing ms]\<rparr>) \<or>
      updaters s ! i = Pushing [] \<and> s' = s\<lparr>mFinishedUpdateThreads := mFinishedUpdateThreads s + 1,
                 updaters := (updaters s)[i := if mFinishedUpdateThreads s + 1 = 2 then Polling else PDone]\<rparr> \<or>
      updaters s ! i = Polling \<and> DBQueue s \<noteq> [] \<and> s' = s \<or>
      updaters s ! i = Polling \<and> DBQueue s = [] \<and> s' = s\<lparr>updaters := (updaters s)[i := SetTerm]\<rparr> \<or>
      updaters s ! i = SetTerm \<and> s' = s\<lparr>bTerminate := True, updaters := (updaters s)[i := SignalTerm]\<rparr> \<or>
      updaters s ! i = SignalTerm \<and> s' = s\<lparr>g_hEvent := True, updaters := (updaters s)[i := PDone]\<rparr>"
proof (cases "updaters s ! i")
  case (Pushing ms)
  then show ?thesis using assms by (cases ms) (simp_all add: update_step_def)
qed (use assms in \<open>simp_all add: update_step_def split: if_splits\<close>)

lemma update_step_keeps:
  assumes "length (updaters s) = 2" and "i < 2" and "update_step i s = Some s'"
    and "flow_ok ms0 ms1 s" and "end_ok s" and "wake_ok s" and "log_ok exec tx c s"
  shows "length (updaters s') = 2 \<and> flow_ok ms0 ms1 s' \<and> end_ok s' \<and> wake_ok s' \<and> log_ok exec tx c s'"
proof -
  obtain u v where uv: "updaters s = [u, v]" using two_updaters [OF assms(1)] by blast
  have i: "i = 0 \<or> i = 1" using assms(2) by auto
  note st = update_step_cases [OF assms(3)]
  have l: "length (updaters s') = 2" using st by (elim disjE exE conjE) (simp_all add: assms(1))
  have f: "flow_ok ms0 ms1 s'"
    using i st by (elim disjE exE conjE) (insert assms(4) uv, simp_all add: flow_ok_def)
  have e: "end_ok s'"
  proof (cases "i = 0")
    case True
    with st show ?thesis by (elim disjE exE conjE; cases v) (insert assms(5) uv, simp_all add: end_ok_def)
  next
    case False
    with i have "i = 1" by simp
    with st show ?thesis by (elim disjE exE conjE; cases u) (insert assms(5) uv, simp_all add: end_ok_def)
  qed
  have w: "wake_ok s'"
    using i st by (elim disjE exE conjE) (insert assms(5,6) uv, simp_all add: wake_ok_def end_ok_def)
  have "log_ok exec tx c s'"
    using st by (elim disjE exE conjE) (insert assms(7), simp_all add: log_ok_def)
  with l f e w show ?thesis by blast
qed

lemma writer_step_cases:
  assumes "writer_step exec tx s = Some s'"
  shows "db_writer s = WWait \<and> g_hEvent s \<and> s' = s\<lparr>g_hEvent := False, db_writer := WDrain\<rparr> \<or>
      db_writer s = WDrain \<and> DBQueue s = [] \<and> s' = s\<lparr>db_writer := WCheck\<rparr> \<or>
      (\<exists>m q. db_writer s = WDrain \<and> DBQueue s = m # q \<and> s' = s\<lparr>DBQueue := q, db_writer := WHandle m\<rparr>) \<or>
      (\<exists>m c. db_writer s = WHandle m \<and> handle_message exec tx (snd m) (db_state s) = Some c \<and>
        s' = s\<lparr>db_state := c, lDBWriteTotal := lDBWriteTotal s + 1, written := written s @ [m], db_writer := WDrain\<rparr>) \<or>
      db_writer s = WCheck \<and> bTerminate s \<and> s' = s\<lparr>db_writer := WStopped\<rparr> \<or>
      db_writer s = WCheck \<and> \<not> bTerminate s \<and> s' = s\<lparr>db_writer := WWait\<rparr>"
proof (cases "db_writer s")
  case WDrain
  then show ?thesis using assms by (cases "DBQueue s") (simp_all add: writer_step_def)
qed (use assms in \<open>auto simp: writer_step_def split: if_splits Option.bind_splits\<close>)

lemma writer_step_keeps:
  assumes "writer_step exec tx s = Some s'"
    and "flow_ok ms0 ms1 s" and "end_ok s" and "wake_ok s" and "log_ok exec tx c s"
  shows "updaters s' = updaters s \<and> flow_ok ms0 ms1 s' \<and> end_ok s' \<and> wake_ok s' \<and> log_ok exec tx c s'"
proof -
  note st = writer_step_cases [OF assms(1)]
  have u: "updaters s' = updaters s" using st by (elim disjE exE conjE) simp_all
  have f: "flow_ok ms0 ms1 s'" using st by (elim disjE exE conjE) (insert assms(2), simp_all add: flow_ok_def)
  have e: "end_ok s'" using st by (elim disjE exE conjE) (insert assms(3), auto simp: end_ok_def)
  have w: "wake_ok s'" using st by (elim disjE exE conjE) (insert assms(4), auto simp: wake_ok_def)
  have "log_ok exec tx c s'"
    using st by (elim disjE exE conjE) (insert assms(5), simp_all add: log_ok_def handle_messages_append)
  with u f e w show ?thesis by blast
qed

definition db_ok :: "'c exec \<Rightarrow> bool \<Rightarrow> db_message list \<Rightarrow> db_message list \<Rightarrow> 'c \<times> nat \<Rightarrow> 'c db \<Rightarrow> bool" where
  "db_ok exec tx ms0 ms1 c s \<longleftrightarrow> length (updaters s) = 2 \<and> flow_ok ms0 ms1 s \<and> end_ok s \<and> wake_ok s \<and> log_ok exec tx c s"

lemma db_ok_start: "db_ok exec tx ms0 ms1 c (db_start ms0 ms1 c)"
  by (simp add: db_ok_def db_start_def flow_ok_def end_ok_def wake_ok_def log_ok_def)

lemma db_ok_step:
  assumes "db_step exec tx s s'" and "db_ok exec tx ms0 ms1 c s"
  shows "db_ok exec tx ms0 ms1 c s'"
proof -
  have o: "length (updaters s) = 2" "flow_ok ms0 ms1 s" "end_ok s" "wake_ok s" "log_ok exec tx c s"
    using assms(2) by (simp_all add: db_ok_def)
  from assms(1) consider "update_step 0 s = Some s'" | "update_step 1 s = Some s'" | "writer_step exec tx s = Some s'"
    by (auto simp: db_step_def)
  then show ?thesis
  proof cases
    case 1
    show ?thesis unfolding db_ok_def by (rule update_step_keeps [OF o(1) _ 1 o(2-5)]) simp
  next
    case 2
    show ?thesis unfolding db_ok_def by (rule update_step_keeps [OF o(1) _ 2 o(2-5)]) simp
  next
    case 3
    show ?thesis using writer_step_keeps [OF 3 o(2-5)] o(1) by (simp add: db_ok_def)
  qed
qed

lemma db_ok_reachable:
  assumes "(db_step exec tx)\<^sup>*\<^sup>* (db_start ms0 ms1 c) s"
  shows "db_ok exec tx ms0 ms1 c s"
  using assms by (induction rule: rtranclp_induct) (auto intro: db_ok_start db_ok_step)

section \<open>The server ends\<close>

text \<open>A message costs a push, a signal, the turn of the writer it may cause, and its handling.\<close>

fun updater_left :: "updater \<Rightarrow> nat" where
  "updater_left (Pushing ms) = 10 * length ms + 9"
| "updater_left (Signalling ms) = 10 * length ms + 16"
| "updater_left Polling = 8"
| "updater_left SetTerm = 7"
| "updater_left SignalTerm = 6"
| "updater_left PDone = 0"

fun writer_left :: "writer \<Rightarrow> nat" where
  "writer_left (WHandle m) = 4"
| "writer_left WDrain = 3"
| "writer_left WCheck = 2"
| "writer_left _ = 0"

definition db_left :: "'c db \<Rightarrow> nat" where
  "db_left s = sum_list (map updater_left (updaters s)) + 2 * length (DBQueue s) + (if g_hEvent s then 4 else 0) + writer_left (db_writer s)"

lemma updater_step_left:
  assumes "length (updaters s) = 2" and "i < 2" and "update_step i s = Some s'"
  shows "s' = s \<and> updaters s ! i = Polling \<and> DBQueue s \<noteq> [] \<or> db_left s' < db_left s"
proof -
  obtain u v where uv: "updaters s = [u, v]" using two_updaters [OF assms(1)] by blast
  have i: "i = 0 \<or> i = 1" using assms(2) by auto
  show ?thesis using i update_step_cases [OF assms(3)]
    by (elim disjE exE conjE) (insert uv, simp_all add: db_left_def)
qed

lemma writer_step_left:
  assumes "writer_step exec tx s = Some s'"
  shows "db_left s' < db_left s"
  using writer_step_cases [OF assms] by (elim disjE exE conjE) (simp_all add: db_left_def)

lemma db_step_left:
  assumes "db_step exec tx s s'" and "length (updaters s) = 2"
  shows "s' = s \<or> db_left s' < db_left s"
  using assms updater_step_left [OF assms(2), of 0 s'] updater_step_left [OF assms(2), of 1 s'] writer_step_left [of exec tx s s']
  by (auto simp: db_step_def)

text \<open>Where no thread can do more than poll again, the writer has returned.\<close>

lemma idle_updater:
  assumes "length (updaters s) = 2" and "i < 2" and "\<And>s'. update_step i s = Some s' \<Longrightarrow> s' = s"
  shows "updaters s ! i = PDone \<or> updaters s ! i = Polling \<and> DBQueue s \<noteq> []"
proof (cases "update_step i s")
  case None
  then show ?thesis by (auto simp: update_step_def split: updater.splits list.splits)
next
  case (Some s')
  then show ?thesis using updater_step_left [OF assms(1,2) Some] assms(3) [OF Some] by auto
qed

lemma idle_writer:
  assumes "\<And>s'. writer_step exec tx s = Some s' \<Longrightarrow> s' = s"
  shows "db_writer s = WStopped \<or> db_writer s = WWait \<and> \<not> g_hEvent s"
proof (cases "writer_step exec tx s")
  case None
  then show ?thesis
  proof (cases "db_writer s")
    case (WHandle m)
    then show ?thesis using None handle_message_total [of exec tx "snd m" "db_state s"] by (auto simp: writer_step_def)
  qed (auto simp: writer_step_def split: list.splits if_splits)
next
  case (Some s')
  then show ?thesis using writer_step_left [OF Some] assms [OF Some] by simp
qed

lemma idle_server_ended:
  assumes "db_ok exec tx ms0 ms1 c s" and "\<And>s'. db_step exec tx s s' \<Longrightarrow> s' = s"
  shows "db_writer s = WStopped \<and> DBQueue s = [] \<and> updaters s = [PDone, PDone]"
proof -
  have o: "length (updaters s) = 2" "end_ok s" "wake_ok s" using assms(1) by (simp_all add: db_ok_def)
  obtain u v where uv: "updaters s = [u, v]" using two_updaters [OF o(1)] by blast
  have u: "u = PDone \<or> u = Polling \<and> DBQueue s \<noteq> []" using idle_updater [OF o(1), of 0] assms(2) uv by (simp add: db_step_def)
  have v: "v = PDone \<or> v = Polling \<and> DBQueue s \<noteq> []" using idle_updater [OF o(1), of 1] assms(2) uv by (simp add: db_step_def)
  have w: "db_writer s = WStopped \<or> db_writer s = WWait \<and> \<not> g_hEvent s" by (rule idle_writer [of exec tx]) (use assms(2) in \<open>simp add: db_step_def\<close>)
  from u v have e: "bTerminate s \<or> DBQueue s \<noteq> []" "bTerminate s \<Longrightarrow> DBQueue s = []" using o(2) uv by (auto simp: end_ok_def)
  have "\<not> (db_writer s = WWait \<and> \<not> g_hEvent s)" using u v e o(3) uv by (auto simp: wake_ok_def)
  with w have "db_writer s = WStopped" by blast
  moreover have "bTerminate s" using calculation o(3) by (simp add: wake_ok_def)
  ultimately show ?thesis using e(2) u v uv by simp
qed

text \<open>
  C37. The writer thread loses nothing and ends. Whatever the interleaving of the two update threads and the
  writer, every step but a repeated poll brings the end nearer, and where no other step is left, the writer has
  returned with an empty queue: it has handled every message of both threads, those of a thread in the order in
  which they were enqueued, on the connection one after the other, and counted each. No wakeup is lost.
\<close>
theorem writer_thread_drains:
  assumes "(db_step exec tx)\<^sup>*\<^sup>* (db_start ms0 ms1 c) s"
  shows "(\<forall>s'. db_step exec tx s s' \<longrightarrow> s' = s \<or> db_left s' < db_left s) \<and>
    handle_messages exec tx (map snd (written s)) c = Some (db_state s) \<and>
    ((\<forall>s'. db_step exec tx s s' \<longrightarrow> s' = s) \<longrightarrow>
      db_writer s = WStopped \<and> DBQueue s = [] \<and> of_thread 0 (written s) = ms0 \<and> of_thread 1 (written s) = ms1 \<and>
      lDBWriteTotal s = length ms0 + length ms1)"
proof (intro conjI impI)
  have ok: "db_ok exec tx ms0 ms1 c s" by (rule db_ok_reachable [OF assms])
  show "\<forall>s'. db_step exec tx s s' \<longrightarrow> s' = s \<or> db_left s' < db_left s" using ok db_step_left by (auto simp: db_ok_def)
  show "handle_messages exec tx (map snd (written s)) c = Some (db_state s)" using ok by (simp add: db_ok_def log_ok_def)
  assume "\<forall>s'. db_step exec tx s s' \<longrightarrow> s' = s"
  then have e: "db_writer s = WStopped \<and> DBQueue s = [] \<and> updaters s = [PDone, PDone]" using idle_server_ended [OF ok] by blast
  then show "db_writer s = WStopped" "DBQueue s = []" by simp_all
  have f: "flow_ok ms0 ms1 s" "log_ok exec tx c s" using ok by (simp_all add: db_ok_def)
  show t: "of_thread 0 (written s) = ms0" "of_thread 1 (written s) = ms1" using f(1) e by (simp_all add: flow_ok_def)
  have "\<forall>m \<in> set (written s). fst m < 2" using f(1) by (simp add: flow_ok_def)
  from two_threads [OF this] show "lDBWriteTotal s = length ms0 + length ms1" using t f(2) by (simp add: log_ok_def)
qed

text \<open>A schedule by number of thread, the writer last; a thread that cannot go on is passed over.\<close>

fun db_run :: "'c exec \<Rightarrow> bool \<Rightarrow> nat list \<Rightarrow> 'c db \<Rightarrow> 'c db" where
  "db_run exec tx [] s = s"
| "db_run exec tx (t # ts) s =
     db_run exec tx ts (case if t < 2 then update_step t s else writer_step exec tx s of None \<Rightarrow> s | Some s' \<Rightarrow> s')"

lemma db_run_reachable: "(db_step exec tx)\<^sup>*\<^sup>* s (db_run exec tx ts s)"
proof (induction ts arbitrary: s)
  case (Cons t ts)
  have "(db_step exec tx)\<^sup>*\<^sup>* s (case if t < 2 then update_step t s else writer_step exec tx s of None \<Rightarrow> s | Some s' \<Rightarrow> s')"
    by (auto simp: db_step_def less_2_cases_iff split: option.splits)
  from rtranclp_trans [OF this Cons.IH] show ?case by simp
qed simp

lemma one_statement:
  "HandleLevelUp (\<lambda>q c. (Suc c, True)) a l (c, n) = Some (Suc c, Suc n)"
  "HandleQuestComplete (\<lambda>q c. (Suc c, True)) a q (c, n) = Some (Suc c, Suc n)"
  using queries_total(1) [of a l] queries_total(5) [of a q]
  by (auto simp: HandleLevelUp_def HandleQuestComplete_def ExecuteCount_def)

definition demo_end :: "nat db" where
  "demo_end = db_run (\<lambda>q c. (c + 1, True)) True ([0, 1, 0, 2, 2, 2, 2, 1, 0, 1, 2] @ [2, 2, 2, 2, 2, 1, 1, 1] @ [2, 2, 2, 2])
     (db_start [LevelUp 10000 7] [QuestComplete 10001 3] (0, 0))"

theorem writer_thread_drains_witness:
  "(db_step (\<lambda>q c. (c + 1, True)) True)\<^sup>*\<^sup>* (db_start [LevelUp 10000 7] [QuestComplete 10001 3] (0 :: nat, 0)) demo_end \<and>
   db_writer demo_end = WStopped \<and>
   handle_messages (\<lambda>q c. (c + 1, True)) True (map snd (written demo_end)) (0, 0) = Some (db_state demo_end)"
proof -
  have r: "(db_step (\<lambda>q c. (c + 1, True)) True)\<^sup>*\<^sup>* (db_start [LevelUp 10000 7] [QuestComplete 10001 3] (0 :: nat, 0)) demo_end"
    unfolding demo_end_def by (rule db_run_reachable)
  have "db_writer demo_end = WStopped"
    by (simp add: demo_end_def db_start_def update_step_def writer_step_def one_statement)
  with r writer_thread_drains [OF r] show ?thesis by blast
qed

end
