(* ===== verification/Lock_Free_Queue.thy ===== *)
theory Lock_Free_Queue
  imports Prelude
begin

text \<open>
  lock-free-queue/LockFreeQueue.h: the Michael-Scott queue with hazard pointers, one step per access to shared
  memory, any number of threads. The allocator may hand out the address of a freed node again; \<open>None\<close> is an
  access to a freed node, a second \<open>delete\<close>, or the use of an absent value. Interleavings are sequentially
  consistent. The two push loops on \<open>mRetired\<close> and \<open>mHazards\<close> are one step each: what they push goes on top of
  whatever the list is when their compare-exchange succeeds.
\<close>

section \<open>The state\<close>

type_synonym addr = nat

record 'a node =
  node_next :: "addr option"
  node_value :: "'a option"

text \<open>What a thread does after \<open>ClearHazards\<close>; the flag of an empty answer is explained with \<open>DNext\<close>.\<close>

datatype cleared = Done | DoneEmpty bool | ThenRetire addr

datatype 'a pc =
  Idle
  \<comment> \<open>\<open>Enqueue\<close>, with its new node first\<close>
| ERegister addr
| ELoad addr | EStore addr addr | EVerify addr addr                        \<comment> \<open>\<open>Protect(mTail, first)\<close>\<close>
| ENext addr addr | ECheck addr addr "addr option"                         \<comment> \<open>lines 81 and 82\<close>
| ELink addr addr | ESwing addr addr | ESize                               \<comment> \<open>lines 85, 87 and 89\<close>
| EHelp addr addr addr                                                     \<comment> \<open>line 94\<close>
  \<comment> \<open>\<open>TryDequeue\<close>\<close>
| DRegister
| DLoad | DStore addr | DVerify addr                                       \<comment> \<open>\<open>Protect(mHead, first)\<close>\<close>
| DNext addr | DSecond addr "addr option" bool | DCheck addr "addr option" bool   \<comment> \<open>lines 105, 106 and 108\<close>
| DTail addr addr | DHelp addr addr                                        \<comment> \<open>lines 114 and 116\<close>
| DValue addr addr | DCas addr addr 'a | DSize addr                        \<comment> \<open>lines 121, 122 and 125\<close>
  \<comment> \<open>\<open>ClearHazards\<close>, \<open>Retire\<close>, \<open>ScanRetired\<close>\<close>
| Clear2 cleared | Clear1 cleared
| RPush addr | RCount
| SExchange | SLoad "addr list"
| SRead "addr list" "(nat \<times> bool) list" "addr list"                       \<comment> \<open>list, hazard slots to read, protected nodes\<close>
| SSweep "addr list" "addr list" "addr list"                               \<comment> \<open>list, protected nodes, keep\<close>
| SKeep "addr list"

text \<open>
  \<open>enq_log\<close> and \<open>deq_log\<close> record the values in the order of the successful compare-exchanges of lines 85 and
  122, \<open>empty_log\<close> whether the queue was empty at the load of line 105 of a call that answered false. A hazard
  record is named by its thread; the second slot is \<open>True\<close>.
\<close>

record 'a lfq =
  nodes :: "addr \<Rightarrow> 'a node option"
  mHead :: addr
  mTail :: addr
  mHazards :: "nat list"
  hp_first :: "nat \<Rightarrow> addr option"
  hp_second :: "nat \<Rightarrow> addr option"
  mRetired :: "addr list"
  mRetireCount :: "64 word"
  lf_size :: "64 word"
  pcs :: "nat \<Rightarrow> 'a pc"
  enq_log :: "'a list"
  deq_log :: "'a list"
  empty_log :: "bool list"

text \<open>What the environment decides: the next call of an idle thread with the address \<open>new\<close> returns, and spurious failures.\<close>

datatype 'a choice = CallEnqueue 'a addr | CallDequeue | Go | Spurious

definition at :: "nat \<Rightarrow> 'a pc \<Rightarrow> 'a lfq \<Rightarrow> 'a lfq" where
  "at t c s = s\<lparr>pcs := (pcs s)(t := c)\<rparr>"

definition LockFreeQueue :: "addr \<Rightarrow> 'a lfq" where
  "LockFreeQueue sentinel = \<lparr>nodes = [sentinel \<mapsto> \<lparr>node_next = None, node_value = None\<rparr>], mHead = sentinel, mTail = sentinel, mHazards = [],
     hp_first = (\<lambda>t. None), hp_second = (\<lambda>t. None), mRetired = [], mRetireCount = 0, lf_size = 0, pcs = (\<lambda>t. Idle),
     enq_log = [], deq_log = [], empty_log = []\<rparr>"

section \<open>The operations\<close>

definition GetHazardRecord :: "nat \<Rightarrow> 'a lfq \<Rightarrow> 'a lfq" where
  "GetHazardRecord t s = (if t \<in> set (mHazards s) then s else s\<lparr>mHazards := t # mHazards s\<rparr>)"

fun Enqueue_step :: "nat \<Rightarrow> 'a choice \<Rightarrow> 'a pc \<Rightarrow> 'a lfq \<Rightarrow> 'a lfq option" where
  "Enqueue_step t ch (ERegister a) s = Some (at t (ELoad a) (GetHazardRecord t s))"
| "Enqueue_step t ch (ELoad a) s = Some (at t (EStore a (mTail s)) s)"
| "Enqueue_step t ch (EStore a v) s = Some (at t (EVerify a v) (s\<lparr>hp_first := (hp_first s)(t := Some v)\<rparr>))"
| "Enqueue_step t ch (EVerify a v) s = Some (at t (if mTail s = v then ENext a v else ELoad a) s)"
| "Enqueue_step t ch (ENext a v) s = do { n \<leftarrow> nodes s v; Some (at t (ECheck a v (node_next n)) s) }"
| "Enqueue_step t ch (ECheck a v nx) s =
     Some (at t (if v \<noteq> mTail s then ELoad a else case nx of None \<Rightarrow> ELink a v | Some n \<Rightarrow> EHelp a v n) s)"
| "Enqueue_step t ch (ELink a v) s = do {
     n \<leftarrow> nodes s v;
     (if node_next n = None \<and> ch \<noteq> Spurious
      then do {
        new \<leftarrow> nodes s a;
        x \<leftarrow> node_value new;
        Some (at t (ESwing a v) (s\<lparr>nodes := (nodes s)(v \<mapsto> n\<lparr>node_next := Some a\<rparr>), enq_log := enq_log s @ [x]\<rparr>))
      }
      else Some (at t (ELoad a) s)) }"
| "Enqueue_step t ch (ESwing a v) s = Some (at t ESize (if mTail s = v then s\<lparr>mTail := a\<rparr> else s))"
| "Enqueue_step t ch ESize s = Some (at t (Clear2 Done) (s\<lparr>lf_size := lf_size s + 1\<rparr>))"
| "Enqueue_step t ch (EHelp a v n) s = Some (at t (ELoad a) (if mTail s = v \<and> ch \<noteq> Spurious then s\<lparr>mTail := n\<rparr> else s))"
| "Enqueue_step t ch _ s = Some s"

text \<open>The flag of \<open>DSecond\<close> notes, for the answer \<open>false\<close>, whether the queue is empty at the load of line 105.\<close>

fun TryDequeue_step :: "nat \<Rightarrow> 'a choice \<Rightarrow> 'a pc \<Rightarrow> 'a lfq \<Rightarrow> 'a lfq option" where
  "TryDequeue_step t ch DRegister s = Some (at t DLoad (GetHazardRecord t s))"
| "TryDequeue_step t ch DLoad s = Some (at t (DStore (mHead s)) s)"
| "TryDequeue_step t ch (DStore v) s = Some (at t (DVerify v) (s\<lparr>hp_first := (hp_first s)(t := Some v)\<rparr>))"
| "TryDequeue_step t ch (DVerify v) s = Some (at t (if mHead s = v then DNext v else DLoad) s)"
| "TryDequeue_step t ch (DNext h) s = do { n \<leftarrow> nodes s h; Some (at t (DSecond h (node_next n) (enq_log s = deq_log s)) s) }"
| "TryDequeue_step t ch (DSecond h nx e) s = Some (at t (DCheck h nx e) (s\<lparr>hp_second := (hp_second s)(t := nx)\<rparr>))"
| "TryDequeue_step t ch (DCheck h nx e) s =
     Some (at t (if h \<noteq> mHead s then DLoad else case nx of None \<Rightarrow> Clear2 (DoneEmpty e) | Some n \<Rightarrow> DTail h n) s)"
| "TryDequeue_step t ch (DTail h n) s = Some (at t (if h = mTail s then DHelp h n else DValue h n) s)"
| "TryDequeue_step t ch (DHelp h n) s = Some (at t DLoad (if mTail s = h \<and> ch \<noteq> Spurious then s\<lparr>mTail := n\<rparr> else s))"
| "TryDequeue_step t ch (DValue h n) s = do { c \<leftarrow> nodes s n; x \<leftarrow> node_value c; Some (at t (DCas h n x) s) }"
| "TryDequeue_step t ch (DCas h n x) s =
     Some (if mHead s = h \<and> ch \<noteq> Spurious then at t (DSize h) (s\<lparr>mHead := n, deq_log := deq_log s @ [x]\<rparr>) else at t DLoad s)"
| "TryDequeue_step t ch (DSize h) s = Some (at t (Clear2 (ThenRetire h)) (s\<lparr>lf_size := lf_size s - 1\<rparr>))"
| "TryDequeue_step t ch _ s = Some s"

fun ClearHazards_step :: "nat \<Rightarrow> 'a pc \<Rightarrow> 'a lfq \<Rightarrow> 'a lfq option" where
  "ClearHazards_step t (Clear2 k) s = Some (at t (Clear1 k) (s\<lparr>hp_second := (hp_second s)(t := None)\<rparr>))"
| "ClearHazards_step t (Clear1 k) s = (let s1 = s\<lparr>hp_first := (hp_first s)(t := None)\<rparr> in
     case k of
       Done \<Rightarrow> Some (at t Idle s1)
     | DoneEmpty e \<Rightarrow> Some (at t Idle (s1\<lparr>empty_log := empty_log s @ [e]\<rparr>))
     | ThenRetire h \<Rightarrow> Some (at t (RPush h) s1))"
| "ClearHazards_step t _ s = Some s"

fun Retire_step :: "nat \<Rightarrow> 'a pc \<Rightarrow> 'a lfq \<Rightarrow> 'a lfq option" where
  "Retire_step t (RPush h) s = Some (at t RCount (s\<lparr>mRetired := h # mRetired s\<rparr>))"
| "Retire_step t RCount s =
     Some (at t (if mRetireCount s AND 63 = 63 then SExchange else Idle) (s\<lparr>mRetireCount := mRetireCount s + 1\<rparr>))"
| "Retire_step t _ s = Some s"

fun ScanRetired_step :: "nat \<Rightarrow> 'a pc \<Rightarrow> 'a lfq \<Rightarrow> 'a lfq option" where
  "ScanRetired_step t SExchange s = Some (at t (if mRetired s = [] then Idle else SLoad (mRetired s)) (s\<lparr>mRetired := []\<rparr>))"
| "ScanRetired_step t (SLoad l) s = Some (at t (SRead l (concat (map (\<lambda>r. [(r, False), (r, True)]) (mHazards s))) []) s)"
| "ScanRetired_step t (SRead l [] p) s = Some (at t (SSweep l p []) s)"
| "ScanRetired_step t (SRead l ((r, b) # todo) p) s =
     Some (at t (SRead l todo (case if b then hp_second s r else hp_first s r of None \<Rightarrow> p | Some v \<Rightarrow> v # p)) s)"
| "ScanRetired_step t (SSweep [] p k) s = Some (at t (SKeep k) s)"
| "ScanRetired_step t (SSweep (v # l) p k) s =
     (if v \<in> set p then Some (at t (SSweep l p (v # k)) s)
      else do { n \<leftarrow> nodes s v; Some (at t (SSweep l p k) (s\<lparr>nodes := (nodes s)(v := None)\<rparr>)) })"
| "ScanRetired_step t (SKeep []) s = Some (at t Idle s)"
| "ScanRetired_step t (SKeep (v # k)) s = Some (at t (SKeep k) (s\<lparr>mRetired := v # mRetired s\<rparr>))"
| "ScanRetired_step t _ s = Some s"

text \<open>One step of a thread; each of the functions leaves the program counters of the others alone.\<close>

definition lf_call :: "nat \<Rightarrow> 'a choice \<Rightarrow> 'a lfq \<Rightarrow> 'a lfq" where
  "lf_call t ch s = (case ch of
       CallEnqueue x a \<Rightarrow>
         if nodes s a = None then at t (ERegister a) (s\<lparr>nodes := (nodes s)(a \<mapsto> \<lparr>node_next = None, node_value = Some x\<rparr>)\<rparr>) else s
     | CallDequeue \<Rightarrow> at t DRegister s
     | _ \<Rightarrow> s)"

definition lf_step :: "nat \<Rightarrow> 'a choice \<Rightarrow> 'a lfq \<Rightarrow> 'a lfq option" where
  "lf_step t ch s = (let c = pcs s t in
     if c = Idle then Some (lf_call t ch s)
     else do {
       s1 \<leftarrow> Enqueue_step t ch c s;
       s2 \<leftarrow> TryDequeue_step t ch c s1;
       s3 \<leftarrow> ClearHazards_step t c s2;
       s4 \<leftarrow> Retire_step t c s3;
       ScanRetired_step t c s4
     })"

fun lf_run :: "(nat \<times> 'a choice) list \<Rightarrow> 'a lfq \<Rightarrow> 'a lfq option" where
  "lf_run [] s = Some s"
| "lf_run ((t, ch) # sched) s = do { s1 \<leftarrow> lf_step t ch s; lf_run sched s1 }"

text \<open>
  The destructor, which runs when no thread uses the queue: \<open>ScanRetired\<close> without interruption, then \<open>delete\<close> of
  what it left on \<open>mRetired\<close> and of the chain from \<open>mHead\<close> on.
\<close>

fun delete_all :: "addr list \<Rightarrow> (addr \<Rightarrow> 'a node option) \<Rightarrow> (addr \<Rightarrow> 'a node option) option" where
  "delete_all [] h = Some h"
| "delete_all (v # l) h = do { n \<leftarrow> h v; delete_all l (h(v := None)) }"

definition scan_alone :: "'a lfq \<Rightarrow> 'a lfq option" where
  "scan_alone s = (let p = concat (map (\<lambda>r. [hp_first s r, hp_second s r]) (mHazards s)) in do {
     h \<leftarrow> delete_all (filter (\<lambda>v. Some v \<notin> set p) (mRetired s)) (nodes s);
     Some (s\<lparr>nodes := h, mRetired := filter (\<lambda>v. Some v \<in> set p) (mRetired s)\<rparr>) })"

partial_function (option) delete_chain :: "addr option \<Rightarrow> (addr \<Rightarrow> 'a node option) \<Rightarrow> (addr \<Rightarrow> 'a node option) option" where
  "delete_chain v h = (case v of
       None \<Rightarrow> Some h
     | Some a \<Rightarrow> do { n \<leftarrow> h a; delete_chain (node_next n) (h(a := None)) })"

definition destroy :: "'a lfq \<Rightarrow> (addr \<Rightarrow> 'a node option) option" where
  "destroy s = do {
     s1 \<leftarrow> scan_alone s;
     h \<leftarrow> delete_all (mRetired s1) (nodes s1);
     delete_chain (Some (mHead s1)) h }"

text \<open>The values a reader of the list would find behind the sentinel.\<close>

partial_function (option) chain_values :: "(addr \<Rightarrow> 'a node option) \<Rightarrow> addr option \<Rightarrow> 'a list option" where
  "chain_values h v = (case v of
       None \<Rightarrow> Some []
     | Some a \<Rightarrow> do { n \<leftarrow> h a; x \<leftarrow> node_value n; xs \<leftarrow> chain_values h (node_next n); Some (x # xs) })"

section \<open>The invariant\<close>

text \<open>
  Where an address is: in the list from \<open>mHead\<close> on, on \<open>mRetired\<close>, in the hands of one thread as the node it
  is about to link, or in the hands of one thread as a node it unlinked and retires or sweeps.
\<close>

datatype place = Free | New nat | Chained | Shelved | Private nat

fun new_node :: "'a pc \<Rightarrow> addr option" where
  "new_node (ERegister a) = Some a"
| "new_node (ELoad a) = Some a"
| "new_node (EStore a v) = Some a"
| "new_node (EVerify a v) = Some a"
| "new_node (ENext a v) = Some a"
| "new_node (ECheck a v nx) = Some a"
| "new_node (ELink a v) = Some a"
| "new_node (EHelp a v n) = Some a"
| "new_node _ = None"

fun cleared_nodes :: "cleared \<Rightarrow> addr list" where
  "cleared_nodes (ThenRetire h) = [h]"
| "cleared_nodes _ = []"

fun priv :: "'a pc \<Rightarrow> addr list" where
  "priv (DSize h) = [h]"
| "priv (Clear2 k) = cleared_nodes k"
| "priv (Clear1 k) = cleared_nodes k"
| "priv (RPush h) = [h]"
| "priv (SLoad l) = l"
| "priv (SRead l todo p) = l"
| "priv (SSweep l p k) = l @ k"
| "priv (SKeep k) = k"
| "priv _ = []"

text \<open>The nodes a program counter may follow: protected by the first and by the second hazard pointer.\<close>

fun hold1 :: "'a pc \<Rightarrow> addr option" where
  "hold1 (ENext a v) = Some v"
| "hold1 (ECheck a v nx) = Some v"
| "hold1 (ELink a v) = Some v"
| "hold1 (EHelp a v n) = Some v"
| "hold1 (ESwing a v) = Some v"
| "hold1 (DNext h) = Some h"
| "hold1 (DSecond h nx e) = Some h"
| "hold1 (DCheck h nx e) = Some h"
| "hold1 (DTail h n) = Some h"
| "hold1 (DHelp h n) = Some h"
| "hold1 (DValue h n) = Some h"
| "hold1 (DCas h n x) = Some h"
| "hold1 _ = None"

fun hold2 :: "'a pc \<Rightarrow> addr option" where
  "hold2 (DTail h n) = Some n"
| "hold2 (DHelp h n) = Some n"
| "hold2 (DValue h n) = Some n"
| "hold2 (DCas h n x) = Some n"
| "hold2 _ = None"

text \<open>A scan under way: the nodes it may free, the slots it has still to read, what it found protected.\<close>

fun sweep :: "'a pc \<Rightarrow> (addr list \<times> (nat \<times> bool) list \<times> addr list) option" where
  "sweep (SRead l todo p) = Some (l, todo, p)"
| "sweep (SSweep l p k) = Some (l, [], p)"
| "sweep _ = None"

definition spared :: "'a pc \<Rightarrow> nat \<Rightarrow> 'a pc \<Rightarrow> bool" where
  "spared c w d \<longleftrightarrow> (\<forall>l todo p v. sweep c = Some (l, todo, p) \<longrightarrow> v \<in> set l \<longrightarrow>
     (hold1 d = Some v \<longrightarrow> (w, False) \<in> set todo \<or> v \<in> set p) \<and> (hold2 d = Some v \<longrightarrow> (w, True) \<in> set todo \<or> v \<in> set p))"

definition next_of :: "('a, 'b) lfq_scheme \<Rightarrow> addr \<Rightarrow> addr option" where
  "next_of s a = Option.bind (nodes s a) node_next"

definition val_of :: "('a, 'b) lfq_scheme \<Rightarrow> addr \<Rightarrow> 'a option" where
  "val_of s a = Option.bind (nodes s a) node_value"

text \<open>What a program counter remembers of the shared state.\<close>

fun fact :: "addr set \<Rightarrow> 'a lfq \<Rightarrow> nat \<Rightarrow> 'a pc \<Rightarrow> bool" where
  "fact C s t (EVerify a v) = (hp_first s t = Some v)"
| "fact C s t (ECheck a v nx) = (\<forall>n. nx = Some n \<longrightarrow> next_of s v = Some n)"
| "fact C s t (EHelp a v n) = (next_of s v = Some n)"
| "fact C s t (ESwing a v) = (next_of s v = Some a)"
| "fact C s t (DVerify v) = (hp_first s t = Some v)"
| "fact C s t (DNext h) = (h \<in> C \<longrightarrow> h = mHead s)"
| "fact C s t (DSecond h nx e) = ((h \<in> C \<longrightarrow> h = mHead s) \<and> (\<forall>n. nx = Some n \<longrightarrow> next_of s h = Some n) \<and> (nx = None \<longrightarrow> e \<or> h \<notin> C))"
| "fact C s t (DCheck h nx e) =
     ((h \<in> C \<longrightarrow> h = mHead s) \<and> (\<forall>n. nx = Some n \<longrightarrow> next_of s h = Some n) \<and> (nx = None \<longrightarrow> e \<or> h \<notin> C) \<and> hp_second s t = nx)"
| "fact C s t (DTail h n) = ((h \<in> C \<longrightarrow> h = mHead s) \<and> next_of s h = Some n \<and> val_of s n \<noteq> None)"
| "fact C s t (DHelp h n) = ((h \<in> C \<longrightarrow> h = mHead s) \<and> next_of s h = Some n)"
| "fact C s t (DValue h n) = ((h \<in> C \<longrightarrow> h = mHead s \<and> mTail s \<noteq> h) \<and> next_of s h = Some n \<and> val_of s n \<noteq> None)"
| "fact C s t (DCas h n x) = ((h \<in> C \<longrightarrow> h = mHead s \<and> mTail s \<noteq> h) \<and> next_of s h = Some n \<and> val_of s n = Some x)"
| "fact C s t (Clear2 (DoneEmpty e)) = e"
| "fact C s t (Clear1 (DoneEmpty e)) = e"
| "fact C s t _ = True"

fun registered :: "'a pc \<Rightarrow> bool" where
  "registered Idle = False"
| "registered (ERegister a) = False"
| "registered DRegister = False"
| "registered _ = True"

fun linked :: "('a, 'b) lfq_scheme \<Rightarrow> addr list \<Rightarrow> bool" where
  "linked s [] = False"
| "linked s [a] = (next_of s a = None)"
| "linked s (a # b # c) = (next_of s a = Some b \<and> linked s (b # c))"

lemma linked_cong:
  "(\<And>a. a \<in> set c \<Longrightarrow> next_of s' a = next_of s a) \<Longrightarrow> linked s' c = linked s c"
  by (induction c rule: induct_list012) auto

lemma linked_next: "linked s c \<Longrightarrow> v \<in> set c \<Longrightarrow> next_of s v = Some n \<Longrightarrow> n \<in> set (tl c)"
  by (induction c rule: induct_list012) auto

lemma linked_last: "linked s c \<Longrightarrow> v \<in> set c \<Longrightarrow> next_of s v = None \<Longrightarrow> v = last c"
  by (induction c rule: induct_list012) auto

lemma linked_hd: "linked s c \<Longrightarrow> next_of s (hd c) = None \<Longrightarrow> c = [hd c]"
  by (induction c rule: induct_list012) auto

lemma linked_hd_next: "linked s c \<Longrightarrow> next_of s (hd c) = Some n \<Longrightarrow> \<exists>r. c = hd c # n # r"
  by (induction c rule: induct_list012) auto

lemma linked_link:
  assumes "linked s c" and "distinct c" and "next_of s' (last c) = Some a" and "next_of s' a = None"
    and "\<And>b. b \<noteq> last c \<Longrightarrow> next_of s' b = next_of s b"
  shows "linked s' (c @ [a])"
  using assms
proof (induction c rule: induct_list012)
  case (3 x y zs)
  have "x \<noteq> last (y # zs)" using "3.prems"(2) last_in_set [of "y # zs"] by auto
  then have "next_of s' x = next_of s x" using "3.prems"(5) [of x] by simp
  then show ?case using 3 by simp
qed auto

definition shared_ok :: "addr list \<Rightarrow> (addr \<Rightarrow> place) \<Rightarrow> 'a lfq \<Rightarrow> bool" where
  "shared_ok chain place s \<longleftrightarrow>
     linked s chain \<and> distinct chain \<and> hd chain = mHead s \<and> mTail s \<in> set chain \<and> set chain = {a. place a = Chained} \<and>
     map Some (enq_log s) = map Some (deq_log s) @ map (val_of s) (tl chain) \<and>
     distinct (mRetired s) \<and> set (mRetired s) = {a. place a = Shelved} \<and>
     (\<forall>a. nodes s a = None \<longleftrightarrow> place a = Free) \<and>
     (\<forall>a t. place a = Shelved \<or> place a = Private t \<longrightarrow> next_of s a \<noteq> None) \<and>
     (\<forall>a t. place a = New t \<longrightarrow> next_of s a = None \<and> val_of s a \<noteq> None) \<and>
     list_all id (empty_log s)"

definition holds_ok :: "(addr \<Rightarrow> place) \<Rightarrow> 'a lfq \<Rightarrow> nat \<Rightarrow> 'a pc \<Rightarrow> bool" where
  "holds_ok place s t c \<longleftrightarrow>
     (\<forall>v. hold1 c = Some v \<longrightarrow> hp_first s t = Some v \<and> place v \<noteq> Free \<and> (\<forall>u. place v \<noteq> New u)) \<and>
     (\<forall>v. hold2 c = Some v \<longrightarrow> hp_second s t = Some v \<and> place v \<noteq> Free \<and> (\<forall>u. place v \<noteq> New u)) \<and>
     (registered c \<longrightarrow> t \<in> set (mHazards s))"

definition owns_ok :: "(addr \<Rightarrow> place) \<Rightarrow> nat \<Rightarrow> 'a pc \<Rightarrow> bool" where
  "owns_ok place t c \<longleftrightarrow>
     distinct (priv c) \<and> set (priv c) = {a. place a = Private t} \<and> (\<forall>a. new_node c = Some a \<longleftrightarrow> place a = New t)"

definition lf_inv :: "addr list \<Rightarrow> (addr \<Rightarrow> place) \<Rightarrow> 'a lfq \<Rightarrow> bool" where
  "lf_inv chain place s \<longleftrightarrow> shared_ok chain place s \<and>
     (\<forall>t. holds_ok place s t (pcs s t) \<and> owns_ok place t (pcs s t) \<and> fact (set chain) s t (pcs s t)) \<and>
     (\<forall>u w. spared (pcs s u) w (pcs s w))"

lemma lf_inv_start: "lf_inv [a] ((\<lambda>x. Free)(a := Chained)) (LockFreeQueue a)"
  by (auto simp: lf_inv_def LockFreeQueue_def shared_ok_def holds_ok_def owns_ok_def spared_def next_of_def val_of_def)

end
