(* ===== verification/Lock_Free_Safety.thy ===== *)
theory Lock_Free_Safety
  imports Lock_Free_Queue
begin

text \<open>
  The invariant of the lock-free queue is kept by every step: what a step leaves to the other threads, the
  steps on one thread's own state, then the steps on the shared lists one by one.
\<close>

section \<open>What a step leaves to the others\<close>

definition held_by_other :: "nat \<Rightarrow> 'a lfq \<Rightarrow> addr \<Rightarrow> bool" where
  "held_by_other t s v \<longleftrightarrow> (\<exists>u. u \<noteq> t \<and> (hold1 (pcs s u) = Some v \<or> hold2 (pcs s u) = Some v))"

definition keeps :: "nat \<Rightarrow> addr set \<Rightarrow> addr set \<Rightarrow> (addr \<Rightarrow> place) \<Rightarrow> (addr \<Rightarrow> place) \<Rightarrow> 'a lfq \<Rightarrow> 'a lfq \<Rightarrow> bool" where
  "keeps t C C' place place' s s' \<longleftrightarrow>
     (\<forall>u. u \<noteq> t \<longrightarrow> hp_first s' u = hp_first s u \<and> hp_second s' u = hp_second s u) \<and> set (mHazards s) \<subseteq> set (mHazards s') \<and>
     (\<forall>u a. u \<noteq> t \<longrightarrow> (place' a = Private u \<longleftrightarrow> place a = Private u) \<and> (place' a = New u \<longleftrightarrow> place a = New u)) \<and>
     (\<forall>v. held_by_other t s v \<longrightarrow> place v \<noteq> Free \<longrightarrow> (\<forall>u. place v \<noteq> New u) \<longrightarrow>
        place' v \<noteq> Free \<and> (\<forall>u. place' v \<noteq> New u) \<and> (\<forall>n. next_of s v = Some n \<longrightarrow> next_of s' v = Some n) \<and>
        (\<forall>x. val_of s v = Some x \<longrightarrow> val_of s' v = Some x) \<and> (v \<in> C' \<longrightarrow> v \<in> C) \<and>
        (v \<in> C' \<longrightarrow> v = mHead s \<longrightarrow> v = mHead s') \<and> (v \<in> C' \<longrightarrow> v = mHead s \<longrightarrow> mTail s \<noteq> v \<longrightarrow> mTail s' \<noteq> v))"

lemma keeps_others:
  assumes "keeps t (set chain) (set chain') place place' s s'" and "lf_inv chain place s" and "u \<noteq> t"
  shows "holds_ok place' s' u (pcs s u)" "owns_ok place' u (pcs s u)" "fact (set chain') s' u (pcs s u)"
proof -
  have h: "holds_ok place s u (pcs s u)" and o: "owns_ok place u (pcs s u)" and f: "fact (set chain) s u (pcs s u)"
    using assms(2) by (simp_all add: lf_inv_def)
  have k: "hp_first s' u = hp_first s u" "hp_second s' u = hp_second s u" "set (mHazards s) \<subseteq> set (mHazards s')"
    "\<And>a. (place' a = Private u \<longleftrightarrow> place a = Private u)" "\<And>a. (place' a = New u \<longleftrightarrow> place a = New u)"
    using assms(1,3) by (simp_all add: keeps_def)
  have v: "place' v \<noteq> Free \<and> (\<forall>w. place' v \<noteq> New w) \<and> (\<forall>n. next_of s v = Some n \<longrightarrow> next_of s' v = Some n) \<and>
        (\<forall>x. val_of s v = Some x \<longrightarrow> val_of s' v = Some x) \<and> (v \<in> set chain' \<longrightarrow> v \<in> set chain) \<and>
        (v \<in> set chain' \<longrightarrow> v = mHead s \<longrightarrow> v = mHead s') \<and> (v \<in> set chain' \<longrightarrow> v = mHead s \<longrightarrow> mTail s \<noteq> v \<longrightarrow> mTail s' \<noteq> v)"
    if "hold1 (pcs s u) = Some v \<or> hold2 (pcs s u) = Some v" for v
  proof -
    have "held_by_other t s v" using that assms(3) by (auto simp: held_by_other_def)
    moreover have "place v \<noteq> Free" "\<And>w. place v \<noteq> New w" using that h by (auto simp: holds_ok_def)
    ultimately show ?thesis using assms(1) unfolding keeps_def by blast
  qed
  show "holds_ok place' s' u (pcs s u)" using h k v unfolding holds_ok_def by auto
  show "owns_ok place' u (pcs s u)" using o k by (simp add: owns_ok_def)
  show "fact (set chain') s' u (pcs s u)"
  proof (cases "pcs s u")
    case (Clear2 x)
    then show ?thesis using f by (cases x) simp_all
  next
    case (Clear1 x)
    then show ?thesis using f by (cases x) simp_all
  next
    case (DSecond h nx e)
    then show ?thesis using f v [of h] by simp blast
  next
    case (DCheck h nx e)
    then show ?thesis using f k(2) v [of h] by simp blast
  next
    case (DTail h n)
    then show ?thesis using f v [of h] v [of n] by simp metis
  next
    case (DValue h n)
    then show ?thesis using f v [of h] v [of n] by simp metis
  next
    case (DCas h n x)
    then show ?thesis using f v [of h] v [of n] by simp metis
  next
    case (EVerify a w)
    then show ?thesis using f k(1) by simp
  next
    case (ECheck a w nx)
    then show ?thesis using f v [of w] by simp
  next
    case (EHelp a w n)
    then show ?thesis using f v [of w] by simp
  next
    case (ESwing a w)
    then show ?thesis using f v [of w] by simp
  next
    case (DVerify w)
    then show ?thesis using f k(1) by simp
  next
    case (DNext h)
    then show ?thesis using f v [of h] by simp
  next
    case (DHelp h n)
    then show ?thesis using f v [of h] by simp
  qed simp_all
qed

lemma sweep_priv: "sweep c = Some (l, todo, p) \<Longrightarrow> set l \<subseteq> set (priv c)"
  by (cases c) auto

lemma sweep_no_hold: "sweep c \<noteq> None \<Longrightarrow> hold1 c = None \<and> hold2 c = None"
  by (cases c) auto

text \<open>Nobody's sweep has in its list what a thread holds already, or takes from the queue now.\<close>

lemma spared_other:
  assumes "lf_inv chain place s"
    and "\<And>v. hold1 c' = Some v \<Longrightarrow> hold1 (pcs s t) = Some v \<or> place v = Chained"
    and "\<And>v. hold2 c' = Some v \<Longrightarrow> hold2 (pcs s t) = Some v \<or> place v = Chained"
  shows "spared (pcs s u) t c'"
  unfolding spared_def
proof (intro allI impI)
  fix l todo p v
  assume sw: "sweep (pcs s u) = Some (l, todo, p)" and v: "v \<in> set l"
  have "place v = Private u" using sweep_priv [OF sw] v assms(1) by (auto simp: lf_inv_def owns_ok_def)
  then have "place v \<noteq> Chained" by simp
  moreover have "spared (pcs s u) t (pcs s t)" using assms(1) by (simp add: lf_inv_def)
  ultimately show "(hold1 c' = Some v \<longrightarrow> (t, False) \<in> set todo \<or> v \<in> set p) \<and> (hold2 c' = Some v \<longrightarrow> (t, True) \<in> set todo \<or> v \<in> set p)"
    using assms(2,3) sw v unfolding spared_def by blast
qed

lemma lf_inv_update:
  assumes inv: "lf_inv chain place s" and pcs: "pcs s' = (pcs s)(t := c')" and sh: "shared_ok chain' place' s'"
    and k: "keeps t (set chain) (set chain') place place' s s'"
    and own: "holds_ok place' s' t c'" "owns_ok place' t c'" "fact (set chain') s' t c'"
    and h1: "\<And>v. hold1 c' = Some v \<Longrightarrow> hold1 (pcs s t) = Some v \<or> place v = Chained"
    and h2: "\<And>v. hold2 c' = Some v \<Longrightarrow> hold2 (pcs s t) = Some v \<or> place v = Chained"
    and sp: "\<And>u. u \<noteq> t \<Longrightarrow> spared c' u (pcs s u)"
  shows "lf_inv chain' place' s'"
proof -
  have tt: "spared c' t c'" using sweep_no_hold [of c'] by (cases "sweep c'") (auto simp: spared_def)
  have o: "spared (pcs s u) t c'" for u by (rule spared_other [OF inv h1 h2])
  have uw: "spared (pcs s u) w (pcs s w)" for u w using inv by (simp add: lf_inv_def)
  show ?thesis unfolding lf_inv_def pcs
    using sh own keeps_others [OF k inv] sp tt o uw by auto
qed

text \<open>A step on the program counter, the hazard pointers and the counters alone.\<close>

lemma local_step:
  assumes inv: "lf_inv chain place s" and pcs: "pcs s' = (pcs s)(t := c')"
    and same: "nodes s' = nodes s" "mHead s' = mHead s" "mTail s' = mTail s" "mHazards s' = mHazards s" "mRetired s' = mRetired s"
      "enq_log s' = enq_log s" "deq_log s' = deq_log s" "list_all id (empty_log s')"
      "\<And>u. u \<noteq> t \<Longrightarrow> hp_first s' u = hp_first s u \<and> hp_second s' u = hp_second s u"
    and own: "new_node c' = new_node (pcs s t)" "distinct (priv c')" "set (priv c') = set (priv (pcs s t))"
      "registered c' \<Longrightarrow> t \<in> set (mHazards s)" "fact (set chain) s' t c'"
    and h1: "\<And>v. hold1 c' = Some v \<Longrightarrow> hp_first s' t = Some v \<and> (hold1 (pcs s t) = Some v \<or> place v = Chained)"
    and h2: "\<And>v. hold2 c' = Some v \<Longrightarrow> hp_second s' t = Some v \<and> (hold2 (pcs s t) = Some v \<or> place v = Chained)"
    and sp: "\<And>u. u \<noteq> t \<Longrightarrow> spared c' u (pcs s u)"
  shows "lf_inv chain place s'"
proof (rule lf_inv_update [OF inv pcs])
  have e: "next_of s' = next_of s" "val_of s' = val_of s" using same(1) by (simp_all add: next_of_def val_of_def fun_eq_iff)
  have l: "linked s' c = linked s c" for c by (rule linked_cong) (simp add: e(1))
  show "shared_ok chain place s'" using inv [unfolded lf_inv_def shared_ok_def] same(8)
    unfolding shared_ok_def e l same(1-7) by blast
  show "keeps t (set chain) (set chain) place place s s'" using same by (simp add: keeps_def e)
  have h: "holds_ok place s t (pcs s t)" using inv by (simp add: lf_inv_def)
  show "holds_ok place s' t c'" unfolding holds_ok_def
  proof (intro conjI allI impI)
    fix v u assume v: "hold1 c' = Some v"
    show "hp_first s' t = Some v" using h1 [OF v] by simp
    show "place v \<noteq> Free" "place v \<noteq> New u" using h1 [OF v] h by (auto simp: holds_ok_def)
  next
    fix v u assume v: "hold2 c' = Some v"
    show "hp_second s' t = Some v" using h2 [OF v] by simp
    show "place v \<noteq> Free" "place v \<noteq> New u" using h2 [OF v] h by (auto simp: holds_ok_def)
  next
    assume "registered c'"
    then show "t \<in> set (mHazards s')" using own(4) same(4) by simp
  qed
  show "owns_ok place t c'" using inv own(1-3) by (simp add: lf_inv_def owns_ok_def)
  show "fact (set chain) s' t c'" by (rule own(5))
qed (use h1 h2 sp in blast)+

lemma spared_none: "sweep c = None \<Longrightarrow> spared c u d"
  by (simp add: spared_def)

section \<open>What the invariant says of one thread\<close>

lemma lf_inv_shared:
  assumes "lf_inv chain place s"
  shows "linked s chain" "distinct chain" "hd chain = mHead s" "mTail s \<in> set chain" "set chain = {a. place a = Chained}"
    "map Some (enq_log s) = map Some (deq_log s) @ map (val_of s) (tl chain)" "distinct (mRetired s)"
    "set (mRetired s) = {a. place a = Shelved}" "\<And>a. nodes s a = None \<longleftrightarrow> place a = Free"
    "\<And>a t. place a = Shelved \<or> place a = Private t \<Longrightarrow> next_of s a \<noteq> None"
    "\<And>a t. place a = New t \<Longrightarrow> next_of s a = None \<and> val_of s a \<noteq> None" "list_all id (empty_log s)"
  using assms unfolding lf_inv_def shared_ok_def by blast+

lemma lf_inv_thread:
  assumes "lf_inv chain place s" and "pcs s t = c"
  shows "hold1 c = Some v \<Longrightarrow> hp_first s t = Some v \<and> place v \<noteq> Free \<and> (\<forall>u. place v \<noteq> New u) \<and> nodes s v \<noteq> None"
    "hold2 c = Some v \<Longrightarrow> hp_second s t = Some v \<and> place v \<noteq> Free \<and> (\<forall>u. place v \<noteq> New u) \<and> nodes s v \<noteq> None"
    "registered c \<Longrightarrow> t \<in> set (mHazards s)" "fact (set chain) s t c" "distinct (priv c)" "set (priv c) = {a. place a = Private t}"
    "new_node c = Some a \<longleftrightarrow> place a = New t"
  using assms lf_inv_shared(9) [OF assms(1)] unfolding lf_inv_def holds_ok_def owns_ok_def by auto

lemma head_in_chain: "lf_inv chain place s \<Longrightarrow> mHead s \<in> set chain"
  using lf_inv_shared(1,3,4) hd_in_set [of chain] by fastforce

lemma tail_values: "lf_inv chain place s \<Longrightarrow> a \<in> set (tl chain) \<Longrightarrow> val_of s a \<noteq> None"
proof -
  assume i: "lf_inv chain place s" and a: "a \<in> set (tl chain)"
  have "val_of s a \<in> set (map Some (enq_log s))" unfolding lf_inv_shared(6) [OF i] using a by simp
  then show ?thesis by auto
qed

text \<open>The successor of the head, and what it says of the queue when there is none.\<close>

lemma head_next:
  assumes "lf_inv chain place s" and "next_of s (mHead s) = Some n"
  obtains r where "chain = mHead s # n # r" "place n = Chained" "val_of s n \<noteq> None"
proof -
  obtain r where r: "chain = mHead s # n # r"
    using linked_hd_next [OF lf_inv_shared(1) [OF assms(1)]] assms lf_inv_shared(3) [OF assms(1)] by auto
  have "n \<in> set chain" "n \<in> set (tl chain)" unfolding r by simp_all
  then show ?thesis using that r tail_values [OF assms(1)] lf_inv_shared(5) [OF assms(1)] by blast
qed

lemma head_last:
  assumes "lf_inv chain place s" and "next_of s (mHead s) = None"
  shows "chain = [mHead s]" "enq_log s = deq_log s"
proof -
  show c: "chain = [mHead s]" using linked_hd [OF lf_inv_shared(1) [OF assms(1)]] assms lf_inv_shared(3) [OF assms(1)] by auto
  have "map Some (enq_log s) = map Some (deq_log s)" using lf_inv_shared(6) [OF assms(1)] c by simp
  then show "enq_log s = deq_log s" by (simp add: inj_map_eq_map)
qed

end
