(* ===== verification/Lock_Free_Steps.thy ===== *)
theory Lock_Free_Steps
  imports Lock_Free_Safety
begin

text \<open>
  Each step of the lock-free queue returns and keeps the invariant: first the steps that change the thread's
  own state only, then those that change the chain, the heap or the retired list.
\<close>

section \<open>Steps on a thread's own state\<close>

lemma at_simps [simp]:
  "pcs (at t c s) = (pcs s)(t := c)" "nodes (at t c s) = nodes s" "mHead (at t c s) = mHead s" "mTail (at t c s) = mTail s"
  "mHazards (at t c s) = mHazards s" "mRetired (at t c s) = mRetired s" "enq_log (at t c s) = enq_log s" "deq_log (at t c s) = deq_log s"
  "empty_log (at t c s) = empty_log s" "hp_first (at t c s) = hp_first s" "hp_second (at t c s) = hp_second s"
  by (simp_all add: at_def)

lemma next_val_at [simp]: "next_of (at t c s) = next_of s" "val_of (at t c s) = val_of s"
  by (simp_all add: next_of_def val_of_def fun_eq_iff)

lemma next_val_simps [simp]:
  "next_of (s\<lparr>hp_first := x\<rparr>) = next_of s" "val_of (s\<lparr>hp_first := x\<rparr>) = val_of s"
  "next_of (s\<lparr>hp_second := x\<rparr>) = next_of s" "val_of (s\<lparr>hp_second := x\<rparr>) = val_of s"
  "next_of (s\<lparr>mTail := n\<rparr>) = next_of s" "val_of (s\<lparr>mTail := n\<rparr>) = val_of s"
  "next_of (s\<lparr>mHead := n\<rparr>) = next_of s" "val_of (s\<lparr>mHead := n\<rparr>) = val_of s"
  "next_of (s\<lparr>deq_log := d\<rparr>) = next_of s" "val_of (s\<lparr>deq_log := d\<rparr>) = val_of s"
  "next_of (s\<lparr>mRetired := r\<rparr>) = next_of s" "val_of (s\<lparr>mRetired := r\<rparr>) = val_of s"
  by (simp_all add: next_of_def val_of_def fun_eq_iff)

lemma next_of_node: "nodes s v = Some n \<Longrightarrow> next_of s v = node_next n" "nodes s v = Some n \<Longrightarrow> val_of s v = node_value n"
  by (simp_all add: next_of_def val_of_def)

lemma ELoad_inv:
  assumes "lf_inv chain place s" and "pcs s t = ELoad a"
  shows "lf_inv chain place (at t (EStore a (mTail s)) s)"
  by (rule local_step [OF assms(1), where t = t and c' = "EStore a (mTail s)"]) (use lf_inv_thread [OF assms] lf_inv_shared(12) [OF assms(1)] in \<open>simp_all add: spared_none assms(2)\<close>)

lemma EStore_inv:
  assumes "lf_inv chain place s" and "pcs s t = EStore a v"
  shows "lf_inv chain place (at t (EVerify a v) (s\<lparr>hp_first := (hp_first s)(t := Some v)\<rparr>))"
  by (rule local_step [OF assms(1), where t = t and c' = "EVerify a v"]) (use lf_inv_thread [OF assms] lf_inv_shared(12) [OF assms(1)] in \<open>simp_all add: spared_none assms(2)\<close>)

lemma EVerify_inv:
  assumes "lf_inv chain place s" and "pcs s t = EVerify a v"
  shows "lf_inv chain place (at t (if mTail s = v then ENext a v else ELoad a) s)"
proof -
  have "place (mTail s) = Chained" using lf_inv_shared(4,5) [OF assms(1)] by simp
  then show ?thesis
    by (intro local_step [OF assms(1), where t = t and c' = "if mTail s = v then ENext a v else ELoad a"]) (use lf_inv_thread [OF assms] lf_inv_shared(12) [OF assms(1)] in \<open>auto simp: spared_none assms(2) split: if_splits\<close>)
qed

lemma ENext_inv:
  assumes "lf_inv chain place s" and "pcs s t = ENext a v"
  shows "\<exists>n. nodes s v = Some n \<and> lf_inv chain place (at t (ECheck a v (node_next n)) s)"
proof -
  obtain n where n: "nodes s v = Some n" using lf_inv_thread(1) [OF assms, of v] by auto
  have "lf_inv chain place (at t (ECheck a v (node_next n)) s)"
    by (rule local_step [OF assms(1), where t = t and c' = "ECheck a v (node_next n)"])
      (use lf_inv_thread [OF assms] lf_inv_shared(12) [OF assms(1)] in \<open>simp_all add: spared_none assms(2) next_of_node [OF n]\<close>)
  with n show ?thesis by blast
qed

lemma ECheck_inv:
  assumes "lf_inv chain place s" and "pcs s t = ECheck a v nx"
  shows "lf_inv chain place (at t (if v \<noteq> mTail s then ELoad a else case nx of None \<Rightarrow> ELink a v | Some n \<Rightarrow> EHelp a v n) s)"
  by (intro local_step [OF assms(1), where t = t and c' = "if v \<noteq> mTail s then ELoad a else case nx of None \<Rightarrow> ELink a v | Some n \<Rightarrow> EHelp a v n"])
    (use lf_inv_thread [OF assms] lf_inv_shared(12) [OF assms(1)] in \<open>auto simp: spared_none assms(2) split: if_splits option.splits\<close>)

text \<open>A failed compare-exchange and a failed check send the thread back without a trace.\<close>

lemma back_inv:
  assumes "lf_inv chain place s" and "pcs s t = c" and "new_node c' = new_node c" and "priv c' = []" and "priv c = []"
    and "hold1 c' = None" and "hold2 c' = None" and "sweep c' = None" and "registered c"
    and f: "fact (set chain) (at t c' s) t c'"
  shows "lf_inv chain place (at t c' s)"
  by (rule local_step [OF assms(1), where t = t and c' = c'])
    (use f lf_inv_thread [OF assms(1,2)] lf_inv_shared(12) [OF assms(1)] assms in \<open>simp_all add: spared_none\<close>)

lemma ESize_inv:
  assumes "lf_inv chain place s" and "pcs s t = ESize"
  shows "lf_inv chain place (at t (Clear2 Done) (s\<lparr>lf_size := lf_size s + 1\<rparr>))"
  by (rule local_step [OF assms(1), where t = t and c' = "Clear2 Done"])
    (use lf_inv_thread [OF assms] lf_inv_shared(12) [OF assms(1)] in \<open>simp_all add: spared_none assms(2)\<close>)

lemma DLoad_inv:
  assumes "lf_inv chain place s" and "pcs s t = DLoad"
  shows "lf_inv chain place (at t (DStore (mHead s)) s)"
  by (rule local_step [OF assms(1), where t = t and c' = "DStore (mHead s)"])
    (use lf_inv_thread [OF assms] lf_inv_shared(12) [OF assms(1)] in \<open>simp_all add: spared_none assms(2)\<close>)

lemma DStore_inv:
  assumes "lf_inv chain place s" and "pcs s t = DStore v"
  shows "lf_inv chain place (at t (DVerify v) (s\<lparr>hp_first := (hp_first s)(t := Some v)\<rparr>))"
  by (rule local_step [OF assms(1), where t = t and c' = "DVerify v"])
    (use lf_inv_thread [OF assms] lf_inv_shared(12) [OF assms(1)] in \<open>simp_all add: spared_none assms(2)\<close>)

lemma DVerify_inv:
  assumes "lf_inv chain place s" and "pcs s t = DVerify v"
  shows "lf_inv chain place (at t (if mHead s = v then DNext v else DLoad) s)"
  by (rule local_step [OF assms(1), where t = t and c' = "if mHead s = v then DNext v else DLoad"])
    (use lf_inv_thread [OF assms] lf_inv_shared(12) [OF assms(1)] head_in_chain [OF assms(1)] lf_inv_shared(5) [OF assms(1)] in \<open>auto simp: spared_none assms(2) split: if_splits\<close>)

lemma DNext_inv:
  assumes "lf_inv chain place s" and "pcs s t = DNext h"
  shows "\<exists>n. nodes s h = Some n \<and> lf_inv chain place (at t (DSecond h (node_next n) (enq_log s = deq_log s)) s)"
proof -
  obtain n where n: "nodes s h = Some n" using lf_inv_thread(1) [OF assms, of h] by auto
  have e: "h \<in> set chain \<Longrightarrow> node_next n = None \<Longrightarrow> enq_log s = deq_log s"
    using head_last(2) [OF assms(1)] lf_inv_thread(4) [OF assms] next_of_node(1) [OF n] by auto
  have "lf_inv chain place (at t (DSecond h (node_next n) (enq_log s = deq_log s)) s)"
    by (rule local_step [OF assms(1), where t = t and c' = "DSecond h (node_next n) (enq_log s = deq_log s)"])
      (use lf_inv_thread [OF assms] lf_inv_shared(12) [OF assms(1)] e in \<open>auto simp: spared_none assms(2) next_of_node [OF n]\<close>)
  with n show ?thesis by blast
qed

lemma DSecond_inv:
  assumes "lf_inv chain place s" and "pcs s t = DSecond h nx e"
  shows "lf_inv chain place (at t (DCheck h nx e) (s\<lparr>hp_second := (hp_second s)(t := nx)\<rparr>))"
  by (rule local_step [OF assms(1), where t = t and c' = "DCheck h nx e"])
    (use lf_inv_thread [OF assms] lf_inv_shared(12) [OF assms(1)] in \<open>simp_all add: spared_none assms(2)\<close>)

lemma DCheck_inv:
  assumes "lf_inv chain place s" and "pcs s t = DCheck h nx e"
  shows "lf_inv chain place (at t (if h \<noteq> mHead s then DLoad else case nx of None \<Rightarrow> Clear2 (DoneEmpty e) | Some n \<Rightarrow> DTail h n) s)"
proof (cases "h = mHead s")
  case False
  then show ?thesis using back_inv [OF assms, of DLoad] by simp
next
  case True
  note th = lf_inv_thread [OF assms]
  show ?thesis
  proof (cases nx)
    case None
    then show ?thesis using True back_inv [OF assms, of "Clear2 (DoneEmpty e)"] th(4) head_in_chain [OF assms(1)] by simp
  next
    case (Some n)
    have "next_of s (mHead s) = Some n" using th(4) True Some by simp
    then have n: "place n = Chained" "val_of s n \<noteq> None" using head_next [OF assms(1)] by blast+
    have "lf_inv chain place (at t (DTail h n) s)"
      by (rule local_step [OF assms(1), where t = t and c' = "DTail h n"])
        (use th lf_inv_shared(12) [OF assms(1)] n True Some in \<open>simp_all add: spared_none assms(2)\<close>)
    then show ?thesis using True Some by simp
  qed
qed

lemma DTail_inv:
  assumes "lf_inv chain place s" and "pcs s t = DTail h n"
  shows "lf_inv chain place (at t (if h = mTail s then DHelp h n else DValue h n) s)"
  by (rule local_step [OF assms(1), where t = t and c' = "if h = mTail s then DHelp h n else DValue h n"])
    (use lf_inv_thread [OF assms] lf_inv_shared(12) [OF assms(1)] in \<open>auto simp: spared_none assms(2) split: if_splits\<close>)

lemma DValue_inv:
  assumes "lf_inv chain place s" and "pcs s t = DValue h n"
  shows "\<exists>c x. nodes s n = Some c \<and> node_value c = Some x \<and> lf_inv chain place (at t (DCas h n x) s)"
proof -
  note th = lf_inv_thread [OF assms]
  obtain c where c: "nodes s n = Some c" using th(2) [of n] by auto
  obtain x where x: "node_value c = Some x" using th(4) by (auto simp: next_of_node [OF c])
  have "lf_inv chain place (at t (DCas h n x) s)"
    by (rule local_step [OF assms(1), where t = t and c' = "DCas h n x"])
      (use th lf_inv_shared(12) [OF assms(1)] in \<open>simp_all add: spared_none assms(2) next_of_node(2) [OF c] x\<close>)
  with c x show ?thesis by blast
qed

lemma DSize_inv:
  assumes "lf_inv chain place s" and "pcs s t = DSize h"
  shows "lf_inv chain place (at t (Clear2 (ThenRetire h)) (s\<lparr>lf_size := lf_size s - 1\<rparr>))"
  by (rule local_step [OF assms(1), where t = t and c' = "Clear2 (ThenRetire h)"])
    (use lf_inv_thread [OF assms] lf_inv_shared(12) [OF assms(1)] in \<open>simp_all add: spared_none assms(2)\<close>)

lemma Clear2_inv:
  assumes "lf_inv chain place s" and "pcs s t = Clear2 k"
  shows "lf_inv chain place (at t (Clear1 k) (s\<lparr>hp_second := (hp_second s)(t := None)\<rparr>))"
proof -
  have "fact (set chain) (at t (Clear1 k) (s\<lparr>hp_second := (hp_second s)(t := None)\<rparr>)) t (Clear1 k)"
    using lf_inv_thread(4) [OF assms] by (cases k) simp_all
  then show ?thesis
    by (intro local_step [OF assms(1), where t = t and c' = "Clear1 k"])
      (use lf_inv_thread [OF assms] lf_inv_shared(12) [OF assms(1)] in \<open>simp_all add: spared_none assms(2)\<close>)
qed

lemma Clear1_inv:
  assumes "lf_inv chain place s" and "pcs s t = Clear1 k"
  shows "\<exists>s'. ClearHazards_step t (Clear1 k) s = Some s' \<and> lf_inv chain place s'"
proof -
  note th = lf_inv_thread [OF assms] and em = lf_inv_shared(12) [OF assms(1)]
  let ?s = "s\<lparr>hp_first := (hp_first s)(t := None)\<rparr>"
  show ?thesis
  proof (cases k)
    case Done
    have "lf_inv chain place (at t Idle ?s)"
      by (rule local_step [OF assms(1), where t = t and c' = Idle]) (use th em Done in \<open>simp_all add: spared_none assms(2)\<close>)
    then show ?thesis by (simp add: Done)
  next
    case (DoneEmpty e)
    have "lf_inv chain place (at t Idle (?s\<lparr>empty_log := empty_log s @ [e]\<rparr>))"
      by (rule local_step [OF assms(1), where t = t and c' = Idle]) (use th em DoneEmpty in \<open>simp_all add: spared_none assms(2)\<close>)
    then show ?thesis by (simp add: DoneEmpty)
  next
    case (ThenRetire h)
    have "lf_inv chain place (at t (RPush h) ?s)"
      by (rule local_step [OF assms(1), where t = t and c' = "RPush h"]) (use th em ThenRetire in \<open>simp_all add: spared_none assms(2)\<close>)
    then show ?thesis by (simp add: ThenRetire)
  qed
qed

lemma RCount_inv:
  assumes "lf_inv chain place s" and "pcs s t = RCount"
  shows "lf_inv chain place (at t (if mRetireCount s AND 63 = 63 then SExchange else Idle) (s\<lparr>mRetireCount := mRetireCount s + 1\<rparr>))"
  by (rule local_step [OF assms(1), where t = t and c' = "if mRetireCount s AND 63 = 63 then SExchange else Idle"])
    (use lf_inv_thread [OF assms] lf_inv_shared(12) [OF assms(1)] in \<open>auto simp: spared_none assms(2) split: if_splits\<close>)

text \<open>The scan: when it lists the slots every thread that holds a node has a record, and no slot is dropped unread.\<close>

lemma hold_registered: "hold1 c = Some v \<or> hold2 c = Some v \<Longrightarrow> registered c"
  by (cases c) auto

lemma SLoad_inv:
  assumes "lf_inv chain place s" and "pcs s t = SLoad l"
  shows "lf_inv chain place (at t (SRead l (concat (map (\<lambda>r. [(r, False), (r, True)]) (mHazards s))) []) s)"
proof -
  let ?c = "SRead l (concat (map (\<lambda>r. [(r, False), (r, True)]) (mHazards s))) []"
  have "spared ?c u (pcs s u)" for u
    using hold_registered lf_inv_thread(3) [OF assms(1) refl, of u] unfolding spared_def by fastforce
  then show ?thesis
    by (intro local_step [OF assms(1), where t = t and c' = ?c])
      (use lf_inv_thread [OF assms] lf_inv_shared(12) [OF assms(1)] in \<open>simp_all add: assms(2)\<close>)
qed

lemma spared_same:
  assumes "lf_inv chain place s" and "pcs s t = c" and "sweep c' = sweep c"
  shows "spared c' u (pcs s u)"
proof -
  have "spared c u (pcs s u)" using assms(1,2) by (auto simp: lf_inv_def)
  then show ?thesis by (simp add: spared_def assms(3))
qed

lemma SRead_end_inv:
  assumes "lf_inv chain place s" and "pcs s t = SRead l [] p"
  shows "lf_inv chain place (at t (SSweep l p []) s)"
  by (rule local_step [OF assms(1), where t = t and c' = "SSweep l p []"])
    (use lf_inv_thread [OF assms] lf_inv_shared(12) [OF assms(1)] spared_same [OF assms] in \<open>simp_all add: assms(2)\<close>)

lemma SRead_inv:
  assumes "lf_inv chain place s" and "pcs s t = SRead l ((r, b) # todo) p"
  shows "lf_inv chain place (at t (SRead l todo (case if b then hp_second s r else hp_first s r of None \<Rightarrow> p | Some v \<Rightarrow> v # p)) s)"
proof -
  let ?p = "case if b then hp_second s r else hp_first s r of None \<Rightarrow> p | Some v \<Rightarrow> v # p"
  have old: "spared (SRead l ((r, b) # todo) p) u (pcs s u)" for u using assms by (auto simp: lf_inv_def dest: spec [of _ t])
  have sub: "set p \<subseteq> set ?p" by (auto split: option.split)
  have "spared (SRead l todo ?p) u (pcs s u)" for u
    unfolding spared_def
  proof (intro allI impI conjI)
    fix l' todo' p' v
    assume "sweep (SRead l todo ?p) = Some (l', todo', p')" and v: "v \<in> set l'"
    then have e: "l' = l" "todo' = todo" "p' = ?p" by simp_all
    show "(u, False) \<in> set todo' \<or> v \<in> set p'" if h: "hold1 (pcs s u) = Some v"
    proof -
      have "(u, False) = (r, b) \<or> (u, False) \<in> set todo \<or> v \<in> set p" using old [of u] h v by (auto simp: spared_def e)
      moreover have "(u, False) = (r, b) \<Longrightarrow> v \<in> set ?p" using lf_inv_thread(1) [OF assms(1) refl h] by auto
      ultimately show ?thesis using sub unfolding e by blast
    qed
    show "(u, True) \<in> set todo' \<or> v \<in> set p'" if h: "hold2 (pcs s u) = Some v"
    proof -
      have "(u, True) = (r, b) \<or> (u, True) \<in> set todo \<or> v \<in> set p" using old [of u] h v by (auto simp: spared_def e)
      moreover have "(u, True) = (r, b) \<Longrightarrow> v \<in> set ?p" using lf_inv_thread(2) [OF assms(1) refl h] by auto
      ultimately show ?thesis using sub unfolding e by blast
    qed
  qed
  then show ?thesis
    by (intro local_step [OF assms(1), where t = t and c' = "SRead l todo ?p"])
      (use lf_inv_thread [OF assms] lf_inv_shared(12) [OF assms(1)] in \<open>simp_all add: assms(2)\<close>)
qed

lemma SSweep_end_inv:
  assumes "lf_inv chain place s" and "pcs s t = SSweep [] p k"
  shows "lf_inv chain place (at t (SKeep k) s)"
  by (rule local_step [OF assms(1), where t = t and c' = "SKeep k"])
    (use lf_inv_thread [OF assms] lf_inv_shared(12) [OF assms(1)] in \<open>simp_all add: spared_none assms(2)\<close>)

lemma spared_shorter:
  assumes "lf_inv chain place s" and "pcs s t = SSweep (v # l) p k"
  shows "spared (SSweep l p k') u (pcs s u)"
proof -
  have "spared (SSweep (v # l) p k) u (pcs s u)" using assms by (auto simp: lf_inv_def dest: spec [of _ t])
  then show ?thesis by (simp add: spared_def)
qed

lemma SSweep_keep_inv:
  assumes "lf_inv chain place s" and "pcs s t = SSweep (v # l) p k"
  shows "lf_inv chain place (at t (SSweep l p (v # k)) s)"
  by (rule local_step [OF assms(1), where t = t and c' = "SSweep l p (v # k)"])
    (use lf_inv_thread [OF assms] lf_inv_shared(12) [OF assms(1)] spared_shorter [OF assms] in \<open>auto simp: assms(2)\<close>)

lemma SKeep_end_inv:
  assumes "lf_inv chain place s" and "pcs s t = SKeep []"
  shows "lf_inv chain place (at t Idle s)"
  by (rule local_step [OF assms(1), where t = t and c' = Idle])
    (use lf_inv_thread [OF assms] lf_inv_shared(12) [OF assms(1)] in \<open>simp_all add: spared_none assms(2)\<close>)

section \<open>Steps on the shared state\<close>

lemma shared_okI:
  assumes "linked s chain" "distinct chain" "hd chain = mHead s" "mTail s \<in> set chain" "set chain = {a. place a = Chained}"
    "map Some (enq_log s) = map Some (deq_log s) @ map (val_of s) (tl chain)" "distinct (mRetired s)"
    "set (mRetired s) = {a. place a = Shelved}" "\<And>a. nodes s a = None \<longleftrightarrow> place a = Free"
    "\<And>a t. place a = Shelved \<or> place a = Private t \<Longrightarrow> next_of s a \<noteq> None"
    "\<And>a t. place a = New t \<Longrightarrow> next_of s a = None \<and> val_of s a \<noteq> None" "list_all id (empty_log s)"
  shows "shared_ok chain place s"
  using assms unfolding shared_ok_def by blast

lemma keepsI:
  assumes "\<And>u. u \<noteq> t \<Longrightarrow> hp_first s' u = hp_first s u \<and> hp_second s' u = hp_second s u" "set (mHazards s) \<subseteq> set (mHazards s')"
    "\<And>u a. u \<noteq> t \<Longrightarrow> (place' a = Private u \<longleftrightarrow> place a = Private u) \<and> (place' a = New u \<longleftrightarrow> place a = New u)"
    "\<And>v. held_by_other t s v \<Longrightarrow> place v \<noteq> Free \<Longrightarrow> \<forall>u. place v \<noteq> New u \<Longrightarrow>
       place' v \<noteq> Free \<and> (\<forall>u. place' v \<noteq> New u) \<and> (\<forall>n. next_of s v = Some n \<longrightarrow> next_of s' v = Some n) \<and>
       (\<forall>x. val_of s v = Some x \<longrightarrow> val_of s' v = Some x) \<and> (v \<in> C' \<longrightarrow> v \<in> C) \<and>
       (v \<in> C' \<longrightarrow> v = mHead s \<longrightarrow> v = mHead s') \<and> (v \<in> C' \<longrightarrow> v = mHead s \<longrightarrow> mTail s \<noteq> v \<longrightarrow> mTail s' \<noteq> v)"
  shows "keeps t C C' place place' s s'"
  using assms unfolding keeps_def by blast

text \<open>\<open>GetHazardRecord\<close>\<close>

lemma GetHazardRecord_simps [simp]:
  "nodes (GetHazardRecord t s) = nodes s" "mHead (GetHazardRecord t s) = mHead s" "mTail (GetHazardRecord t s) = mTail s"
  "mRetired (GetHazardRecord t s) = mRetired s" "enq_log (GetHazardRecord t s) = enq_log s" "deq_log (GetHazardRecord t s) = deq_log s"
  "empty_log (GetHazardRecord t s) = empty_log s" "hp_first (GetHazardRecord t s) = hp_first s" "pcs (GetHazardRecord t s) = pcs s"
  "hp_second (GetHazardRecord t s) = hp_second s" "next_of (GetHazardRecord t s) = next_of s" "val_of (GetHazardRecord t s) = val_of s"
  "set (mHazards (GetHazardRecord t s)) = insert t (set (mHazards s))"
  by (auto simp: GetHazardRecord_def next_of_def val_of_def fun_eq_iff)

lemma register_inv:
  assumes "lf_inv chain place s" and "pcs s t = c" and "new_node c' = new_node c" and "priv c' = []" and "priv c = []"
    and "hold1 c' = None" and "hold2 c' = None" and "sweep c' = None" and "fact (set chain) (at t c' (GetHazardRecord t s)) t c'"
  shows "lf_inv chain place (at t c' (GetHazardRecord t s))"
proof (rule lf_inv_update [OF assms(1), where t = t and c' = c'])
  note sh = lf_inv_shared [OF assms(1)]
  have l: "linked (at t c' (GetHazardRecord t s)) chain = linked s chain" by (rule linked_cong) simp
  show "shared_ok chain place (at t c' (GetHazardRecord t s))"
    by (rule shared_okI) (use sh in \<open>simp_all add: l\<close>)
  show "keeps t (set chain) (set chain) place place s (at t c' (GetHazardRecord t s))" by (rule keepsI) auto
  show "holds_ok place (at t c' (GetHazardRecord t s)) t c'" using assms(6,7) by (simp add: holds_ok_def)
  show "owns_ok place t c'" using lf_inv_thread(5-7) [OF assms(1,2)] assms(3-5) by (simp add: owns_ok_def)
qed (use assms in \<open>simp_all add: spared_none\<close>)

text \<open>A new node.\<close>

lemma new_node_inv:
  fixes x :: 'a and s :: "'a lfq"
  assumes "lf_inv chain place s" and "pcs s t = Idle" and "nodes s a = None"
  defines "s' \<equiv> at t (ERegister a) (s\<lparr>nodes := (nodes s)(a \<mapsto> \<lparr>node_next = None, node_value = Some x\<rparr>)\<rparr>)"
  shows "lf_inv chain (place(a := New t)) s'"
proof (rule lf_inv_update [OF assms(1), where t = t and c' = "ERegister a"])
  note sh = lf_inv_shared [OF assms(1)] and th = lf_inv_thread [OF assms(1,2)]
  have a: "place a = Free" using sh(9) assms(3) by simp
  then have ac: "a \<notin> set chain" using sh(5) by simp
  have nv: "next_of s' b = (if b = a then None else next_of s b)" "val_of s' b = (if b = a then Some x else val_of s b)" for b
    by (simp_all add: s'_def next_of_def val_of_def)
  have "linked s' chain = linked s chain" by (rule linked_cong) (use ac nv(1) in auto)
  then have l: "linked s' chain" using sh(1) by simp
  have v: "map (val_of s') (tl chain) = map (val_of s) (tl chain)" using ac by (cases chain) (auto simp: nv(2))
  show "shared_ok chain (place(a := New t)) s'"
  proof (rule shared_okI)
    show "set chain = {b. (place(a := New t)) b = Chained}" using sh(5) ac by auto
    show "set (mRetired s') = {b. (place(a := New t)) b = Shelved}" using sh(8) a by (auto simp: s'_def)
    show "nodes s' b = None \<longleftrightarrow> (place(a := New t)) b = Free" for b using sh(9) [of b] by (simp add: s'_def)
    show "map Some (enq_log s') = map Some (deq_log s') @ map (val_of s') (tl chain)" unfolding v using sh(6) by (simp add: s'_def)
  qed (use sh l nv in \<open>auto simp: s'_def split: if_splits\<close>)
  show "keeps t (set chain) (set chain) place (place(a := New t)) s s'"
    by (rule keepsI) (use a in \<open>auto simp: nv, auto simp: s'_def\<close>)
  show "holds_ok (place(a := New t)) s' t (ERegister a)" by (simp add: holds_ok_def)
  show "owns_ok (place(a := New t)) t (ERegister a)" using th(5-7) a by (auto simp: owns_ok_def)
qed (simp_all add: spared_none s'_def)

text \<open>The link of line 85: the node follows the last one of the chain.\<close>

lemma link_inv:
  fixes x :: 'a and s :: "'a lfq"
  assumes "lf_inv chain place s" and "pcs s t = ELink a v" and "nodes s v = Some n" and "node_next n = None" and "val_of s a = Some x"
  defines "s' \<equiv> at t (ESwing a v) (s\<lparr>nodes := (nodes s)(v \<mapsto> n\<lparr>node_next := Some a\<rparr>), enq_log := enq_log s @ [x]\<rparr>)"
  shows "lf_inv (chain @ [a]) (place(a := Chained)) s'"
proof (rule lf_inv_update [OF assms(1), where t = t and c' = "ESwing a v"])
  note sh = lf_inv_shared [OF assms(1)] and th = lf_inv_thread [OF assms(1,2)]
  have pa: "place a = New t" using th(7) [of a] by simp
  have pv: "place v \<noteq> Free" "\<And>u. place v \<noteq> New u" "hp_first s t = Some v" using th(1) [of v] by auto
  have nv0: "next_of s v = None" using assms(3,4) by (simp add: next_of_def)
  have va: "v \<noteq> a" using pa pv(2) by auto
  have na: "next_of s a = None" using sh(11) pa by blast
  have "place v = Chained" using pv(1,2) sh(10) [of v] nv0 by (cases "place v") auto
  then have vc: "v \<in> set chain" using sh(5) by simp
  have lst: "v = last chain" by (rule linked_last [OF sh(1) vc nv0])
  have ac: "a \<notin> set chain" using pa sh(5) by simp
  have ne: "chain \<noteq> []" using vc by auto
  have nx: "next_of s' b = (if b = v then Some a else next_of s b)" for b by (simp add: s'_def next_of_def)
  have vl: "val_of s' = val_of s" using assms(3) by (auto simp: s'_def val_of_def fun_eq_iff)
  show "shared_ok (chain @ [a]) (place(a := Chained)) s'"
  proof (rule shared_okI)
    show "linked s' (chain @ [a])" by (rule linked_link [OF sh(1,2)]) (use va na in \<open>simp_all add: nx lst\<close>)
    show "hd (chain @ [a]) = mHead s'" using sh(3) ne by (simp add: s'_def)
    show "set (chain @ [a]) = {b. (place(a := Chained)) b = Chained}" using sh(5) by auto
    show "set (mRetired s') = {b. (place(a := Chained)) b = Shelved}" using sh(8) pa by (auto simp: s'_def)
    show "nodes s' b = None \<longleftrightarrow> (place(a := Chained)) b = Free" for b using sh(9) [of b] sh(9) [of a] pv(1) pa by (auto simp: s'_def)
    show "map Some (enq_log s') = map Some (deq_log s') @ map (val_of s') (tl (chain @ [a]))"
      unfolding vl using sh(6) ne assms(5) by (simp add: s'_def)
    show "next_of s' b \<noteq> None" if "(place(a := Chained)) b = Shelved \<or> (place(a := Chained)) b = Private u" for b u
      using that sh(10) [of b u] by (simp add: nx split: if_splits)
    show "next_of s' b = None \<and> val_of s' b \<noteq> None" if "(place(a := Chained)) b = New u" for b u
      using that sh(11) [of b u] pv(2) by (auto simp: nx vl split: if_splits)
  qed (use sh ac in \<open>auto simp: s'_def\<close>)
  show "keeps t (set chain) (set (chain @ [a])) place (place(a := Chained)) s s'"
    by (rule keepsI) (use pa nv0 in \<open>auto simp: nx vl, auto simp: s'_def\<close>)
  show "holds_ok (place(a := Chained)) s' t (ESwing a v)" using pv th(3) va by (simp add: holds_ok_def s'_def)
  have "b = a" if "place b = New t" for b using th(7) [of b] that by simp
  then show "owns_ok (place(a := Chained)) t (ESwing a v)" using th(5,6) by (auto simp: owns_ok_def)
  show "fact (set (chain @ [a])) s' t (ESwing a v)" by (simp add: nx)
qed (simp_all add: spared_none s'_def assms(2))

text \<open>\<open>mTail\<close> moves on, in lines 87, 94 and 116.\<close>

lemma swing_tail_inv:
  assumes "lf_inv chain place s" and "pcs s t = c" and "mTail s = v" and "next_of s v = Some n"
    and "new_node c' = new_node c" and "priv c' = []" and "priv c = []" and "hold1 c' = None" and "hold2 c' = None"
    and "sweep c' = None" and "registered c" and "\<And>C s. fact C s t c'"
  shows "lf_inv chain place (at t c' (s\<lparr>mTail := n\<rparr>))"
proof (rule lf_inv_update [OF assms(1), where t = t and c' = c'])
  let ?s = "at t c' (s\<lparr>mTail := n\<rparr>)"
  note sh = lf_inv_shared [OF assms(1)] and th = lf_inv_thread [OF assms(1,2)]
  have nv: "next_of ?s = next_of s" "val_of ?s = val_of s" by (simp_all add: next_of_def val_of_def fun_eq_iff)
  have l: "linked ?s chain" using sh(1) linked_cong [of chain ?s s] nv(1) by simp
  have n: "n \<in> set (tl chain)" using linked_next [OF sh(1)] sh(4) assms(3,4) by simp
  then have nc: "n \<in> set chain" by (cases chain) auto
  have nh: "n \<noteq> mHead s" using n sh(2,3) by (cases chain) auto
  show "shared_ok chain place ?s" by (rule shared_okI) (use sh l nc in \<open>simp_all add: nv\<close>)
  show "keeps t (set chain) (set chain) place place s ?s" by (rule keepsI) (use nh in \<open>auto simp: nv\<close>)
  show "holds_ok place ?s t c'" using th(3) assms(8,9,11) by (simp add: holds_ok_def)
  show "owns_ok place t c'" using th(5-7) assms(5-7) by (simp add: owns_ok_def)
qed (use assms in \<open>simp_all add: spared_none\<close>)

text \<open>\<open>mHead\<close> moves on, in line 122: the thread owns the old head from now on.\<close>

lemma swing_head_inv:
  assumes "lf_inv chain place s" and "pcs s t = DCas h n x" and "mHead s = h"
  shows "lf_inv (tl chain) (place(h := Private t)) (at t (DSize h) (s\<lparr>mHead := n, deq_log := deq_log s @ [x]\<rparr>))"
proof (rule lf_inv_update [OF assms(1), where t = t and c' = "DSize h"])
  let ?s = "at t (DSize h) (s\<lparr>mHead := n, deq_log := deq_log s @ [x]\<rparr>)"
  note sh = lf_inv_shared [OF assms(1)] and th = lf_inv_thread [OF assms(1,2)]
  have hc: "h \<in> set chain" using head_in_chain [OF assms(1)] assms(3) by simp
  have f: "mTail s \<noteq> h" "next_of s h = Some n" "val_of s n = Some x" using th(4) hc by auto
  obtain r where c: "chain = h # n # r" using head_next(1) [OF assms(1), of n] f(2) assms(3) by auto
  have ph: "place h = Chained" using hc sh(5) by simp
  have nv: "next_of ?s = next_of s" "val_of ?s = val_of s" by (simp_all add: next_of_def val_of_def fun_eq_iff)
  have hr: "h \<noteq> n" "h \<notin> set r" using sh(2) c by auto
  show "shared_ok (tl chain) (place(h := Private t)) ?s"
  proof (rule shared_okI)
    show "linked ?s (tl chain)" using sh(1) linked_cong [of "tl chain" ?s s] nv(1) c by simp
    show "set (tl chain) = {b. (place(h := Private t)) b = Chained}" using sh(5) hr unfolding c by auto
    show "set (mRetired ?s) = {b. (place(h := Private t)) b = Shelved}" using sh(8) ph by auto
    show "nodes ?s b = None \<longleftrightarrow> (place(h := Private t)) b = Free" for b using sh(9) [of b] ph by simp
    show "map Some (enq_log ?s) = map Some (deq_log ?s) @ map (val_of ?s) (tl (tl chain))" unfolding nv using sh(6) f(3) by (simp add: c)
    show "next_of ?s b \<noteq> None" if "(place(h := Private t)) b = Shelved \<or> (place(h := Private t)) b = Private u" for b u
      using that sh(10) [of b u] f(2) by (auto simp: nv split: if_splits)
    show "mTail ?s \<in> set (tl chain)" using sh(4) f(1) by (simp add: c)
  qed (use sh c in \<open>auto simp: nv split: if_splits\<close>)
  show "keeps t (set chain) (set (tl chain)) place (place(h := Private t)) s ?s"
    by (rule keepsI) (use ph hr assms(3) in \<open>auto simp: nv c\<close>)
  show "holds_ok (place(h := Private t)) ?s t (DSize h)" using th(3) by (simp add: holds_ok_def)
  show "owns_ok (place(h := Private t)) t (DSize h)" using th(5-7) ph by (auto simp: owns_ok_def)
qed (simp_all add: spared_none)

text \<open>A node goes on \<open>mRetired\<close>.\<close>

lemma shelve_inv:
  assumes "lf_inv chain place s" and "pcs s t = c" and "priv c = v # k" and "priv c' = k" and "new_node c = None" and "new_node c' = None"
    and "hold1 c' = None" and "hold2 c' = None" and "sweep c' = None" and "registered c" and "\<And>C s. fact C s t c'"
    and "s' = at t c' (s\<lparr>mRetired := v # mRetired s\<rparr>)"
  shows "lf_inv chain (place(v := Shelved)) s'"
proof (rule lf_inv_update [OF assms(1), where t = t and c' = c'])
  note sh = lf_inv_shared [OF assms(1)] and th = lf_inv_thread [OF assms(1,2)]
  have pv: "place v = Private t" using th(6) assms(3) by auto
  have nv: "next_of s' = next_of s" "val_of s' = val_of s" by (simp_all add: assms(12))
  have l: "linked s' chain" using sh(1) linked_cong [of chain s' s] nv(1) by simp
  show "shared_ok chain (place(v := Shelved)) s'"
  proof (rule shared_okI)
    show "set chain = {b. (place(v := Shelved)) b = Chained}" using sh(5) pv by auto
    show "set (mRetired s') = {b. (place(v := Shelved)) b = Shelved}" using sh(8) by (auto simp: assms(12))
    show "distinct (mRetired s')" using sh(7,8) pv by (auto simp: assms(12))
    show "nodes s' b = None \<longleftrightarrow> (place(v := Shelved)) b = Free" for b using sh(9) [of b] pv by (simp add: assms(12))
    show "next_of s' b \<noteq> None" if "(place(v := Shelved)) b = Shelved \<or> (place(v := Shelved)) b = Private u" for b u
      using that sh(10) [of b u] sh(10) [of v t] pv unfolding nv by (auto split: if_splits)
  qed (use sh l nv in \<open>auto simp: assms(12) split: if_splits\<close>)
  show "keeps t (set chain) (set chain) place (place(v := Shelved)) s s'"
    by (rule keepsI) (use pv in \<open>auto simp: nv, auto simp: assms(12)\<close>)
  show "holds_ok (place(v := Shelved)) s' t c'" using th(3) assms(7,8,10) by (simp add: holds_ok_def assms(12))
  show "owns_ok (place(v := Shelved)) t c'" using th(5-7) pv assms(3-6) by (auto simp: owns_ok_def)
qed (use assms in \<open>simp_all add: spared_none\<close>)

text \<open>The exchange of line 184 takes the whole list.\<close>

lemma exchange_inv:
  assumes "lf_inv chain place s" and "pcs s t = SExchange"
  defines "c' \<equiv> if mRetired s = [] then Idle else SLoad (mRetired s)"
  defines "s' \<equiv> at t c' (s\<lparr>mRetired := []\<rparr>)"
  shows "lf_inv chain (\<lambda>b. if place b = Shelved then Private t else place b) s'"
proof (rule lf_inv_update [OF assms(1), where t = t and c' = c'])
  let ?p = "\<lambda>b. if place b = Shelved then Private t else place b"
  note sh = lf_inv_shared [OF assms(1)] and th = lf_inv_thread [OF assms(1,2)]
  have nv: "next_of s' = next_of s" "val_of s' = val_of s" by (simp_all add: s'_def)
  have l: "linked s' chain" using sh(1) linked_cong [of chain s' s] nv(1) by simp
  have c: "hold1 c' = None" "hold2 c' = None" "sweep c' = None" "new_node c' = None" "priv c' = mRetired s"
    by (simp_all add: c'_def)
  show "shared_ok chain ?p s'"
  proof (rule shared_okI)
    show "set chain = {b. ?p b = Chained}" using sh(5) by auto
    show "set (mRetired s') = {b. ?p b = Shelved}" by (auto simp: s'_def)
    show "nodes s' b = None \<longleftrightarrow> ?p b = Free" for b using sh(9) [of b] by (simp add: s'_def)
    show "next_of s' b \<noteq> None" if "?p b = Shelved \<or> ?p b = Private u" for b u
      using that sh(10) [of b u] unfolding nv by (auto split: if_splits)
  qed (use sh l nv in \<open>auto simp: s'_def split: if_splits\<close>)
  show "keeps t (set chain) (set chain) place ?p s s'"
    by (rule keepsI) (auto simp: nv, auto simp: s'_def)
  show "holds_ok ?p s' t c'" using th(3) c by (simp add: holds_ok_def s'_def)
  show "owns_ok ?p t c'" using th(6,7) sh(7,8) c by (auto simp: owns_ok_def)
  show "fact (set chain) s' t c'" by (simp add: c'_def)
  show "spared c' u (pcs s u)" for u using c(3) by (rule spared_none)
qed (auto simp: c'_def s'_def split: if_splits)

text \<open>\<open>delete\<close> in line 201: no thread holds the node, since no hazard pointer to it was found.\<close>

lemma free_inv:
  assumes "lf_inv chain place s" and "pcs s t = SSweep (v # l) p k" and "v \<notin> set p"
  shows "nodes s v \<noteq> None \<and> lf_inv chain (place(v := Free)) (at t (SSweep l p k) (s\<lparr>nodes := (nodes s)(v := None)\<rparr>))"
proof (intro conjI lf_inv_update [OF assms(1), where t = t and c' = "SSweep l p k"])
  let ?s = "at t (SSweep l p k) (s\<lparr>nodes := (nodes s)(v := None)\<rparr>)"
  note sh = lf_inv_shared [OF assms(1)] and th = lf_inv_thread [OF assms(1,2)]
  have pv: "place v = Private t" using th(6) by auto
  show "nodes s v \<noteq> None" using sh(9) [of v] pv by simp
  have free: "\<not> held_by_other t s v"
  proof
    assume "held_by_other t s v"
    then obtain u where "hold1 (pcs s u) = Some v \<or> hold2 (pcs s u) = Some v" by (auto simp: held_by_other_def)
    moreover have "spared (SSweep (v # l) p k) u (pcs s u)" using assms(1,2) by (auto simp: lf_inv_def dest: spec [of _ t])
    ultimately show False using assms(3) by (auto simp: spared_def)
  qed
  have nv: "next_of ?s b = (if b = v then None else next_of s b)" "val_of ?s b = (if b = v then None else val_of s b)" for b
    by (simp_all add: next_of_def val_of_def)
  have vc: "v \<notin> set chain" using sh(5) pv by simp
  have "linked ?s chain = linked s chain" by (rule linked_cong) (use vc nv(1) in auto)
  then have l: "linked ?s chain" using sh(1) by simp
  have vl: "map (val_of ?s) (tl chain) = map (val_of s) (tl chain)" using vc by (cases chain) (auto simp: val_of_def)
  show "shared_ok chain (place(v := Free)) ?s"
  proof (rule shared_okI)
    show "set chain = {b. (place(v := Free)) b = Chained}" using sh(5) pv by auto
    show "set (mRetired ?s) = {b. (place(v := Free)) b = Shelved}" using sh(8) pv by auto
    show "nodes ?s b = None \<longleftrightarrow> (place(v := Free)) b = Free" for b using sh(9) [of b] by simp
    show "map Some (enq_log ?s) = map Some (deq_log ?s) @ map (val_of ?s) (tl chain)" unfolding vl using sh(6) by simp
    show "next_of ?s b \<noteq> None" if "(place(v := Free)) b = Shelved \<or> (place(v := Free)) b = Private u" for b u
      using that sh(10) [of b u] unfolding nv by (auto split: if_splits)
    show "next_of ?s b = None \<and> val_of ?s b \<noteq> None" if "(place(v := Free)) b = New u" for b u
      using that sh(11) [of b u] unfolding nv by (auto split: if_splits)
  qed (use sh l in simp_all)
  show "keeps t (set chain) (set chain) place (place(v := Free)) s ?s"
  proof (rule keepsI)
    fix b assume "held_by_other t s b" and "place b \<noteq> Free" and "\<forall>u. place b \<noteq> New u"
    moreover have "b \<noteq> v" using calculation(1) free by blast
    ultimately show "(place(v := Free)) b \<noteq> Free \<and> (\<forall>u. (place(v := Free)) b \<noteq> New u) \<and> (\<forall>n. next_of s b = Some n \<longrightarrow> next_of ?s b = Some n) \<and>
       (\<forall>x. val_of s b = Some x \<longrightarrow> val_of ?s b = Some x) \<and> (b \<in> set chain \<longrightarrow> b \<in> set chain) \<and>
       (b \<in> set chain \<longrightarrow> b = mHead s \<longrightarrow> b = mHead ?s) \<and> (b \<in> set chain \<longrightarrow> b = mHead s \<longrightarrow> mTail s \<noteq> b \<longrightarrow> mTail ?s \<noteq> b)"
      by (simp add: next_of_def val_of_def)
  qed (use pv in auto)
  show "holds_ok (place(v := Free)) ?s t (SSweep l p k)" using th(3) by (simp add: holds_ok_def)
  show "owns_ok (place(v := Free)) t (SSweep l p k)" using th(5-7) pv by (auto simp: owns_ok_def)
  show "spared (SSweep l p k) u (pcs s u)" for u using spared_shorter [OF assms(1,2)] by simp
qed simp_all

section \<open>Every step\<close>

lemma lf_stepI:
  "lf_step t ch s = Some s' \<Longrightarrow> lf_inv chain place s' \<Longrightarrow> \<exists>s' chain' place'. lf_step t ch s = Some s' \<and> lf_inv chain' place' s'"
  by blast

theorem lf_step_inv:
  assumes "lf_inv chain place s"
  shows "\<exists>s' chain' place'. lf_step t ch s = Some s' \<and> lf_inv chain' place' s'"
proof (cases "pcs s t")
  case Idle
  have "lf_inv chain place (at t DRegister s)"
    by (rule local_step [OF assms, where t = t and c' = DRegister])
      (use lf_inv_thread [OF assms Idle] lf_inv_shared(12) [OF assms] in \<open>simp_all add: spared_none Idle\<close>)
  then show ?thesis using new_node_inv [OF assms Idle] assms
    by (cases ch) (auto simp: lf_step_def Idle lf_call_def)
next
  case (ERegister a)
  have "lf_inv chain place (at t (ELoad a) (GetHazardRecord t s))" by (rule register_inv [OF assms ERegister]) simp_all
  then show ?thesis by (auto simp: lf_step_def ERegister)
next
  case (ELoad a)
  show ?thesis by (rule lf_stepI [OF _ ELoad_inv [OF assms ELoad]]) (simp add: lf_step_def ELoad)
next
  case (EStore a v)
  show ?thesis by (rule lf_stepI [OF _ EStore_inv [OF assms EStore]]) (simp add: lf_step_def EStore)
next
  case (EVerify a v)
  show ?thesis by (rule lf_stepI [OF _ EVerify_inv [OF assms EVerify]]) (simp add: lf_step_def EVerify)
next
  case (ENext a v)
  obtain n where n: "nodes s v = Some n" "lf_inv chain place (at t (ECheck a v (node_next n)) s)" using ENext_inv [OF assms ENext] by blast
  show ?thesis by (rule lf_stepI [OF _ n(2)]) (simp add: lf_step_def ENext n(1))
next
  case (ECheck a v nx)
  show ?thesis by (rule lf_stepI [OF _ ECheck_inv [OF assms ECheck]]) (simp add: lf_step_def ECheck)
next
  case (ELink a v)
  note th = lf_inv_thread [OF assms ELink]
  obtain n where n: "nodes s v = Some n" using th(1) [of v] by auto
  have "val_of s a \<noteq> None" using th(7) [of a] lf_inv_shared(11) [OF assms, of a t] by simp
  then obtain new x where x: "nodes s a = Some new" "node_value new = Some x" "val_of s a = Some x"
    by (auto simp: val_of_def bind_eq_Some_conv)
  have "lf_inv chain place (at t (ELoad a) s)" by (rule back_inv [OF assms ELink]) simp_all
  then show ?thesis using link_inv [OF assms ELink n _ x(3)]
    by (cases "node_next n = None \<and> ch \<noteq> Spurious") (auto simp: lf_step_def ELink n x(1,2))
next
  case (ESwing a v)
  have "next_of s v = Some a" using lf_inv_thread(4) [OF assms ESwing] by simp
  from swing_tail_inv [OF assms ESwing _ this, of ESize] have "mTail s = v \<Longrightarrow> lf_inv chain place (at t ESize (s\<lparr>mTail := a\<rparr>))" by simp
  moreover have "lf_inv chain place (at t ESize s)" by (rule back_inv [OF assms ESwing]) simp_all
  ultimately show ?thesis by (auto simp: lf_step_def ESwing)
next
  case ESize
  show ?thesis by (rule lf_stepI [OF _ ESize_inv [OF assms ESize]]) (simp add: lf_step_def ESize)
next
  case (EHelp a v n)
  have "next_of s v = Some n" using lf_inv_thread(4) [OF assms EHelp] by simp
  from swing_tail_inv [OF assms EHelp _ this, of "ELoad a"] have "mTail s = v \<Longrightarrow> lf_inv chain place (at t (ELoad a) (s\<lparr>mTail := n\<rparr>))" by simp
  moreover have "lf_inv chain place (at t (ELoad a) s)" by (rule back_inv [OF assms EHelp]) simp_all
  ultimately show ?thesis by (auto simp: lf_step_def EHelp)
next
  case DRegister
  have "lf_inv chain place (at t DLoad (GetHazardRecord t s))" by (rule register_inv [OF assms DRegister]) simp_all
  then show ?thesis by (auto simp: lf_step_def DRegister)
next
  case DLoad
  show ?thesis by (rule lf_stepI [OF _ DLoad_inv [OF assms DLoad]]) (simp add: lf_step_def DLoad)
next
  case (DStore v)
  show ?thesis by (rule lf_stepI [OF _ DStore_inv [OF assms DStore]]) (simp add: lf_step_def DStore)
next
  case (DVerify v)
  show ?thesis by (rule lf_stepI [OF _ DVerify_inv [OF assms DVerify]]) (simp add: lf_step_def DVerify)
next
  case (DNext h)
  obtain n where n: "nodes s h = Some n" "lf_inv chain place (at t (DSecond h (node_next n) (enq_log s = deq_log s)) s)"
    using DNext_inv [OF assms DNext] by blast
  show ?thesis by (rule lf_stepI [OF _ n(2)]) (simp add: lf_step_def DNext n(1))
next
  case (DSecond h nx e)
  show ?thesis by (rule lf_stepI [OF _ DSecond_inv [OF assms DSecond]]) (simp add: lf_step_def DSecond)
next
  case (DCheck h nx e)
  show ?thesis by (rule lf_stepI [OF _ DCheck_inv [OF assms DCheck]]) (simp add: lf_step_def DCheck)
next
  case (DTail h n)
  show ?thesis by (rule lf_stepI [OF _ DTail_inv [OF assms DTail]]) (simp add: lf_step_def DTail)
next
  case (DHelp h n)
  have "next_of s h = Some n" using lf_inv_thread(4) [OF assms DHelp] by simp
  from swing_tail_inv [OF assms DHelp _ this, of DLoad] have "mTail s = h \<Longrightarrow> lf_inv chain place (at t DLoad (s\<lparr>mTail := n\<rparr>))" by simp
  moreover have "lf_inv chain place (at t DLoad s)" by (rule back_inv [OF assms DHelp]) simp_all
  ultimately show ?thesis by (auto simp: lf_step_def DHelp)
next
  case (DValue h n)
  obtain c x where c: "nodes s n = Some c" "node_value c = Some x" "lf_inv chain place (at t (DCas h n x) s)"
    using DValue_inv [OF assms DValue] by blast
  show ?thesis by (rule lf_stepI [OF _ c(3)]) (simp add: lf_step_def DValue c(1,2))
next
  case (DCas h n x)
  have "lf_inv chain place (at t DLoad s)" by (rule back_inv [OF assms DCas]) simp_all
  then show ?thesis using swing_head_inv [OF assms DCas]
    by (cases "mHead s = h \<and> ch \<noteq> Spurious") (auto simp: lf_step_def DCas)
next
  case (DSize h)
  show ?thesis by (rule lf_stepI [OF _ DSize_inv [OF assms DSize]]) (simp add: lf_step_def DSize)
next
  case (Clear2 k)
  show ?thesis by (rule lf_stepI [OF _ Clear2_inv [OF assms Clear2]]) (simp add: lf_step_def Clear2)
next
  case (Clear1 k)
  obtain s' where s': "ClearHazards_step t (Clear1 k) s = Some s'" "lf_inv chain place s'" using Clear1_inv [OF assms Clear1] by blast
  then show ?thesis by (auto simp: lf_step_def Clear1 simp del: ClearHazards_step.simps)
next
  case (RPush h)
  have "lf_inv chain (place(h := Shelved)) (at t RCount (s\<lparr>mRetired := h # mRetired s\<rparr>))"
    by (rule shelve_inv [OF assms RPush, where k = "[]"]) simp_all
  then show ?thesis by (auto simp: lf_step_def RPush)
next
  case RCount
  show ?thesis by (rule lf_stepI [OF _ RCount_inv [OF assms RCount]]) (simp add: lf_step_def RCount)
next
  case SExchange
  show ?thesis by (rule lf_stepI [OF _ exchange_inv [OF assms SExchange]]) (simp add: lf_step_def SExchange)
next
  case (SLoad l)
  show ?thesis by (rule lf_stepI [OF _ SLoad_inv [OF assms SLoad]]) (simp add: lf_step_def SLoad)
next
  case (SRead l todo p)
  show ?thesis
  proof (cases todo)
    case Nil
    show ?thesis by (rule lf_stepI [OF _ SRead_end_inv [OF assms SRead [unfolded Nil]]]) (simp add: lf_step_def SRead Nil)
  next
    case (Cons rb rest)
    obtain r b where rb: "rb = (r, b)" by fastforce
    show ?thesis by (rule lf_stepI [OF _ SRead_inv [OF assms SRead [unfolded Cons rb]]]) (simp add: lf_step_def SRead Cons rb)
  qed
next
  case (SSweep l p k)
  show ?thesis
  proof (cases l)
    case Nil
    show ?thesis by (rule lf_stepI [OF _ SSweep_end_inv [OF assms SSweep [unfolded Nil]]]) (simp add: lf_step_def SSweep Nil)
  next
    case (Cons v rest)
    note sw = SSweep [unfolded Cons]
    show ?thesis
    proof (cases "v \<in> set p")
      case True
      then show ?thesis by (intro lf_stepI [OF _ SSweep_keep_inv [OF assms sw]]) (simp add: lf_step_def sw)
    next
      case False
      obtain n where n: "nodes s v = Some n" using free_inv [OF assms sw False] by blast
      show ?thesis by (rule lf_stepI [OF _ conjunct2 [OF free_inv [OF assms sw False]]]) (simp add: lf_step_def sw n False)
    qed
  qed
next
  case (SKeep k)
  show ?thesis
  proof (cases k)
    case Nil
    show ?thesis by (rule lf_stepI [OF _ SKeep_end_inv [OF assms SKeep [unfolded Nil]]]) (simp add: lf_step_def SKeep Nil)
  next
    case (Cons v rest)
    have "lf_inv chain (place(v := Shelved)) (at t (SKeep rest) (s\<lparr>mRetired := v # mRetired s\<rparr>))"
      by (rule shelve_inv [OF assms SKeep [unfolded Cons], where k = rest]) simp_all
    then show ?thesis by (auto simp: lf_step_def SKeep Cons)
  qed
qed

end
