(* ===== verification/Lock_Free_Behaviour.thy ===== *)
theory Lock_Free_Behaviour
  imports Lock_Free_Steps
begin

text \<open>
  What the invariant of the lock-free queue gives: memory safety with the destructor, and first in, first out.
\<close>

lemma lf_run_inv:
  "lf_inv chain place s \<Longrightarrow> \<exists>s' chain' place'. lf_run sched s = Some s' \<and> lf_inv chain' place' s'"
proof (induction sched arbitrary: chain place s)
  case Nil
  then show ?case by auto
next
  case (Cons x sched)
  obtain t ch where x: "x = (t, ch)" by fastforce
  obtain s1 chain1 place1 where 1: "lf_step t ch s = Some s1" "lf_inv chain1 place1 s1" using lf_step_inv [OF Cons.prems] by blast
  then show ?case using Cons.IH [OF 1(2)] by (simp add: x)
qed

lemma lf_run_start: "\<exists>s chain place. lf_run sched (LockFreeQueue a) = Some s \<and> lf_inv chain place s"
  using lf_run_inv [OF lf_inv_start] by blast

section \<open>The destructor\<close>

lemma delete_all_list:
  "distinct l \<Longrightarrow> (\<And>v. v \<in> set l \<Longrightarrow> h v \<noteq> None) \<Longrightarrow> delete_all l h = Some (\<lambda>v. if v \<in> set l then None else h v)"
proof (induction l arbitrary: h)
  case (Cons v l)
  have "delete_all l (h(v := None)) = Some (\<lambda>u. if u \<in> set l then None else (h(v := None)) u)"
    by (rule Cons.IH) (use Cons.prems in auto)
  moreover obtain n where "h v = Some n" using Cons.prems(2) [of v] by auto
  moreover have "(\<lambda>u. if u \<in> set l then None else (h(v := None)) u) = (\<lambda>u. if u \<in> set (v # l) then None else h u)"
    by (auto simp: fun_eq_iff)
  ultimately show ?case by simp
qed simp

lemma delete_chain_linked:
  assumes "linked s c" and "distinct c" and "\<And>v. v \<in> set c \<Longrightarrow> h v = nodes s v \<and> nodes s v \<noteq> None"
  shows "delete_chain (Some (hd c)) h = Some (\<lambda>v. if v \<in> set c then None else h v)"
  using assms
proof (induction c arbitrary: h rule: induct_list012)
  case (2 a)
  obtain n where n: "h a = Some n" "node_next n = None" using 2 by (auto simp: next_of_def)
  have "delete_chain None (h(a := None)) = Some (h(a := None))" by (subst delete_chain.simps) simp
  then show ?case by (subst delete_chain.simps) (auto simp: n fun_eq_iff)
next
  case (3 a b c)
  obtain n where n: "h a = Some n" "node_next n = Some b" using 3(3) 3(5) [of a] by (auto simp: next_of_def)
  have "delete_chain (Some (hd (b # c))) (h(a := None)) = Some (\<lambda>v. if v \<in> set (b # c) then None else (h(a := None)) v)"
    by (rule 3(2)) (use 3(3-5) in auto)
  then show ?case by (subst delete_chain.simps) (auto simp: n fun_eq_iff)
qed simp

lemma destroy_idle:
  assumes "lf_inv chain place s" and "\<And>t. pcs s t = Idle"
  shows "destroy s = Some (\<lambda>a. None)"
proof -
  note sh = lf_inv_shared [OF assms(1)]
  have np: "place v \<noteq> Private t" "place v \<noteq> New t" for v t
    using lf_inv_thread(6,7) [OF assms(1) assms(2) [of t]] by auto
  have dom: "nodes s v = None \<longleftrightarrow> v \<notin> set chain \<and> v \<notin> set (mRetired s)" for v
    using sh(5,8,9) np by (cases "place v") auto
  define p where "p = concat (map (\<lambda>r. [hp_first s r, hp_second s r]) (mHazards s))"
  let ?f = "filter (\<lambda>v. Some v \<notin> set p) (mRetired s)" and ?k = "filter (\<lambda>v. Some v \<in> set p) (mRetired s)"
  let ?h1 = "\<lambda>v. if v \<in> set ?f then None else nodes s v" and ?h2 = "\<lambda>v. if v \<in> set (mRetired s) then None else nodes s v"
  have "delete_all ?f (nodes s) = Some ?h1" by (rule delete_all_list) (use sh(7) dom in auto)
  then have scan: "scan_alone s = Some (s\<lparr>nodes := ?h1, mRetired := ?k\<rparr>)" unfolding scan_alone_def p_def [symmetric] Let_def by simp
  have "delete_all ?k ?h1 = Some (\<lambda>v. if v \<in> set ?k then None else ?h1 v)" by (rule delete_all_list) (use sh(7) dom in auto)
  moreover have "(\<lambda>v. if v \<in> set ?k then None else ?h1 v) = ?h2" by (auto simp: fun_eq_iff)
  ultimately have keep: "delete_all ?k ?h1 = Some ?h2" by simp
  have "v \<notin> set (mRetired s)" if "v \<in> set chain" for v using that sh(5,8) by auto
  then have "delete_chain (Some (hd chain)) ?h2 = Some (\<lambda>v. if v \<in> set chain then None else ?h2 v)"
    by (intro delete_chain_linked [OF sh(1,2)]) (use dom in auto)
  moreover have "(\<lambda>v. if v \<in> set chain then None else ?h2 v) = (\<lambda>v. None)" using dom by (auto simp: fun_eq_iff)
  ultimately show ?thesis using keep sh(3) by (simp add: destroy_def scan)
qed

text \<open>
  C39. The lock-free queue never touches freed memory. Whatever calls any number of threads make, however their
  steps interleave, and even if the allocator hands out freed addresses again, no thread follows a pointer to a
  freed node, deletes a node twice, or reads a value that is not there; and when all calls have returned, the
  destructor deletes every node that is left, each once.
\<close>
theorem lock_free_memory_safe:
  "\<exists>s. lf_run sched (LockFreeQueue a) = Some s \<and> ((\<forall>t. pcs s t = Idle) \<longrightarrow> destroy s = Some (\<lambda>b. None))"
proof -
  obtain s chain place where s: "lf_run sched (LockFreeQueue a) = Some s" "lf_inv chain place s" using lf_run_start by blast
  then show ?thesis using destroy_idle [OF s(2)] by blast
qed

section \<open>First in, first out\<close>

lemma chain_values_linked:
  assumes "linked s c" and "map (val_of s) c = map Some xs"
  shows "chain_values (nodes s) (Some (hd c)) = Some xs"
  using assms
proof (induction c arbitrary: xs rule: induct_list012)
  case (2 a)
  then obtain x where x: "xs = [x]" "val_of s a = Some x" by auto
  have "chain_values (nodes s) None = Some []" by (subst chain_values.simps) simp
  with x 2(1) show ?case by (subst chain_values.simps) (auto simp: val_of_def next_of_def bind_eq_Some_conv)
next
  case (3 a b c)
  then obtain x ys where x: "xs = x # ys" "val_of s a = Some x" "map (val_of s) (b # c) = map Some ys" by (auto simp: Cons_eq_map_conv)
  have "chain_values (nodes s) (Some (hd (b # c))) = Some ys" by (rule 3(2)) (use 3(3) x(3) in auto)
  with x 3(3) show ?case by (subst chain_values.simps) (auto simp: val_of_def next_of_def bind_eq_Some_conv)
qed simp

text \<open>
  C40. The lock-free queue is a queue. In every run the values dequeued are those enqueued, in the order of the
  links, without loss or repetition, and the rest is what the list behind the sentinel holds; a call that
  answered false saw the queue empty at a moment within the call.
\<close>
theorem lock_free_fifo:
  "\<exists>s rest. lf_run sched (LockFreeQueue a) = Some s \<and> enq_log s = deq_log s @ rest \<and>
    chain_values (nodes s) (next_of s (mHead s)) = Some rest \<and> list_all id (empty_log s)"
proof -
  obtain s chain place where s: "lf_run sched (LockFreeQueue a) = Some s" "lf_inv chain place s" using lf_run_start by blast
  note sh = lf_inv_shared [OF s(2)]
  obtain rest where rest: "enq_log s = deq_log s @ rest" "map (val_of s) (tl chain) = map Some rest"
    using sh(6) by (auto simp: map_eq_append_conv inj_map_eq_map)
  have "chain_values (nodes s) (next_of s (mHead s)) = Some rest"
  proof (cases "tl chain")
    case Nil
    have "chain_values (nodes s) None = Some []" by (subst chain_values.simps) simp
    then show ?thesis using Nil sh(1,3) rest(2) by (cases chain) auto
  next
    case (Cons b c)
    then have "next_of s (mHead s) = Some (hd (b # c))" "linked s (b # c)" using sh(1,3) by (cases chain; simp)+
    then show ?thesis using chain_values_linked [of s "b # c" rest] rest(2) Cons by simp
  qed
  with s(1) rest(1) sh(12) show ?thesis by blast
qed

definition lf_demo :: "(nat \<times> nat choice) list" where
  "lf_demo = (0, CallEnqueue 5 1) # replicate 11 (0, Go) @ (1, CallDequeue) # replicate 15 (1, Go)"

theorem lock_free_memory_safe_witness:
  "\<exists>s. lf_run lf_demo (LockFreeQueue 0) = Some s \<and> deq_log s = [5] \<and> mRetired s = [0] \<and> (\<forall>t. pcs s t = Idle) \<and> destroy s = Some (\<lambda>b. None)"
proof -
  obtain s where s: "lf_run lf_demo (LockFreeQueue 0) = Some s" "(\<forall>t. pcs s t = Idle) \<longrightarrow> destroy s = Some (\<lambda>b. None)"
    using lock_free_memory_safe [of lf_demo 0] by blast
  have r: "replicate 11 x = [x, x, x, x, x, x, x, x, x, x, x]" "replicate 15 x = [x, x, x, x, x, x, x, x, x, x, x, x, x, x, x]" for x :: "nat \<times> nat choice"
    by (simp_all add: numeral_eq_Suc)
  have "deq_log s = [5] \<and> mRetired s = [0] \<and> (\<forall>t. pcs s t = Idle)" using s(1)
    by (auto simp: lf_demo_def LockFreeQueue_def lf_step_def Let_def lf_call_def at_def GetHazardRecord_def r)
  with s show ?thesis by blast
qed

end
