(* ===== verification/Memory_Pool.thy ===== *)
theory Memory_Pool
  imports Prelude
begin

text \<open>
  NetLib/MemoryPoolTLS.h: the object pool of the servers, with a free list per thread and a global stack whose
  top carries a 16-bit tag. Any number of threads; a thread's own free list is private to it, so that a step
  that touches only this list is one step. \<open>PopFromGlobal\<close> is cut at its shared accesses: the load of the count,
  the load of the top, the walk along the nodes, the compare-exchange, the rest. \<open>None\<close> is an access to a deleted
  node. The batches of the other threads, which \<open>Alloc\<close> tries in between, are always empty, since nothing calls
  \<open>PushToMyBatch\<close>; they are left out.
\<close>

section \<open>The state\<close>

type_synonym addr = nat

definition MOVENODESIZE :: int where "MOVENODESIZE = 200"

text \<open>Who pops: an allocation, or \<open>Shrink\<close> with its target and what it has deleted so far.\<close>

datatype popper = ForAlloc | ForShrink int int

datatype pool_pc =
  PIdle
| GAvail popper                                      \<comment> \<open>line 357\<close>
| GTop popper nat                                    \<comment> \<open>line 364, with \<open>popCount\<close>\<close>
| GWalk popper nat addr "16 word" nat                \<comment> \<open>line 374, with \<open>oldTop\<close> and the number of changes before it\<close>
| GCas popper nat addr "16 word" nat addr nat "addr option"   \<comment> \<open>line 391, with \<open>tail\<close>, \<open>actualCount\<close> and \<open>remaining\<close>\<close>
| GFix popper addr addr nat                          \<comment> \<open>line 393\<close>
| AReserve                                           \<comment> \<open>line 189\<close>
| PLoad addr | PWrite addr "addr option \<times> 16 word" | PCas addr "addr option \<times> 16 word" | PCount   \<comment> \<open>\<open>PushToGlobal\<close>\<close>
| SDelete int int "addr option"                      \<comment> \<open>the loop of line 452\<close>

text \<open>
  \<open>nextNode\<close> is defined for the nodes that exist. \<open>top_changes\<close> counts the successful compare-exchanges on the
  top, \<open>in_use\<close> lists the nodes handed out and not yet given back; the code stores neither.
\<close>

record mpool =
  nextNode :: "addr \<Rightarrow> addr option option"
  g_top :: "addr option \<times> 16 word"
  availableCount :: int
  local_top :: "nat \<Rightarrow> addr option"
  local_count :: "nat \<Rightarrow> int"
  mUseCount :: int
  mAllocCount :: int
  initCount :: int
  pool_pcs :: "nat \<Rightarrow> pool_pc"
  top_changes :: nat
  in_use :: "addr list"

text \<open>The calls of a thread, the addresses \<open>new\<close> returns, and spurious failures.\<close>

datatype pool_choice = CallAlloc | CallFree addr | CallShrink | NewNodes "addr list" | Step | Spurious

definition pool_at :: "nat \<Rightarrow> pool_pc \<Rightarrow> mpool \<Rightarrow> mpool" where
  "pool_at t c s = s\<lparr>pool_pcs := (pool_pcs s)(t := c)\<rparr>"

definition set_local :: "nat \<Rightarrow> addr option \<Rightarrow> int \<Rightarrow> mpool \<Rightarrow> mpool" where
  "set_local t v n s = s\<lparr>local_top := (local_top s)(t := v), local_count := (local_count s)(t := n)\<rparr>"

definition hand_out :: "addr \<Rightarrow> mpool \<Rightarrow> mpool" where
  "hand_out a s = s\<lparr>mUseCount := mUseCount s + 1, in_use := a # in_use s\<rparr>"

section \<open>The operations\<close>

text \<open>\<open>ReserveNodes\<close>: each new node points to the one before, the first one to the thread's list.\<close>

fun link_nodes :: "addr list \<Rightarrow> addr option \<Rightarrow> (addr \<Rightarrow> addr option option) \<Rightarrow> (addr \<Rightarrow> addr option option)" where
  "link_nodes [] v h = h"
| "link_nodes (a # as) v h = link_nodes as (Some a) (h(a \<mapsto> v))"

definition ReserveNodes :: "nat \<Rightarrow> addr list \<Rightarrow> mpool \<Rightarrow> mpool" where
  "ReserveNodes t as s =
     (if as = [] then s
      else set_local t (Some (last as)) (local_count s t + int (length as))
        (s\<lparr>nextNode := link_nodes as (local_top s t) (nextNode s), mAllocCount := mAllocCount s + int (length as)\<rparr>))"

definition new_pool :: "nat \<Rightarrow> addr list \<Rightarrow> mpool" where
  "new_pool t as = ReserveNodes t as \<lparr>nextNode = (\<lambda>a. None), g_top = (None, 0), availableCount = 0, local_top = (\<lambda>t. None),
     local_count = (\<lambda>t. 0), mUseCount = 0, mAllocCount = 0, initCount = int (length as), pool_pcs = (\<lambda>t. PIdle), top_changes = 0, in_use = []\<rparr>"

text \<open>The first node of the thread's list goes to the caller.\<close>

definition take_local :: "nat \<Rightarrow> mpool \<Rightarrow> mpool option" where
  "take_local t s = (case local_top s t of
       None \<Rightarrow> Some (pool_at t PIdle s)
     | Some a \<Rightarrow> do { v \<leftarrow> nextNode s a; Some (pool_at t PIdle (hand_out a (set_local t v (local_count s t - 1) s))) })"

text \<open>The loop of lines 374 to 380.\<close>

fun walk :: "(addr \<Rightarrow> addr option option) \<Rightarrow> nat \<Rightarrow> addr \<Rightarrow> nat \<Rightarrow> (addr \<times> nat) option" where
  "walk h 0 tail n = Some (tail, n)"
| "walk h (Suc j) tail n = (case h tail of None \<Rightarrow> None | Some None \<Rightarrow> Some (tail, n) | Some (Some b) \<Rightarrow> walk h j b (n + 1))"

text \<open>\<open>PopFromGlobal\<close> came back empty-handed.\<close>

definition pop_none :: "nat \<Rightarrow> popper \<Rightarrow> mpool \<Rightarrow> mpool" where
  "pop_none t k s = (case k of
       ForAlloc \<Rightarrow> pool_at t AReserve s
     | ForShrink target deleted \<Rightarrow> pool_at t PIdle (s\<lparr>mAllocCount := mAllocCount s - deleted\<rparr>))"

definition pop_loaded :: "nat \<Rightarrow> popper \<Rightarrow> nat \<Rightarrow> mpool \<Rightarrow> mpool" where
  "pop_loaded t k n s = (case g_top s of (None, tag) \<Rightarrow> pop_none t k s | (Some a, tag) \<Rightarrow> pool_at t (GWalk k n a tag (top_changes s)) s)"

fun PopFromGlobal_step :: "nat \<Rightarrow> pool_choice \<Rightarrow> pool_pc \<Rightarrow> mpool \<Rightarrow> mpool option" where
  "PopFromGlobal_step t ch (GAvail k) s =
     Some (if availableCount s \<le> 0 then pop_none t k s else pool_at t (GTop k (nat (min (availableCount s) MOVENODESIZE))) s)"
| "PopFromGlobal_step t ch (GTop k n) s = Some (pop_loaded t k n s)"
| "PopFromGlobal_step t ch (GWalk k n a tag c) s = do {
     (tail, m) \<leftarrow> walk (nextNode s) (n - 1) a 1;
     remaining \<leftarrow> nextNode s tail;
     Some (pool_at t (GCas k n a tag c tail m remaining) s) }"
| "PopFromGlobal_step t ch (GCas k n a tag c tail m remaining) s =
     Some (if g_top s = (Some a, tag) \<and> ch \<noteq> Spurious
       then pool_at t (GFix k a tail m) (s\<lparr>g_top := (remaining, tag + 1), top_changes := top_changes s + 1\<rparr>)
       else pop_loaded t k n s)"
| "PopFromGlobal_step t ch (GFix k a tail m) s = do {
     _ \<leftarrow> nextNode s tail;
     let s1 = s\<lparr>availableCount := availableCount s - int m, nextNode := (nextNode s)(tail \<mapsto> None)\<rparr>;
     (case k of
        ForAlloc \<Rightarrow> do { v \<leftarrow> nextNode s1 a; Some (pool_at t PIdle (hand_out a (set_local t v (int m - 1) s1))) }
      | ForShrink target deleted \<Rightarrow> Some (pool_at t (SDelete target deleted (Some a)) s1)) }"
| "PopFromGlobal_step t ch _ s = Some s"

fun Alloc_step :: "nat \<Rightarrow> pool_choice \<Rightarrow> pool_pc \<Rightarrow> mpool \<Rightarrow> mpool option" where
  "Alloc_step t CallAlloc PIdle s = (if local_top s t = None then Some (pool_at t (GAvail ForAlloc) s) else take_local t s)"
| "Alloc_step t (NewNodes as) AReserve s =
     (if int (length as) = MOVENODESIZE \<and> distinct as \<and> list_all (\<lambda>a. nextNode s a = None) as
      then take_local t (ReserveNodes t as s) else Some s)"
| "Alloc_step t ch _ s = Some s"

fun Free_step :: "nat \<Rightarrow> pool_choice \<Rightarrow> pool_pc \<Rightarrow> mpool \<Rightarrow> mpool option" where
  "Free_step t (CallFree a) PIdle s =
     (let s1 = s\<lparr>in_use := remove1 a (in_use s)\<rparr> in
      if local_count s t > MOVENODESIZE then Some (pool_at t (PLoad a) s1)
      else do {
        _ \<leftarrow> nextNode s a;
        Some ((set_local t (Some a) (local_count s t + 1) s1)\<lparr>nextNode := (nextNode s)(a \<mapsto> local_top s t), mUseCount := mUseCount s - 1\<rparr>) })"
| "Free_step t ch (PLoad a) s = Some (pool_at t (PWrite a (g_top s)) s)"
| "Free_step t ch (PWrite a old) s = do { _ \<leftarrow> nextNode s a; Some (pool_at t (PCas a old) (s\<lparr>nextNode := (nextNode s)(a \<mapsto> fst old)\<rparr>)) }"
| "Free_step t ch (PCas a old) s =
     Some (if g_top s = old \<and> ch \<noteq> Spurious
       then pool_at t PCount (s\<lparr>g_top := (Some a, snd old + 1), top_changes := top_changes s + 1\<rparr>)
       else pool_at t (PWrite a (g_top s)) s)"
| "Free_step t ch PCount s = Some (pool_at t PIdle (s\<lparr>availableCount := availableCount s + 1, mUseCount := mUseCount s - 1\<rparr>))"
| "Free_step t ch _ s = Some s"

fun Shrink_step :: "nat \<Rightarrow> pool_choice \<Rightarrow> pool_pc \<Rightarrow> mpool \<Rightarrow> mpool option" where
  "Shrink_step t CallShrink PIdle s =
     Some (if availableCount s \<le> initCount s then s else pool_at t (GAvail (ForShrink (availableCount s - initCount s) 0)) s)"
| "Shrink_step t ch (SDelete target deleted (Some a)) s = do {
     v \<leftarrow> nextNode s a;
     Some (pool_at t (SDelete target (deleted + 1) v) (s\<lparr>nextNode := (nextNode s)(a := None)\<rparr>)) }"
| "Shrink_step t ch (SDelete target deleted None) s =
     Some (if deleted < target then pool_at t (GAvail (ForShrink target deleted)) s
       else pool_at t PIdle (s\<lparr>mAllocCount := mAllocCount s - deleted\<rparr>))"
| "Shrink_step t ch _ s = Some s"

definition pool_step :: "nat \<Rightarrow> pool_choice \<Rightarrow> mpool \<Rightarrow> mpool option" where
  "pool_step t ch s = (let c = pool_pcs s t in do {
     s1 \<leftarrow> Alloc_step t ch c s;
     s2 \<leftarrow> PopFromGlobal_step t ch c s1;
     s3 \<leftarrow> Free_step t ch c s2;
     Shrink_step t ch c s3 })"

fun pool_run :: "(nat \<times> pool_choice) list \<Rightarrow> mpool \<Rightarrow> mpool option" where
  "pool_run [] s = Some s"
| "pool_run ((t, ch) # sched) s = do { s1 \<leftarrow> pool_step t ch s; pool_run sched s1 }"

end
