(* ===== verification/Memory_Pool_Safety.thy ===== *)
theory Memory_Pool_Safety
  imports Memory_Pool
begin

text \<open>
  The object pool under any interleaving: where every node is, and that it stays so as long as nobody shrinks
  the pool, the callers give back only what they hold, and no pop spans 65536 changes of the top.
\<close>

section \<open>Lists on the heap\<close>

text \<open>\<open>xs\<close> are the nodes from the pointer \<open>v\<close> on, and the last of them points to \<open>w\<close>.\<close>

fun seg :: "(addr \<Rightarrow> addr option option) \<Rightarrow> addr list \<Rightarrow> addr option \<Rightarrow> addr option \<Rightarrow> bool" where
  "seg h [] v w \<longleftrightarrow> v = w"
| "seg h (x # xs) v w \<longleftrightarrow> v = Some x \<and> (\<exists>u. h x = Some u \<and> seg h xs u w)"

lemma seg_cong: "(\<And>a. a \<in> set xs \<Longrightarrow> h' a = h a) \<Longrightarrow> seg h' xs v w = seg h xs v w"
  by (induction xs arbitrary: v) auto

lemma seg_append: "seg h (xs @ ys) v w \<longleftrightarrow> (\<exists>u. seg h xs v u \<and> seg h ys u w)"
  by (induction xs arbitrary: v) auto

lemma seg_null: "seg h xs v None \<Longrightarrow> xs = [] \<longleftrightarrow> v = None"
  by (cases xs) auto

lemma seg_last:
  "seg h xs v w \<Longrightarrow> xs \<noteq> [] \<Longrightarrow> h (last xs) = Some w"
  by (induction xs arbitrary: v) (auto split: if_splits)

lemma seg_end:
  assumes "seg h xs v w" and "xs \<noteq> []" and "distinct xs"
  shows "seg (h(last xs \<mapsto> u)) xs v u"
  using assms
proof (induction xs arbitrary: v)
  case (Cons x xs)
  show ?case
  proof (cases "xs = []")
    case False
    then have "x \<noteq> last xs" using Cons.prems(3) by auto
    then show ?thesis using Cons False by auto
  qed (use Cons in simp)
qed simp

lemma seg_link_nodes:
  "distinct as \<Longrightarrow> seg (link_nodes as v h) (rev as) (if as = [] then v else Some (last as)) v"
proof (induction as arbitrary: v h)
  case (Cons a as)
  have other: "link_nodes as u h' b = h' b" if "b \<notin> set as" for u h' b
    using that by (induction as arbitrary: u h') auto
  show ?case
  proof (cases "as = []")
    case False
    have "seg (link_nodes (a # as) v h) (rev as) (Some (last as)) (Some a)"
      unfolding link_nodes.simps using Cons.IH [where v = "Some a" and h = "h(a \<mapsto> v)"] Cons.prems False
      by (simp only: distinct.simps if_False)
    moreover have "link_nodes (a # as) v h a = Some v" using other [of a] Cons.prems by simp
    ultimately show ?thesis using False by (auto simp: seg_append simp del: link_nodes.simps)
  qed simp
qed simp

lemma link_nodes_other: "b \<notin> set as \<Longrightarrow> link_nodes as v h b = h b"
  by (induction as arbitrary: v h) auto

lemma link_nodes_defined: "b \<in> set as \<Longrightarrow> link_nodes as v h b \<noteq> None"
proof (induction as arbitrary: v h)
  case (Cons a as)
  then show ?case by (cases "b \<in> set as") (auto simp: link_nodes_other)
qed simp

text \<open>The walk along a list that is not changed takes a part of it from the top.\<close>

lemma walk_seg:
  assumes "seg h (x # xs) (Some x) None"
  shows "\<exists>ps qs. x # xs = ps @ qs \<and> ps \<noteq> [] \<and> walk h j x n = Some (last ps, n + length ps - 1) \<and>
    h (last ps) = Some (case qs of [] \<Rightarrow> None | q # _ \<Rightarrow> Some q)"
  using assms
proof (induction j arbitrary: x xs n)
  case 0
  then have "h x = Some (case xs of [] \<Rightarrow> None | q # _ \<Rightarrow> Some q)" by (cases xs) auto
  then show ?case by (intro exI [of _ "[x]"] exI [of _ xs]) simp
next
  case (Suc j)
  show ?case
  proof (cases xs)
    case Nil
    then show ?thesis using Suc.prems by (intro exI [of _ "[x]"] exI [of _ "[]"]) simp
  next
    case (Cons y ys)
    then have y: "seg h (y # ys) (Some y) None" "h x = Some (Some y)" using Suc.prems by auto
    obtain ps qs where p: "y # ys = ps @ qs" "ps \<noteq> []" "walk h j y (n + 1) = Some (last ps, n + 1 + length ps - 1)"
      "h (last ps) = Some (case qs of [] \<Rightarrow> None | q # _ \<Rightarrow> Some q)" using Suc.IH [OF y(1), of "n + 1"] by blast
    then show ?thesis using y(2) Cons by (intro exI [of _ "x # ps"] exI [of _ qs]) (simp add: Suc_diff_le)
  qed
qed

text \<open>On a heap without dangling pointers the walk does not fail, whatever the list has become.\<close>

definition no_dangling :: "(addr \<Rightarrow> addr option option) \<Rightarrow> bool" where
  "no_dangling h \<longleftrightarrow> (\<forall>a b. h a = Some (Some b) \<longrightarrow> h b \<noteq> None)"

lemma walk_closed: "no_dangling h \<Longrightarrow> h a \<noteq> None \<Longrightarrow> \<exists>r m. walk h j a n = Some (r, m) \<and> h r \<noteq> None"
proof (induction j arbitrary: a n)
  case (Suc j)
  then obtain v where v: "h a = Some v" by auto
  show ?case
  proof (cases v)
    case (Some b)
    then show ?thesis using Suc.IH [OF Suc.prems(1), of b] Suc.prems(1) v by (auto simp: no_dangling_def)
  qed (use v in auto)
qed auto

section \<open>The invariant\<close>

datatype whereabouts = Nowhere | Global | Local nat | Transit nat | User

text \<open>The nodes in the hands of a thread between two of its steps.\<close>

fun transit :: "(addr \<Rightarrow> addr option option) \<Rightarrow> pool_pc \<Rightarrow> addr list \<Rightarrow> bool" where
  "transit h (GFix k a tail m) xs \<longleftrightarrow> xs \<noteq> [] \<and> hd xs = a \<and> last xs = tail \<and> length xs = m \<and> (\<exists>w. seg h xs (Some a) w)"
| "transit h (PLoad a) xs \<longleftrightarrow> xs = [a]"
| "transit h (PWrite a old) xs \<longleftrightarrow> xs = [a]"
| "transit h (PCas a old) xs \<longleftrightarrow> xs = [a] \<and> h a = Some (fst old)"
| "transit h (SDelete target deleted v) xs \<longleftrightarrow> False"
| "transit h _ xs \<longleftrightarrow> xs = []"

fun no_shrink :: "pool_pc \<Rightarrow> bool" where
  "no_shrink (GAvail k) \<longleftrightarrow> k = ForAlloc"
| "no_shrink (GTop k n) \<longleftrightarrow> k = ForAlloc"
| "no_shrink (GWalk k n a tag c) \<longleftrightarrow> k = ForAlloc"
| "no_shrink (GCas k n a tag c tail m r) \<longleftrightarrow> k = ForAlloc"
| "no_shrink (GFix k a tail m) \<longleftrightarrow> k = ForAlloc"
| "no_shrink (SDelete target deleted v) \<longleftrightarrow> False"
| "no_shrink _ \<longleftrightarrow> True"

fun popping :: "pool_pc \<Rightarrow> bool" where
  "popping (GAvail k) \<longleftrightarrow> True"
| "popping (GTop k n) \<longleftrightarrow> True"
| "popping (GWalk k n a tag c) \<longleftrightarrow> True"
| "popping (GCas k n a tag c tail m r) \<longleftrightarrow> True"
| "popping (GFix k a tail m) \<longleftrightarrow> True"
| "popping _ \<longleftrightarrow> False"

text \<open>What a pop knows of the global stack, as long as nobody has changed the top.\<close>

fun seen :: "addr list \<Rightarrow> mpool \<Rightarrow> pool_pc \<Rightarrow> bool" where
  "seen g s (GWalk k n a tag c) \<longleftrightarrow> c \<le> top_changes s \<and> tag = of_nat c \<and> nextNode s a \<noteq> None \<and> (c = top_changes s \<longrightarrow> g_top s = (Some a, tag))"
| "seen g s (GCas k n a tag c tail m r) \<longleftrightarrow> c \<le> top_changes s \<and> tag = of_nat c \<and> nextNode s a \<noteq> None \<and>
     (c = top_changes s \<longrightarrow> (\<exists>ps qs. g = ps @ qs \<and> ps \<noteq> [] \<and> hd ps = a \<and> last ps = tail \<and> length ps = m \<and>
        r = (case qs of [] \<Rightarrow> None | q # _ \<Rightarrow> Some q)))"
| "seen g s (PWrite a old) \<longleftrightarrow> (\<forall>b. fst old = Some b \<longrightarrow> nextNode s b \<noteq> None)"
| "seen g s _ \<longleftrightarrow> True"

definition thread_ok :: "(addr \<Rightarrow> whereabouts) \<Rightarrow> mpool \<Rightarrow> nat \<Rightarrow> pool_pc \<Rightarrow> bool" where
  "thread_ok place s t c \<longleftrightarrow>
     (\<exists>ls. seg (nextNode s) ls (local_top s t) None \<and> distinct ls \<and> set ls = {a. place a = Local t} \<and> local_count s t = int (length ls)) \<and>
     (\<exists>xs. transit (nextNode s) c xs \<and> distinct xs \<and> set xs = {a. place a = Transit t}) \<and>
     no_shrink c \<and> (popping c \<longrightarrow> local_top s t = None)"

lemma thread_okI:
  assumes "seg (nextNode s) ls (local_top s t) None" "distinct ls" "set ls = {a. place a = Local t}" "local_count s t = int (length ls)"
    "transit (nextNode s) c xs" "distinct xs" "set xs = {a. place a = Transit t}" "no_shrink c" "popping c \<Longrightarrow> local_top s t = None"
  shows "thread_ok place s t c"
  using assms unfolding thread_ok_def by blast

definition stack_ok :: "addr list \<Rightarrow> (addr \<Rightarrow> whereabouts) \<Rightarrow> mpool \<Rightarrow> bool" where
  "stack_ok g place s \<longleftrightarrow>
     seg (nextNode s) g (fst (g_top s)) None \<and> distinct g \<and> set g = {a. place a = Global} \<and> snd (g_top s) = of_nat (top_changes s) \<and>
     distinct (in_use s) \<and> set (in_use s) = {a. place a = User} \<and> (\<forall>a. nextNode s a = None \<longleftrightarrow> place a = Nowhere) \<and> no_dangling (nextNode s)"

definition pool_inv :: "addr list \<Rightarrow> (addr \<Rightarrow> whereabouts) \<Rightarrow> mpool \<Rightarrow> bool" where
  "pool_inv g place s \<longleftrightarrow> stack_ok g place s \<and> (\<forall>t. thread_ok place s t (pool_pcs s t) \<and> seen g s (pool_pcs s t))"

section \<open>Steps\<close>

lemma transit_cong: "(\<And>a. a \<in> set xs \<Longrightarrow> h' a = h a) \<Longrightarrow> transit h' c xs = transit h c xs"
  using seg_cong [of xs h' h] by (cases c) auto

lemma pool_inv_update:
  assumes inv: "pool_inv g place s" and pcs: "pool_pcs s' = (pool_pcs s)(t := c')" and st: "stack_ok g' place' s'"
    and me: "thread_ok place' s' t c'" "seen g' s' c'"
    and others: "\<And>u. u \<noteq> t \<Longrightarrow> local_top s' u = local_top s u \<and> local_count s' u = local_count s u"
      "\<And>u a. u \<noteq> t \<Longrightarrow> (place' a = Local u \<longleftrightarrow> place a = Local u) \<and> (place' a = Transit u \<longleftrightarrow> place a = Transit u)"
      "\<And>u a. u \<noteq> t \<Longrightarrow> place a = Local u \<or> place a = Transit u \<Longrightarrow> nextNode s' a = nextNode s a"
    and top: "top_changes s \<le> top_changes s'" "top_changes s' = top_changes s \<Longrightarrow> g_top s' = g_top s \<and> g' = g"
    and mono: "\<And>a. nextNode s a \<noteq> None \<Longrightarrow> nextNode s' a \<noteq> None"
  shows "pool_inv g' place' s'"
proof -
  have "thread_ok place' s' u (pool_pcs s u) \<and> seen g' s' (pool_pcs s u)" if u: "u \<noteq> t" for u
  proof
    have ok: "thread_ok place s u (pool_pcs s u)" "seen g s (pool_pcs s u)" using inv by (simp_all add: pool_inv_def)
    obtain ls xs where l: "seg (nextNode s) ls (local_top s u) None" "distinct ls" "set ls = {a. place a = Local u}"
      "local_count s u = int (length ls)" and x: "transit (nextNode s) (pool_pcs s u) xs" "distinct xs" "set xs = {a. place a = Transit u}"
      and r: "no_shrink (pool_pcs s u)" "popping (pool_pcs s u) \<longrightarrow> local_top s u = None"
      using ok(1) unfolding thread_ok_def by blast
    have "seg (nextNode s') ls (local_top s' u) None" using l(1,3) others(1,3) [OF u] seg_cong [of ls "nextNode s'" "nextNode s"] by auto
    moreover have "transit (nextNode s') (pool_pcs s u) xs" using x(1,3) others(3) [OF u] transit_cong [of xs "nextNode s'" "nextNode s"] by auto
    moreover have "set ls = {a. place' a = Local u}" "set xs = {a. place' a = Transit u}" using l(3) x(3) others(2) [OF u] by simp_all
    moreover have "local_count s' u = int (length ls)" "popping (pool_pcs s u) \<longrightarrow> local_top s' u = None"
      using l(4) r(2) others(1) [OF u] by simp_all
    ultimately show "thread_ok place' s' u (pool_pcs s u)"
      unfolding thread_ok_def using l(2) x(2) r(1) by blast
    show "seen g' s' (pool_pcs s u)" using ok(2) top mono by (cases "pool_pcs s u") auto
  qed
  then show ?thesis using st me by (simp add: pool_inv_def pcs)
qed

lemma pool_at_simps [simp]:
  "nextNode (pool_at t c s) = nextNode s" "g_top (pool_at t c s) = g_top s" "availableCount (pool_at t c s) = availableCount s"
  "local_top (pool_at t c s) = local_top s" "local_count (pool_at t c s) = local_count s" "in_use (pool_at t c s) = in_use s"
  "top_changes (pool_at t c s) = top_changes s" "pool_pcs (pool_at t c s) = (pool_pcs s)(t := c)"
  by (simp_all add: pool_at_def)

lemma pool_invD:
  assumes "pool_inv g place s"
  shows "stack_ok g place s" "thread_ok place s t (pool_pcs s t)" "seen g s (pool_pcs s t)"
  using assms by (simp_all add: pool_inv_def)

lemma pool_inv_at:
  assumes "pool_inv g place s" and "pool_pcs s t = c"
  shows "stack_ok g place s" "thread_ok place s t c" "seen g s c"
  using assms by (auto simp: pool_inv_def)

text \<open>Steps that move the program counter and change the counts alone.\<close>

lemma quiet_step:
  assumes inv: "pool_inv g place s" and pcs: "pool_pcs s' = (pool_pcs s)(t := c')"
    and same: "nextNode s' = nextNode s" "g_top s' = g_top s" "local_top s' = local_top s" "local_count s' = local_count s"
      "in_use s' = in_use s" "top_changes s' = top_changes s"
    and c: "\<And>xs. transit (nextNode s) (pool_pcs s t) xs \<Longrightarrow> transit (nextNode s) c' xs" "no_shrink c'"
      "popping c' \<Longrightarrow> local_top s t = None" "seen g s' c'"
  shows "pool_inv g place s'"
proof (rule pool_inv_update [OF inv pcs])
  show "stack_ok g place s'" using pool_invD(1) [OF inv] same by (simp add: stack_ok_def)
  show "thread_ok place s' t c'" using pool_invD(2) [OF inv, of t] c same unfolding thread_ok_def by auto
qed (use assms in auto)

text \<open>The first node of a thread's list goes to the user.\<close>

lemma take_local_inv:
  assumes inv: "pool_inv g place s" and pc: "\<And>xs. transit (nextNode s) (pool_pcs s t) xs \<Longrightarrow> xs = []" and a: "local_top s t = Some a"
  shows "\<exists>s'. take_local t s = Some s' \<and> pool_inv g (place(a := User)) s'"
proof -
  have st: "stack_ok g place s" and th: "thread_ok place s t (pool_pcs s t)" using pool_invD [OF inv] by simp_all
  obtain ls xs where l: "seg (nextNode s) ls (Some a) None" "distinct ls" "set ls = {b. place b = Local t}"
      "local_count s t = int (length ls)" and x: "transit (nextNode s) (pool_pcs s t) xs" "set xs = {b. place b = Transit t}"
    using th a unfolding thread_ok_def by auto
  from l(1) obtain rest v where r: "ls = a # rest" "nextNode s a = Some v" "seg (nextNode s) rest v None" by (cases ls) auto
  have pa: "place a = Local t" using l(3) r(1) by auto
  have none: "place b \<noteq> Transit t" for b using x(2) pc [OF x(1)] by auto
  let ?s = "pool_at t PIdle (hand_out a (set_local t v (local_count s t - 1) s))"
  have "pool_inv g (place(a := User)) ?s"
  proof (rule pool_inv_update [OF inv, where t = t and c' = PIdle])
    show "stack_ok g (place(a := User)) ?s" using st pa by (auto simp: stack_ok_def hand_out_def set_local_def)
    have "seg (nextNode ?s) rest (local_top ?s t) None \<and> distinct rest \<and> set rest = {b. (place(a := User)) b = Local t} \<and>
        local_count ?s t = int (length rest)" using r l(2-4) by (auto simp: hand_out_def set_local_def)
    then show "thread_ok (place(a := User)) ?s t PIdle" using none by (auto simp: thread_ok_def)
  qed (use pa in \<open>auto simp: hand_out_def set_local_def\<close>)
  then show ?thesis by (simp add: take_local_def a r(2))
qed

section \<open>Popping\<close>

lemma top_defined: "pool_inv g place s \<Longrightarrow> fst (g_top s) = Some a \<Longrightarrow> nextNode s a \<noteq> None"
proof -
  assume "pool_inv g place s" "fst (g_top s) = Some a"
  then have "seg (nextNode s) g (Some a) None" by (simp add: pool_inv_def stack_ok_def)
  then show ?thesis by (cases g) auto
qed

lemma pop_none_inv:
  assumes "pool_inv g place s" and "transit (nextNode s) (pool_pcs s t) = (\<lambda>xs. xs = [])"
  shows "pool_inv g place (pop_none t ForAlloc s)"
  unfolding pop_none_def popper.case
  by (rule quiet_step [OF assms(1), where t = t and c' = AReserve]) (use assms(2) in simp_all)

lemma pop_loaded_inv:
  assumes inv: "pool_inv g place s" and c: "transit (nextNode s) (pool_pcs s t) = (\<lambda>xs. xs = [])" "popping (pool_pcs s t)"
  shows "pool_inv g place (pop_loaded t ForAlloc n s)"
proof (cases "g_top s")
  case (Pair v tag)
  show ?thesis
  proof (cases v)
    case None
    then show ?thesis using pop_none_inv [OF inv c(1)] Pair by (simp add: pop_loaded_def)
  next
    case (Some a)
    have "nextNode s a \<noteq> None" using top_defined [OF inv] Pair Some by simp
    moreover have "tag = of_nat (top_changes s)" using pool_invD(1) [OF inv] Pair by (simp add: stack_ok_def)
    moreover have "local_top s t = None" using pool_invD(2) [OF inv, of t] c(2) by (simp add: thread_ok_def)
    ultimately have "pool_inv g place (pool_at t (GWalk ForAlloc n a tag (top_changes s)) s)"
      by (intro quiet_step [OF inv, where t = t and c' = "GWalk ForAlloc n a tag (top_changes s)"]) (use c(1) Pair Some in simp_all)
    then show ?thesis using Pair Some by (simp add: pop_loaded_def)
  qed
qed

lemma GWalk_inv:
  assumes inv: "pool_inv g place s" and pc: "pool_pcs s t = GWalk ForAlloc n a tag c"
  shows "\<exists>s'. PopFromGlobal_step t ch (GWalk ForAlloc n a tag c) s = Some s' \<and> pool_inv g place s'"
proof -
  have st: "stack_ok g place s" and th: "thread_ok place s t (pool_pcs s t)" and se: "seen g s (GWalk ForAlloc n a tag c)"
    using pool_inv_at [OF inv pc] pc by simp_all
  obtain r m where w: "walk (nextNode s) (n - 1) a 1 = Some (r, m)" "nextNode s r \<noteq> None"
  proof -
    have "no_dangling (nextNode s)" "nextNode s a \<noteq> None" using se conjunct2 [OF st [unfolded stack_ok_def]] by (blast | simp)+
    then show thesis using that walk_closed by blast
  qed
  then obtain v where v: "nextNode s r = Some v" by auto
  have "\<exists>ps qs. g = ps @ qs \<and> ps \<noteq> [] \<and> hd ps = a \<and> last ps = r \<and> length ps = m \<and> v = (case qs of [] \<Rightarrow> None | q # _ \<Rightarrow> Some q)"
    if "c = top_changes s"
  proof -
    have top: "fst (g_top s) = Some a" using se that by simp
    then obtain xs where g: "g = a # xs" using st by (cases g) (auto simp: stack_ok_def)
    have "seg (nextNode s) (a # xs) (Some a) None" using st top g by (simp add: stack_ok_def)
    from walk_seg [OF this, of "n - 1" 1] obtain ps qs where "a # xs = ps @ qs" "ps \<noteq> []"
      "walk (nextNode s) (n - 1) a 1 = Some (last ps, length ps)" "nextNode s (last ps) = Some (case qs of [] \<Rightarrow> None | q # _ \<Rightarrow> Some q)"
      by auto
    then show ?thesis using w(1) v g by (intro exI [of _ ps] exI [of _ qs]) (cases ps; auto)
  qed
  then have "seen g s (GCas ForAlloc n a tag c r m v)" using se by simp
  moreover have "local_top s t = None" using th pc by (simp add: thread_ok_def)
  ultimately have "pool_inv g place (pool_at t (GCas ForAlloc n a tag c r m v) s)"
    by (intro quiet_step [OF inv, where t = t and c' = "GCas ForAlloc n a tag c r m v"]) (use pc in simp_all)
  then show ?thesis using w(1) by (simp add: v)
qed

text \<open>The tag tells 65536 states of the top apart.\<close>

lemma tag_eq:
  assumes "(of_nat c :: 16 word) = of_nat v" and "c \<le> v" and "v < c + 65536"
  shows "c = v"
proof -
  have "c mod 65536 = v mod 65536" using assms(1) by (simp add: of_nat_eq_iff word_of_nat_eq_iff take_bit_eq_mod)
  then have "65536 dvd v - c" using mod_eq_dvd_iff_nat [OF assms(2), of 65536] by simp
  then obtain k where k: "v - c = 65536 * k" by (rule dvdE)
  then show ?thesis using assms(2,3) by (cases k) auto
qed

lemma GCas_inv:
  assumes inv: "pool_inv g place s" and pc: "pool_pcs s t = GCas ForAlloc n a tag c tail m r"
    and top: "g_top s = (Some a, tag)" and calm: "top_changes s < c + 65536"
  defines "s' \<equiv> pool_at t (GFix ForAlloc a tail m) (s\<lparr>g_top := (r, tag + 1), top_changes := top_changes s + 1\<rparr>)"
  shows "\<exists>g' place'. pool_inv g' place' s'"
proof -
  have st: "stack_ok g place s" and th: "thread_ok place s t (pool_pcs s t)" and se: "seen g s (GCas ForAlloc n a tag c tail m r)"
    using pool_inv_at [OF inv pc] pc by simp_all
  have "c = top_changes s" using tag_eq [of c "top_changes s"] se st top calm by (simp add: stack_ok_def)
  then obtain ps qs where g: "g = ps @ qs" "ps \<noteq> []" "hd ps = a" "last ps = tail" "length ps = m"
    "r = (case qs of [] \<Rightarrow> None | q # _ \<Rightarrow> Some q)" using se by auto
  have tag: "tag = of_nat (top_changes s)" using st top by (simp add: stack_ok_def)
  obtain u where u: "seg (nextNode s) ps (Some a) u" "seg (nextNode s) qs u None" using st top g(1) by (auto simp: stack_ok_def seg_append)
  then have qs: "seg (nextNode s) qs r None" using g(6) by (cases qs) auto
  have d: "distinct ps" "distinct qs" "set ps \<inter> set qs = {}" "set ps \<union> set qs = {b. place b = Global}"
    using st g(1) by (auto simp: stack_ok_def)
  let ?p = "\<lambda>b. if b \<in> set ps then Transit t else place b"
  have pg: "place b = Global" if "b \<in> set ps" for b using that d(4) by auto
  obtain ls where ls: "seg (nextNode s) ls (local_top s t) None" "distinct ls" "set ls = {b. place b = Local t}" "local_count s t = int (length ls)"
    and tr: "{b. place b = Transit t} = {}" and lt: "local_top s t = None" using th pc by (auto simp: thread_ok_def)
  have "pool_inv qs ?p s'"
  proof (rule pool_inv_update [OF inv, where t = t and c' = "GFix ForAlloc a tail m"])
    show "stack_ok qs ?p s'" using st d qs tag pg unfolding stack_ok_def s'_def by (auto simp: add.commute)
    have "set ls = {b. ?p b = Local t}" using ls(3) pg by auto
    moreover have "set ps = {b. ?p b = Transit t}" using tr by auto
    moreover have "transit (nextNode s) (GFix ForAlloc a tail m) ps" using g u(1) by auto
    ultimately show "thread_ok ?p s' t (GFix ForAlloc a tail m)"
      unfolding thread_ok_def s'_def using ls(1,2,4) lt d(1) by auto
  qed (use pg in \<open>auto simp: s'_def\<close>)
  then show ?thesis by blast
qed

text \<open>The popped nodes become the thread's list, the first of them the user's.\<close>

lemma GFix_inv:
  assumes inv: "pool_inv g place s" and pc: "pool_pcs s t = GFix ForAlloc a tail m"
  shows "\<exists>s' g' place'. PopFromGlobal_step t ch (GFix ForAlloc a tail m) s = Some s' \<and> pool_inv g' place' s'"
proof -
  have st: "stack_ok g place s" and th: "thread_ok place s t (GFix ForAlloc a tail m)" using pool_inv_at [OF inv pc] by simp_all
  obtain xs w where x: "xs \<noteq> []" "hd xs = a" "last xs = tail" "length xs = m" "seg (nextNode s) xs (Some a) w" "distinct xs"
    "set xs = {b. place b = Transit t}" and lt: "local_top s t = None" using th by (auto simp: thread_ok_def)
  obtain ls where ls: "seg (nextNode s) ls None None" "set ls = {b. place b = Local t}" using th lt by (auto simp: thread_ok_def)
  then have nl: "place b \<noteq> Local t" for b using seg_null [of "nextNode s" ls None] by auto
  define h where "h = (nextNode s)(tail \<mapsto> None)"
  have s1: "seg h xs (Some a) None" unfolding h_def x(3) [symmetric] by (rule seg_end [OF x(5,1,6)])
  then obtain rest v where r: "xs = a # rest" "h a = Some v" "seg h rest v None" using x(1,2) by (cases xs) auto
  obtain o1 where o1: "nextNode s tail = Some o1" using seg_last [OF x(5,1)] x(3) by blast
  have pt: "place tail = Transit t" using x(1,3,7) last_in_set [of xs] by auto
  let ?p = "\<lambda>b. if b = a then User else if b \<in> set xs then Local t else place b"
  let ?s = "pool_at t PIdle (hand_out a (set_local t v (int m - 1) (s\<lparr>availableCount := availableCount s - int m, nextNode := h\<rparr>)))"
  have ps: "place b = Transit t" if "b \<in> set xs" for b using x(7) that by auto
  have "place a = Transit t" using ps r(1) by simp
  have al: "nextNode s b = None \<longleftrightarrow> place b = Nowhere" for b using st by (simp add: stack_ok_def)
  have gs: "set g = {b. place b = Global}" using st by (simp add: stack_ok_def)
  have hg: "seg h g v' w' = seg (nextNode s) g v' w'" for v' w' by (rule seg_cong) (use gs pt in \<open>auto simp: h_def\<close>)
  have nd: "no_dangling h" using st by (auto simp: stack_ok_def no_dangling_def h_def)
  have "pool_inv g ?p ?s"
  proof (rule pool_inv_update [OF inv, where t = t and c' = PIdle])
    show "stack_ok g ?p ?s"
      unfolding stack_ok_def
    proof (intro conjI allI)
      show "set g = {b. ?p b = Global}" using gs ps \<open>place a = Transit t\<close> by auto
      show "set (in_use ?s) = {b. ?p b = User}" "distinct (in_use ?s)"
        using st ps \<open>place a = Transit t\<close> by (auto simp: stack_ok_def hand_out_def set_local_def)
      show "nextNode ?s b = None \<longleftrightarrow> ?p b = Nowhere" for b
        using al [of b] ps [of b] \<open>place a = Transit t\<close> pt by (cases "b \<in> set xs") (auto simp: hand_out_def set_local_def h_def)
    qed (use st nd hg in \<open>auto simp: stack_ok_def hand_out_def set_local_def\<close>)
    have "seg (nextNode ?s) rest (local_top ?s t) None \<and> distinct rest \<and> set rest = {b. ?p b = Local t} \<and> local_count ?s t = int (length rest)"
      using r x(4,6) nl by (auto simp: hand_out_def set_local_def)
    moreover have "{b. ?p b = Transit t} = {}" using x(7) by auto
    ultimately show "thread_ok ?p ?s t PIdle" by (auto simp: thread_ok_def)
  qed (use ps pt \<open>place a = Transit t\<close> in \<open>auto simp: hand_out_def set_local_def h_def\<close>)
  moreover have "PopFromGlobal_step t ch (GFix ForAlloc a tail m) s = Some ?s"
    using r(2) by (simp add: o1 h_def)
  ultimately show ?thesis by blast
qed

section \<open>Reserving\<close>

lemma no_dangling_upd: "no_dangling h \<Longrightarrow> (\<And>b. v = Some b \<Longrightarrow> h b \<noteq> None) \<Longrightarrow> no_dangling (h(a \<mapsto> v))"
  by (auto simp: no_dangling_def)

lemma link_nodes_no_dangling:
  "no_dangling h \<Longrightarrow> (\<And>b. v = Some b \<Longrightarrow> h b \<noteq> None) \<Longrightarrow> no_dangling (link_nodes as v h)"
proof (induction as arbitrary: v h)
  case (Cons a as)
  have "no_dangling (h(a \<mapsto> v))" by (rule no_dangling_upd [OF Cons.prems])
  then show ?case unfolding link_nodes.simps by (rule Cons.IH) auto
qed simp

lemma reserve_inv:
  assumes inv: "pool_inv g place s" and new: "distinct as" "\<And>a. a \<in> set as \<Longrightarrow> nextNode s a = None"
    and pc: "transit (nextNode s) (pool_pcs s t) = (\<lambda>xs. xs = [])" "\<not> popping (pool_pcs s t)"
  shows "pool_inv g (\<lambda>b. if b \<in> set as then Local t else place b) (ReserveNodes t as s)"
proof (cases "as = []")
  case True
  then show ?thesis using inv by (simp add: ReserveNodes_def)
next
  case False
  let ?s = "ReserveNodes t as s" and ?p = "\<lambda>b. if b \<in> set as then Local t else place b"
  let ?h = "link_nodes as (local_top s t) (nextNode s)"
  have st: "stack_ok g place s" and th: "thread_ok place s t (pool_pcs s t)" using pool_invD [OF inv] by simp_all
  have rs: "nextNode ?s = ?h" "local_top ?s = (local_top s)(t := Some (last as))" "g_top ?s = g_top s" "in_use ?s = in_use s"
    "local_count ?s = (local_count s)(t := local_count s t + int (length as))" "pool_pcs ?s = pool_pcs s" "top_changes ?s = top_changes s"
    using False by (simp_all add: ReserveNodes_def set_local_def)
  have pn: "place a = Nowhere" if "a \<in> set as" for a using st new(2) [OF that] by (simp add: stack_ok_def)
  obtain ls where ls: "seg (nextNode s) ls (local_top s t) None" "distinct ls" "set ls = {b. place b = Local t}"
    "local_count s t = int (length ls)" and tr: "{b. place b = Transit t} = {}" using th pc(1) by (auto simp: thread_ok_def)
  have gs: "set g = {b. place b = Global}" using st by (simp add: stack_ok_def)
  have hg: "seg ?h g v w = seg (nextNode s) g v w" for v w by (rule seg_cong) (use gs pn in \<open>auto intro!: link_nodes_other\<close>)
  have "seg ?h ls v w = seg (nextNode s) ls v w" for v w by (rule seg_cong) (use ls(3) pn in \<open>auto intro!: link_nodes_other\<close>)
  then have hl: "seg ?h ls (local_top s t) None" using ls(1) by simp
  have l0: "nextNode s b \<noteq> None" if "local_top s t = Some b" for b using ls(1) that by (cases ls) auto
  have nd: "no_dangling ?h" by (rule link_nodes_no_dangling) (use st l0 in \<open>simp_all add: stack_ok_def\<close>)
  show ?thesis
  proof (rule pool_inv_update [OF inv, where t = t and c' = "pool_pcs s t"])
    show "stack_ok g ?p ?s"
      unfolding stack_ok_def rs
    proof (intro conjI allI)
      show "set g = {b. ?p b = Global}" "set (in_use s) = {b. ?p b = User}" using st pn by (auto simp: stack_ok_def)
      show "?h b = None \<longleftrightarrow> ?p b = Nowhere" for b
        using st link_nodes_defined [of b as "local_top s t" "nextNode s"] link_nodes_other [of b as "local_top s t" "nextNode s"]
        by (cases "b \<in> set as") (simp_all add: stack_ok_def)
    qed (use st nd hg in \<open>simp_all add: stack_ok_def\<close>)
    have "seg ?h (rev as @ ls) (Some (last as)) None" using seg_link_nodes [OF new(1), of "local_top s t" "nextNode s"] hl False
      by (auto simp: seg_append)
    moreover have "distinct (rev as @ ls)" using new(1) ls(2,3) pn by auto
    moreover have "set (rev as @ ls) = {b. ?p b = Local t}" using ls(3) by auto
    moreover have "set [] = {b. ?p b = Transit t}" using tr by auto
    moreover have "no_shrink (pool_pcs s t)" using th by (simp add: thread_ok_def)
    moreover have "transit ?h (pool_pcs s t) []" using transit_cong [of "[]" ?h "nextNode s"] pc(1) by simp
    ultimately show "thread_ok ?p ?s t (pool_pcs s t)"
      by (intro thread_okI [where ls = "rev as @ ls" and xs = "[]"]) (simp_all add: rs pc(2) ls(4))
    have "nextNode s b \<noteq> None \<Longrightarrow> ?h b \<noteq> None" for b using new(2) link_nodes_other [of b as] by (cases "b \<in> set as") auto
    then show "seen g ?s (pool_pcs s t)" "\<And>b. nextNode s b \<noteq> None \<Longrightarrow> nextNode ?s b \<noteq> None"
      using pool_invD(3) [OF inv, of t] by (cases "pool_pcs s t"; auto simp: rs)+
  qed (use pn in \<open>auto simp: rs intro!: link_nodes_other\<close>)
qed

section \<open>Giving back\<close>

lemma free_local_inv:
  assumes inv: "pool_inv g place s" and pc: "pool_pcs s t = PIdle" and a: "a \<in> set (in_use s)"
  defines "s' \<equiv> (set_local t (Some a) (local_count s t + 1) (s\<lparr>in_use := remove1 a (in_use s)\<rparr>))
      \<lparr>nextNode := (nextNode s)(a \<mapsto> local_top s t), mUseCount := mUseCount s - 1\<rparr>"
  shows "nextNode s a \<noteq> None \<and> pool_inv g (place(a := Local t)) s'"
proof
  have st: "stack_ok g place s" and th: "thread_ok place s t PIdle" using pool_inv_at [OF inv pc] by simp_all
  have pa: "place a = User" using st a by (auto simp: stack_ok_def)
  then show "nextNode s a \<noteq> None" using st by (simp add: stack_ok_def)
  have s': "nextNode s' = (nextNode s)(a \<mapsto> local_top s t)" "local_top s' = (local_top s)(t := Some a)" "g_top s' = g_top s"
    "local_count s' = (local_count s)(t := local_count s t + 1)" "pool_pcs s' = pool_pcs s" "top_changes s' = top_changes s"
    "in_use s' = remove1 a (in_use s)" by (simp_all add: s'_def set_local_def)
  let ?h = "(nextNode s)(a \<mapsto> local_top s t)"
  obtain ls where ls: "seg (nextNode s) ls (local_top s t) None" "distinct ls" "set ls = {b. place b = Local t}"
    "local_count s t = int (length ls)" and tr: "{b. place b = Transit t} = {}" using th by (auto simp: thread_ok_def)
  have gs: "set g = {b. place b = Global}" using st by (simp add: stack_ok_def)
  have hg: "seg ?h g v w = seg (nextNode s) g v w" for v w by (rule seg_cong) (use gs pa in auto)
  have hl: "seg ?h ls v w = seg (nextNode s) ls v w" for v w by (rule seg_cong) (use ls(3) pa in auto)
  have l0: "nextNode s b \<noteq> None" if "local_top s t = Some b" for b using ls(1) that by (cases ls) auto
  have nd: "no_dangling ?h" by (rule no_dangling_upd) (use st l0 in \<open>simp_all add: stack_ok_def\<close>)
  show "pool_inv g (place(a := Local t)) s'"
  proof (rule pool_inv_update [OF inv, where t = t and c' = "pool_pcs s t"])
    show "stack_ok g (place(a := Local t)) s'"
      unfolding stack_ok_def s'
    proof (intro conjI allI)
      show "set g = {b. (place(a := Local t)) b = Global}" using gs pa by auto
      show "set (remove1 a (in_use s)) = {b. (place(a := Local t)) b = User}" using st by (auto simp: stack_ok_def)
      show "?h b = None \<longleftrightarrow> (place(a := Local t)) b = Nowhere" for b using st by (simp add: stack_ok_def)
    qed (use st nd hg in \<open>simp_all add: stack_ok_def\<close>)
    show "thread_ok (place(a := Local t)) s' t (pool_pcs s t)"
      by (rule thread_okI [where ls = "a # ls" and xs = "[]"]) (use ls tr hl pa in \<open>auto simp: s' pc\<close>)
  qed (use pa in \<open>auto simp: s' pc\<close>)
qed

lemma free_global_inv:
  assumes inv: "pool_inv g place s" and pc: "pool_pcs s t = PIdle" and a: "a \<in> set (in_use s)"
  shows "pool_inv g (place(a := Transit t)) (pool_at t (PLoad a) (s\<lparr>in_use := remove1 a (in_use s)\<rparr>))"
proof (rule pool_inv_update [OF inv, where t = t and c' = "PLoad a"])
  let ?s = "pool_at t (PLoad a) (s\<lparr>in_use := remove1 a (in_use s)\<rparr>)"
  have st: "stack_ok g place s" and th: "thread_ok place s t PIdle" using pool_inv_at [OF inv pc] by simp_all
  have pa: "place a = User" using st a by (auto simp: stack_ok_def)
  show "stack_ok g (place(a := Transit t)) ?s" using st pa by (auto simp: stack_ok_def)
  obtain ls where ls: "seg (nextNode s) ls (local_top s t) None" "distinct ls" "set ls = {b. place b = Local t}"
    "local_count s t = int (length ls)" and tr: "{b. place b = Transit t} = {}" using th by (auto simp: thread_ok_def)
  show "thread_ok (place(a := Transit t)) ?s t (PLoad a)"
    by (rule thread_okI [where ls = ls and xs = "[a]"]) (use ls tr pa in auto)
  show "((place(a := Transit t)) b = Local u \<longleftrightarrow> place b = Local u) \<and> ((place(a := Transit t)) b = Transit u \<longleftrightarrow> place b = Transit u)"
    if "u \<noteq> t" for u b using pa that by auto
qed simp_all

lemma PWrite_inv:
  assumes inv: "pool_inv g place s" and pc: "pool_pcs s t = PWrite a old"
  shows "nextNode s a \<noteq> None \<and> pool_inv g place (pool_at t (PCas a old) (s\<lparr>nextNode := (nextNode s)(a \<mapsto> fst old)\<rparr>))"
proof
  let ?s = "pool_at t (PCas a old) (s\<lparr>nextNode := (nextNode s)(a \<mapsto> fst old)\<rparr>)"
  let ?h = "(nextNode s)(a \<mapsto> fst old)"
  have st: "stack_ok g place s" and th: "thread_ok place s t (PWrite a old)" and se: "seen g s (PWrite a old)"
    using pool_inv_at [OF inv pc] by simp_all
  have tr: "{b. place b = Transit t} = {a}" using th by (auto simp: thread_ok_def)
  then have pa: "place a = Transit t" by auto
  then show al: "nextNode s a \<noteq> None" using st by (simp add: stack_ok_def)
  obtain ls where ls: "seg (nextNode s) ls (local_top s t) None" "distinct ls" "set ls = {b. place b = Local t}"
    "local_count s t = int (length ls)" using th by (auto simp: thread_ok_def)
  have gs: "set g = {b. place b = Global}" using st by (simp add: stack_ok_def)
  have hg: "seg ?h g v w = seg (nextNode s) g v w" for v w by (rule seg_cong) (use gs pa in auto)
  have hl: "seg ?h ls v w = seg (nextNode s) ls v w" for v w by (rule seg_cong) (use ls(3) pa in auto)
  have nd: "no_dangling ?h" by (rule no_dangling_upd) (use st se in \<open>simp_all add: stack_ok_def\<close>)
  show "pool_inv g place ?s"
  proof (rule pool_inv_update [OF inv, where t = t and c' = "PCas a old"])
    have "?h b = None \<longleftrightarrow> place b = Nowhere" for b using st pa by (simp add: stack_ok_def)
    then show "stack_ok g place ?s" using st nd hg by (simp add: stack_ok_def)
    show "thread_ok place ?s t (PCas a old)"
      by (rule thread_okI [where ls = ls and xs = "[a]"]) (use ls tr hl in auto)
  qed (use pa in auto)
qed

lemma PCas_inv:
  assumes inv: "pool_inv g place s" and pc: "pool_pcs s t = PCas a old" and top: "g_top s = old"
  shows "pool_inv (a # g) (place(a := Global)) (pool_at t PCount (s\<lparr>g_top := (Some a, snd old + 1), top_changes := top_changes s + 1\<rparr>))"
proof (rule pool_inv_update [OF inv, where t = t and c' = PCount])
  let ?s = "pool_at t PCount (s\<lparr>g_top := (Some a, snd old + 1), top_changes := top_changes s + 1\<rparr>)"
  have st: "stack_ok g place s" and th: "thread_ok place s t (PCas a old)" using pool_inv_at [OF inv pc] by simp_all
  have tr: "{b. place b = Transit t} = {a}" "nextNode s a = Some (fst old)" using th by (auto simp: thread_ok_def)
  then have pa: "place a = Transit t" by auto
  obtain ls where ls: "seg (nextNode s) ls (local_top s t) None" "distinct ls" "set ls = {b. place b = Local t}"
    "local_count s t = int (length ls)" using th by (auto simp: thread_ok_def)
  have gs: "set g = {b. place b = Global}" "a \<notin> set g" using st pa by (auto simp: stack_ok_def)
  show "stack_ok (a # g) (place(a := Global)) ?s"
    unfolding stack_ok_def
  proof (intro conjI allI)
    show "set (in_use ?s) = {b. (place(a := Global)) b = User}" using st pa by (auto simp: stack_ok_def)
    show "nextNode ?s b = None \<longleftrightarrow> (place(a := Global)) b = Nowhere" for b using st pa by (simp add: stack_ok_def)
  qed (use st tr(2) top gs in \<open>auto simp: stack_ok_def add.commute\<close>)
  have "set [] = {b. (place(a := Global)) b = Transit t}" using tr(1) by auto
  then show "thread_ok (place(a := Global)) ?s t PCount"
    by (intro thread_okI [where ls = ls and xs = "[]"]) (use ls pa in auto)
  show "((place(a := Global)) b = Local u \<longleftrightarrow> place b = Local u) \<and> ((place(a := Global)) b = Transit u \<longleftrightarrow> place b = Transit u)"
    if "u \<noteq> t" for u b using pa that by auto
qed simp_all

end
