(* ===== verification/Memory_Pool_Behaviour.thy ===== *)
theory Memory_Pool_Behaviour
  imports Memory_Pool_Safety
begin

text \<open>
  The object pool over whole runs: no node is handed out twice and none is lost; and what \<open>Shrink\<close> does to a
  thread that is inside \<open>PopFromGlobal\<close>.
\<close>

section \<open>Runs without Shrink\<close>

text \<open>What the callers and the machine have to keep: see the theory before.\<close>

definition lawful :: "nat \<Rightarrow> pool_choice \<Rightarrow> mpool \<Rightarrow> bool" where
  "lawful t ch s \<longleftrightarrow> ch \<noteq> CallShrink \<and>
     (case ch of CallFree a \<Rightarrow> pool_pcs s t = PIdle \<longrightarrow> a \<in> set (in_use s) | _ \<Rightarrow> True) \<and>
     (case pool_pcs s t of GCas k n a tag c tail m r \<Rightarrow> top_changes s < c + 65536 | _ \<Rightarrow> True)"

fun lawful_run :: "(nat \<times> pool_choice) list \<Rightarrow> mpool \<Rightarrow> bool" where
  "lawful_run [] s \<longleftrightarrow> True"
| "lawful_run ((t, ch) # sched) s \<longleftrightarrow> lawful t ch s \<and> (case pool_step t ch s of None \<Rightarrow> True | Some s1 \<Rightarrow> lawful_run sched s1)"

lemma pool_stepI:
  "pool_step t ch s = Some s' \<Longrightarrow> pool_inv g place s' \<Longrightarrow> \<exists>s' g' place'. pool_step t ch s = Some s' \<and> pool_inv g' place' s'"
  by blast

lemma pool_step_idle:
  assumes inv: "pool_inv g place s" and pc: "pool_pcs s t = PIdle" and law: "lawful t ch s"
  shows "\<exists>s' g' place'. pool_step t ch s = Some s' \<and> pool_inv g' place' s'"
proof (cases ch)
  case CallAlloc
  show ?thesis
  proof (cases "local_top s t")
    case None
    have "pool_inv g place (pool_at t (GAvail ForAlloc) s)"
      by (rule quiet_step [OF inv, where t = t and c' = "GAvail ForAlloc"]) (use pc None in simp_all)
    then show ?thesis by (rule pool_stepI [rotated]) (simp add: pool_step_def CallAlloc pc None)
  next
    case (Some a)
    obtain s' where s': "take_local t s = Some s'" "pool_inv g (place(a := User)) s'"
      using take_local_inv [OF inv _ Some] pc by auto
    show ?thesis by (rule pool_stepI [OF _ s'(2)]) (simp add: pool_step_def CallAlloc pc Some s'(1))
  qed
next
  case (CallFree a)
  then have a: "a \<in> set (in_use s)" using law pc by (simp add: lawful_def)
  show ?thesis
  proof (cases "local_count s t > MOVENODESIZE")
    case True
    show ?thesis by (rule pool_stepI [OF _ free_global_inv [OF inv pc a]]) (simp add: pool_step_def CallFree pc True)
  next
    case False
    obtain v where v: "nextNode s a = Some v" using free_local_inv [OF inv pc a] by auto
    show ?thesis by (rule pool_stepI [OF _ conjunct2 [OF free_local_inv [OF inv pc a]]]) (simp add: pool_step_def CallFree pc False v)
  qed
qed (use inv law pc in \<open>auto simp: lawful_def pool_step_def\<close>)

lemma pool_step_reserve:
  assumes inv: "pool_inv g place s" and pc: "pool_pcs s t = AReserve"
  shows "\<exists>s' g' place'. pool_step t ch s = Some s' \<and> pool_inv g' place' s'"
proof (cases "\<exists>as. ch = NewNodes as \<and> int (length as) = MOVENODESIZE \<and> distinct as \<and> list_all (\<lambda>a. nextNode s a = None) as")
  case True
  then obtain as where as: "ch = NewNodes as" "int (length as) = MOVENODESIZE" "distinct as" "list_all (\<lambda>a. nextNode s a = None) as" by blast
  have ne: "as \<noteq> []" using as(2) by (auto simp: MOVENODESIZE_def)
  have "pool_inv g (\<lambda>b. if b \<in> set as then Local t else place b) (ReserveNodes t as s)"
    by (rule reserve_inv [OF inv as(3)]) (use as(4) pc in \<open>auto simp: list_all_iff\<close>)
  moreover have "local_top (ReserveNodes t as s) t = Some (last as)" "pool_pcs (ReserveNodes t as s) = pool_pcs s"
    using ne by (simp_all add: ReserveNodes_def set_local_def)
  ultimately obtain s' where s': "take_local t (ReserveNodes t as s) = Some s'"
      "pool_inv g ((\<lambda>b. if b \<in> set as then Local t else place b)(last as := User)) s'"
    using take_local_inv [of g "\<lambda>b. if b \<in> set as then Local t else place b" "ReserveNodes t as s" t "last as"] pc by auto
  show ?thesis by (rule pool_stepI [OF _ s'(2)]) (use as s'(1) in \<open>simp add: pool_step_def pc\<close>)
next
  case False
  have "Alloc_step t ch AReserve s = Some s" using False by (cases ch) auto
  then have "pool_step t ch s = Some s" by (simp add: pool_step_def pc)
  with inv show ?thesis by blast
qed

theorem pool_step_inv:
  assumes inv: "pool_inv g place s" and law: "lawful t ch s"
  shows "\<exists>s' g' place'. pool_step t ch s = Some s' \<and> pool_inv g' place' s'"
proof (cases "pool_pcs s t")
  case PIdle
  then show ?thesis by (rule pool_step_idle [OF inv _ law])
next
  case AReserve
  then show ?thesis by (rule pool_step_reserve [OF inv])
next
  case (GAvail k)
  note at = pool_inv_at [OF inv GAvail]
  have k: "k = ForAlloc" and lt: "local_top s t = None" using at(2) by (auto simp: thread_ok_def)
  have "pool_inv g place (pop_none t ForAlloc s)" by (rule pop_none_inv [OF inv]) (simp add: GAvail fun_eq_iff)
  moreover have "pool_inv g place (pool_at t (GTop ForAlloc n) s)" for n
    by (rule quiet_step [OF inv, where t = t and c' = "GTop ForAlloc n"]) (use GAvail lt in simp_all)
  ultimately have "pool_inv g place (if availableCount s \<le> 0 then pop_none t k s
      else pool_at t (GTop k (nat (min (availableCount s) MOVENODESIZE))) s)" by (simp add: k)
  then show ?thesis by (rule pool_stepI [rotated]) (simp add: pool_step_def GAvail)
next
  case (GTop k n)
  have k: "k = ForAlloc" using pool_inv_at(2) [OF inv GTop] by (simp add: thread_ok_def)
  have "pool_inv g place (pop_loaded t ForAlloc n s)" by (rule pop_loaded_inv [OF inv]) (simp_all add: GTop fun_eq_iff)
  then show ?thesis by (rule pool_stepI [rotated]) (simp add: pool_step_def GTop k)
next
  case (GWalk k n a tag c)
  have k: "k = ForAlloc" using pool_inv_at(2) [OF inv GWalk] by (simp add: thread_ok_def)
  obtain s' where s': "PopFromGlobal_step t ch (GWalk ForAlloc n a tag c) s = Some s'" "pool_inv g place s'"
    using GWalk_inv [OF inv GWalk [unfolded k]] by blast
  show ?thesis by (rule pool_stepI [OF _ s'(2)]) (simp add: pool_step_def GWalk k s'(1) del: PopFromGlobal_step.simps)
next
  case (GCas k n a tag c tail m r)
  have k: "k = ForAlloc" using pool_inv_at(2) [OF inv GCas] by (simp add: thread_ok_def)
  note pc = GCas [unfolded k]
  show ?thesis
  proof (cases "g_top s = (Some a, tag) \<and> ch \<noteq> Spurious")
    case True
    obtain g' place' where "pool_inv g' place' (pool_at t (GFix ForAlloc a tail m) (s\<lparr>g_top := (r, tag + 1), top_changes := top_changes s + 1\<rparr>))"
      using GCas_inv [OF inv pc] True law pc by (auto simp: lawful_def)
    then show ?thesis by (rule pool_stepI [rotated]) (simp add: pool_step_def pc True)
  next
    case False
    have "pool_inv g place (pop_loaded t ForAlloc n s)" by (rule pop_loaded_inv [OF inv]) (simp_all add: pc fun_eq_iff)
    then show ?thesis by (rule pool_stepI [rotated]) (use False in \<open>auto simp: pool_step_def pc\<close>)
  qed
next
  case (GFix k a tail m)
  have k: "k = ForAlloc" using pool_inv_at(2) [OF inv GFix] by (simp add: thread_ok_def)
  obtain s' g' place' where s': "PopFromGlobal_step t ch (GFix ForAlloc a tail m) s = Some s'" "pool_inv g' place' s'"
    using GFix_inv [OF inv GFix [unfolded k]] by blast
  show ?thesis by (rule pool_stepI [OF _ s'(2)]) (simp add: pool_step_def GFix k s'(1) del: PopFromGlobal_step.simps)
next
  case (PLoad a)
  have "pool_inv g place (pool_at t (PWrite a (g_top s)) s)"
    by (rule quiet_step [OF inv, where t = t and c' = "PWrite a (g_top s)"]) (use PLoad top_defined [OF inv] in simp_all)
  then show ?thesis by (rule pool_stepI [rotated]) (simp add: pool_step_def PLoad)
next
  case (PWrite a old)
  obtain v where v: "nextNode s a = Some v" using PWrite_inv [OF inv PWrite] by auto
  show ?thesis by (rule pool_stepI [OF _ conjunct2 [OF PWrite_inv [OF inv PWrite]]]) (simp add: pool_step_def PWrite v)
next
  case (PCas a old)
  show ?thesis
  proof (cases "g_top s = old \<and> ch \<noteq> Spurious")
    case True
    then show ?thesis by (intro pool_stepI [OF _ PCas_inv [OF inv PCas]]) (simp_all add: pool_step_def PCas)
  next
    case False
    have "pool_inv g place (pool_at t (PWrite a (g_top s)) s)"
      by (rule quiet_step [OF inv, where t = t and c' = "PWrite a (g_top s)"]) (use PCas top_defined [OF inv] in simp_all)
    then show ?thesis by (rule pool_stepI [rotated]) (use False in \<open>auto simp: pool_step_def PCas\<close>)
  qed
next
  case PCount
  have "pool_inv g place (pool_at t PIdle (s\<lparr>availableCount := availableCount s + 1, mUseCount := mUseCount s - 1\<rparr>))"
    by (rule quiet_step [OF inv, where t = t and c' = PIdle]) (use PCount in simp_all)
  then show ?thesis by (rule pool_stepI [rotated]) (simp add: pool_step_def PCount)
next
  case (SDelete target deleted v)
  then show ?thesis using pool_inv_at(2) [OF inv SDelete] by (simp add: thread_ok_def)
qed

lemma pool_run_inv:
  "pool_inv g place s \<Longrightarrow> lawful_run sched s \<Longrightarrow> \<exists>s' g' place'. pool_run sched s = Some s' \<and> pool_inv g' place' s'"
proof (induction sched arbitrary: g place s)
  case (Cons x sched)
  obtain t ch where x: "x = (t, ch)" by fastforce
  then have law: "lawful t ch s" using Cons.prems(2) by simp
  obtain s1 g1 place1 where 1: "pool_step t ch s = Some s1" "pool_inv g1 place1 s1" using pool_step_inv [OF Cons.prems(1) law] by blast
  then have "lawful_run sched s1" using Cons.prems(2) x by simp
  from Cons.IH [OF 1(2) this] show ?case by (simp add: x 1(1))
qed auto

definition empty_pool :: "int \<Rightarrow> mpool" where
  "empty_pool n = \<lparr>nextNode = (\<lambda>a. None), g_top = (None, 0), availableCount = 0, local_top = (\<lambda>t. None), local_count = (\<lambda>t. 0),
     mUseCount = 0, mAllocCount = 0, initCount = n, pool_pcs = (\<lambda>t. PIdle), top_changes = 0, in_use = []\<rparr>"

lemma new_pool_inv:
  assumes "distinct as"
  shows "\<exists>place. pool_inv [] place (new_pool t as)"
proof -
  have "pool_inv [] (\<lambda>a. Nowhere) (empty_pool n)" for n
    by (simp add: pool_inv_def stack_ok_def thread_ok_def empty_pool_def no_dangling_def)
  from reserve_inv [OF this assms, of "int (length as)" t]
  show ?thesis by (auto simp: new_pool_def empty_pool_def fun_eq_iff)
qed


definition pool_demo :: "(nat \<times> pool_choice) list" where
  "pool_demo = [(0, CallAlloc), (0, CallAlloc), (1, CallAlloc), (0, CallFree 2), (0, CallAlloc), (1, Step)]"


section \<open>Shrink\<close>

text \<open>
  \<open>Shrink\<close> deletes nodes under a thread inside \<open>PopFromGlobal\<close>. In any consistent state with a surplus on the
  global stack, where one thread is about to load the top and another is idle: if the second one calls \<open>Shrink\<close>
  between the first one's load of the top and its walk, the walk reads a node that has been deleted.
\<close>
lemma shrink_deletes_walked_node:
  assumes "pool_inv g place s" and "pool_pcs s t = GTop k n" and "pool_pcs s u = PIdle" and "g_top s = (Some a, tag)"
    and "0 \<le> initCount s" and "initCount s < availableCount s"
  shows "pool_run [(t, Step), (u, CallShrink), (u, Step), (u, Step), (u, Step), (u, Step), (u, Step), (u, Step), (t, Step)] s = None"
proof -
  have tu: "t \<noteq> u" using assms(2,3) by auto
  have st: "stack_ok g place s" by (rule pool_invD(1) [OF assms(1)])
  have al: "nextNode s a \<noteq> None" using top_defined [OF assms(1)] assms(4) by simp
  have nd: "no_dangling (nextNode s)" using st by (simp add: stack_ok_def)
  let ?k = "ForShrink (availableCount s - initCount s) 0" and ?n = "nat (min (availableCount s) MOVENODESIZE)"
  let ?c = "top_changes s"
  obtain r m where w: "walk (nextNode s) (?n - 1) a 1 = Some (r, m)" "nextNode s r \<noteq> None" using walk_closed [OF nd al] by blast
  then obtain v where v: "nextNode s r = Some v" by auto
  define s1 where "s1 = pool_at t (GWalk k n a tag ?c) s"
  define s2 where "s2 = pool_at u (GAvail ?k) s1"
  define s3 where "s3 = pool_at u (GTop ?k ?n) s2"
  define s4 where "s4 = pool_at u (GWalk ?k ?n a tag ?c) s3"
  define s5 where "s5 = pool_at u (GCas ?k ?n a tag ?c r m v) s4"
  define s6 where "s6 = pool_at u (GFix ?k a r m) (s5\<lparr>g_top := (v, tag + 1), top_changes := top_changes s5 + 1\<rparr>)"
  define s7 where "s7 = pool_at u (SDelete (availableCount s - initCount s) 0 (Some a))
    (s6\<lparr>availableCount := availableCount s6 - int m, nextNode := (nextNode s6)(r \<mapsto> None)\<rparr>)"
  note ss = s1_def s2_def s3_def s4_def s5_def s6_def s7_def
  have "pool_step t Step s = Some s1" using assms(2,4) by (simp add: pool_step_def pop_loaded_def s1_def)
  moreover have "pool_step u CallShrink s1 = Some s2" using assms(3,5,6) tu by (simp add: pool_step_def s1_def s2_def pool_at_def)
  moreover have "pool_step u Step s2 = Some s3" using assms(5,6) by (simp add: pool_step_def s1_def s2_def s3_def)
  moreover have "pool_step u Step s3 = Some s4" using assms(4) by (simp add: pool_step_def pop_loaded_def s1_def s2_def s3_def s4_def)
  moreover have "pool_step u Step s4 = Some s5" using w(1) v by (simp add: pool_step_def s1_def s2_def s3_def s4_def s5_def)
  moreover have "pool_step u Step s5 = Some s6" using assms(4) by (simp add: pool_step_def ss)
  moreover have "pool_step u Step s6 = Some s7" using v by (simp add: pool_step_def ss)
  moreover obtain s8 where "pool_step u Step s7 = Some s8" "nextNode s8 a = None" "pool_pcs s8 t = GWalk k n a tag ?c"
  proof -
    obtain x where x: "nextNode s7 a = Some x" using al by (cases "a = r") (auto simp: ss)
    show thesis
      by (rule that [of "pool_at u (SDelete (availableCount s - initCount s) 1 x) (s7\<lparr>nextNode := (nextNode s7)(a := None)\<rparr>)"])
        (use tu x in \<open>simp_all add: pool_step_def ss\<close>)
  qed
  moreover have "pool_step t Step s8 = None" using calculation by (cases "n - 1") (simp_all add: pool_step_def)
  ultimately show ?thesis by simp
qed

text \<open>One node, returned to the global stack of a pool that keeps none.\<close>

definition shrink_demo :: mpool where
  "shrink_demo = \<lparr>nextNode = [0 \<mapsto> None], g_top = (Some 0, 1), availableCount = 1, local_top = (\<lambda>t. None), local_count = (\<lambda>t. 0),
     mUseCount = 0, mAllocCount = 1, initCount = 0, pool_pcs = (\<lambda>t. PIdle)(7 := GTop ForAlloc 1), top_changes = 1, in_use = []\<rparr>"

lemma shrink_deletes_walked_node_witness:
  "pool_run [(7, Step), (3, CallShrink), (3, Step), (3, Step), (3, Step), (3, Step), (3, Step), (3, Step), (7, Step)] shrink_demo = None"
proof -
  have "pool_inv [0] (\<lambda>a. if a = 0 then Global else Nowhere) shrink_demo"
    by (auto simp: pool_inv_def stack_ok_def thread_ok_def shrink_demo_def no_dangling_def)
  from shrink_deletes_walked_node [OF this, of 7 ForAlloc 1 3 0 1] show ?thesis by (simp add: shrink_demo_def)
qed

end
