(* ===== verification/Spec2Isabelle.thy ===== *)
theory Spec2Isabelle
  imports Chat_Wire Log_Behaviour Slist_Safety Lifecycle_Safety Server_Safety Send_Protocol Chat_Sessions Accept_Threads Login_Net Monitor_Behaviour Login_Behaviour Group_Behaviour DB_Writer Lock_Free_Behaviour Memory_Pool_Behaviour
begin

text \<open>
  A verification library for the servers and data structures of this repository. Paths are relative to
  src/projects/. The code is C++ for Windows; what it takes from the operating system, MySQL and Redis is a
  parameter of the definitions that use it.

  The parts and how they interact. login-chat-system/ has a login server, a chat server and a database server.
  The first two stand on an IOCP server core (NetLib/BaseServer.cpp): an accept thread fills a slot of the session
  table, worker threads take completions from the port, parse the bytes received into packets, hand them to the
  application's callbacks, and drain a send ring per session. The life of a session is a packed control word, an
  I/O count and two flags. The login server checks an account in MySQL and stores the client's key in Redis; the
  chat server accepts a login whose key Redis holds, and spreads messages over a grid of sectors. The database
  server turns queued messages into statements. Each server reports to a monitoring server through a LAN client. group-echo-server/ runs the same core with a thread per group of
  players and a mailbox each. Packets and players come from an object pool. lock-free-queue/ is a Michael-Scott queue with hazard pointers.

  Theories, in the order of the imports:
  Prelude: bytes, bounded memory access, sprintf_s and the machine arithmetic the others share.
  Encryption (NetLib/Encryption.h), Packets (NetLib/Packet.h): checksum, the two-key cipher and its inverse;
  the packet buffer with read and write positions and reference count.
  Queue_Interface: the contracts fifo_source and bounded_fifo, with the draining and filling loops proved once.
  Stream_Interface: the contracts stream_cutter and framed_stream of a function that cuts messages off a byte
  string, interpreted on the parsers of the server and of the LAN client.
  Ring_Buffer (NetLib/RingBuffer.h): the ring over its memory, and its interpretation as a bounded_fifo.
  Frame_Parser (the RECV branch of workerThread, SendPacket's encoding): the parse loop with fuel, the stream
  parser it implements, segmentation by TCP. Fuel: one step per byte and one more, proved enough for any ring.
  Session_Control (NetLib/Session.h): the control word as a 64-bit word, the compare-exchange loops, and their
  refinement of an abstract life of a slot under any interleaving.
  Base_Server, Server_Safety (NetLib/BaseServer.cpp, BaseServer.h): the session table, posting and completion of
  receives and sends, release; the invariant of the table, the conservation of packet references, stale ids.
  Send_Protocol: sendFlag, ring and completion as an interleaving of single accesses.
  Accept_Threads: both accept loops. Login_Net: the login server's older copy of the core where it differs.
  Chat_Packets, Chat_Sectors, Chat_Server (ChatServer/ChatingServer/): messages, sectors, players, the handlers;
  Chat_Safety, Chat_Behaviour, Chat_Sessions: invariant, delivery, containment, logins over runs, timeouts.
  Chat_Wire: the send loop of broadcast on the session table of Base_Server, from a chat message to the bytes queued
  for each client and what it parses from them.
  Lan_Client, Lan_Framing, Lan_Safety (NetLib/LanClient.cpp): the client with one session and an unencrypted
  length header; its wire format as a parser of byte strings, where the receive path leaves its buffer, the
  invariant of the session. Monitor_Client, Monitor_Behaviour (ChatServer/ChatingServer/MonitorClient.cpp): the
  monitoring thread's calls between the completions of the worker thread; the login comes first.
  Login_Server, Login_Behaviour (LoginServer/LoginServer/): job queues and content threads, login over the
  account query and Redis; invariant, independence of the threads, the hand-over to the chat server.
  Group_Server, Group_Safety, Group_Behaviour (group-echo-server/Server/GroupServer/): mailboxes, groups, the
  ownership of player objects between callbacks and groups, and the two races on it.
  DB_Server, DB_Behaviour, DB_Writer (login-chat-system/DBServer/): messages and statements, trades with and
  without a transaction, the update threads and the writer thread as step functions.
  Monitor_Log, Log_Behaviour (LoginServer/DBConnect/DBConnecter.cpp): the statistics of monitoring values and their
  flush into the table of the month; log_database states what the database promises of tables and rows.
  Lock_Free_Queue, Lock_Free_Safety, Lock_Free_Steps, Lock_Free_Behaviour (lock-free-queue/): one step per shared
  access for any number of threads, the invariant over chain, hazard pointers and ownership, and what follows.
  Memory_Pool, Memory_Pool_Safety, Memory_Pool_Behaviour (NetLib/MemoryPoolTLS.h): thread lists and the tagged
  global stack of the object pool on a heap of nextNode pointers, the conservation of nodes, and Shrink.
  Slist_Pool, Slist_Safety (memory-pool/LockFreeMemoryPool.h): the object pool over the interlocked list of
  Windows, node by node in one of three places, with exact counters and the destructor.
  Server_Lifecycle, Lifecycle_Safety (constructors, main, destructors of the chat and group servers): the main
  thread as a list of operations between the steps of the other threads; what is behind it determines what
  exists. The bound on the end of a server is shutdown_work, the steps left to the threads that were told to end.

  State and operations. Classes and structs are records with the members' names; a function of the code is a
  definition of its name, suffixed where several servers have one of that name; calls to the outside appear as a
  list of actions or callbacks in order. An access outside a buffer, an uninitialised read that matters, or a use
  of freed memory is the value None or the outcome Fault, and the safety theorems say that it does not occur.
  Machine integers that can wrap are words. Concurrent parts take one step per access to shared memory or per
  critical section; memory is sequentially consistent.

  Hypotheses. Where a property needs documented behaviour of the outside, a named definition states it
  (transactional for MySQL, env_ok and login_env_ok for the pools and clocks), with a witness that it can hold.

  Not modelled: logging, crash dumps, profiling, console output and the values reported to the monitoring server; the
  constructor of the login server; the multithread-chat-server and group-echo-server copies of NetLib, which repeat the code modelled from
  login-chat-system/ChatServer; third-party headers. Weak memory
  orders are not modelled: the code states acquire and release orders that a sequentially consistent model does
  not distinguish.
\<close>

end
